(* ===== verification/Prelude.thy ===== *)
theory Prelude
  imports "HOL-Library.Word" "HOL-Library.Signed_Division"
begin

unbundle bit_operations_syntax

text \<open>
  What every component of the development shares: the error values of the kernel
  (a failed \<open>ASSERT\<close> of \<open>lib/debug.h\<close>, an access outside an array, a thread that would
  block), the error-propagating sequencing of statements, the integer helpers of
  \<open>lib/utility.h\<close>, the memory layout of \<open>int\<close> and \<open>unsigned int\<close> on the 32-bit
  little-endian host the Makefile builds for (\<open>-m32\<close>, x86), and the list lemmas the
  component proofs rest on.
\<close>

named_theorems res_simps \<open>rewriting of error results\<close>
named_theorems codec_simps \<open>encoding and decoding of memory images\<close>

section \<open>Errors as values\<close>

datatype nachos_error =
    AssertFailed      \<comment> \<open>ASSERT or ASSERTNOTREACHED: message and Abort()\<close>
  | OutOfBounds       \<comment> \<open>an array access outside its bounds (undefined in C++)\<close>
  | NullPointer       \<comment> \<open>a NULL or never initialised pointer is dereferenced\<close>
  | WouldBlock        \<comment> \<open>P() on a zero semaphore with no other thread to run\<close>
  | HostTrap          \<comment> \<open>the host CPU traps: INT_MIN divided by -1\<close>
  | Diverges          \<comment> \<open>a loop that never ends\<close>
  | MachineHalted     \<comment> \<open>Interrupt::Halt, which does not return\<close>

type_synonym 'a res = "nachos_error + 'a"

text \<open>Sequencing: the rest of the body runs on the value, an error ends the call.\<close>

fun bind_res :: "'a res \<Rightarrow> ('a \<Rightarrow> 'b res) \<Rightarrow> 'b res" where
  "bind_res (Inl e) k = Inl e"
| "bind_res (Inr x) k = k x"

definition ASSERT :: "bool \<Rightarrow> 'a res \<Rightarrow> 'a res" where
  "ASSERT c k = (if c then k else Inl AssertFailed)"

definition CHECK_BOUNDS :: "bool \<Rightarrow> 'a res \<Rightarrow> 'a res" where
  "CHECK_BOUNDS c k = (if c then k else Inl OutOfBounds)"

lemma bind_res_cong [fundef_cong]:
  assumes "m = m'" and "\<And>x. m' = Inr x \<Longrightarrow> k x = k' x"
  shows "bind_res m k = bind_res m' k'"
  using assms by (cases m') auto

lemma ASSERT_cong [fundef_cong]:
  "c = c' \<Longrightarrow> (c' \<Longrightarrow> k = k') \<Longrightarrow> ASSERT c k = ASSERT c' k'"
  by (simp add: ASSERT_def)

lemma CHECK_BOUNDS_cong [fundef_cong]:
  "c = c' \<Longrightarrow> (c' \<Longrightarrow> k = k') \<Longrightarrow> CHECK_BOUNDS c k = CHECK_BOUNDS c' k'"
  by (simp add: CHECK_BOUNDS_def)

lemma ASSERT_simps [simp]: "ASSERT True k = k" "ASSERT False k = Inl AssertFailed"
  by (simp_all add: ASSERT_def)

lemma CHECK_BOUNDS_simps [simp]:
  "CHECK_BOUNDS True k = k" "CHECK_BOUNDS False k = Inl OutOfBounds"
  by (simp_all add: CHECK_BOUNDS_def)

lemma bind_res_eq_Inr [res_simps]:
  "bind_res m k = Inr y \<longleftrightarrow> (\<exists>x. m = Inr x \<and> k x = Inr y)"
  by (cases m) auto

lemma bind_res_eq_Inl [res_simps]:
  "bind_res m k = Inl e \<longleftrightarrow> m = Inl e \<or> (\<exists>x. m = Inr x \<and> k x = Inl e)"
  by (cases m) auto

lemma ASSERT_eq_Inr [res_simps]: "ASSERT c k = Inr y \<longleftrightarrow> c \<and> k = Inr y"
  by (simp add: ASSERT_def)

lemma CHECK_BOUNDS_eq_Inr [res_simps]: "CHECK_BOUNDS c k = Inr y \<longleftrightarrow> c \<and> k = Inr y"
  by (simp add: CHECK_BOUNDS_def)

lemma ASSERT_eq_Inl [res_simps]:
  "ASSERT c k = Inl e \<longleftrightarrow> (\<not> c \<and> e = AssertFailed) \<or> (c \<and> k = Inl e)"
  by (auto simp: ASSERT_def)

lemma bind_res_assoc: "bind_res (bind_res m f) g = bind_res m (\<lambda>x. bind_res (f x) g)"
  by (cases m) auto

section \<open>lib/utility.h\<close>

text \<open>
  C's \<open>/\<close> and \<open>%\<close> truncate towards zero: \<open>sdiv\<close> and \<open>smod\<close> of the library
  session, which agree with \<open>div\<close> and \<open>mod\<close> on non-negative operands.
\<close>

definition divRoundDown :: "int \<Rightarrow> int \<Rightarrow> int" where
  "divRoundDown n s = n sdiv s"

definition divRoundUp :: "int \<Rightarrow> int \<Rightarrow> int" where
  "divRoundUp n s = n sdiv s + (if n smod s > 0 then 1 else 0)"

lemma sdiv_nonneg: "0 \<le> n \<Longrightarrow> 0 < s \<Longrightarrow> n sdiv s = n div (s::int)"
  by (cases "n = 0") (simp_all add: signed_divide_int_def)

lemma smod_nonneg: "0 \<le> n \<Longrightarrow> 0 < s \<Longrightarrow> n smod s = n mod (s::int)"
  by (cases "n = 0") (simp_all add: signed_modulo_int_def)

lemma divRoundDown_nonneg: "0 \<le> n \<Longrightarrow> 0 < s \<Longrightarrow> divRoundDown n s = n div s"
  by (simp add: divRoundDown_def sdiv_nonneg)

lemma divRoundUp_nonneg:
  assumes n: "0 \<le> n" and s: "0 < s"
  shows "divRoundUp n s = (n + s - 1) div s"
proof -
  define q r where "q = n div s" and "r = n mod s"
  have nqr: "n = r + q * s" and r0: "0 \<le> r" and rs: "r < s"
    using s by (simp_all add: q_def r_def)
  have "(n + s - 1) div s = q + (if 0 < r then 1 else 0)"
  proof (cases "0 < r")
    case True
    have "(n + s - 1) div s = ((r - 1) + (q + 1) * s) div s" by (simp add: nqr algebra_simps)
    also have "\<dots> = (q + 1) + (r - 1) div s" using s by (intro div_mult_self1) simp
    finally show ?thesis using True rs by simp
  next
    case False
    with r0 have "(n + s - 1) div s = ((s - 1) + q * s) div s" by (simp add: nqr algebra_simps)
    also have "\<dots> = q + (s - 1) div s" using s by (intro div_mult_self1) simp
    finally show ?thesis using False s by simp
  qed
  then show ?thesis
    using n s by (simp add: divRoundUp_def sdiv_nonneg smod_nonneg q_def r_def)
qed

section \<open>Memory images\<close>

text \<open>
  \<open>char\<close> is a byte; \<open>unsigned int\<close> is a 32-bit word stored least significant byte
  first; \<open>int\<close> is the same word read in two's complement.
\<close>

type_synonym byte = "8 word"
type_synonym u32 = "32 word"

definition word_to_bytes :: "u32 \<Rightarrow> byte list" where
  "word_to_bytes w =
     [ucast w, ucast (drop_bit 8 w), ucast (drop_bit 16 w), ucast (drop_bit 24 w)]"

definition bytes_to_word :: "byte list \<Rightarrow> u32" where
  "bytes_to_word bs =
     ucast (bs ! 0) OR push_bit 8 (ucast (bs ! 1)) OR push_bit 16 (ucast (bs ! 2))
       OR push_bit 24 (ucast (bs ! 3))"

definition in_int :: "int \<Rightarrow> bool" where
  "in_int i \<longleftrightarrow> - (2 ^ 31) \<le> i \<and> i < 2 ^ 31"

definition int_to_bytes :: "int \<Rightarrow> byte list" where
  "int_to_bytes i = word_to_bytes (word_of_int i)"

definition bytes_to_int :: "byte list \<Rightarrow> int" where
  "bytes_to_int bs = sint (bytes_to_word bs)"

definition words_to_bytes :: "u32 list \<Rightarrow> byte list" where
  "words_to_bytes ws = concat (map word_to_bytes ws)"

fun bytes_to_words :: "byte list \<Rightarrow> u32 list" where
  "bytes_to_words (a # b # c # d # bs) = bytes_to_word [a, b, c, d] # bytes_to_words bs"
| "bytes_to_words _ = []"

definition ints_to_bytes :: "int list \<Rightarrow> byte list" where
  "ints_to_bytes is = words_to_bytes (map word_of_int is)"

definition bytes_to_ints :: "byte list \<Rightarrow> int list" where
  "bytes_to_ints bs = map sint (bytes_to_words bs)"

lemma length_word_to_bytes [simp]: "length (word_to_bytes w) = 4"
  by (simp add: word_to_bytes_def)

lemma length_int_to_bytes [simp]: "length (int_to_bytes i) = 4"
  by (simp add: int_to_bytes_def)

lemma length_words_to_bytes [simp]: "length (words_to_bytes ws) = 4 * length ws"
  by (induction ws) (simp_all add: words_to_bytes_def)

lemma length_ints_to_bytes [simp]: "length (ints_to_bytes is) = 4 * length is"
  by (simp add: ints_to_bytes_def)

lemma length_bytes_to_words [simp]: "length (bytes_to_words bs) = length bs div 4"
  by (induction bs rule: bytes_to_words.induct) simp_all

lemma length_bytes_to_ints [simp]: "length (bytes_to_ints bs) = length bs div 4"
  by (simp add: bytes_to_ints_def)

lemma bytes_to_word_to_bytes [codec_simps]: "bytes_to_word (word_to_bytes w) = w"
proof (rule bit_word_eqI)
  fix n assume "n < LENGTH(32)"
  then have "n < 8 \<or> (8 \<le> n \<and> n < 16) \<or> (16 \<le> n \<and> n < 24) \<or> (24 \<le> n \<and> n < 32)" by auto
  then show "bit (bytes_to_word (word_to_bytes w)) n = bit w n"
    by (elim disjE) (auto simp: bytes_to_word_def word_to_bytes_def bit_simps)
qed

lemma word_to_bytes_to_word:
  "word_to_bytes (bytes_to_word [a, b, c, d]) = [a, b, c, d]"
proof -
  let ?w = "bytes_to_word [a, b, c, d]"
  have "ucast ?w = a" "ucast (drop_bit 8 ?w) = b" "ucast (drop_bit 16 ?w) = c"
    "ucast (drop_bit 24 ?w) = d"
    by (rule bit_word_eqI; auto simp: bytes_to_word_def bit_simps dest: bit_imp_le_length)+
  then show ?thesis by (simp add: word_to_bytes_def)
qed

lemma bytes_to_words_Cons_word:
  "bytes_to_words (word_to_bytes w @ bs) = w # bytes_to_words bs"
  using bytes_to_word_to_bytes [of w] by (simp add: word_to_bytes_def)

lemma bytes_to_words_to_bytes_append:
  "bytes_to_words (words_to_bytes ws @ bs) = ws @ bytes_to_words bs"
  by (induction ws) (simp_all add: words_to_bytes_def bytes_to_words_Cons_word)

lemma bytes_to_words_to_bytes [codec_simps]: "bytes_to_words (words_to_bytes ws) = ws"
  using bytes_to_words_to_bytes_append [of ws "[]"] by simp

lemma words_to_bytes_to_words [codec_simps]:
  "4 dvd length bs \<Longrightarrow> words_to_bytes (bytes_to_words bs) = bs"
proof (induction bs rule: bytes_to_words.induct)
  case (1 a b c d bs)
  then have "4 dvd length bs" by simp presburger
  with 1 show ?case by (simp add: words_to_bytes_def word_to_bytes_to_word)
qed (simp_all add: words_to_bytes_def, presburger+)

lemma sint_word_of_int: "in_int i \<Longrightarrow> sint (word_of_int i :: u32) = i"
  by (simp add: in_int_def int_word_sint)

lemma sint_small: "uint x < 2 ^ 31 \<Longrightarrow> sint x = uint x" for x :: u32
  using sint_word_of_int [of "uint x"] order_trans [OF _ uint_ge_0 [of x], of "- (2 ^ 31)"] by (simp add: in_int_def)

lemma in_int_sint [simp]: "in_int (sint (w :: u32))"
  using sint_greater_eq [of w] sint_less [of w] by (simp add: in_int_def)

lemma bytes_to_int_to_bytes [codec_simps]: "in_int i \<Longrightarrow> bytes_to_int (int_to_bytes i) = i"
  by (simp add: bytes_to_int_def int_to_bytes_def codec_simps sint_word_of_int)

lemma bytes_to_ints_to_bytes [codec_simps]:
  "\<forall>i\<in>set is. in_int i \<Longrightarrow> bytes_to_ints (ints_to_bytes is) = is"
  by (simp add: bytes_to_ints_def ints_to_bytes_def codec_simps sint_word_of_int map_idI)

lemma ints_to_bytes_to_ints [codec_simps]:
  "4 dvd length bs \<Longrightarrow> ints_to_bytes (bytes_to_ints bs) = bs"
  by (simp add: bytes_to_ints_def ints_to_bytes_def codec_simps comp_def)

lemma bytes_to_ints_in_int: "i \<in> set (bytes_to_ints bs) \<Longrightarrow> in_int i"
  by (auto simp: bytes_to_ints_def)

section \<open>Copying into a buffer\<close>

text \<open>\<open>bcopy\<close> into the buffer \<open>xs\<close> at offset \<open>off\<close>.\<close>

definition overwrite :: "'a list \<Rightarrow> nat \<Rightarrow> 'a list \<Rightarrow> 'a list" where
  "overwrite xs off ys = take off xs @ ys @ drop (off + length ys) xs"

lemma length_overwrite [simp]: "off + length ys \<le> length xs \<Longrightarrow> length (overwrite xs off ys) = length xs"
  by (simp add: overwrite_def)

lemma overwrite_Nil [simp]: "overwrite xs off [] = xs"
  by (simp add: overwrite_def)

lemma nth_overwrite:
  "off + length ys \<le> length xs \<Longrightarrow> j < length xs \<Longrightarrow> overwrite xs off ys ! j
    = (if off \<le> j \<and> j < off + length ys then ys ! (j - off) else xs ! j)"
  by (auto simp: overwrite_def nth_append min_def)

end
