(* ===== verification/Bitmap.thy ===== *)
theory Bitmap
  imports Prelude
begin

unbundle bit_operations_syntax

text \<open>
  \<open>lib/bitmap.h\<close> and \<open>lib/bitmap.cc\<close>: an array of bits kept in an array of 32-bit
  words, used as the allocator of disk sectors and of physical pages. The operations
  carry the ASSERTs of the source as error results. The locale \<open>bit_allocator\<close> is the
  contract the file system relies on; it is interpreted here on the operations.
\<close>

section \<open>The class Bitmap\<close>

definition BitsInByte :: int where "BitsInByte = 8"
definition BitsInWord :: int where "BitsInWord = 4 * BitsInByte"

record Bitmap =
  numBits :: int
  numWords :: int
  map_words :: "u32 list"

definition bit_mask :: "int \<Rightarrow> u32" where
  "bit_mask which = push_bit (nat (which smod BitsInWord)) 1"

definition word_index :: "int \<Rightarrow> nat" where
  "word_index which = nat (which sdiv BitsInWord)"

definition Test :: "Bitmap \<Rightarrow> int \<Rightarrow> bool res" where
  "Test b which =
     ASSERT (which \<ge> 0 \<and> which < numBits b)
       (if map_words b ! word_index which AND bit_mask which \<noteq> 0 then Inr True else Inr False)"

definition Mark :: "Bitmap \<Rightarrow> int \<Rightarrow> Bitmap res" where
  "Mark b which =
     ASSERT (which \<ge> 0 \<and> which < numBits b)
       (let i = word_index which;
            b' = b\<lparr>map_words := (map_words b)[i := map_words b ! i OR bit_mask which]\<rparr>
        in bind_res (Test b' which) (\<lambda>t. ASSERT t (Inr b')))"

definition Clear :: "Bitmap \<Rightarrow> int \<Rightarrow> Bitmap res" where
  "Clear b which =
     ASSERT (which \<ge> 0 \<and> which < numBits b)
       (let i = word_index which;
            b' = b\<lparr>map_words := (map_words b)[i := map_words b ! i AND NOT (bit_mask which)]\<rparr>
        in bind_res (Test b' which) (\<lambda>t. ASSERT (\<not> t) (Inr b')))"

text \<open>\<open>for (i = from; i < numBits; i++) op(i)\<close>, the loop of the constructor and of SelfTest.\<close>

function for_bits :: "(Bitmap \<Rightarrow> int \<Rightarrow> Bitmap res) \<Rightarrow> Bitmap \<Rightarrow> int \<Rightarrow> int \<Rightarrow> Bitmap res" where
  "for_bits f b i n =
     (if i < n then bind_res (f b i) (\<lambda>b'. for_bits f b' (i + 1) n) else Inr b)"
  by pat_completeness auto
termination by (relation "measure (\<lambda>(f, b, i, n). nat (n - i))") auto

declare for_bits.simps [simp del]

definition Bitmap_new :: "int \<Rightarrow> Bitmap res" where
  "Bitmap_new numItems =
     ASSERT (numItems > 0)
       (let nw = divRoundUp numItems BitsInWord
        in for_bits Clear
             \<lparr>numBits = numItems, numWords = nw, map_words = replicate (nat nw) 0\<rparr> 0 numItems)"

text \<open>The search loop of \<open>FindAndSet\<close> from bit \<open>i\<close> on.\<close>

function FindAndSet_from :: "Bitmap \<Rightarrow> int \<Rightarrow> (int \<times> Bitmap) res" where
  "FindAndSet_from b i =
     (if i < numBits b then
        bind_res (Test b i) (\<lambda>t.
          if \<not> t then bind_res (Mark b i) (\<lambda>b'. Inr (i, b')) else FindAndSet_from b (i + 1))
      else Inr (-1, b))"
  by pat_completeness auto
termination by (relation "measure (\<lambda>(b, i). nat (numBits b - i))") auto

declare FindAndSet_from.simps [simp del]

definition FindAndSet :: "Bitmap \<Rightarrow> (int \<times> Bitmap) res" where
  "FindAndSet b = FindAndSet_from b 0"

function NumClear_from :: "Bitmap \<Rightarrow> int \<Rightarrow> int \<Rightarrow> int res" where
  "NumClear_from b i count =
     (if i < numBits b then
        bind_res (Test b i) (\<lambda>t. NumClear_from b (i + 1) (if \<not> t then count + 1 else count))
      else Inr count)"
  by pat_completeness auto
termination by (relation "measure (\<lambda>(b, i, c). nat (numBits b - i))") auto

declare NumClear_from.simps [simp del]

definition NumClear :: "Bitmap \<Rightarrow> int res" where
  "NumClear b = NumClear_from b 0 0"

text \<open>\<open>Print\<close>: the numbers of the set bits, in the order they are printed.\<close>

function Print_from :: "Bitmap \<Rightarrow> int \<Rightarrow> int list res" where
  "Print_from b i =
     (if i < numBits b then
        bind_res (Test b i) (\<lambda>t. bind_res (Print_from b (i + 1)) (\<lambda>out.
          Inr (if t then i # out else out)))
      else Inr [])"
  by pat_completeness auto
termination by (relation "measure (\<lambda>(b, i). nat (numBits b - i))") auto

declare Print_from.simps [simp del]

definition Bitmap_Print :: "Bitmap \<Rightarrow> int list res" where
  "Bitmap_Print b = Print_from b 0"

definition Bitmap_SelfTest :: "Bitmap \<Rightarrow> Bitmap res" where
  "Bitmap_SelfTest b =
     ASSERT (numBits b \<ge> BitsInWord) (bind_res (NumClear b) (\<lambda>c.
     ASSERT (c = numBits b) (bind_res (FindAndSet b) (\<lambda>(i, b).
     ASSERT (i = 0) (bind_res (Mark b 31) (\<lambda>b.
       bind_res (Test b 0) (\<lambda>t0. bind_res (Test b 31) (\<lambda>t31.
     ASSERT (t0 \<and> t31) (bind_res (FindAndSet b) (\<lambda>(i, b).
     ASSERT (i = 1) (bind_res (Clear b 0) (\<lambda>b. bind_res (Clear b 1) (\<lambda>b.
       bind_res (Clear b 31) (\<lambda>b. bind_res (for_bits Mark b 0 (numBits b)) (\<lambda>b.
       bind_res (FindAndSet b) (\<lambda>(i, b).
     ASSERT (i = -1) (for_bits Clear b 0 (numBits b))))))))))))))))))"

section \<open>The abstraction: the set of marked bits\<close>

definition wf_bitmap :: "Bitmap \<Rightarrow> bool" where
  "wf_bitmap b \<longleftrightarrow> 0 < numBits b \<and> numWords b = divRoundUp (numBits b) BitsInWord
     \<and> length (map_words b) = nat (numWords b)"

definition bit_at :: "Bitmap \<Rightarrow> int \<Rightarrow> bool" where
  "bit_at b i \<longleftrightarrow> bit (map_words b ! nat (i div 32)) (nat (i mod 32))"

definition marked :: "Bitmap \<Rightarrow> int set" where
  "marked b = {i. 0 \<le> i \<and> i < numBits b \<and> bit_at b i}"

definition free_bits :: "Bitmap \<Rightarrow> int set" where
  "free_bits b = {0..<numBits b} - marked b"

lemma word_index_eq: "0 \<le> i \<Longrightarrow> word_index i = nat (i div 32)"
  by (simp add: word_index_def BitsInWord_def BitsInByte_def sdiv_nonneg)

lemma bit_bit_mask: "0 \<le> i \<Longrightarrow> bit (bit_mask i) n \<longleftrightarrow> n = nat (i mod 32)"
  by (auto simp: bit_mask_def BitsInWord_def BitsInByte_def smod_nonneg bit_simps nat_less_iff)

lemma and_bit_mask: "0 \<le> i \<Longrightarrow> (w :: u32) AND bit_mask i \<noteq> 0 \<longleftrightarrow> bit w (nat (i mod 32))"
  by (auto simp: bit_eq_iff [of _ "0 :: u32"] bit_and_iff bit_bit_mask)

lemma word_index_less:
  assumes "wf_bitmap b" and "0 \<le> i" and "i < numBits b"
  shows "word_index i < length (map_words b)"
proof -
  have "i div 32 < (numBits b + 31) div 32" "0 < (numBits b + 31) div 32"
    using assms(2,3) by linarith+
  then show ?thesis
    using assms
    by (simp add: wf_bitmap_def word_index_eq divRoundUp_nonneg BitsInWord_def BitsInByte_def
        add.commute)
qed

lemma Test_eq: "0 \<le> i \<Longrightarrow> i < numBits b \<Longrightarrow> Test b i = Inr (i \<in> marked b)"
  by (simp add: Test_def word_index_eq marked_def bit_at_def) (metis and_bit_mask)

text \<open>One step of \<open>Mark\<close> and \<open>Clear\<close>, without the ASSERTs, which hold in range.\<close>

definition set_bit_at :: "Bitmap \<Rightarrow> int \<Rightarrow> Bitmap" where
  "set_bit_at b i = b\<lparr>map_words := (map_words b)[word_index i :=
     map_words b ! word_index i OR bit_mask i]\<rparr>"

definition clear_bit_at :: "Bitmap \<Rightarrow> int \<Rightarrow> Bitmap" where
  "clear_bit_at b i = b\<lparr>map_words := (map_words b)[word_index i :=
     map_words b ! word_index i AND NOT (bit_mask i)]\<rparr>"

lemma set_bit_at_wf [simp]:
  "wf_bitmap (set_bit_at b i) = wf_bitmap b" "numBits (set_bit_at b i) = numBits b"
  "wf_bitmap (clear_bit_at b i) = wf_bitmap b" "numBits (clear_bit_at b i) = numBits b"
  by (simp_all add: set_bit_at_def clear_bit_at_def wf_bitmap_def)

lemma div_mod32_inj:
  assumes "0 \<le> i" "0 \<le> (j::int)"
    and "nat (i div 32) = nat (j div 32)" "nat (i mod 32) = nat (j mod 32)"
  shows "i = j"
proof -
  have "i div 32 = j div 32" "i mod 32 = j mod 32"
    using assms by (simp_all add: eq_nat_nat_iff pos_imp_zdiv_nonneg_iff)
  then show ?thesis by (metis div_mult_mod_eq)
qed

lemma bit_at_set:
  assumes "wf_bitmap b" "0 \<le> i" "i < numBits b" "0 \<le> j"
  shows "bit_at (set_bit_at b i) j \<longleftrightarrow> j = i \<or> bit_at b j"
    and "bit_at (clear_bit_at b i) j \<longleftrightarrow> j \<noteq> i \<and> bit_at b j"
proof -
  note upd = set_bit_at_def clear_bit_at_def bit_at_def nth_list_update
  have "(bit_at (set_bit_at b i) j \<longleftrightarrow> j = i \<or> bit_at b j) \<and>
        (bit_at (clear_bit_at b i) j \<longleftrightarrow> j \<noteq> i \<and> bit_at b j)"
  proof (cases "nat (j div 32) = word_index i")
    case True
    with assms have "nat (j mod 32) = nat (i mod 32) \<longleftrightarrow> j = i"
      using div_mod32_inj [of j i] by (auto simp: word_index_eq)
    with True show ?thesis
      using word_index_less [OF assms(1-3)] assms(2)
      by (auto simp: upd bit_or_iff bit_and_iff bit_not_iff bit_bit_mask nat_less_iff)
  next
    case False
    with assms(2) have "j \<noteq> i" by (auto simp: word_index_eq)
    with False show ?thesis using word_index_less [OF assms(1-3)] by (simp add: upd)
  qed
  then show "bit_at (set_bit_at b i) j \<longleftrightarrow> j = i \<or> bit_at b j"
    and "bit_at (clear_bit_at b i) j \<longleftrightarrow> j \<noteq> i \<and> bit_at b j" by auto
qed

lemma marked_set_bit_at [simp]:
  assumes "wf_bitmap b" "0 \<le> i" "i < numBits b"
  shows "marked (set_bit_at b i) = insert i (marked b)"
    and "marked (clear_bit_at b i) = marked b - {i}"
  using bit_at_set [OF assms] assms by (auto simp: marked_def)

lemma Mark_eq:
  assumes "wf_bitmap b" "0 \<le> i" "i < numBits b"
  shows "Mark b i = Inr (set_bit_at b i)"
  using assms Test_eq [of i "set_bit_at b i"]
  by (simp add: Mark_def Let_def flip: set_bit_at_def)

lemma Clear_eq:
  assumes "wf_bitmap b" "0 \<le> i" "i < numBits b"
  shows "Clear b i = Inr (clear_bit_at b i)"
  using assms Test_eq [of i "clear_bit_at b i"]
  by (simp add: Clear_def Let_def flip: clear_bit_at_def)

lemma Test_range: "\<not> (0 \<le> i \<and> i < numBits b) \<Longrightarrow> Test b i = Inl AssertFailed"
  by (auto simp: Test_def ASSERT_def)

lemma free_bits_set_bit_at [simp]:
  assumes "wf_bitmap b" "0 \<le> i" "i < numBits b"
  shows "free_bits (set_bit_at b i) = free_bits b - {i}"
    and "free_bits (clear_bit_at b i) = insert i (free_bits b)"
  using assms by (auto simp: free_bits_def)

lemma finite_free_bits [simp]: "finite (free_bits b)"
  by (simp add: free_bits_def)

section \<open>The loops\<close>

definition free_from :: "Bitmap \<Rightarrow> int \<Rightarrow> int set" where
  "free_from b i = {j \<in> free_bits b. i \<le> j}"

lemma free_from_step:
  "i < numBits b \<Longrightarrow> 0 \<le> i \<Longrightarrow>
    free_from b i = (if i \<in> marked b then free_from b (i + 1) else insert i (free_from b (i + 1)))"
proof -
  assume "i < numBits b" "0 \<le> i"
  moreover have "free_from b i = {j \<in> free_bits b. j = i \<or> i + 1 \<le> j}"
    by (auto simp: free_from_def)
  ultimately show ?thesis by (auto simp: free_from_def free_bits_def)
qed

lemma free_from_end: "\<not> i < numBits b \<Longrightarrow> free_from b i = {}"
  by (auto simp: free_from_def free_bits_def)

lemma free_from_0: "free_from b 0 = free_bits b"
  by (auto simp: free_from_def free_bits_def)

lemma finite_free_from [simp]: "finite (free_from b i)"
  by (simp add: free_from_def)

lemma Min_free_from_step:
  "Min (insert i (free_from b (i + 1))) = i"
  by (rule Min_eqI) (auto simp: free_from_def)

lemma FindAndSet_from_eq:
  assumes "wf_bitmap b" "0 \<le> i"
  shows "FindAndSet_from b i =
     (if free_from b i = {} then Inr (-1, b)
      else Inr (Min (free_from b i), set_bit_at b (Min (free_from b i))))"
  using assms
proof (induction b i rule: FindAndSet_from.induct)
  case (1 b i)
  show ?case
  proof (cases "i < numBits b")
    case True
    with 1 show ?thesis
      by (simp add: FindAndSet_from.simps [of b i] Test_eq Mark_eq free_from_step
          Min_free_from_step)
  next
    case False
    then show ?thesis by (simp add: FindAndSet_from.simps [of b i] free_from_end)
  qed
qed

lemma FindAndSet_eq:
  "wf_bitmap b \<Longrightarrow> FindAndSet b =
     (if free_bits b = {} then Inr (-1, b)
      else Inr (Min (free_bits b), set_bit_at b (Min (free_bits b))))"
  by (simp add: FindAndSet_def FindAndSet_from_eq free_from_0)

lemma NumClear_from_eq:
  "0 \<le> i \<Longrightarrow> NumClear_from b i c = Inr (c + int (card (free_from b i)))"
proof (induction b i c rule: NumClear_from.induct)
  case (1 b i c)
  have fresh: "i \<notin> free_from b (i + 1)" by (auto simp: free_from_def)
  show ?case
  proof (cases "i < numBits b")
    case True
    with 1 fresh show ?thesis
      by (simp add: NumClear_from.simps [of b i c] Test_eq free_from_step)
  next
    case False
    then show ?thesis by (simp add: NumClear_from.simps [of b i c] free_from_end)
  qed
qed

lemma NumClear_eq: "NumClear b = Inr (int (card (free_bits b)))"
  by (simp add: NumClear_def NumClear_from_eq free_from_0)

lemma for_bits_Mark:
  assumes "wf_bitmap b" "0 \<le> i" "n \<le> numBits b"
  shows "\<exists>b'. for_bits Mark b i n = Inr b' \<and> wf_bitmap b' \<and> numBits b' = numBits b
    \<and> marked b' = marked b \<union> {i..<n}"
  using assms
proof (induction "nat (n - i)" arbitrary: b i)
  case 0
  then show ?case by (simp add: for_bits.simps)
next
  case (Suc k)
  then have "i < n" "i < numBits b" "k = nat (n - (i + 1))" by auto
  with Suc.prems Suc.hyps(1) [of "i + 1" "set_bit_at b i"] Suc.hyps(2)
  obtain b' where b': "for_bits Mark (set_bit_at b i) (i + 1) n = Inr b'" "wf_bitmap b'"
    "numBits b' = numBits b" "marked b' = insert i (marked b) \<union> {i + 1..<n}" by auto
  moreover have "insert i (marked b) \<union> {i + 1..<n} = marked b \<union> {i..<n}"
    using \<open>i < n\<close> by auto
  ultimately show ?case
    using \<open>i < n\<close> \<open>i < numBits b\<close> Suc.prems by (simp add: for_bits.simps [of Mark b] Mark_eq)
qed

lemma for_bits_Clear:
  assumes "wf_bitmap b" "0 \<le> i" "n \<le> numBits b"
  shows "\<exists>b'. for_bits Clear b i n = Inr b' \<and> wf_bitmap b' \<and> numBits b' = numBits b
    \<and> marked b' = marked b - {i..<n}"
  using assms
proof (induction "nat (n - i)" arbitrary: b i)
  case 0
  then show ?case by (simp add: for_bits.simps)
next
  case (Suc k)
  then have "i < n" "i < numBits b" "k = nat (n - (i + 1))" by auto
  with Suc.prems Suc.hyps(1) [of "i + 1" "clear_bit_at b i"] Suc.hyps(2)
  obtain b' where b': "for_bits Clear (clear_bit_at b i) (i + 1) n = Inr b'" "wf_bitmap b'"
    "numBits b' = numBits b" "marked b' = (marked b - {i}) - {i + 1..<n}" by auto
  moreover have "(marked b - {i}) - {i + 1..<n} = marked b - {i..<n}"
    using \<open>i < n\<close> by auto
  ultimately show ?case
    using \<open>i < n\<close> \<open>i < numBits b\<close> Suc.prems by (simp add: for_bits.simps [of Clear b] Clear_eq)
qed

lemma Bitmap_new_eq:
  assumes "0 < n"
  obtains b where "Bitmap_new n = Inr b" "wf_bitmap b" "numBits b = n" "marked b = {}"
proof -
  let ?nw = "divRoundUp n BitsInWord"
  let ?b = "\<lparr>numBits = n, numWords = ?nw, map_words = replicate (nat ?nw) 0\<rparr>"
  have wf: "wf_bitmap ?b" using assms by (simp add: wf_bitmap_def)
  have "bit_at ?b i = False" if "0 \<le> i" "i < n" for i
    using word_index_less [OF wf, of i] that by (simp add: bit_at_def word_index_eq)
  then have "marked ?b = {}" by (auto simp: marked_def)
  with for_bits_Clear [OF wf, of 0 n] assms that show ?thesis
    by (auto simp: Bitmap_new_def Let_def)
qed

lemma Bitmap_new_neg: "n \<le> 0 \<Longrightarrow> Bitmap_new n = Inl AssertFailed"
  by (simp add: Bitmap_new_def ASSERT_def)

section \<open>The allocator contract\<close>

text \<open>
  What the file system (sectors) and the pager (page frames) rely on. \<open>claim_n\<close> is the
  client's pattern: claim bits one after the other.
\<close>

fun claim_n :: "('b \<Rightarrow> (int \<times> 'b) res) \<Rightarrow> nat \<Rightarrow> 'b \<Rightarrow> (int list \<times> 'b) res" where
  "claim_n f 0 b = Inr ([], b)"
| "claim_n f (Suc n) b =
     bind_res (f b) (\<lambda>(i, b). bind_res (claim_n f n b) (\<lambda>(js, b). Inr (i # js, b)))"

fun release_all :: "('b \<Rightarrow> int \<Rightarrow> 'b res) \<Rightarrow> int list \<Rightarrow> 'b \<Rightarrow> 'b res" where
  "release_all g [] b = Inr b"
| "release_all g (i # js) b = bind_res (g b i) (release_all g js)"

locale bit_allocator =
  fixes size_of :: "'b \<Rightarrow> int"
    and wf :: "'b \<Rightarrow> bool"
    and avail :: "'b \<Rightarrow> int set"
    and test :: "'b \<Rightarrow> int \<Rightarrow> bool res"
    and find_and_set :: "'b \<Rightarrow> (int \<times> 'b) res"
    and clear :: "'b \<Rightarrow> int \<Rightarrow> 'b res"
    and num_clear :: "'b \<Rightarrow> int res"
  assumes avail_subset: "avail b \<subseteq> {0..<size_of b}"
    and test_spec: "wf b \<Longrightarrow> 0 \<le> i \<Longrightarrow> i < size_of b \<Longrightarrow> test b i = Inr (i \<notin> avail b)"
    and find_none: "wf b \<Longrightarrow> avail b = {} \<Longrightarrow> find_and_set b = Inr (-1, b)"
    and find_some: "wf b \<Longrightarrow> avail b \<noteq> {} \<Longrightarrow>
      \<exists>b'. find_and_set b = Inr (Min (avail b), b') \<and> wf b' \<and> size_of b' = size_of b
        \<and> avail b' = avail b - {Min (avail b)}"
    and clear_spec: "wf b \<Longrightarrow> 0 \<le> i \<Longrightarrow> i < size_of b \<Longrightarrow>
      \<exists>b'. clear b i = Inr b' \<and> wf b' \<and> size_of b' = size_of b \<and> avail b' = insert i (avail b)"
    and num_spec: "wf b \<Longrightarrow> num_clear b = Inr (int (card (avail b)))"
begin

lemma avail_finite: "finite (avail b)"
  using avail_subset finite_subset by blast

lemma claim_some:
  assumes "wf b" "avail b \<noteq> {}"
  obtains i b' where "find_and_set b = Inr (i, b')" "wf b'" "size_of b' = size_of b"
    "i \<in> avail b" "0 \<le> i" "i < size_of b" "avail b' = avail b - {i}"
proof -
  have "Min (avail b) \<in> avail b" using assms avail_finite by simp
  then show ?thesis using find_some [OF assms] avail_subset [of b] that by fastforce
qed

lemma claim_n_spec:
  assumes "wf b" "n \<le> card (avail b)"
  shows "\<exists>js b'. claim_n find_and_set n b = Inr (js, b') \<and> wf b' \<and> size_of b' = size_of b
    \<and> length js = n \<and> distinct js \<and> set js \<subseteq> avail b \<and> avail b' = avail b - set js"
  using assms
proof (induction n arbitrary: b)
  case 0
  then show ?case by simp
next
  case (Suc n)
  then have "avail b \<noteq> {}" by auto
  with Suc.prems obtain i b1 where b1: "find_and_set b = Inr (i, b1)" "wf b1"
    "size_of b1 = size_of b" "i \<in> avail b" "avail b1 = avail b - {i}"
    by (metis claim_some)
  then have "n \<le> card (avail b1)" using Suc.prems(2) avail_finite [of b] by simp
  from Suc.IH [OF b1(2) this] obtain js b2 where
    "claim_n find_and_set n b1 = Inr (js, b2)" "wf b2" "size_of b2 = size_of b1"
    "length js = n" "distinct js" "set js \<subseteq> avail b1" "avail b2 = avail b1 - set js"
    by blast
  with b1 show ?case by auto
qed

lemma release_all_spec:
  assumes "wf b" "set js \<subseteq> {0..<size_of b}"
  shows "\<exists>b'. release_all clear js b = Inr b' \<and> wf b' \<and> size_of b' = size_of b
    \<and> avail b' = avail b \<union> set js"
  using assms
proof (induction js arbitrary: b)
  case Nil
  then show ?case by simp
next
  case (Cons i js)
  then obtain b1 where b1: "clear b i = Inr b1" "wf b1" "size_of b1 = size_of b"
    "avail b1 = insert i (avail b)"
    using clear_spec [of b i] by auto
  with Cons.IH [of b1] Cons.prems obtain b2 where
    "release_all clear js b1 = Inr b2" "wf b2" "size_of b2 = size_of b1"
    "avail b2 = avail b1 \<union> set js" by auto
  with b1 show ?case by auto
qed

text \<open>Claiming bits and releasing them again gives back the same free set.\<close>

lemma claim_release:
  assumes "wf b" "n \<le> card (avail b)"
  shows "\<exists>js b' b''. claim_n find_and_set n b = Inr (js, b') \<and> release_all clear js b' = Inr b''
    \<and> avail b'' = avail b"
proof -
  obtain js b' where c: "claim_n find_and_set n b = Inr (js, b')" "wf b'"
    "size_of b' = size_of b" "set js \<subseteq> avail b" "avail b' = avail b - set js"
    using claim_n_spec [OF assms] by blast
  with release_all_spec [of b' js] avail_subset [of b] show ?thesis by fastforce
qed

end

lemma free_bits_nonempty_Min:
  "free_bits b \<noteq> {} \<Longrightarrow> 0 \<le> Min (free_bits b) \<and> Min (free_bits b) < numBits b"
  using Min_in [of "free_bits b"] by (auto simp: free_bits_def)

interpretation bits: bit_allocator numBits wf_bitmap free_bits Test FindAndSet Clear NumClear
proof
  fix b :: Bitmap and i :: int
  show "free_bits b \<subseteq> {0..<numBits b}" by (auto simp: free_bits_def)
  assume wf: "wf_bitmap b"
  show "Test b i = Inr (i \<notin> free_bits b)" if "0 \<le> i" "i < numBits b"
    using that by (simp add: Test_eq free_bits_def)
  show "FindAndSet b = Inr (-1, b)" if "free_bits b = {}"
    using wf that by (simp add: FindAndSet_eq)
  show "\<exists>b'. FindAndSet b = Inr (Min (free_bits b), b') \<and> wf_bitmap b' \<and> numBits b' = numBits b
        \<and> free_bits b' = free_bits b - {Min (free_bits b)}" if "free_bits b \<noteq> {}"
    using wf that free_bits_nonempty_Min [OF that] by (simp add: FindAndSet_eq)
  show "\<exists>b'. Clear b i = Inr b' \<and> wf_bitmap b' \<and> numBits b' = numBits b
        \<and> free_bits b' = insert i (free_bits b)" if "0 \<le> i" "i < numBits b"
    using wf that by (simp add: Clear_eq)
  show "NumClear b = Inr (int (card (free_bits b)))" by (rule NumClear_eq)
qed

section \<open>Properties\<close>

text \<open>
  On a well-formed bitmap \<open>FindAndSet\<close> never fails an ASSERT: it returns -1 and
  changes nothing exactly when no bit is clear, and otherwise returns the lowest clear
  bit, marks that bit and no other, and \<open>NumClear\<close> drops by one.
\<close>

theorem FindAndSet_correct:
  assumes "wf_bitmap b"
  shows "if free_bits b = {} then FindAndSet b = Inr (-1, b)
     else \<exists>b'. FindAndSet b = Inr (Min (free_bits b), b') \<and> wf_bitmap b'
       \<and> marked b' = insert (Min (free_bits b)) (marked b)
       \<and> Test b (Min (free_bits b)) = Inr False \<and> Test b' (Min (free_bits b)) = Inr True
       \<and> NumClear b' = Inr (int (card (free_bits b)) - 1)"
proof (cases "free_bits b = {}")
  case True
  with bits.find_none [OF assms] show ?thesis by simp
next
  case False
  let ?m = "Min (free_bits b)"
  have m: "0 \<le> ?m" "?m < numBits b" "?m \<in> free_bits b"
    using free_bits_nonempty_Min [OF False] False by auto
  then have "?m \<notin> marked b" by (simp add: free_bits_def)
  moreover have "0 < card (free_bits b)" using False by (simp add: card_gt_0_iff)
  then have "int (card (free_bits b - {?m})) = int (card (free_bits b)) - 1"
    using m(3) by (simp add: of_nat_diff)
  ultimately show ?thesis
    using False m assms by (simp add: FindAndSet_eq NumClear_eq Test_eq)
qed

theorem FindAndSet_correct_witness:
  "\<exists>b. Bitmap_new 40 = Inr b \<and> FindAndSet b = Inr (0, set_bit_at b 0)"
proof -
  obtain b where b: "Bitmap_new 40 = Inr b" "wf_bitmap b" "numBits b = 40" "marked b = {}"
    by (rule Bitmap_new_eq [of 40]) auto
  then have f: "free_bits b = {0..<40}" by (simp add: free_bits_def)
  have "Min {0..<40::int} = 0" by (rule Min_eqI) auto
  with FindAndSet_correct [OF b(2)] f b(2) have "FindAndSet b = Inr (0, set_bit_at b 0)"
    by (simp add: FindAndSet_eq)
  with b(1) show ?thesis by blast
qed

lemma Bitmap_SelfTest_ok:
  assumes "BitsInWord \<le> n"
  shows "\<exists>b b'. Bitmap_new n = Inr b \<and> Bitmap_SelfTest b = Inr b' \<and> marked b' = {}"
proof -
  have n: "32 \<le> n" using assms by (simp add: BitsInWord_def BitsInByte_def)
  then obtain b where b: "Bitmap_new n = Inr b" "wf_bitmap b" "numBits b = n" "marked b = {}"
    using Bitmap_new_eq [of n] by auto
  have free: "free_bits b = {0..<n}" using b by (simp add: free_bits_def)
  have m0: "Min {0..<n} = 0" using n by (intro Min_eqI) auto
  let ?b1 = "set_bit_at b 0" let ?b2 = "set_bit_at ?b1 31" let ?b3 = "set_bit_at ?b2 1"
  let ?b4 = "clear_bit_at (clear_bit_at (clear_bit_at ?b3 0) 1) 31"
  have f1: "FindAndSet b = Inr (0, ?b1)"
    using n b by (simp add: FindAndSet_eq free m0)
  have m1: "Min (free_bits ?b2) = 1"
    using n b by (intro Min_eqI) (auto simp: free)
  have f2: "FindAndSet ?b2 = Inr (1, ?b3)"
  proof -
    have "1 \<in> free_bits ?b2" using n b by (simp add: free)
    with n b m1 show ?thesis by (auto simp: FindAndSet_eq)
  qed
  have m4: "marked ?b4 = {}" "wf_bitmap ?b4" "numBits ?b4 = n" using n b by auto
  then obtain b5 where b5: "for_bits Mark ?b4 0 n = Inr b5" "wf_bitmap b5" "numBits b5 = n"
    "marked b5 = {0..<n}"
    using for_bits_Mark [of ?b4 0 n] by auto
  then have f5: "FindAndSet b5 = Inr (-1, b5)" by (simp add: FindAndSet_eq free_bits_def)
  obtain b6 where b6: "for_bits Clear b5 0 n = Inr b6" "marked b6 = {}"
    using for_bits_Clear [of b5 0 n] b5 by auto
  have "Bitmap_SelfTest b = Inr b6"
    using n b m4 b5 b6 f1 f2 f5
    by (simp add: Bitmap_SelfTest_def BitsInWord_def BitsInByte_def NumClear_eq free Mark_eq
        Clear_eq Test_eq)
  with b(1) b6(2) show ?thesis by blast
qed

end
