(* ===== verification/SectorDisk.thy ===== *)
theory SectorDisk
  imports Prelude
begin

text \<open>
  The geometry of the simulated disk (\<open>machine/disk.h\<close>) and the synchronous view of it
  that the file system programs against: a total map from sector numbers to sector
  contents, read and written one whole sector at a time, with the range ASSERT of
  \<open>Disk::ReadRequest\<close> and \<open>Disk::WriteRequest\<close>.
\<close>

definition SectorSize :: int where "SectorSize = 128"
definition SectorsPerTrack :: int where "SectorsPerTrack = 32"
definition NumTracks :: int where "NumTracks = 32"
definition NumSectors :: int where "NumSectors = SectorsPerTrack * NumTracks"

type_synonym sector_data = "byte list"
type_synonym disk = "int \<Rightarrow> sector_data"

definition ReadSector :: "disk \<Rightarrow> int \<Rightarrow> sector_data res" where
  "ReadSector d sectorNumber =
     ASSERT (sectorNumber \<ge> 0 \<and> sectorNumber < NumSectors) (Inr (d sectorNumber))"

definition WriteSector :: "disk \<Rightarrow> int \<Rightarrow> sector_data \<Rightarrow> disk res" where
  "WriteSector d sectorNumber data =
     ASSERT (sectorNumber \<ge> 0 \<and> sectorNumber < NumSectors) (Inr (d(sectorNumber := data)))"

definition wf_disk :: "disk \<Rightarrow> bool" where
  "wf_disk d \<longleftrightarrow> (\<forall>n. length (d n) = 128)"

definition valid_sector :: "int \<Rightarrow> bool" where
  "valid_sector n \<longleftrightarrow> 0 \<le> n \<and> n < 1024"

lemma NumSectors_eq [simp]: "NumSectors = 1024"
  by (simp add: NumSectors_def SectorsPerTrack_def NumTracks_def)

lemma SectorSize_eq [simp]: "SectorSize = 128"
  by (simp add: SectorSize_def)

lemma wf_disk_length [simp]: "wf_disk d \<Longrightarrow> length (d n) = 128"
  by (simp add: wf_disk_def)

lemma wf_disk_upd [simp]: "wf_disk d \<Longrightarrow> length bs = 128 \<Longrightarrow> wf_disk (d(n := bs))"
  by (simp add: wf_disk_def)

lemma ReadSector_valid: "valid_sector n \<Longrightarrow> ReadSector d n = Inr (d n)"
  by (simp add: ReadSector_def valid_sector_def)

lemma WriteSector_valid: "valid_sector n \<Longrightarrow> WriteSector d n bs = Inr (d(n := bs))"
  by (simp add: WriteSector_def valid_sector_def)

lemma ReadSector_invalid: "\<not> valid_sector n \<Longrightarrow> ReadSector d n = Inl AssertFailed"
  by (auto simp: ReadSector_def valid_sector_def ASSERT_def)

lemma valid_sector_in_int: "valid_sector n \<Longrightarrow> in_int n"
  by (simp add: valid_sector_def in_int_def)

lemma valid_sector_bits: "{0..<1024} = {n. valid_sector n}"
  by (auto simp: valid_sector_def)

end
