(* ===== verification/FileHeader.thy ===== *)
theory FileHeader
  imports Bitmap SectorDisk
begin

text \<open>
  \<open>filesys/fileblock.cc\<close> and \<open>filesys/filehdr.cc\<close>: the i-node of a file. A file header
  holds 29 pointers to index blocks, an index block holds 32 pointers to data sectors;
  both fill one sector on disk. The invariant \<open>file_inv\<close> describes a header, the index
  blocks on the disk and the data sectors of one file; allocation, translation of byte
  offsets and deallocation are proved correct against it.
\<close>

section \<open>class IndirectBlock\<close>

definition MAX_SECTOR :: nat where "MAX_SECTOR = nat SectorSize div 4"
definition EMPTY_BLOCK :: int where "EMPTY_BLOCK = -1"

type_synonym IndirectBlock = "int list"   \<comment> \<open>its only field, dataSectors[MAX_SECTOR]\<close>

definition IndirectBlock_new :: IndirectBlock where
  "IndirectBlock_new = replicate MAX_SECTOR EMPTY_BLOCK"

function IndirectBlock_Allocate_loop ::
  "IndirectBlock \<Rightarrow> Bitmap \<Rightarrow> nat \<Rightarrow> int \<Rightarrow> int \<Rightarrow> (int \<times> IndirectBlock \<times> Bitmap) res" where
  "IndirectBlock_Allocate_loop ds freeMap i allocated num =
     (if i < MAX_SECTOR \<and> allocated < num then
        (if ds ! i \<noteq> EMPTY_BLOCK then IndirectBlock_Allocate_loop ds freeMap (i + 1) allocated num
         else bind_res (FindAndSet freeMap) (\<lambda>(s, freeMap).
           ASSERT (s \<noteq> EMPTY_BLOCK)
             (IndirectBlock_Allocate_loop (ds[i := s]) freeMap (i + 1) (allocated + 1) num)))
      else Inr (allocated, ds, freeMap))"
  by pat_completeness auto
termination by (relation "measure (\<lambda>(ds, fm, i, a, n). MAX_SECTOR - i)") auto

declare IndirectBlock_Allocate_loop.simps [simp del]

definition IndirectBlock_Allocate ::
  "IndirectBlock \<Rightarrow> Bitmap \<Rightarrow> int \<Rightarrow> (int \<times> IndirectBlock \<times> Bitmap) res" where
  "IndirectBlock_Allocate ds freeMap num =
     bind_res (NumClear freeMap) (\<lambda>c.
       if num < 0 \<or> c < num then Inr (-1, ds, freeMap)
       else IndirectBlock_Allocate_loop ds freeMap 0 0 num)"

fun IndirectBlock_Deallocate :: "IndirectBlock \<Rightarrow> Bitmap \<Rightarrow> Bitmap res" where
  "IndirectBlock_Deallocate [] freeMap = Inr freeMap"
| "IndirectBlock_Deallocate (sector # rest) freeMap =
     (if sector = EMPTY_BLOCK then IndirectBlock_Deallocate rest freeMap
      else bind_res (Test freeMap sector) (\<lambda>t. ASSERT t
        (bind_res (Clear freeMap sector) (IndirectBlock_Deallocate rest))))"

definition IndirectBlock_WriteBack :: "disk \<Rightarrow> int \<Rightarrow> IndirectBlock \<Rightarrow> disk res" where
  "IndirectBlock_WriteBack d sector blk = WriteSector d sector (ints_to_bytes blk)"

definition IndirectBlock_FetchFrom :: "disk \<Rightarrow> int \<Rightarrow> IndirectBlock res" where
  "IndirectBlock_FetchFrom d sector =
     bind_res (ReadSector d sector) (\<lambda>bs. Inr (bytes_to_ints bs))"

definition IndirectBlock_ByteToSector :: "IndirectBlock \<Rightarrow> int \<Rightarrow> int res" where
  "IndirectBlock_ByteToSector blk offset =
     (let vBlock = offset sdiv SectorSize
      in ASSERT (vBlock < int MAX_SECTOR)
           (CHECK_BOUNDS (0 \<le> vBlock) (Inr (blk ! nat vBlock))))"

section \<open>class FileHeader\<close>

definition NumDirect :: nat where "NumDirect = (nat SectorSize - 3 * 4) div 4"

record FileHeader =
  permisstion :: int
  numBytes :: int
  numSectors :: int
  dataSectors :: "int list"

text \<open>The constructor leaves \<open>permisstion\<close> as it finds it in memory.\<close>

definition FileHeader_new :: "int \<Rightarrow> FileHeader" where
  "FileHeader_new garbage =
     \<lparr>permisstion = garbage, numBytes = 0, numSectors = 0,
      dataSectors = replicate NumDirect EMPTY_BLOCK\<rparr>"

function FileHeader_Allocate_loop ::
  "int list \<Rightarrow> disk \<Rightarrow> Bitmap \<Rightarrow> nat \<Rightarrow> int \<Rightarrow> int \<Rightarrow> (int \<times> int list \<times> disk \<times> Bitmap) res" where
  "FileHeader_Allocate_loop ds d freeMap i allocated needSectors =
     (if i < NumDirect \<and> allocated < needSectors then
        bind_res
          (if ds ! i = EMPTY_BLOCK
           then bind_res (FindAndSet freeMap) (\<lambda>(s, freeMap).
             Inr (ds[i := s], IndirectBlock_new, freeMap))
           else bind_res (IndirectBlock_FetchFrom d (ds ! i)) (\<lambda>block. Inr (ds, block, freeMap)))
          (\<lambda>(ds, block, freeMap). ASSERT (ds ! i \<noteq> EMPTY_BLOCK)
            (bind_res (IndirectBlock_Allocate block freeMap (needSectors - allocated))
              (\<lambda>(sectorsInBlock, block, freeMap). ASSERT (sectorsInBlock \<noteq> -1)
                (bind_res (IndirectBlock_WriteBack d (ds ! i) block) (\<lambda>d.
                  FileHeader_Allocate_loop ds d freeMap (i + 1) (allocated + sectorsInBlock)
                    needSectors)))))
      else Inr (allocated, ds, d, freeMap))"
  by pat_completeness auto
termination by (relation "measure (\<lambda>(ds, d, fm, i, a, n). NumDirect - i)") auto

declare FileHeader_Allocate_loop.simps [simp del]

definition FileHeader_Allocate ::
  "FileHeader \<Rightarrow> disk \<Rightarrow> Bitmap \<Rightarrow> int \<Rightarrow> (bool \<times> FileHeader \<times> disk \<times> Bitmap) res" where
  "FileHeader_Allocate h d freeMap fileSize =
     (let needSectors = divRoundUp fileSize SectorSize
      in bind_res (NumClear freeMap) (\<lambda>c.
           if c < needSectors then Inr (False, h, d, freeMap)
           else bind_res (FileHeader_Allocate_loop (dataSectors h) d freeMap 0 0 needSectors)
             (\<lambda>(allocated, ds, d, freeMap). ASSERT (needSectors \<le> allocated)
               (Inr (True, h\<lparr>dataSectors := ds, numBytes := numBytes h + fileSize,
                  numSectors := numSectors h + divRoundUp fileSize SectorSize\<rparr>, d, freeMap)))))"

function FileHeader_Deallocate_loop ::
  "int list \<Rightarrow> disk \<Rightarrow> Bitmap \<Rightarrow> nat \<Rightarrow> int \<Rightarrow> (int list \<times> Bitmap) res" where
  "FileHeader_Deallocate_loop ds d freeMap i num =
     (if int i < num then
        CHECK_BOUNDS (i < NumDirect)
          (let blockSector = ds ! i
           in if blockSector = EMPTY_BLOCK then FileHeader_Deallocate_loop ds d freeMap (i + 1) num
              else bind_res (Test freeMap blockSector) (\<lambda>t. ASSERT t
                (bind_res (IndirectBlock_FetchFrom d blockSector) (\<lambda>block.
                 bind_res (IndirectBlock_Deallocate block freeMap) (\<lambda>freeMap.
                 bind_res (Test freeMap blockSector) (\<lambda>t. ASSERT t
                (bind_res (Clear freeMap blockSector) (\<lambda>freeMap.
                  FileHeader_Deallocate_loop (ds[i := EMPTY_BLOCK]) d freeMap (i + 1) num))))))))
      else Inr (ds, freeMap))"
  by pat_completeness auto
termination by (relation "measure (\<lambda>(ds, d, fm, i, n). nat (n - int i))") auto

declare FileHeader_Deallocate_loop.simps [simp del]

definition FileHeader_Deallocate ::
  "FileHeader \<Rightarrow> disk \<Rightarrow> Bitmap \<Rightarrow> (FileHeader \<times> Bitmap) res" where
  "FileHeader_Deallocate h d freeMap =
     bind_res (FileHeader_Deallocate_loop (dataSectors h) d freeMap 0 (numSectors h))
       (\<lambda>(ds, freeMap). Inr (h\<lparr>dataSectors := ds\<rparr>, freeMap))"

text \<open>The object is copied to and from one sector, in the order its fields are declared.\<close>

definition header_to_bytes :: "FileHeader \<Rightarrow> byte list" where
  "header_to_bytes h =
     ints_to_bytes ([permisstion h, numBytes h, numSectors h] @ dataSectors h)"

definition bytes_to_header :: "byte list \<Rightarrow> FileHeader" where
  "bytes_to_header bs =
     (let fields = bytes_to_ints bs
      in \<lparr>permisstion = fields ! 0, numBytes = fields ! 1, numSectors = fields ! 2,
          dataSectors = drop 3 fields\<rparr>)"

definition FileHeader_FetchFrom :: "disk \<Rightarrow> int \<Rightarrow> FileHeader res" where
  "FileHeader_FetchFrom d sector =
     bind_res (ReadSector d sector) (\<lambda>bs. Inr (bytes_to_header bs))"

definition FileHeader_WriteBack :: "FileHeader \<Rightarrow> disk \<Rightarrow> int \<Rightarrow> disk res" where
  "FileHeader_WriteBack h d sector = WriteSector d sector (header_to_bytes h)"

definition FileHeader_ByteToSector :: "FileHeader \<Rightarrow> disk \<Rightarrow> int \<Rightarrow> int res" where
  "FileHeader_ByteToSector h d offset =
     (let vBlock = offset sdiv SectorSize;
          ix = vBlock sdiv int MAX_SECTOR
      in CHECK_BOUNDS (0 \<le> ix \<and> ix < int NumDirect)
           (bind_res (IndirectBlock_FetchFrom d (dataSectors h ! nat ix)) (\<lambda>block.
            bind_res (IndirectBlock_ByteToSector block ((vBlock smod int MAX_SECTOR) * SectorSize))
              (\<lambda>pBlock. ASSERT (pBlock \<ge> 0 \<and> pBlock < NumSectors) (Inr pBlock)))))"

definition FileLength :: "FileHeader \<Rightarrow> int" where
  "FileLength h = numBytes h"

section \<open>Constants and encodings\<close>

lemma MAX_SECTOR_eq [simp]: "MAX_SECTOR = 32"
  by (simp add: MAX_SECTOR_def)

lemma NumDirect_eq [simp]: "NumDirect = 29"
  by (simp add: NumDirect_def)

lemma EMPTY_BLOCK_eq [simp]: "EMPTY_BLOCK = -1"
  by (simp add: EMPTY_BLOCK_def)

definition wf_header :: "FileHeader \<Rightarrow> bool" where
  "wf_header h \<longleftrightarrow> length (dataSectors h) = 29 \<and> in_int (permisstion h) \<and> in_int (numBytes h)
     \<and> in_int (numSectors h) \<and> (\<forall>s\<in>set (dataSectors h). in_int s)"

lemma length_header_to_bytes: "wf_header h \<Longrightarrow> length (header_to_bytes h) = 128"
  by (simp add: header_to_bytes_def wf_header_def)

lemma bytes_to_header_to_bytes:
  "wf_header h \<Longrightarrow> bytes_to_header (header_to_bytes h) = h"
  by (simp add: bytes_to_header_def header_to_bytes_def wf_header_def Let_def
      bytes_to_ints_to_bytes)

lemma wf_header_of_bytes:
  assumes "length bs = 128"
  shows "wf_header (bytes_to_header bs)"
proof -
  have l: "length (bytes_to_ints bs) = 32" using assms by simp
  then have "in_int (bytes_to_ints bs ! k)" if "k < 32" for k
    using that nth_mem [of k "bytes_to_ints bs"] bytes_to_ints_in_int by metis
  moreover have "set (drop 3 (bytes_to_ints bs)) \<subseteq> set (bytes_to_ints bs)"
    by (rule set_drop_subset)
  ultimately show ?thesis
    using l bytes_to_ints_in_int by (auto simp: wf_header_def bytes_to_header_def Let_def)
qed

section \<open>Index blocks\<close>

text \<open>\<open>slots xs\<close>: an index block whose first entries are \<open>xs\<close> and whose others are empty.\<close>

definition slots :: "int list \<Rightarrow> IndirectBlock" where
  "slots xs = xs @ replicate (32 - length xs) (-1)"

lemma length_slots [simp]: "length xs \<le> 32 \<Longrightarrow> length (slots xs) = 32"
  by (simp add: slots_def)

lemma slots_Nil: "slots [] = IndirectBlock_new"
  by (simp add: slots_def IndirectBlock_new_def)

lemma nth_slots: "i < length xs \<Longrightarrow> slots xs ! i = xs ! i"
  by (simp add: slots_def nth_append)

lemma slots_snoc: "length xs < 32 \<Longrightarrow> (slots xs)[length xs := s] = slots (xs @ [s])"
proof -
  assume "length xs < 32"
  then obtain k where "32 - length xs = Suc k" by (metis Suc_diff_Suc)
  then show ?thesis by (simp add: slots_def list_update_append)
qed

lemma slots_at_end: "length xs < 32 \<Longrightarrow> slots xs ! length xs = -1"
  by (simp add: slots_def nth_append)

lemma slots_in_int: "\<forall>x\<in>set xs. valid_sector x \<Longrightarrow> \<forall>x\<in>set (slots xs). in_int x"
  by (auto simp: slots_def valid_sector_in_int) (simp add: in_int_def)

lemma block_loop_skip:
  assumes "\<forall>x\<in>set xs. valid_sector x" "length xs \<le> 32" "i \<le> length xs" "a < n"
  shows "IndirectBlock_Allocate_loop (slots xs) fm i a n
    = IndirectBlock_Allocate_loop (slots xs) fm (length xs) a n"
  using assms(3)
proof (induction "length xs - i" arbitrary: i)
  case 0
  then show ?case by simp
next
  case (Suc k)
  then have i: "i < length xs" by simp
  then have "valid_sector (xs ! i)" using assms(1) by simp
  then have "xs ! i \<noteq> -1" by (auto simp: valid_sector_def)
  with i have "IndirectBlock_Allocate_loop (slots xs) fm i a n
      = IndirectBlock_Allocate_loop (slots xs) fm (i + 1) a n"
    using assms(2,4) by (simp add: IndirectBlock_Allocate_loop.simps [of _ _ i] nth_slots)
  with Suc.hyps(1) [of "i + 1"] Suc.hyps(2) i show ?case by simp
qed

lemma block_loop_fill:
  assumes "wf_bitmap fm" "length xs \<le> 32" "k = min (nat (n - a)) (32 - length xs)"
    "k \<le> card (free_bits fm)" "a \<le> n"
  shows "\<exists>js fm'. IndirectBlock_Allocate_loop (slots xs) fm (length xs) a n
      = Inr (a + int k, slots (xs @ js), fm')
    \<and> claim_n FindAndSet k fm = Inr (js, fm')"
  using assms
proof (induction k arbitrary: xs a fm)
  case 0
  then show ?case by (auto simp: IndirectBlock_Allocate_loop.simps [of _ _ "length xs"] min_def split: if_splits)
next
  case (Suc k)
  then have lt: "length xs < 32" "a < n" by auto
  from Suc.prems have "free_bits fm \<noteq> {}" by auto
  with Suc.prems(1) obtain s fm1 where fm1: "FindAndSet fm = Inr (s, fm1)" "wf_bitmap fm1"
    "s \<in> free_bits fm" "0 \<le> s" "free_bits fm1 = free_bits fm - {s}"
    by (metis bits.claim_some)
  then have "k \<le> card (free_bits fm1)" using Suc.prems(4) by simp
  moreover have "k = min (nat (n - (a + 1))) (32 - length (xs @ [s]))"
    using Suc.prems(3) lt by auto
  ultimately obtain js fm' where r: "IndirectBlock_Allocate_loop (slots (xs @ [s])) fm1 (length (xs @ [s]))
      (a + 1) n = Inr (a + 1 + int k, slots ((xs @ [s]) @ js), fm')"
    "claim_n FindAndSet k fm1 = Inr (js, fm')"
    using Suc.IH [of fm1 "xs @ [s]" "a + 1"] fm1(2) lt by auto
  with fm1 lt show ?case
    by (auto simp: IndirectBlock_Allocate_loop.simps [of _ _ "length xs"] slots_at_end slots_snoc)
qed

lemma IndirectBlock_Allocate_spec:
  assumes "wf_bitmap fm" "length xs \<le> 32" "\<forall>x\<in>set xs. valid_sector x"
    "0 < n" "n \<le> int (card (free_bits fm))"
  defines "k \<equiv> min (nat n) (32 - length xs)"
  shows "\<exists>js fm'. IndirectBlock_Allocate (slots xs) fm n = Inr (int k, slots (xs @ js), fm')
    \<and> claim_n FindAndSet k fm = Inr (js, fm')"
proof -
  have "nat n \<le> card (free_bits fm)" using assms(4,5) by linarith
  then have "k \<le> card (free_bits fm)" by (simp add: k_def)
  with block_loop_fill [of fm xs k n 0] assms show ?thesis
    by (simp add: IndirectBlock_Allocate_def NumClear_eq block_loop_skip [of xs 0])
qed

text \<open>Deallocation of an index block clears the sectors it names.\<close>

lemma IndirectBlock_Deallocate_slots:
  assumes "wf_bitmap fm" "numBits fm = 1024" "distinct xs" "\<forall>x\<in>set xs. valid_sector x"
    "set xs \<subseteq> marked fm"
  shows "IndirectBlock_Deallocate (xs @ replicate m (-1)) fm = release_all Clear xs fm"
  using assms
proof (induction xs arbitrary: fm)
  case Nil
  have "IndirectBlock_Deallocate (replicate m (-1)) fm = Inr fm" by (induction m) simp_all
  then show ?case by simp
next
  case (Cons x xs)
  then have x: "0 \<le> x" "x < 1024" "x \<noteq> -1" by (auto simp: valid_sector_def)
  from Cons.prems have "set xs \<subseteq> marked (clear_bit_at fm x)" using x by auto
  with Cons.IH [of "clear_bit_at fm x"] Cons.prems x show ?case
    by (simp add: Test_eq Clear_eq)
qed

section \<open>The layout of a file on the disk\<close>

definition hdr_slots :: "int list \<Rightarrow> int list" where
  "hdr_slots ibs = ibs @ replicate (29 - length ibs) (-1)"

text \<open>\<open>chunk ds k\<close>: the data sectors the \<open>k\<close>-th index block names.\<close>

definition chunk :: "int list \<Rightarrow> nat \<Rightarrow> int list" where
  "chunk ds k = take 32 (drop (32 * k) ds)"

definition index_ok :: "disk \<Rightarrow> int list \<Rightarrow> int list \<Rightarrow> bool" where
  "index_ok d ibs ds \<longleftrightarrow> length ibs = (length ds + 31) div 32 \<and> length ibs \<le> 29
     \<and> distinct (ibs @ ds) \<and> (\<forall>s\<in>set (ibs @ ds). valid_sector s)
     \<and> (\<forall>k<length ibs. bytes_to_ints (d (ibs ! k)) = slots (chunk ds k))"

definition file_inv :: "disk \<Rightarrow> FileHeader \<Rightarrow> int list \<Rightarrow> int list \<Rightarrow> bool" where
  "file_inv d h ibs ds \<longleftrightarrow> index_ok d ibs ds \<and> dataSectors h = hdr_slots ibs
     \<and> numSectors h = int (length ds) \<and> 0 \<le> numBytes h \<and> numBytes h \<le> 128 * int (length ds)
     \<and> in_int (permisstion h)"

lemma ceil32_gt: "i < (n + 31) div 32 \<longleftrightarrow> 32 * i < (n :: nat)"
proof -
  have "i < (n + 31) div 32 \<longleftrightarrow> Suc i * 32 \<le> n + 31"
    by (simp only: less_eq_Suc_le less_eq_div_iff_mult_less_eq [of 32 "Suc i"])
  also have "\<dots> \<longleftrightarrow> 32 * i < n" by auto
  finally show ?thesis .
qed

lemma length_chunk_le [simp]: "length (chunk ds k) \<le> 32"
  by (simp add: chunk_def)

lemma set_chunk: "set (chunk ds k) \<subseteq> set ds"
  unfolding chunk_def by (meson in_set_dropD in_set_takeD subsetI)

lemma chunk_append_full: "32 * (k + 1) \<le> length ds \<Longrightarrow> chunk (ds @ js) k = chunk ds k"
  by (simp add: chunk_def)

lemma chunk_append_last:
  "32 * k \<le> length ds \<Longrightarrow> length (chunk ds k) + length js \<le> 32 \<Longrightarrow> length ds < 32 * (k + 1)
    \<Longrightarrow> chunk (ds @ js) k = chunk ds k @ js"
  by (simp add: chunk_def min_def split: if_splits)

lemma chunk_beyond: "length ds \<le> 32 * k \<Longrightarrow> chunk ds k = []"
  by (simp add: chunk_def)

lemma length_chunk: "length (chunk ds k) = min 32 (length ds - 32 * k)"
  by (simp add: chunk_def)

lemma index_ok_length: "index_ok d ibs ds \<Longrightarrow> length ds \<le> 928"
proof -
  assume "index_ok d ibs ds"
  then have "(length ds + 31) div 32 \<le> 29" by (simp add: index_ok_def)
  then show ?thesis by linarith
qed

lemma hdr_slots_nth: "k < length ibs \<Longrightarrow> hdr_slots ibs ! k = ibs ! k"
  by (simp add: hdr_slots_def nth_append)

lemma hdr_slots_end: "length ibs < 29 \<Longrightarrow> hdr_slots ibs ! length ibs = -1"
  by (simp add: hdr_slots_def nth_append)

lemma hdr_slots_snoc: "length ibs < 29 \<Longrightarrow> (hdr_slots ibs)[length ibs := s] = hdr_slots (ibs @ [s])"
proof -
  assume "length ibs < 29"
  then obtain k where "29 - length ibs = Suc k" by (metis Suc_diff_Suc)
  then show ?thesis by (simp add: hdr_slots_def list_update_append)
qed

lemma length_hdr_slots [simp]: "length ibs \<le> 29 \<Longrightarrow> length (hdr_slots ibs) = 29"
  by (simp add: hdr_slots_def)

text \<open>Writing back the last index block with new sectors appended keeps the layout.\<close>

lemma index_ok_extend:
  assumes ok: "index_ok d ibs ds" and new: "distinct (nibs @ js)" "set (nibs @ js) \<inter> set (ibs @ ds) = {}"
      "\<forall>s\<in>set (nibs @ js). valid_sector s"
    and i: "32 * i \<le> length ds" "length ds < 32 * (i + 1)"
    and fit: "length (chunk ds i) + length js \<le> 32" "0 < length (chunk ds i) + length js"
    and len: "length (ibs @ nibs) = i + 1" "i < 29"
  shows "index_ok (d((ibs @ nibs) ! i := ints_to_bytes (slots (chunk ds i @ js)))) (ibs @ nibs) (ds @ js)"
proof -
  let ?d = "d((ibs @ nibs) ! i := ints_to_bytes (slots (chunk ds i @ js)))"
  have dist: "distinct ((ibs @ nibs) @ (ds @ js))"
    using ok new by (auto simp: index_ok_def)
  have val: "\<forall>s\<in>set ((ibs @ nibs) @ (ds @ js)). valid_sector s"
    using ok new by (auto simp: index_ok_def)
  have "length (chunk ds i) = length ds - 32 * i" using i by (simp add: length_chunk)
  with fit i have count: "(length (ds @ js) + 31) div 32 = i + 1" by simp
  have "bytes_to_ints (?d ((ibs @ nibs) ! k)) = slots (chunk (ds @ js) k)" if k: "k < i + 1" for k
  proof (cases "k = i")
    case True
    have "\<forall>x\<in>set (slots (chunk ds i @ js)). in_int x"
      using val set_chunk [of ds i] by (intro slots_in_int) auto
    with True show ?thesis
      using fit i by (simp add: bytes_to_ints_to_bytes chunk_append_last)
  next
    case False
    with k have "k < i" by simp
    have "(length ds + 31) div 32 = length ibs" using ok by (simp add: index_ok_def)
    with i(1) \<open>k < i\<close> have kl: "k < length ibs" using ceil32_gt [of k "length ds"] by linarith
    have "distinct (ibs @ nibs)" using dist by auto
    from nth_eq_iff_index_eq [OF this, of k i] have "(ibs @ nibs) ! k \<noteq> (ibs @ nibs) ! i"
      using len \<open>k < i\<close> by simp
    moreover have "32 * (k + 1) \<le> 32 * i" using \<open>k < i\<close> by (intro mult_le_mono2) simp
    then have "32 * (k + 1) \<le> length ds" using i(1) by (rule le_trans)
    ultimately show ?thesis
      using ok kl by (simp add: index_ok_def chunk_append_full nth_append)
  qed
  with dist val count len show ?thesis by (simp add: index_ok_def)
qed

section \<open>FileHeader::Allocate\<close>

text \<open>
  What one round of the allocation loop needs and keeps: the layout so far, the used
  sectors not free, and enough free sectors for \<open>r\<close> data sectors and the index blocks
  they need.
\<close>

definition enough_space :: "Bitmap \<Rightarrow> nat \<Rightarrow> nat \<Rightarrow> nat \<Rightarrow> bool" where
  "enough_space fm nibs nds r \<longleftrightarrow>
     r + ((nds + r + 31) div 32 - nibs) \<le> card (free_bits fm) \<and> nds + r \<le> 928"

definition alloc_pre :: "disk \<Rightarrow> Bitmap \<Rightarrow> int list \<Rightarrow> int list \<Rightarrow> bool" where
  "alloc_pre d fm ibs ds \<longleftrightarrow> index_ok d ibs ds \<and> wf_disk d \<and> wf_bitmap fm \<and> numBits fm = 1024
     \<and> set (ibs @ ds) \<inter> free_bits fm = {}"

definition alloc_post ::
  "disk \<Rightarrow> Bitmap \<Rightarrow> int list \<Rightarrow> int list \<Rightarrow> int list \<Rightarrow> int list \<Rightarrow> disk \<Rightarrow> Bitmap \<Rightarrow> bool" where
  "alloc_post d fm ibs ds nibs js d' fm' \<longleftrightarrow> alloc_pre d' fm' (ibs @ nibs) (ds @ js)
     \<and> set (nibs @ js) \<subseteq> free_bits fm \<and> free_bits fm' = free_bits fm - set (nibs @ js)
     \<and> (\<forall>s. s \<notin> set (ibs @ nibs) \<longrightarrow> d' s = d s)"

lemma free_valid: "numBits fm = 1024 \<Longrightarrow> s \<in> free_bits fm \<Longrightarrow> valid_sector s"
  by (auto simp: free_bits_def valid_sector_def)

lemma alloc_post_refl: "alloc_pre d fm ibs ds \<Longrightarrow> alloc_post d fm ibs ds [] [] d fm"
  by (simp add: alloc_post_def)

lemma alloc_post_trans:
  assumes "alloc_post d fm ibs ds nibs js d1 fm1"
    and "alloc_post d1 fm1 (ibs @ nibs) (ds @ js) nibs' js' d2 fm2"
  shows "alloc_post d fm ibs ds (nibs @ nibs') (js @ js') d2 fm2"
  using assms by (auto simp: alloc_post_def)

lemma alloc_post_card:
  assumes "alloc_post d fm ibs ds nibs js d' fm'"
  shows "card (free_bits fm) = card (free_bits fm') + length nibs + length js"
proof -
  have "distinct (nibs @ js)"
    using assms by (auto simp: alloc_post_def alloc_pre_def index_ok_def)
  then have "card (set (nibs @ js)) = length nibs + length js"
    using distinct_card [of "nibs @ js"] by simp
  moreover have "card (free_bits fm') = card (free_bits fm) - card (set (nibs @ js))"
    using assms by (simp add: alloc_post_def card_Diff_subset)
  moreover have "card (set (nibs @ js)) \<le> card (free_bits fm)"
    using assms by (auto simp: alloc_post_def intro: card_mono)
  ultimately show ?thesis by simp
qed

text \<open>The round writes index block \<open>i\<close>, which is the last block, old or new.\<close>

lemma alloc_round:
  assumes pre: "alloc_pre d fm ibs ds" and pre1: "wf_bitmap fm1" "numBits fm1 = 1024"
    and nibs: "distinct nibs" "set nibs \<subseteq> free_bits fm" "free_bits fm1 = free_bits fm - set nibs"
      "length (ibs @ nibs) = i + 1" "i < 29"
    and i: "32 * i \<le> length ds" "length ds < 32 * (i + 1)" "nibs \<noteq> [] \<or> 32 * i < length ds"
    and r: "0 < r" "r \<le> card (free_bits fm1)"
  shows "\<exists>js d' fm'. bind_res (IndirectBlock_Allocate (slots (chunk ds i)) fm1 (int r))
        (\<lambda>(k, blk, fm'). ASSERT (k \<noteq> -1)
          (bind_res (IndirectBlock_WriteBack d ((ibs @ nibs) ! i) blk) (\<lambda>d'. f k d' fm')))
      = f (int (length js)) d' fm'
    \<and> alloc_post d fm ibs ds nibs js d' fm'
    \<and> length js = min r (32 - length (chunk ds i))"
proof -
  have val: "\<forall>s\<in>set (chunk ds i). valid_sector s"
    using pre set_chunk [of ds i] by (auto simp: alloc_pre_def index_ok_def)
  define k where "k = min r (32 - length (chunk ds i))"
  obtain js fm' where a: "IndirectBlock_Allocate (slots (chunk ds i)) fm1 (int r)
      = Inr (int k, slots (chunk ds i @ js), fm')" "claim_n FindAndSet k fm1 = Inr (js, fm')"
    using IndirectBlock_Allocate_spec [of fm1 "chunk ds i" "int r"] pre1 val r
    by (auto simp: k_def)
  have "k \<le> card (free_bits fm1)" using r by (simp add: k_def)
  with bits.claim_n_spec [OF pre1(1)] a(2) pre1(2) have js: "wf_bitmap fm'" "numBits fm' = 1024"
    "length js = k" "distinct js" "set js \<subseteq> free_bits fm1" "free_bits fm' = free_bits fm1 - set js"
    by (metis Inr_inject prod.inject)+
  let ?b = "(ibs @ nibs) ! i"
  let ?d = "d(?b := ints_to_bytes (slots (chunk ds i @ js)))"
  have lc: "length (chunk ds i) = length ds - 32 * i" using i by (simp add: length_chunk)
  have fit: "length (chunk ds i) + length js \<le> 32" "0 < length (chunk ds i) + length js"
    using js(3) i r(1) lc by (auto simp: k_def)
  have ok: "index_ok ?d (ibs @ nibs) (ds @ js)"
  proof (rule index_ok_extend)
    show "index_ok d ibs ds" using pre by (simp add: alloc_pre_def)
    show "distinct (nibs @ js)" using nibs js by auto
    show "set (nibs @ js) \<inter> set (ibs @ ds) = {}"
      using nibs js pre by (auto simp: alloc_pre_def)
    show "\<forall>s\<in>set (nibs @ js). valid_sector s"
      using nibs js pre free_valid [of fm] by (auto simp: alloc_pre_def)
  qed (use i fit nibs in auto)
  have b: "?b \<in> set (ibs @ nibs)" using nibs(4) by (intro nth_mem) simp
  then have "valid_sector ?b" using ok by (auto simp: index_ok_def)
  with a js have run: "bind_res (IndirectBlock_Allocate (slots (chunk ds i)) fm1 (int r))
        (\<lambda>(k, blk, fm'). ASSERT (k \<noteq> -1)
          (bind_res (IndirectBlock_WriteBack d ?b blk) (\<lambda>d'. f k d' fm')))
      = f (int (length js)) ?d fm'"
    by (simp add: IndirectBlock_WriteBack_def WriteSector_valid)
  moreover have "alloc_post d fm ibs ds nibs js ?d fm'"
    using ok pre nibs js b fit by (auto simp: alloc_post_def alloc_pre_def)
  ultimately show ?thesis using js(3) [unfolded k_def] by blast
qed

definition loop_step :: "disk \<Rightarrow> Bitmap \<Rightarrow> int list \<Rightarrow> int list \<Rightarrow> nat \<Rightarrow> int \<Rightarrow> int \<Rightarrow> nat \<Rightarrow> bool" where
  "loop_step d fm ibs ds i a n r \<longleftrightarrow>
    (\<exists>nibs js d' fm'. FileHeader_Allocate_loop (hdr_slots ibs) d fm i a n
      = FileHeader_Allocate_loop (hdr_slots (ibs @ nibs)) d' fm' (i + 1) (a + int (length js)) n
    \<and> alloc_post d fm ibs ds nibs js d' fm' \<and> length js = min r (32 * (i + 1) - length ds))"

lemma fetch_index_block:
  assumes "alloc_pre d fm ibs ds" "i < length ibs"
  shows "valid_sector (ibs ! i)" "hdr_slots ibs ! i = ibs ! i" "ibs ! i \<noteq> -1"
    "IndirectBlock_FetchFrom d (ibs ! i) = Inr (slots (chunk ds i))"
proof -
  show v: "valid_sector (ibs ! i)" using assms by (simp add: alloc_pre_def index_ok_def)
  then show "ibs ! i \<noteq> -1" by (auto simp: valid_sector_def)
  show "hdr_slots ibs ! i = ibs ! i" using assms(2) by (rule hdr_slots_nth)
  show "IndirectBlock_FetchFrom d (ibs ! i) = Inr (slots (chunk ds i))"
    using assms v by (simp add: IndirectBlock_FetchFrom_def ReadSector_valid alloc_pre_def index_ok_def)
qed

text \<open>A full index block is passed over.\<close>

lemma alloc_step_full:
  assumes pre: "alloc_pre d fm ibs ds" and full: "i < length ibs" "32 * (i + 1) \<le> length ds"
    and r: "0 < r" "n - a = int r" "r \<le> card (free_bits fm)"
  shows "loop_step d fm ibs ds i a n r"
proof -
  note ib = fetch_index_block [OF pre full(1)]
  have il: "length ibs \<le> 29" "\<forall>s\<in>set (chunk ds i). valid_sector s"
    using pre set_chunk [of ds i] by (auto simp: alloc_pre_def index_ok_def)
  have lc: "length (chunk ds i) = 32" using full(2) by (simp add: length_chunk)
  with il r pre have al: "IndirectBlock_Allocate (slots (chunk ds i)) fm (int r)
      = Inr (0, slots (chunk ds i), fm)"
    using IndirectBlock_Allocate_spec [of fm "chunk ds i" "int r"] by (auto simp: alloc_pre_def)
  have "ints_to_bytes (slots (chunk ds i)) = d (ibs ! i)"
    using pre full(1) ints_to_bytes_to_ints [of "d (ibs ! i)"]
    by (auto simp: alloc_pre_def index_ok_def)
  then have "IndirectBlock_WriteBack d (ibs ! i) (slots (chunk ds i)) = Inr d"
    using ib by (simp add: IndirectBlock_WriteBack_def WriteSector_valid)
  then have "FileHeader_Allocate_loop (hdr_slots ibs) d fm i a n
      = FileHeader_Allocate_loop (hdr_slots ibs) d fm (i + 1) a n"
    using al ib r full il by (simp add: FileHeader_Allocate_loop.simps [of _ _ _ i a n])
  with alloc_post_refl [OF pre] full show ?thesis unfolding loop_step_def
    by (intro exI [of _ "[]"] exI [of _ d] exI [of _ fm]) simp
qed

text \<open>The last index block, partly filled, takes what it has room for.\<close>

lemma alloc_step_part:
  assumes pre: "alloc_pre d fm ibs ds" and part: "i < length ibs" "length ds < 32 * (i + 1)"
    and r: "0 < r" "n - a = int r" "r \<le> card (free_bits fm)"
  shows "loop_step d fm ibs ds i a n r"
proof -
  note ib = fetch_index_block [OF pre part(1)]
  have cnt: "length ibs = (length ds + 31) div 32" "length ibs \<le> 29" "wf_bitmap fm" "numBits fm = 1024"
    using pre by (auto simp: alloc_pre_def index_ok_def)
  have last: "length (ibs @ []) = i + 1" "32 * i < length ds"
    using part cnt ceil32_gt [of i "length ds"] ceil32_gt [of "i + 1" "length ds"] by auto
  have triv: "distinct ([] :: int list)" "set [] \<subseteq> free_bits fm" "free_bits fm = free_bits fm - set []"
    "32 * i \<le> length ds" "[] \<noteq> ([] :: int list) \<or> 32 * i < length ds" "i < 29"
    using last cnt by auto
  obtain js d' fm' where *: "bind_res (IndirectBlock_Allocate (slots (chunk ds i)) fm (int r))
    (\<lambda>(k, blk, fm'). ASSERT (k \<noteq> -1) (bind_res (IndirectBlock_WriteBack d ((ibs @ []) ! i) blk)
      (\<lambda>d'. FileHeader_Allocate_loop (hdr_slots ibs) d' fm' (i + 1) (a + k) n)))
    = FileHeader_Allocate_loop (hdr_slots ibs) d' fm' (i + 1) (a + int (length js)) n"
    "alloc_post d fm ibs ds [] js d' fm'" "length js = min r (32 - length (chunk ds i))"
    using alloc_round [OF pre cnt(3,4) triv(1-3) last(1) triv(6,4) part(2) triv(5) r(1,3),
        of "\<lambda>k d' fm'. FileHeader_Allocate_loop (hdr_slots ibs) d' fm' (i + 1) (a + k) n"] by blast
  have "FileHeader_Allocate_loop (hdr_slots ibs) d fm i a n
      = FileHeader_Allocate_loop (hdr_slots ibs) d' fm' (i + 1) (a + int (length js)) n"
    using *(1) ib r triv(6) by (simp add: FileHeader_Allocate_loop.simps [of _ _ _ i a n])
  moreover have "length js = min r (32 * (i + 1) - length ds)"
    using *(3) part last by (simp add: length_chunk)
  ultimately show ?thesis using *(2) unfolding loop_step_def
    by (intro exI [of _ "[]"] exI [of _ js] exI [of _ d'] exI [of _ fm']) simp
qed

text \<open>When every index block is full a new one is claimed.\<close>

lemma alloc_step_new:
  assumes pre: "alloc_pre d fm ibs ds" and eq: "length ibs = i" "length ds = 32 * i" and i29: "i < 29"
    and r: "0 < r" "n - a = int r" "r + 1 \<le> card (free_bits fm)"
  shows "loop_step d fm ibs ds i a n r"
proof -
  have "free_bits fm \<noteq> {}" "wf_bitmap fm" using r(3) pre by (auto simp: alloc_pre_def)
  then obtain s fm1 where s: "FindAndSet fm = Inr (s, fm1)" "wf_bitmap fm1"
    "numBits fm1 = numBits fm" "s \<in> free_bits fm" "0 \<le> s" "free_bits fm1 = free_bits fm - {s}"
    by (metis bits.claim_some)
  have upd: "(hdr_slots ibs)[i := s] = hdr_slots (ibs @ [s])" "hdr_slots ibs ! i = -1"
    "hdr_slots (ibs @ [s]) ! i = (ibs @ [s]) ! i" "(ibs @ [s]) ! i \<noteq> -1"
    using eq i29 s(5) hdr_slots_snoc [of ibs s] hdr_slots_end [of ibs] hdr_slots_nth [of i "ibs @ [s]"]
    by auto
  have f1: "r \<le> card (free_bits fm1)" "numBits fm1 = 1024" "free_bits fm1 = free_bits fm - set [s]"
    using r(3) s pre by (auto simp: alloc_pre_def)
  have new1: "distinct [s]" "set [s] \<subseteq> free_bits fm" "length (ibs @ [s]) = i + 1" "32 * i \<le> length ds"
    "length ds < 32 * (i + 1)" "[s] \<noteq> [] \<or> 32 * i < length ds" using s eq by auto
  have "IndirectBlock_new = slots (chunk ds i)" using eq by (simp add: chunk_beyond slots_Nil)
  moreover obtain js d' fm' where *: "bind_res (IndirectBlock_Allocate (slots (chunk ds i)) fm1 (int r))
      (\<lambda>(k, blk, fm'). ASSERT (k \<noteq> -1) (bind_res (IndirectBlock_WriteBack d ((ibs @ [s]) ! i) blk)
        (\<lambda>d'. FileHeader_Allocate_loop (hdr_slots (ibs @ [s])) d' fm' (i + 1) (a + k) n)))
      = FileHeader_Allocate_loop (hdr_slots (ibs @ [s])) d' fm' (i + 1) (a + int (length js)) n"
      "alloc_post d fm ibs ds [s] js d' fm'" "length js = min r (32 - length (chunk ds i))"
    using alloc_round [OF pre s(2) f1(2) new1(1,2) f1(3) new1(3) i29 new1(4-6) r(1) f1(1),
        of "\<lambda>k d' fm'. FileHeader_Allocate_loop (hdr_slots (ibs @ [s])) d' fm' (i + 1) (a + k) n"]
    by blast
  ultimately have "FileHeader_Allocate_loop (hdr_slots ibs) d fm i a n
      = FileHeader_Allocate_loop (hdr_slots (ibs @ [s])) d' fm' (i + 1) (a + int (length js)) n"
    using s eq upd r i29 by (simp add: FileHeader_Allocate_loop.simps [of _ _ _ i a n])
  moreover have "length js = min r (32 * (i + 1) - length ds)"
    using *(3) eq by (simp add: length_chunk)
  ultimately show ?thesis using *(2) unfolding loop_step_def
    by (intro exI [of _ "[s]"] exI [of _ js] exI [of _ d'] exI [of _ fm']) simp
qed

lemma enough_space_new_block:
  assumes "enough_space fm (length ibs) (length ds) r" "length ds = 32 * length ibs" "0 < r"
  shows "r + 1 \<le> card (free_bits fm)"
proof -
  have "k < c \<Longrightarrow> r + (c - k) \<le> f \<Longrightarrow> r + 1 \<le> f" for k c f :: nat by linarith
  with assms ceil32_gt [of "length ibs" "length ds + r"] show ?thesis
    unfolding enough_space_def by simp
qed

lemma alloc_step:
  assumes pre: "alloc_pre d fm ibs ds" and sp: "enough_space fm (length ibs) (length ds) r"
    and i: "32 * i \<le> length ds" and r: "0 < r" "n - a = int r"
  shows "loop_step d fm ibs ds i a n r"
proof -
  have cnt: "length ibs = (length ds + 31) div 32" using pre by (auto simp: alloc_pre_def index_ok_def)
  have sp': "r \<le> card (free_bits fm)" "length ds + r \<le> 928" using sp by (auto simp: enough_space_def)
  show ?thesis
  proof (cases "i < length ibs")
    case True
    then show ?thesis
      using alloc_step_full [OF pre True _ r sp'(1)] alloc_step_part [OF pre True _ r sp'(1)] by linarith
  next
    case False
    with cnt i have "length ds = 32 * i" using ceil32_gt [of i "length ds"] by simp
    with cnt have eq: "length ibs = i" "length ds = 32 * i" by simp_all
    have "i < 29" using sp'(2) i r(1) by linarith
    with eq show ?thesis
      using alloc_step_new [OF pre eq _ r] enough_space_new_block [OF sp _ r(1)] by simp
  qed
qed

lemma FileHeader_Allocate_loop_done:
  "a = n \<Longrightarrow> FileHeader_Allocate_loop hs d fm i a n = Inr (n, hs, d, fm)"
  by (simp add: FileHeader_Allocate_loop.simps)

lemma enough_space_step:
  assumes "enough_space fm (length ibs) (length ds) r" "alloc_post d fm ibs ds nibs js d' fm'"
    "length js \<le> r"
  shows "enough_space fm' (length (ibs @ nibs)) (length (ds @ js)) (r - length js)"
proof -
  have "length ds + length js + (r - length js) = length ds + r" using assms(3) by simp
  moreover have "length (ibs @ nibs) = (length (ds @ js) + 31) div 32"
    using assms(2) by (simp add: alloc_post_def alloc_pre_def index_ok_def)
  then have "length ibs + length nibs \<le> (length ds + r + 31) div 32"
    using assms(3) div_le_mono [of "length (ds @ js) + 31" "length ds + r + 31" 32] by simp
  moreover have "a + b \<le> c \<Longrightarrow> r + (c - a) \<le> f + b + j \<Longrightarrow> j \<le> r
      \<Longrightarrow> (r - j) + (c - (a + b)) \<le> f" for a b c f j :: nat by linarith
  ultimately show ?thesis
    using assms(1,3) alloc_post_card [OF assms(2)] unfolding enough_space_def by simp
qed

lemma FileHeader_Allocate_loop_spec:
  assumes "alloc_pre d fm ibs ds" "enough_space fm (length ibs) (length ds) r"
    "32 * i \<le> length ds \<or> r = 0" "n - a = int r" "i \<le> 29"
  shows "\<exists>nibs js d' fm'. FileHeader_Allocate_loop (hdr_slots ibs) d fm i a n
      = Inr (n, hdr_slots (ibs @ nibs), d', fm')
    \<and> alloc_post d fm ibs ds nibs js d' fm' \<and> length js = r"
  using assms
proof (induction "29 - i" arbitrary: i d fm ibs ds r a)
  case 0
  then have "r = 0" using index_ok_length [of d ibs ds] by (auto simp: enough_space_def)
  with 0 alloc_post_refl [of d fm ibs ds] show ?case
    by (intro exI [of _ "[]"] exI [of _ d] exI [of _ fm]) (simp add: FileHeader_Allocate_loop_done)
next
  case (Suc k)
  show ?case
  proof (cases "r = 0")
    case True
    with Suc alloc_post_refl [of d fm ibs ds] show ?thesis
      by (intro exI [of _ "[]"] exI [of _ d] exI [of _ fm]) (simp add: FileHeader_Allocate_loop_done)
  next
    case False
    then obtain nibs js d1 fm1 where s: "FileHeader_Allocate_loop (hdr_slots ibs) d fm i a n
        = FileHeader_Allocate_loop (hdr_slots (ibs @ nibs)) d1 fm1 (i + 1) (a + int (length js)) n"
      "alloc_post d fm ibs ds nibs js d1 fm1" "length js \<le> r"
      "32 * (i + 1) \<le> length (ds @ js) \<or> length js = r"
    proof -
      have "m = min r (32 * (i + 1) - l) \<Longrightarrow> m \<le> r \<and> (32 * (i + 1) \<le> l + m \<or> m = r)" for m l
        by linarith
      moreover have "loop_step d fm ibs ds i a n r" using alloc_step Suc.prems False by blast
      ultimately show ?thesis using that unfolding loop_step_def length_append by blast
    qed
    have "alloc_pre d1 fm1 (ibs @ nibs) (ds @ js)" using s(2) by (simp add: alloc_post_def)
    moreover have "k = 29 - (i + 1)" "i + 1 \<le> 29" "n - (a + int (length js)) = int (r - length js)"
      using Suc.hyps(2) Suc.prems(4) s(3) by auto
    moreover have "32 * (i + 1) \<le> length (ds @ js) \<or> r - length js = 0" using s(4) by auto
    ultimately have "\<exists>nibs' js' d2 fm2. FileHeader_Allocate_loop (hdr_slots (ibs @ nibs)) d1 fm1 (i + 1)
        (a + int (length js)) n = Inr (n, hdr_slots ((ibs @ nibs) @ nibs'), d2, fm2)
      \<and> alloc_post d1 fm1 (ibs @ nibs) (ds @ js) nibs' js' d2 fm2 \<and> length js' = r - length js"
      using Suc.hyps(1) enough_space_step [OF Suc.prems(2) s(2,3)] by blast
    then
    obtain nibs' js' d2 fm2 where s': "FileHeader_Allocate_loop (hdr_slots (ibs @ nibs)) d1 fm1 (i + 1)
        (a + int (length js)) n = Inr (n, hdr_slots ((ibs @ nibs) @ nibs'), d2, fm2)"
      "alloc_post d1 fm1 (ibs @ nibs) (ds @ js) nibs' js' d2 fm2" "length js' = r - length js"
      by blast
    then show ?thesis
      using s alloc_post_trans [OF s(2) s'(2)]
      by (intro exI [of _ "nibs @ nibs'"] exI [of _ "js @ js'"] exI [of _ d2] exI [of _ fm2]) simp
  qed
qed

lemma FileHeader_Allocate_inv:
  assumes inv: "file_inv d h ibs ds" and pre: "alloc_pre d fm ibs ds" and sz: "0 \<le> sz"
    and sp: "enough_space fm (length ibs) (length ds) (nat ((sz + 127) div 128))"
  shows "\<exists>nibs js d' fm' h'. FileHeader_Allocate h d fm sz = Inr (True, h', d', fm')
    \<and> file_inv d' h' (ibs @ nibs) (ds @ js) \<and> alloc_post d fm ibs ds nibs js d' fm'
    \<and> numBytes h' = numBytes h + sz \<and> int (length js) = (sz + 127) div 128
    \<and> permisstion h' = permisstion h"
proof -
  let ?n = "(sz + 127) div 128"
  have n: "divRoundUp sz SectorSize = ?n" "0 \<le> ?n" using sz by (auto simp: divRoundUp_nonneg)
  have free: "?n \<le> int (card (free_bits fm))" using sp by (auto simp: enough_space_def)
  obtain nibs js d' fm' where r: "FileHeader_Allocate_loop (hdr_slots ibs) d fm 0 0 ?n
      = Inr (?n, hdr_slots (ibs @ nibs), d', fm')"
    "alloc_post d fm ibs ds nibs js d' fm'" "length js = nat ?n"
    using FileHeader_Allocate_loop_spec [OF pre sp, of 0 ?n 0] n by auto
  let ?h = "h\<lparr>dataSectors := hdr_slots (ibs @ nibs), numBytes := numBytes h + sz,
    numSectors := numSectors h + ?n\<rparr>"
  have "FileHeader_Allocate h d fm sz = Inr (True, ?h, d', fm')"
    using inv r free n by (simp add: FileHeader_Allocate_def Let_def NumClear_eq file_inv_def)
  moreover have "sz \<le> 128 * ?n" by linarith
  then have "file_inv d' ?h (ibs @ nibs) (ds @ js)"
    using inv r n sz by (auto simp: file_inv_def alloc_post_def alloc_pre_def)
  ultimately show ?thesis using r n
    by (intro exI [of _ nibs] exI [of _ js] exI [of _ d'] exI [of _ fm'] exI [of _ ?h]) simp
qed

section \<open>FileHeader::ByteToSector\<close>

lemma nth_chunk: "i < length ds \<Longrightarrow> chunk ds (i div 32) ! (i mod 32) = ds ! i"
  by (simp add: chunk_def)

lemma mod_less_chunk: "i < length ds \<Longrightarrow> i mod 32 < length (chunk ds (i div 32))"
proof -
  assume "i < length ds"
  moreover have "32 * (i div 32) + i mod 32 = i" "i mod 32 < 32" by simp_all
  ultimately show ?thesis unfolding length_chunk by linarith
qed

lemma index_block_bytes:
  assumes "index_ok d ibs ds" "v < length ds"
  shows "v div 32 < length ibs"
    and "IndirectBlock_FetchFrom d (ibs ! (v div 32)) = Inr (slots (chunk ds (v div 32)))"
proof -
  have "32 * (v div 32) < length ds" using assms(2) by (rule le_less_trans [rotated]) simp
  then show lt: "v div 32 < length ibs" using assms(1) by (simp add: index_ok_def ceil32_gt)
  then have "valid_sector (ibs ! (v div 32))" using assms(1) by (simp add: index_ok_def)
  with lt assms(1) show "IndirectBlock_FetchFrom d (ibs ! (v div 32)) = Inr (slots (chunk ds (v div 32)))"
    by (simp add: IndirectBlock_FetchFrom_def ReadSector_valid index_ok_def)
qed

lemma ByteToSector_inv:
  assumes inv: "file_inv d h ibs ds" and off: "0 \<le> off" "off < 128 * int (length ds)"
  shows "FileHeader_ByteToSector h d off = Inr (ds ! nat (off div 128))"
proof -
  define v where "v = nat (off div 128)"
  have v: "off div 128 = int v" "v < length ds" using off by (auto simp: v_def nat_less_iff)
  have ok: "index_ok d ibs ds" "length ibs \<le> 29" "dataSectors h = hdr_slots ibs"
    using inv by (auto simp: file_inv_def index_ok_def)
  note blk = index_block_bytes [OF ok(1) v(2)]
  have "off sdiv SectorSize = int v" using off v by (simp add: sdiv_nonneg)
  moreover have "int v sdiv int MAX_SECTOR = int (v div 32)"
    "int v smod int MAX_SECTOR = int (v mod 32)"
    by (simp_all add: sdiv_nonneg smod_nonneg zdiv_int zmod_int)
  moreover have "IndirectBlock_ByteToSector (slots (chunk ds (v div 32))) (int (v mod 32) * SectorSize)
      = Inr (ds ! v)"
    using v(2) mod_less_chunk [of v ds] nth_chunk [of v ds]
    by (simp add: IndirectBlock_ByteToSector_def sdiv_nonneg nth_slots)
  moreover have "valid_sector (ds ! v)" using ok(1) v(2) by (simp add: index_ok_def)
  ultimately show ?thesis
    using ok blk by (simp add: FileHeader_ByteToSector_def Let_def hdr_slots_nth valid_sector_def v_def)
qed

section \<open>FileHeader::Deallocate\<close>

lemma chunk_split: "concat (map (chunk ds) [0..<k]) = take (32 * k) ds"
proof (induction k)
  case (Suc k)
  have "take (32 * Suc k) ds = take (32 * k) ds @ take 32 (drop (32 * k) ds)"
    using take_add [of "32 * k" 32 ds] by (simp add: add.commute)
  with Suc show ?case by (simp add: chunk_def)
qed simp

lemma Deallocate_skip:
  assumes "n \<le> 29" "i \<le> nat n" "\<forall>k. i \<le> k \<and> k < nat n \<longrightarrow> hs ! k = -1"
  shows "FileHeader_Deallocate_loop hs d fm i n = Inr (hs, fm)"
  using assms
proof (induction "nat n - i" arbitrary: i)
  case 0
  then have "\<not> int i < n" by simp
  then show ?case by (simp add: FileHeader_Deallocate_loop.simps)
next
  case (Suc k)
  then have "FileHeader_Deallocate_loop hs d fm (i + 1) n = Inr (hs, fm)" by auto
  with Suc.prems Suc.hyps(2) show ?case by (subst FileHeader_Deallocate_loop.simps) (auto simp: Let_def)
qed

definition hdr_from :: "int list \<Rightarrow> nat \<Rightarrow> int list" where
  "hdr_from ibs i = replicate i (-1) @ drop i ibs @ replicate (29 - length ibs) (-1)"

lemma hdr_from_0: "hdr_from ibs 0 = hdr_slots ibs"
  by (simp add: hdr_from_def hdr_slots_def)

lemma hdr_from_upd: "i < length ibs \<Longrightarrow> (hdr_from ibs i)[i := -1] = hdr_from ibs (i + 1)"
  by (simp add: hdr_from_def list_update_append Cons_nth_drop_Suc [symmetric]
      replicate_append_same [symmetric])

lemma hdr_from_nth: "i < length ibs \<Longrightarrow> hdr_from ibs i ! i = ibs ! i"
  by (simp add: hdr_from_def nth_append)

text \<open>One round frees the sectors of index block \<open>i\<close>, then the block itself.\<close>

lemma Deallocate_step:
  assumes pre: "index_ok d ibs ds" "wf_bitmap fm" "numBits fm = 1024"
    and i: "i < length ibs" "int i < n" and m: "ibs ! i \<in> marked fm" "set (chunk ds i) \<subseteq> marked fm"
  shows "\<exists>fm'. FileHeader_Deallocate_loop (hdr_from ibs i) d fm i n
      = FileHeader_Deallocate_loop (hdr_from ibs (i + 1)) d fm' (i + 1) n
    \<and> wf_bitmap fm' \<and> numBits fm' = 1024 \<and> marked fm' = marked fm - (insert (ibs ! i) (set (chunk ds i)))"
proof -
  let ?b = "ibs ! i" and ?c = "chunk ds i"
  have "?b \<in> set ibs" using i(1) by simp
  then have b: "valid_sector ?b" "?b \<notin> set ds" "length ibs \<le> 29"
    using pre(1) unfolding index_ok_def by auto
  then have b': "0 \<le> ?b" "?b < 1024" "?b \<noteq> -1" by (auto simp: valid_sector_def)
  have c: "distinct ?c" "\<forall>x\<in>set ?c. valid_sector x" "?b \<notin> set ?c"
    using pre(1) b set_chunk [of ds i] by (auto simp: index_ok_def chunk_def)
  have fetch: "IndirectBlock_FetchFrom d ?b = Inr (slots ?c)"
    using pre(1) i b by (simp add: IndirectBlock_FetchFrom_def ReadSector_valid index_ok_def)
  have "set ?c \<subseteq> {0..<numBits fm}" using c(2) pre(3) by (auto simp: valid_sector_def)
  from bits.release_all_spec [OF pre(2) this] obtain fm1 where
    fm1: "release_all Clear ?c fm = Inr fm1" "wf_bitmap fm1" "numBits fm1 = 1024"
      "free_bits fm1 = free_bits fm \<union> set ?c" using pre(3) by auto
  then have m1: "marked fm1 = marked fm - set ?c"
    using pre(3) by (auto simp: free_bits_def marked_def set_eq_iff)
  have "IndirectBlock_Deallocate (slots ?c) fm = Inr fm1"
    using IndirectBlock_Deallocate_slots [OF pre(2,3) c(1,2) m(2)] fm1(1) by (simp add: slots_def)
  then have "FileHeader_Deallocate_loop (hdr_from ibs i) d fm i n
      = FileHeader_Deallocate_loop (hdr_from ibs (i + 1)) d (clear_bit_at fm1 ?b) (i + 1) n"
    using i b b' c m m1 fm1 fetch pre(3)
    by (subst FileHeader_Deallocate_loop.simps)
      (simp add: Let_def hdr_from_nth hdr_from_upd Test_eq Clear_eq)
  moreover have "marked (clear_bit_at fm1 ?b) = marked fm - insert ?b (set ?c)"
    using b' fm1 m1 by auto
  ultimately show ?thesis using fm1 by (intro exI [of _ "clear_bit_at fm1 ?b"]) simp
qed

lemma Deallocate_blocks:
  assumes "index_ok d ibs ds" "length ibs \<le> nat n" "i \<le> length ibs"
    and "wf_bitmap fm" "numBits fm = 1024" "set (drop i ibs) \<union> set (drop (32 * i) ds) \<subseteq> marked fm"
  shows "\<exists>fm'. FileHeader_Deallocate_loop (hdr_from ibs i) d fm i n
      = FileHeader_Deallocate_loop (hdr_from ibs (length ibs)) d fm' (length ibs) n
    \<and> wf_bitmap fm' \<and> numBits fm' = 1024
    \<and> marked fm' = marked fm - (set (drop i ibs) \<union> set (drop (32 * i) ds))"
  using assms(3-)
proof (induction "length ibs - i" arbitrary: i fm)
  case 0
  then have "i = length ibs" by simp
  moreover have "length ds \<le> 32 * length ibs"
    using assms(1) ceil32_gt [of "length ibs" "length ds"] by (simp add: index_ok_def)
  ultimately show ?case using 0 by auto
next
  case (Suc k)
  then have i: "i < length ibs" "int i < n" using assms(2) by auto
  have ib: "drop i ibs = ibs ! i # drop (i + 1) ibs" using i by (simp add: Cons_nth_drop_Suc)
  have "drop (32 * (i + 1)) ds = drop 32 (drop (32 * i) ds)" by (simp add: add.commute)
  then have ch: "drop (32 * i) ds = chunk ds i @ drop (32 * (i + 1)) ds"
    unfolding chunk_def by (simp only: append_take_drop_id)
  from Deallocate_step [OF assms(1) Suc.prems(2,3) i] Suc.prems(4) obtain fm1 where
    fm1: "FileHeader_Deallocate_loop (hdr_from ibs i) d fm i n
      = FileHeader_Deallocate_loop (hdr_from ibs (i + 1)) d fm1 (i + 1) n"
    "wf_bitmap fm1" "numBits fm1 = 1024" "marked fm1 = marked fm - insert (ibs ! i) (set (chunk ds i))"
    unfolding ib ch by auto
  have "distinct (drop i ibs)" "distinct (drop (32 * i) ds)" "set (drop i ibs) \<inter> set (drop (32 * i) ds) = {}"
    using assms(1) set_drop_subset [of i ibs] set_drop_subset [of "32 * i" ds]
    by (auto simp: index_ok_def)
  then have "set (drop (i + 1) ibs) \<union> set (drop (32 * (i + 1)) ds) \<subseteq> marked fm1"
    using Suc.prems(4) fm1(4) unfolding ib ch by auto
  moreover have "k = length ibs - (i + 1)" "i + 1 \<le> length ibs" using Suc.hyps(2) by auto
  ultimately obtain fm2 where
    "FileHeader_Deallocate_loop (hdr_from ibs (i + 1)) d fm1 (i + 1) n
      = FileHeader_Deallocate_loop (hdr_from ibs (length ibs)) d fm2 (length ibs) n"
    "wf_bitmap fm2" "numBits fm2 = 1024"
    "marked fm2 = marked fm1 - (set (drop (i + 1) ibs) \<union> set (drop (32 * (i + 1)) ds))"
    using Suc.hyps(1) [of "i + 1" fm1] fm1(2,3) by blast
  with fm1 show ?case unfolding ib ch by auto
qed

lemma Deallocate_overrun:
  assumes "29 < n" "i \<le> 29" "\<forall>k. i \<le> k \<and> k < 29 \<longrightarrow> hs ! k = -1"
  shows "FileHeader_Deallocate_loop hs d fm i n = Inl OutOfBounds"
  using assms(2,3)
proof (induction "29 - i" arbitrary: i)
  case 0
  then show ?case using assms(1) by (simp add: FileHeader_Deallocate_loop.simps)
next
  case (Suc k)
  then have "FileHeader_Deallocate_loop hs d fm (i + 1) n = Inl OutOfBounds" "i < 29" by auto
  with Suc.prems Suc.hyps(2) assms(1) show ?case
    by (subst FileHeader_Deallocate_loop.simps) (auto simp: Let_def)
qed

lemma hdr_from_all: "length ibs \<le> 29 \<Longrightarrow> hdr_from ibs (length ibs) = replicate 29 (-1)"
  by (simp add: hdr_from_def flip: replicate_add)

lemma ceil32_le: "(n + 31) div 32 \<le> (n :: nat)"
  by (cases n) auto

lemma FileHeader_Deallocate_inv:
  assumes inv: "file_inv d h ibs ds" and fm: "wf_bitmap fm" "numBits fm = 1024"
    and m: "set (ibs @ ds) \<subseteq> marked fm"
  shows "if length ds \<le> 29
    then \<exists>fm'. FileHeader_Deallocate h d fm = Inr (h\<lparr>dataSectors := replicate 29 (-1)\<rparr>, fm')
      \<and> wf_bitmap fm' \<and> numBits fm' = 1024 \<and> free_bits fm' = free_bits fm \<union> set (ibs @ ds)
    else FileHeader_Deallocate h d fm = Inl OutOfBounds"
proof -
  have ok: "index_ok d ibs ds" "dataSectors h = hdr_from ibs 0" "numSectors h = int (length ds)"
    "length ibs \<le> 29" "\<forall>s\<in>set (ibs @ ds). valid_sector s"
    using inv by (auto simp: file_inv_def hdr_from_0 index_ok_def)
  have le: "length ibs \<le> nat (numSectors h)" using ok ceil32_le [of "length ds"] by (simp add: index_ok_def)
  from Deallocate_blocks [OF ok(1) le, of 0 fm] fm m obtain fm' where
    fm': "FileHeader_Deallocate_loop (dataSectors h) d fm 0 (numSectors h)
      = FileHeader_Deallocate_loop (replicate 29 (-1)) d fm' (length ibs) (numSectors h)"
    "wf_bitmap fm'" "numBits fm' = 1024" "marked fm' = marked fm - set (ibs @ ds)"
    using ok by (auto simp: hdr_from_all)
  show ?thesis
  proof (cases "length ds \<le> 29")
    case True
    have "free_bits fm' = free_bits fm \<union> set (ibs @ ds)"
      using fm' fm m ok(5) by (auto simp: free_bits_def marked_def valid_sector_def)
    moreover have "FileHeader_Deallocate_loop (replicate 29 (-1)) d fm' (length ibs) (numSectors h)
        = Inr (replicate 29 (-1), fm')"
      using True ok le by (intro Deallocate_skip) auto
    ultimately show ?thesis using True fm' by (simp add: FileHeader_Deallocate_def)
  next
    case False
    then have "FileHeader_Deallocate_loop (replicate 29 (-1)) d fm' (length ibs) (numSectors h)
        = Inl OutOfBounds"
      using ok by (intro Deallocate_overrun) auto
    with False fm' show ?thesis by (simp add: FileHeader_Deallocate_def)
  qed
qed

section \<open>Allocation for a new file\<close>

lemma alloc_pre_new:
  "wf_disk d \<Longrightarrow> wf_bitmap fm \<Longrightarrow> numBits fm = 1024 \<Longrightarrow> alloc_pre d fm [] []"
  by (simp add: alloc_pre_def index_ok_def)

lemma file_inv_new: "in_int g \<Longrightarrow> file_inv d (FileHeader_new g) [] []"
  by (simp add: file_inv_def index_ok_def FileHeader_new_def hdr_slots_def)

text \<open>
  With room for the data sectors but not for the index blocks, or more than 29 index
  blocks to fill, some round of the loop runs into an ASSERT.
\<close>

lemma IndirectBlock_Allocate_refuses:
  "int (card (free_bits fm)) < n \<Longrightarrow> IndirectBlock_Allocate blk fm n = Inr (-1, blk, fm)"
  by (simp add: IndirectBlock_Allocate_def NumClear_eq)

lemma alloc_no_room_new:
  assumes pre: "alloc_pre d fm ibs ds" and eq: "length ibs = i" and i29: "i < 29"
    and r: "0 < r" "n - a = int r" "r = card (free_bits fm)"
  shows "FileHeader_Allocate_loop (hdr_slots ibs) d fm i a n = Inl AssertFailed"
proof -
  have "free_bits fm \<noteq> {}" "wf_bitmap fm" using r pre by (auto simp: alloc_pre_def)
  then obtain s fm1 where s: "FindAndSet fm = Inr (s, fm1)" "s \<in> free_bits fm" "0 \<le> s"
    "free_bits fm1 = free_bits fm - {s}" by (metis bits.claim_some)
  then have "int (card (free_bits fm1)) < n - a" using r by simp
  from IndirectBlock_Allocate_refuses [OF this]
  have ref: "IndirectBlock_Allocate blk fm1 (n - a) = Inr (-1, blk, fm1)" for blk .
  have upd: "(hdr_slots ibs)[i := s] = hdr_slots (ibs @ [s])" "hdr_slots ibs ! i = -1"
    "hdr_slots (ibs @ [s]) ! i \<noteq> -1"
    using eq i29 s(3) hdr_slots_snoc [of ibs s] hdr_slots_end [of ibs] hdr_slots_nth [of i "ibs @ [s]"]
    by auto
  show ?thesis
    using s ref upd r i29 by (subst FileHeader_Allocate_loop.simps) simp
qed

lemma alloc_no_room:
  assumes "alloc_pre d fm ibs ds" "length ibs = i" "length ds = 32 * i" "i \<le> 29" "0 < r"
    "n - a = int r" "r \<le> card (free_bits fm)" "card (free_bits fm) < r + (r + 31) div 32 \<or> 32 * (29 - i) < r"
  shows "bind_res (FileHeader_Allocate_loop (hdr_slots ibs) d fm i a n)
    (\<lambda>(al, ds, d, fm). ASSERT (n \<le> al) (k al ds d fm)) = Inl AssertFailed"
  using assms
proof (induction "29 - i" arbitrary: i d fm ibs ds r a)
  case 0
  then have "a < n" "i = 29" by auto
  then show ?case by (subst FileHeader_Allocate_loop.simps) (simp add: ASSERT_def)
next
  case (Suc m)
  then have i: "i < 29" by simp
  show ?case
  proof (cases "r = card (free_bits fm)")
    case True
    from alloc_no_room_new [OF Suc.prems(1,2) i Suc.prems(5,6) True] show ?thesis by simp
  next
    case False
    then have room: "r + 1 \<le> card (free_bits fm)" using Suc.prems(7) by simp
    obtain nibs js d' fm' where s: "FileHeader_Allocate_loop (hdr_slots ibs) d fm i a n
        = FileHeader_Allocate_loop (hdr_slots (ibs @ nibs)) d' fm' (i + 1) (a + int (length js)) n"
      "alloc_post d fm ibs ds nibs js d' fm'" "length js = min r 32"
      using alloc_step_new [OF Suc.prems(1,2,3) i Suc.prems(5,6) room] Suc.prems(3)
      unfolding loop_step_def by auto
    have ok: "alloc_pre d' fm' (ibs @ nibs) (ds @ js)" using s(2) by (simp add: alloc_post_def)
    then have "length (ibs @ nibs) = (length (ds @ js) + 31) div 32"
      by (simp add: alloc_pre_def index_ok_def)
    moreover have "0 < min r 32" "min r 32 \<le> 32" using Suc.prems(5) by auto
    ultimately have nl: "length nibs = 1" using s(3) Suc.prems(2,3) by simp
    note card = alloc_post_card [OF s(2), unfolded nl s(3)]
    show ?thesis
    proof (cases "r \<le> 32")
      case True
      then have "(r + 31) div 32 = 1" using Suc.prems(5) by simp
      with True Suc.prems(8) room i show ?thesis by auto
    next
      case False
      then have js: "length js = 32" using s(3) by simp
      have "(r + 31) div 32 = (r - 32 + 31) div 32 + 1" using False by (simp add: div_add_self2 flip: div_add_self1)
      moreover have "f = f' + 1 + 32 \<Longrightarrow> f < r + (c + 1) \<or> 32 * (29 - i) < r
          \<Longrightarrow> f' < (r - 32) + c \<or> 32 * (29 - (i + 1)) < r - 32" for c f f' :: nat
        using False i by linarith
      ultimately have "card (free_bits fm') < (r - 32) + (r - 32 + 31) div 32 \<or> 32 * (29 - (i + 1)) < r - 32"
        using False card Suc.prems(8) by simp
      moreover have "r - 32 \<le> card (free_bits fm')" "0 < r - 32" "m = 29 - (i + 1)" "i + 1 \<le> 29"
        "length (ibs @ nibs) = i + 1" "length (ds @ js) = 32 * (i + 1)" "n - (a + int (length js)) = int (r - 32)"
        using False card room Suc.hyps(2) Suc.prems js nl by auto
      ultimately have "bind_res (FileHeader_Allocate_loop (hdr_slots (ibs @ nibs)) d' fm' (i + 1)
          (a + int (length js)) n) (\<lambda>(al, ds, d, fm). ASSERT (n \<le> al) (k al ds d fm)) = Inl AssertFailed"
        using Suc.hyps(1) ok by blast
      then show ?thesis unfolding s(1) .
    qed
  qed
qed

text \<open>A concrete file for the witnesses: 300 bytes allocated on an empty disk.\<close>

definition blank_disk :: disk where
  "blank_disk = (\<lambda>_. replicate 128 0)"

lemma wf_blank_disk [simp]: "wf_disk blank_disk"
  by (simp add: wf_disk_def blank_disk_def)

lemma example_bitmap:
  "\<exists>b. Bitmap_new 1024 = Inr b \<and> wf_bitmap b \<and> numBits b = 1024 \<and> card (free_bits b) = 1024"
proof -
  obtain b where "Bitmap_new 1024 = Inr b" "wf_bitmap b" "numBits b = 1024" "marked b = {}"
    using Bitmap_new_eq [of 1024] by auto
  then show ?thesis by (intro exI [of _ b]) (simp add: free_bits_def)
qed

lemma example_file:
  "\<exists>b h d fm ibs ds. Bitmap_new 1024 = Inr b
    \<and> FileHeader_Allocate (FileHeader_new 0) blank_disk b 300 = Inr (True, h, d, fm)
    \<and> file_inv d h ibs ds \<and> length ds = 3 \<and> wf_bitmap fm \<and> numBits fm = 1024
    \<and> set (ibs @ ds) \<subseteq> marked fm"
proof -
  obtain b where b: "Bitmap_new 1024 = Inr b" "wf_bitmap b" "numBits b = 1024" "card (free_bits b) = 1024"
    using example_bitmap by auto
  have g: "in_int 0" by (simp add: in_int_def)
  have "enough_space b (length ([] :: int list)) (length ([] :: int list)) (nat ((300 + 127) div 128))"
    using b by (simp add: enough_space_def)
  from FileHeader_Allocate_inv [OF file_inv_new [OF g] alloc_pre_new [OF wf_blank_disk b(2,3)] _ this]
  obtain h d fm ibs ds where r: "FileHeader_Allocate (FileHeader_new 0) blank_disk b 300 = Inr (True, h, d, fm)"
    "file_inv d h ibs ds" "alloc_post blank_disk b [] [] ibs ds d fm" "length ds = 3" by auto
  then have "set (ibs @ ds) \<subseteq> marked fm" "wf_bitmap fm" "numBits fm = 1024"
    by (auto simp: alloc_post_def alloc_pre_def index_ok_def free_bits_def valid_sector_def)
  with b r show ?thesis by blast
qed

section \<open>Properties\<close>

text \<open>
  C11. \<open>FileHeader::Allocate\<close> for a file just created, on every branch. With \<open>n\<close> sectors
  needed and fewer free it returns FALSE and changes nothing; with room for the \<open>n\<close> data
  sectors and their \<open>\<lceil>n/32\<rceil>\<close> index blocks, and at most 29 * 32 sectors, it returns TRUE
  with a header, index blocks and data sectors that satisfy the layout invariant, all of
  them taken from the free map, and every other sector of the disk as it was; in the
  cases between, where only the index blocks do not fit or the file is too large, it
  aborts on an ASSERT.
\<close>

theorem FileHeader_Allocate_new_file:
  fixes sz :: int
  defines "n \<equiv> nat ((sz + 127) div 128)"
  assumes "wf_disk d" "wf_bitmap fm" "numBits fm = 1024" "in_int g" "0 \<le> sz"
  shows "if card (free_bits fm) < n
      then FileHeader_Allocate (FileHeader_new g) d fm sz = Inr (False, FileHeader_new g, d, fm)
    else if n + (n + 31) div 32 \<le> card (free_bits fm) \<and> n \<le> 928
      then \<exists>h' d' fm' ibs ds. FileHeader_Allocate (FileHeader_new g) d fm sz = Inr (True, h', d', fm')
        \<and> file_inv d' h' ibs ds \<and> length ds = n \<and> FileLength h' = sz
        \<and> wf_bitmap fm' \<and> numBits fm' = 1024 \<and> wf_disk d'
        \<and> set (ibs @ ds) \<subseteq> free_bits fm \<and> free_bits fm' = free_bits fm - set (ibs @ ds)
        \<and> (\<forall>s. s \<notin> set ibs \<longrightarrow> d' s = d s)
    else FileHeader_Allocate (FileHeader_new g) d fm sz = Inl AssertFailed"
proof -
  have need: "divRoundUp sz 128 = int n" using assms(6) by (simp add: n_def divRoundUp_nonneg add.commute)
  note pre = alloc_pre_new [OF assms(2-4)]
  consider "card (free_bits fm) < n"
    | "\<not> card (free_bits fm) < n" "n + (n + 31) div 32 \<le> card (free_bits fm) \<and> n \<le> 928"
    | "\<not> card (free_bits fm) < n" "\<not> (n + (n + 31) div 32 \<le> card (free_bits fm) \<and> n \<le> 928)"
    by blast
  then show ?thesis
  proof cases
    case 1
    then show ?thesis by (simp add: FileHeader_Allocate_def Let_def need NumClear_eq)
  next
    case 2
    then have "enough_space fm (length ([] :: int list)) (length ([] :: int list)) n"
      by (simp add: enough_space_def)
    from FileHeader_Allocate_inv [OF file_inv_new [OF assms(5), of d] pre assms(6) this [unfolded n_def]]
    obtain nibs js d' fm' h' where
      r: "FileHeader_Allocate (FileHeader_new g) d fm sz = Inr (True, h', d', fm')"
      "file_inv d' h' nibs js" "alloc_post d fm [] [] nibs js d' fm'" "numBytes h' = sz" "length js = n"
      by (auto simp: FileHeader_new_def n_def)
    then show ?thesis using 2
      by (simp add: FileLength_def) (auto simp: alloc_post_def alloc_pre_def)
  next
    case 3
    have "0 < n" using 3 by (cases "n = 0") auto
    then have "bind_res (FileHeader_Allocate_loop (hdr_slots []) d fm 0 0 (int n))
        (\<lambda>(al, ds, d, fm). ASSERT (int n \<le> al) (k al ds d fm)) = Inl AssertFailed"
      for k :: "int \<Rightarrow> int list \<Rightarrow> disk \<Rightarrow> Bitmap \<Rightarrow> (bool \<times> FileHeader \<times> disk \<times> Bitmap) res"
      using 3 by (intro alloc_no_room [OF pre]) auto
    then show ?thesis using 3
      by (simp add: FileHeader_Allocate_def Let_def need NumClear_eq FileHeader_new_def hdr_slots_def)
  qed
qed

theorem FileHeader_Allocate_new_file_witness:
  "\<exists>b. Bitmap_new 1024 = Inr b
    \<and> (\<exists>h' d' fm' ibs ds. FileHeader_Allocate (FileHeader_new 0) blank_disk b 300 = Inr (True, h', d', fm')
        \<and> file_inv d' h' ibs ds \<and> length ds = 3)
    \<and> FileHeader_Allocate (FileHeader_new 0) blank_disk b (128 * 1000) = Inl AssertFailed
    \<and> FileHeader_Allocate (FileHeader_new 0) blank_disk b (128 * 1025) = Inr (False, FileHeader_new 0, blank_disk, b)"
proof -
  obtain b where b: "Bitmap_new 1024 = Inr b" "wf_bitmap b" "numBits b = 1024" "card (free_bits b) = 1024"
    using example_bitmap by auto
  have g: "in_int 0" by (simp add: in_int_def)
  note f = FileHeader_Allocate_new_file [OF wf_blank_disk b(2,3) g]
  show ?thesis
    using b f [of 300] f [of "128 * 1000"] f [of "128 * 1025"] by auto
qed

text \<open>
  \<open>FileHeader::ByteToSector\<close> of a laid out file: every byte offset inside the allocated
  sectors is translated through the index block to the data sector that holds it.
\<close>

theorem FileHeader_ByteToSector_correct:
  assumes "file_inv d h ibs ds" "0 \<le> off" "off < 128 * int (length ds)"
  shows "FileHeader_ByteToSector h d off = Inr (ds ! nat (off div 128))"
  using assms by (rule ByteToSector_inv)

theorem FileHeader_ByteToSector_correct_witness:
  "\<exists>b h d fm ibs ds. Bitmap_new 1024 = Inr b
    \<and> FileHeader_Allocate (FileHeader_new 0) blank_disk b 300 = Inr (True, h, d, fm)
    \<and> file_inv d h ibs ds \<and> FileHeader_ByteToSector h d 200 = Inr (ds ! 1)"
proof -
  obtain b h d fm ibs ds where f: "Bitmap_new 1024 = Inr b"
    "FileHeader_Allocate (FileHeader_new 0) blank_disk b 300 = Inr (True, h, d, fm)"
    "file_inv d h ibs ds" "length ds = 3" using example_file by blast
  with FileHeader_ByteToSector_correct [OF f(3), of 200] show ?thesis by auto
qed

text \<open>
  C15. \<open>FileHeader::Deallocate\<close> of a laid out file of at most 29 sectors frees exactly its
  index blocks and data sectors and empties the header; for a larger file the loop, which
  runs over \<open>numSectors\<close> entries of a table of 29, leaves the table.
\<close>

theorem FileHeader_Deallocate_correct:
  assumes "file_inv d h ibs ds" "wf_bitmap fm" "numBits fm = 1024" "set (ibs @ ds) \<subseteq> marked fm"
  shows "if length ds \<le> 29
    then \<exists>fm'. FileHeader_Deallocate h d fm = Inr (h\<lparr>dataSectors := replicate 29 (-1)\<rparr>, fm')
      \<and> wf_bitmap fm' \<and> free_bits fm' = free_bits fm \<union> set (ibs @ ds)
    else FileHeader_Deallocate h d fm = Inl OutOfBounds"
  using FileHeader_Deallocate_inv [OF assms] by (auto split: if_splits)

theorem FileHeader_Deallocate_correct_witness:
  "\<exists>b h d fm fm' ibs ds. Bitmap_new 1024 = Inr b
    \<and> FileHeader_Allocate (FileHeader_new 0) blank_disk b 300 = Inr (True, h, d, fm)
    \<and> FileHeader_Deallocate h d fm = Inr (h\<lparr>dataSectors := replicate 29 (-1)\<rparr>, fm')
    \<and> free_bits fm' = free_bits fm \<union> set (ibs @ ds) \<and> length ds = 3"
proof -
  obtain b h d fm ibs ds where f: "Bitmap_new 1024 = Inr b"
    "FileHeader_Allocate (FileHeader_new 0) blank_disk b 300 = Inr (True, h, d, fm)"
    "file_inv d h ibs ds" "wf_bitmap fm" "numBits fm = 1024" "set (ibs @ ds) \<subseteq> marked fm" "length ds = 3"
    using example_file by blast
  from FileHeader_Deallocate_correct [OF f(3-6)] f(1,2,7) show ?thesis by simp blast
qed

text \<open>
  A header written back to a sector is read again unchanged, and no other sector of the
  disk is touched.
\<close>

theorem FileHeader_roundtrip:
  assumes "wf_header h" "wf_disk d" "valid_sector s"
  shows "\<exists>d'. FileHeader_WriteBack h d s = Inr d' \<and> wf_disk d' \<and> FileHeader_FetchFrom d' s = Inr h
    \<and> (\<forall>t. t \<noteq> s \<longrightarrow> d' t = d t)"
  using assms
  by (simp add: FileHeader_WriteBack_def FileHeader_FetchFrom_def WriteSector_valid ReadSector_valid
      length_header_to_bytes bytes_to_header_to_bytes)

theorem FileHeader_roundtrip_witness:
  "\<exists>d'. FileHeader_WriteBack (FileHeader_new 7) blank_disk 5 = Inr d'
    \<and> FileHeader_FetchFrom d' 5 = Inr (FileHeader_new 7)"
proof -
  have "wf_header (FileHeader_new 7)" "valid_sector 5"
    by (auto simp: wf_header_def FileHeader_new_def in_int_def valid_sector_def)
  then show ?thesis using FileHeader_roundtrip [OF _ wf_blank_disk] by blast
qed

end
