(* ===== verification/OpenFile.thy ===== *)
theory OpenFile
  imports FileHeader
begin

text \<open>
  \<open>filesys/openfile.cc\<close>: an open file, its positioned transfers \<open>ReadAt\<close> and \<open>WriteAt\<close>,
  and the bookkeeping its constructor and destructor do in the kernel's maps. The bytes
  of a file are the concatenation of its data sectors up to its length; \<open>ReadAt\<close> returns a
  segment of them and \<open>WriteAt\<close> replaces one, whatever a freshly allocated buffer held.
\<close>

section \<open>Kernel state the file system reads and writes\<close>

text \<open>
  The four maps of \<open>threads/kernel.h\<close> are keyed by header sector; a semaphore is represented
  by its value. \<open>uninit\<close> is the content of memory returned by \<open>new\<close>, which the code may read
  before it writes it.
\<close>

record kstate =
  dsk :: disk
  OpenFileCount :: "int \<rightharpoonup> int"
  readerCount :: "int \<rightharpoonup> int"
  semaphoreRead :: "int \<rightharpoonup> int"
  semaphoreWrite :: "int \<rightharpoonup> int"
  uninit :: "nat \<Rightarrow> byte"

text \<open>\<open>operator[]\<close> of a map of integers: a missing key reads as 0.\<close>

definition map_at :: "(int \<rightharpoonup> int) \<Rightarrow> int \<Rightarrow> int" where
  "map_at m k = (case m k of None \<Rightarrow> 0 | Some v \<Rightarrow> v)"

record OpenFile =
  hdr :: FileHeader
  seekPosition :: int
  hdrSector :: int

definition OpenFile_new :: "kstate \<Rightarrow> int \<Rightarrow> (OpenFile \<times> kstate) res" where
  "OpenFile_new k sector =
     bind_res (FileHeader_FetchFrom (dsk k) sector) (\<lambda>h.
       let k = k\<lparr>OpenFileCount :=
             (if OpenFileCount k sector = None then (OpenFileCount k)(sector \<mapsto> 0)
              else (OpenFileCount k)(sector \<mapsto> map_at (OpenFileCount k) sector + 1))\<rparr>;
           k = (if readerCount k sector = None
                then k\<lparr>readerCount := (readerCount k)(sector \<mapsto> 0)\<rparr> else k);
           k = (if semaphoreWrite k sector = None
                then k\<lparr>semaphoreWrite := (semaphoreWrite k)(sector \<mapsto> 1)\<rparr> else k);
           k = (if semaphoreRead k sector = None
                then k\<lparr>semaphoreRead := (semaphoreRead k)(sector \<mapsto> 1)\<rparr> else k)
       in Inr (\<lparr>hdr = h, seekPosition = 0, hdrSector = sector\<rparr>, k))"

definition OpenFile_delete :: "OpenFile \<Rightarrow> kstate \<Rightarrow> kstate" where
  "OpenFile_delete f k =
     k\<lparr>OpenFileCount := (OpenFileCount k)(hdrSector f \<mapsto> map_at (OpenFileCount k) (hdrSector f) - 1)\<rparr>"

definition Seek :: "OpenFile \<Rightarrow> int \<Rightarrow> OpenFile" where
  "Seek f position = f\<lparr>seekPosition := position\<rparr>"

definition Length :: "OpenFile \<Rightarrow> int" where
  "Length f = FileLength (hdr f)"

section \<open>ReadAt and WriteAt\<close>

fun read_sectors :: "FileHeader \<Rightarrow> disk \<Rightarrow> int \<Rightarrow> nat \<Rightarrow> byte list res" where
  "read_sectors h d i 0 = Inr []"
| "read_sectors h d i (Suc n) =
     bind_res (FileHeader_ByteToSector h d (i * SectorSize)) (\<lambda>s.
     bind_res (ReadSector d s) (\<lambda>bs.
     bind_res (read_sectors h d (i + 1) n) (\<lambda>rest. Inr (bs @ rest))))"

definition ReadAt :: "OpenFile \<Rightarrow> disk \<Rightarrow> int \<Rightarrow> int \<Rightarrow> (int \<times> byte list) res" where
  "ReadAt f d nbytes position =
     (let fileLength = FileLength (hdr f)
      in if nbytes \<le> 0 \<or> position \<ge> fileLength then Inr (0, [])
         else
           let nbytes = (if position + nbytes > fileLength then fileLength - position else nbytes);
               firstSector = divRoundDown position SectorSize;
               lastSector = divRoundDown (position + nbytes - 1) SectorSize;
               nsectors = 1 + lastSector - firstSector
           in bind_res (read_sectors (hdr f) d firstSector (nat nsectors)) (\<lambda>buf.
              let off = position - firstSector * SectorSize
              in CHECK_BOUNDS (0 \<le> off \<and> off + nbytes \<le> int (length buf))
                   (Inr (nbytes, take (nat nbytes) (drop (nat off) buf)))))"

fun write_sectors :: "FileHeader \<Rightarrow> disk \<Rightarrow> byte list \<Rightarrow> int \<Rightarrow> nat \<Rightarrow> disk res" where
  "write_sectors h d buf i 0 = Inr d"
| "write_sectors h d buf i (Suc n) =
     bind_res (FileHeader_ByteToSector h d (i * SectorSize)) (\<lambda>s.
     bind_res (WriteSector d s (take (nat SectorSize) buf)) (\<lambda>d.
     write_sectors h d (drop (nat SectorSize) buf) (i + 1) n))"

definition WriteAt ::
  "OpenFile \<Rightarrow> (nat \<Rightarrow> byte) \<Rightarrow> disk \<Rightarrow> byte list \<Rightarrow> int \<Rightarrow> int \<Rightarrow> (int \<times> disk) res" where
  "WriteAt f garbage d from nbytes position =
     (let fileLength = FileLength (hdr f)
      in if nbytes \<le> 0 \<or> position \<ge> fileLength then Inr (0, d)
         else
           let nbytes = (if position + nbytes > fileLength then fileLength - position else nbytes);
               firstSector = divRoundDown position SectorSize;
               lastSector = divRoundDown (position + nbytes - 1) SectorSize;
               nsectors = 1 + lastSector - firstSector;
               buf = map garbage [0..<nat (nsectors * SectorSize)];
               firstAligned = (position = firstSector * SectorSize);
               lastAligned = (position + nbytes = (lastSector + 1) * SectorSize);
               off = position - firstSector * SectorSize
           in bind_res
                (if \<not> firstAligned
                 then bind_res (ReadAt f d SectorSize (firstSector * SectorSize))
                   (\<lambda>(_, bs). Inr (overwrite buf 0 bs))
                 else Inr buf) (\<lambda>buf.
              bind_res
                (if \<not> lastAligned \<and> (firstSector \<noteq> lastSector \<or> firstAligned)
                 then bind_res (ReadAt f d SectorSize (lastSector * SectorSize))
                   (\<lambda>(_, bs). Inr (overwrite buf (nat ((lastSector - firstSector) * SectorSize)) bs))
                 else Inr buf) (\<lambda>buf.
              CHECK_BOUNDS (0 \<le> off \<and> off + nbytes \<le> int (length buf)
                  \<and> nbytes \<le> int (length from))
                (bind_res (write_sectors (hdr f) d (overwrite buf (nat off) (take (nat nbytes) from))
                     firstSector (nat nsectors))
                   (\<lambda>d. Inr (nbytes, d))))))"

section \<open>The bytes of a file\<close>

definition file_data :: "disk \<Rightarrow> int list \<Rightarrow> byte list" where
  "file_data d ds = concat (map d ds)"

definition contents :: "disk \<Rightarrow> FileHeader \<Rightarrow> int list \<Rightarrow> byte list" where
  "contents d h ds = take (nat (numBytes h)) (file_data d ds)"

lemma length_file_data [simp]: "wf_disk d \<Longrightarrow> length (file_data d ds) = 128 * length ds"
  by (induction ds) (simp_all add: file_data_def)

lemma file_data_append: "file_data d (xs @ ys) = file_data d xs @ file_data d ys"
  by (simp add: file_data_def)

lemma file_data_Cons [simp]: "file_data d (x # xs) = d x @ file_data d xs"
  by (simp add: file_data_def)

lemma file_data_Nil [simp]: "file_data d [] = []"
  by (simp add: file_data_def)

lemma file_data_cong: "(\<And>s. s \<in> set ds \<Longrightarrow> d s = d' s) \<Longrightarrow> file_data d ds = file_data d' ds"
  by (induction ds) (simp_all add: file_data_def)

lemma take_file_data: "wf_disk d \<Longrightarrow> take (128 * n) (file_data d ds) = file_data d (take n ds)"
proof (induction ds arbitrary: n)
  case (Cons x xs)
  then show ?case by (cases n) simp_all
qed simp

lemma drop_file_data: "wf_disk d \<Longrightarrow> drop (128 * n) (file_data d ds) = file_data d (drop n ds)"
proof (induction ds arbitrary: n)
  case (Cons x xs)
  then show ?case by (cases n) simp_all
qed simp

lemma length_contents [simp]:
  "file_inv d h ibs ds \<Longrightarrow> wf_disk d \<Longrightarrow> length (contents d h ds) = nat (numBytes h)"
  by (auto simp: contents_def file_inv_def min_def)

text \<open>The index blocks fix the layout: writing to other sectors keeps it.\<close>

lemma file_inv_frame:
  "file_inv d h ibs ds \<Longrightarrow> (\<And>s. s \<in> set ibs \<Longrightarrow> d' s = d s) \<Longrightarrow> file_inv d' h ibs ds"
  by (simp add: file_inv_def index_ok_def)
section \<open>ReadAt returns a segment of the contents\<close>

lemma read_sectors_inv:
  assumes "file_inv d h ibs ds" "i + n \<le> length ds"
  shows "read_sectors h d (int i) n = Inr (file_data d (take n (drop i ds)))"
  using assms(2)
proof (induction n arbitrary: i)
  case (Suc n)
  then have i: "i < length ds" by simp
  then have "valid_sector (ds ! i)" using assms(1) by (simp add: file_inv_def index_ok_def)
  moreover have "FileHeader_ByteToSector h d (int i * 128) = Inr (ds ! i)"
    using ByteToSector_inv [OF assms(1), of "int i * 128"] i by simp
  moreover have "read_sectors h d (int i + 1) n = Inr (file_data d (take n (drop (i + 1) ds)))"
    using Suc.IH [of "i + 1"] Suc.prems by (simp add: add.commute)
  ultimately show ?case
    using i by (simp add: ReadSector_valid Cons_nth_drop_Suc [symmetric])
qed simp

lemma read_span:
  assumes "file_inv d h ibs ds" "wf_disk d" "first + n \<le> length ds" "128 * first \<le> p" "p + k \<le> 128 * (first + n)"
  shows "\<exists>buf. read_sectors h d (int first) n = Inr buf \<and> length buf = 128 * n
    \<and> take k (drop (p - 128 * first) buf) = take k (drop p (file_data d ds))"
proof -
  let ?buf = "file_data d (take n (drop first ds))"
  have "?buf = take (128 * n) (drop (128 * first) (file_data d ds))"
    by (simp add: take_file_data drop_file_data assms(2))
  then have "take k (drop (p - 128 * first) ?buf) = take k (drop p (file_data d ds))"
    using assms(4,5) by (simp add: drop_take min_def)
  moreover have "length ?buf = 128 * n" using assms(2,3) by (auto simp: min_def)
  ultimately show ?thesis using read_sectors_inv [OF assms(1,3)] by blast
qed

lemma sector_span:
  assumes "0 < (k :: nat)" "p + k \<le> len" "len \<le> 128 * m"
  defines "fst1 \<equiv> p div 128" and "lst \<equiv> (p + k - 1) div 128"
  shows "fst1 \<le> lst" "lst < m" "128 * fst1 \<le> p" "p + k \<le> 128 * (lst + 1)" "128 * lst < p + k"
    "p < 128 * (fst1 + 1)"
  using assms(1-3) unfolding fst1_def lst_def
  by (auto intro: div_le_mono simp: less_mult_imp_div_less)

lemma contents_segment:
  "p + k \<le> nat (numBytes h) \<Longrightarrow> take k (drop p (contents d h ds)) = take k (drop p (file_data d ds))"
  by (simp add: contents_def drop_take)

lemma ReadAt_some:
  assumes inv: "file_inv d (hdr f) ibs ds" "wf_disk d"
    and k: "0 < k" "p + k \<le> nat (numBytes (hdr f))"
    and n: "int k = (if int p + n > numBytes (hdr f) then numBytes (hdr f) - int p else n)" "0 < n"
  shows "ReadAt f d n (int p) = Inr (int k, take k (drop p (contents d (hdr f) ds)))"
proof -
  let ?len = "nat (numBytes (hdr f))"
  define fst1 lst where "fst1 = p div 128" and "lst = (p + k - 1) div 128"
  have len: "?len \<le> 128 * length ds" "0 \<le> numBytes (hdr f)" using inv by (auto simp: file_inv_def)
  note sp = sector_span [OF k(1,2) len(1), folded fst1_def lst_def]
  have D: "divRoundDown (int p) 128 = int fst1" "divRoundDown (int p + int k - 1) 128 = int lst"
    using k(1) by (simp_all add: divRoundDown_nonneg fst1_def lst_def zdiv_int of_nat_diff)
  have "fst1 + (lst + 1 - fst1) \<le> length ds" "p + k \<le> 128 * (fst1 + (lst + 1 - fst1))"
    using sp by auto
  from read_span [OF inv this(1) sp(3) this(2)] obtain buf where buf:
    "read_sectors (hdr f) d (int fst1) (lst + 1 - fst1) = Inr buf" "length buf = 128 * (lst + 1 - fst1)"
    "take k (drop (p - 128 * fst1) buf) = take k (drop p (file_data d ds))" by blast
  have off: "nat (int p - int fst1 * 128) = p - 128 * fst1" "nat (1 + int lst - int fst1) = lst + 1 - fst1"
    "0 \<le> int p - int fst1 * 128" "int p - int fst1 * 128 + int k \<le> int (length buf)"
    "\<not> numBytes (hdr f) \<le> int p" "int p + int k \<le> 128 + 128 * int lst"
    using sp buf(2) k len(2) by auto
  show ?thesis
    using k n len D buf off contents_segment [OF k(2)]
    by (simp add: ReadAt_def Let_def FileLength_def n(1) [symmetric])
qed

text \<open>The number of bytes a request of \<open>n\<close> bytes at \<open>pos\<close> transfers.\<close>

definition transfer :: "FileHeader \<Rightarrow> int \<Rightarrow> int \<Rightarrow> nat" where
  "transfer h n pos = nat (min n (numBytes h - pos))"

lemma transfer_pos:
  assumes "0 \<le> pos" "0 < transfer h n pos"
  shows "0 < n" "pos < numBytes h" "nat pos + transfer h n pos \<le> nat (numBytes h)"
    "int (transfer h n pos) = (if pos + n > numBytes h then numBytes h - pos else n)"
  using assms by (auto simp: transfer_def min_def split: if_splits)

lemma ReadAt_eq:
  assumes inv: "file_inv d (hdr f) ibs ds" "wf_disk d" "0 \<le> pos"
  shows "ReadAt f d n pos = Inr (int (transfer (hdr f) n pos),
    take (transfer (hdr f) n pos) (drop (nat pos) (contents d (hdr f) ds)))"
proof (cases "0 < transfer (hdr f) n pos")
  case True
  from ReadAt_some [OF inv(1,2) True, of "nat pos" n] transfer_pos [OF inv(3) True] inv(3)
  show ?thesis by simp
next
  case False
  then have "n \<le> 0 \<or> pos \<ge> numBytes (hdr f)" by (auto simp: transfer_def)
  with False show ?thesis by (auto simp: ReadAt_def FileLength_def)
qed

section \<open>WriteAt replaces a segment of the contents\<close>

lemma write_sectors_inv:
  assumes "file_inv d h ibs ds" "wf_disk d" "i + n \<le> length ds" "length buf = 128 * n"
  shows "\<exists>d'. write_sectors h d buf (int i) n = Inr d' \<and> wf_disk d'
    \<and> (\<forall>s. s \<notin> set (take n (drop i ds)) \<longrightarrow> d' s = d s)
    \<and> file_data d' (take n (drop i ds)) = buf"
  using assms
proof (induction n arbitrary: i d buf)
  case (Suc n)
  then have i: "i < length ds" by simp
  let ?s = "ds ! i" and ?b = "take 128 buf"
  have ok: "valid_sector ?s" "distinct (ibs @ ds)"
    using Suc.prems(1) i by (auto simp: file_inv_def index_ok_def)
  have tgt: "FileHeader_ByteToSector h d (int i * 128) = Inr ?s"
    using ByteToSector_inv [OF Suc.prems(1), of "int i * 128"] i by simp
  have seg: "take (Suc n) (drop i ds) = ?s # take n (drop (i + 1) ds)"
    using i by (simp add: Cons_nth_drop_Suc [symmetric])
  have "?s \<notin> set ibs" using ok(2) i nth_mem [OF i] by auto
  then have inv: "file_inv (d(?s := ?b)) h ibs ds"
    by (intro file_inv_frame [OF Suc.prems(1)]) auto
  have lens: "length ?b = 128" "length (drop 128 buf) = 128 * n" "i + 1 + n \<le> length ds"
    using Suc.prems(3,4) by simp_all
  have "wf_disk (d(?s := ?b))" using wf_disk_upd [OF Suc.prems(2) lens(1)] .
  from Suc.IH [OF inv this lens(3,2)] have "\<exists>d'. write_sectors h (d(?s := ?b)) (drop 128 buf) (int (i + 1)) n = Inr d' \<and> wf_disk d'
    \<and> (\<forall>s. s \<notin> set (take n (drop (i + 1) ds)) \<longrightarrow> d' s = (d(?s := ?b)) s)
    \<and> file_data d' (take n (drop (i + 1) ds)) = drop 128 buf"
    .
  then obtain d' where
    d': "write_sectors h (d(?s := ?b)) (drop 128 buf) (int i + 1) n = Inr d'" "wf_disk d'"
    "\<forall>s. s \<notin> set (take n (drop (i + 1) ds)) \<longrightarrow> d' s = (d(?s := ?b)) s"
    "file_data d' (take n (drop (i + 1) ds)) = drop 128 buf" by (auto simp: add.commute)
  have "distinct (take (Suc n) (drop i ds))" using ok(2) by simp
  then have "?s \<notin> set (take n (drop (i + 1) ds))" unfolding seg by simp
  with d'(3) have "d' ?s = ?b" by simp
  with d' tgt ok(1) show ?case unfolding seg
    by (intro exI [of _ d']) (auto simp: WriteSector_valid)
qed simp

text \<open>A write of whole sectors replaces that range of the data.\<close>

lemma file_data_replace:
  assumes "wf_disk d" "wf_disk d'" "distinct ds" "i + n \<le> length ds"
    "\<forall>s. s \<notin> set (take n (drop i ds)) \<longrightarrow> d' s = d s"
  shows "file_data d' ds = overwrite (file_data d ds) (128 * i) (file_data d' (take n (drop i ds)))"
proof -
  have ds: "ds = take i ds @ take n (drop i ds) @ drop (i + n) ds"
    by (metis append_take_drop_id drop_drop add.commute)
  have "set (take i ds) \<inter> set (take n (drop i ds)) = {}" "set (drop (i + n) ds) \<inter> set (take n (drop i ds)) = {}"
    using assms(3) ds by (metis distinct_append set_append inf_commute Int_Un_distrib Un_empty)+
  then have "file_data d' (take i ds) = file_data d (take i ds)"
    "file_data d' (drop (i + n) ds) = file_data d (drop (i + n) ds)"
    using assms(5) by (auto intro!: file_data_cong)
  moreover have "file_data d' ds = file_data d' (take i ds) @ file_data d' (take n (drop i ds))
      @ file_data d' (drop (i + n) ds)"
    using ds file_data_append by metis
  moreover have "length (file_data d' (take n (drop i ds))) = 128 * n"
    using assms(2,4) by (auto simp: min_def)
  moreover have "128 * i + 128 * n = 128 * (i + n)" by simp
  ultimately show ?thesis
    using assms(1) unfolding overwrite_def by (metis take_file_data drop_file_data)
qed

text \<open>
  The sector-aligned buffer \<open>WriteAt\<close> builds: the requested bytes in place, and around
  them, in the first and last sector, what the file held there.
\<close>

definition buffer_ok :: "byte list \<Rightarrow> nat \<Rightarrow> byte list \<Rightarrow> nat \<Rightarrow> byte list \<Rightarrow> nat \<Rightarrow> bool" where
  "buffer_ok buf start xs p ys len \<longleftrightarrow> length buf mod 128 = 0 \<and> start \<le> p
     \<and> p + length ys \<le> start + length buf \<and> p + length ys \<le> len
     \<and> (\<forall>j < length buf. start + j < len \<longrightarrow>
          buf ! j = (if p \<le> start + j \<and> start + j < p + length ys then ys ! (start + j - p)
            else xs ! (start + j)))"

lemma overwrite_buffer:
  assumes "buffer_ok buf start xs p ys len" "start + length buf \<le> length xs" "len \<le> length xs"
  shows "take len (overwrite xs start buf) = overwrite (take len xs) p ys"
proof (rule nth_equalityI)
  show "length (take len (overwrite xs start buf)) = length (overwrite (take len xs) p ys)"
    using assms by (simp add: buffer_ok_def)
next
  fix j assume "j < length (take len (overwrite xs start buf))"
  then have j: "j < len" using assms by simp
  show "take len (overwrite xs start buf) ! j = overwrite (take len xs) p ys ! j"
  proof (cases "start \<le> j \<and> j < start + length buf")
    case True
    with assms j have "buf ! (j - start) = (if p \<le> j \<and> j < p + length ys then ys ! (j - p) else xs ! j)"
      by (auto simp: buffer_ok_def)
    with True assms j show ?thesis by (simp add: nth_overwrite buffer_ok_def)
  next
    case False
    then show ?thesis using assms j by (auto simp: nth_overwrite buffer_ok_def)
  qed
qed

text \<open>What \<open>ReadAt\<close> of one sector returns: the bytes of the file in sector \<open>i\<close>.\<close>

definition sector_part :: "'a list \<Rightarrow> nat \<Rightarrow> nat \<Rightarrow> 'a list" where
  "sector_part xs len i = take (min 128 (len - 128 * i)) (drop (128 * i) xs)"

lemma length_sector_part:
  "len \<le> length xs \<Longrightarrow> length (sector_part xs len i) = min 128 (len - 128 * i)"
proof -
  assume "len \<le> length xs"
  then have "min 128 (len - 128 * i) \<le> length xs - 128 * i" by linarith
  then show ?thesis by (simp add: sector_part_def min.absorb2)
qed

lemma nth_sector_part:
  assumes "len \<le> length xs" "j < length (sector_part xs len i)"
  shows "sector_part xs len i ! j = xs ! (128 * i + j)"
proof -
  have "128 * i \<le> length xs" "j < min 128 (len - 128 * i)"
    using assms length_sector_part [OF assms(1), of i] by auto
  then show ?thesis by (simp add: sector_part_def)
qed

lemma ReadAt_sector:
  assumes inv: "file_inv d (hdr f) ibs ds" "wf_disk d" and i: "128 * i < nat (numBytes (hdr f))"
  defines "r \<equiv> sector_part (file_data d ds) (nat (numBytes (hdr f))) i"
  shows "ReadAt f d 128 (int i * 128) = Inr (int (length r), r)"
proof -
  let ?len = "nat (numBytes (hdr f))"
  have len: "?len \<le> length (file_data d ds)" "0 \<le> numBytes (hdr f)" using inv by (auto simp: file_inv_def)
  have t: "transfer (hdr f) 128 (int i * 128) = min 128 (?len - 128 * i)"
    using len by (auto simp: transfer_def min_def)
  have "128 * i + min 128 (?len - 128 * i) \<le> ?len" using i by (auto simp: min_def)
  from contents_segment [OF this, of d ds] show ?thesis
    using ReadAt_eq [OF inv, of "int i * 128" 128] length_sector_part [OF len(1), of i]
    by (simp add: t r_def nat_mult_distrib mult.commute [of i]) (simp add: sector_part_def mult.commute)
qed

lemma fill_buffer:
  fixes xs ys :: "byte list"
  assumes len: "len \<le> length xs" and ab: "a \<le> b" "128 * a \<le> p" "p < 128 * (a + 1)"
      "p + length ys \<le> 128 * (b + 1)" "128 * b < p + length ys" "p + length ys \<le> len"
    and buf0: "length buf0 = 128 * (b + 1 - a)"
  defines "buf1 \<equiv> if p \<noteq> 128 * a then overwrite buf0 0 (sector_part xs len a) else buf0"
  defines "buf2 \<equiv> if p + length ys \<noteq> 128 * (b + 1) \<and> (a \<noteq> b \<or> p = 128 * a)
      then overwrite buf1 (128 * (b - a)) (sector_part xs len b) else buf1"
  shows "length buf2 = 128 * (b + 1 - a)" "buffer_ok (overwrite buf2 (p - 128 * a) ys) (128 * a) xs p ys len"
proof -
  let ?n = "128 * (b + 1 - a)" and ?rd = "sector_part xs len"
  note lrd = length_sector_part [OF len] and nrd = nth_sector_part [OF len]
  have "?n = 128 * (b - a) + 128" using ab(1) by simp
  then have la: "0 + length (?rd a) \<le> ?n" "128 * (b - a) + length (?rd b) \<le> ?n"
    using lrd [of a] lrd [of b] by linarith+
  have l1: "length buf1 = ?n" using buf0 la by (simp add: buf1_def)
  show l2: "length buf2 = ?n" using l1 la by (simp add: buf2_def)
  have fit: "p - 128 * a + length ys \<le> length buf2" using ab l2 by auto
  have "overwrite buf2 (p - 128 * a) ys ! j =
      (if p \<le> 128 * a + j \<and> 128 * a + j < p + length ys then ys ! (128 * a + j - p) else xs ! (128 * a + j))"
    if j: "j < ?n" "128 * a + j < len" for j
  proof -
    consider (mid) "p \<le> 128 * a + j" "128 * a + j < p + length ys"
      | (low) "128 * a + j < p" | (high) "p + length ys \<le> 128 * a + j" by linarith
    then show ?thesis
    proof cases
      case mid
      have "128 * a + j - p = j - (p - 128 * a)" using mid ab by auto
      with mid ab fit j l2 show ?thesis by (auto simp: nth_overwrite)
    next
      case low
      then have pj: "p \<noteq> 128 * a" "j < 128" using ab by auto
      then have "j < length (?rd a)" using lrd [of a] j(2) by auto
      then have "buf1 ! j = xs ! (128 * a + j)"
        using pj nrd la buf0 j by (simp add: buf1_def nth_overwrite)
      moreover have "buf2 ! j = buf1 ! j"
        using pj ab la l1 j by (auto simp: buf2_def nth_overwrite)
      ultimately show ?thesis using low ab fit j l2 by (auto simp: nth_overwrite)
    next
      case high
      have jb: "128 * (b - a) \<le> j" "j < 128 * (b - a) + 128" using high ab j(1) by auto
      have "j - 128 * (b - a) < length (?rd b)" using jb lrd [of b] j(2) ab by auto
      moreover from this have "?rd b ! (j - 128 * (b - a)) = xs ! (128 * a + j)"
        using nrd [of "j - 128 * (b - a)" b] jb ab by (simp add: diff_mult_distrib2 add.commute)
      moreover have "p + length ys \<noteq> 128 * (b + 1)" using high j ab by auto
      ultimately have "buf2 ! j = xs ! (128 * a + j)"
        using jb l1 la buf0 j by (cases "a = b") (auto simp: buf2_def buf1_def nth_overwrite)
      then show ?thesis using high ab fit j l2 by (auto simp: nth_overwrite)
    qed
  qed
  then show "buffer_ok (overwrite buf2 (p - 128 * a) ys) (128 * a) xs p ys len"
    using l2 ab fit unfolding buffer_ok_def by auto
qed

lemma WriteAt_some:
  assumes inv: "file_inv d (hdr f) ibs ds" "wf_disk d"
    and k: "0 < k" "p + k \<le> nat (numBytes (hdr f))" "k \<le> length from"
    and n: "int k = (if int p + n > numBytes (hdr f) then numBytes (hdr f) - int p else n)" "0 < n"
  shows "\<exists>d'. WriteAt f g d from n (int p) = Inr (int k, d') \<and> wf_disk d'
    \<and> (\<forall>s. s \<notin> set ds \<longrightarrow> d' s = d s)
    \<and> contents d' (hdr f) ds = overwrite (contents d (hdr f) ds) p (take k from)"
proof -
  let ?len = "nat (numBytes (hdr f))" and ?fd = "file_data d ds"
  define ys where "ys = take k from"
  define a b where "a = p div 128" and "b = (p + k - 1) div 128"
  define buf0 where "buf0 = map g [0..<128 * (b + 1 - a)]"
  define buf1 where "buf1 = (if p \<noteq> 128 * a then overwrite buf0 0 (sector_part ?fd ?len a) else buf0)"
  define buf2 where "buf2 = (if p + length ys \<noteq> 128 * (b + 1) \<and> (a \<noteq> b \<or> p = 128 * a)
      then overwrite buf1 (128 * (b - a)) (sector_part ?fd ?len b) else buf1)"
  let ?buf = "overwrite buf2 (p - 128 * a) ys"
  have len: "?len \<le> 128 * length ds" "0 \<le> numBytes (hdr f)" "distinct ds" "?len \<le> length ?fd"
    using inv by (auto simp: file_inv_def index_ok_def)
  note sp = sector_span [OF k(1,2) len(1), folded a_def b_def]
  have ly: "length ys = k" using k(3) by (simp add: ys_def)
  have l0: "length buf0 = 128 * (b + 1 - a)" by (simp add: buf0_def)
  have fb: "length buf2 = 128 * (b + 1 - a)" "buffer_ok ?buf (128 * a) ?fd p ys ?len"
  proof -
    have *: "p < 128 * (a + 1)" "p + length ys \<le> 128 * (b + 1)" "128 * b < p + length ys"
      "p + length ys \<le> ?len" using sp k(2) ly by auto
    note F = fill_buffer [OF len(4) sp(1,3) * l0, folded buf1_def, folded buf2_def]
    show "length buf2 = 128 * (b + 1 - a)" by (rule F(1))
    show "buffer_ok ?buf (128 * a) ?fd p ys ?len" by (rule F(2))
  qed
  have lbuf: "length ?buf = 128 * (b + 1 - a)" using fb(1) sp ly by auto
  have rng: "a + (b + 1 - a) \<le> length ds" using sp by auto
  from write_sectors_inv [OF inv rng lbuf] obtain d' where
    d': "write_sectors (hdr f) d ?buf (int a) (b + 1 - a) = Inr d'" "wf_disk d'"
    "\<forall>s. s \<notin> set (take (b + 1 - a) (drop a ds)) \<longrightarrow> d' s = d s"
    "file_data d' (take (b + 1 - a) (drop a ds)) = ?buf" by blast
  have lt: "128 * a < ?len" "128 * b < ?len" using sp k by auto
  note rda = ReadAt_sector [OF inv lt(1)] and rdb = ReadAt_sector [OF inv lt(2)]
  have D: "divRoundDown (int p) 128 = int a" "divRoundDown (int p + int k - 1) 128 = int b"
    using k(1) by (simp_all add: divRoundDown_nonneg a_def b_def zdiv_int of_nat_diff)
  have I: "nat (int p - int a * 128) = p - 128 * a" "nat (1 + int b - int a) = b + 1 - a"
    "nat ((1 + int b - int a) * 128) = 128 * (b + 1 - a)" "nat ((int b - int a) * 128) = 128 * (b - a)"
    "int p = int a * 128 \<longleftrightarrow> p = 128 * a" "int p + int k = (int b + 1) * 128 \<longleftrightarrow> p + k = 128 * (b + 1)"
    "0 \<le> int p - int a * 128 \<and> int p - int a * 128 + int k \<le> int (length buf2) \<and> int k \<le> int (length from)"
    "\<not> numBytes (hdr f) \<le> int p" "\<not> n \<le> 0"
    using sp fb(1) k n len(2) by auto
  have b1: "(if \<not> p = 128 * a then Inr (overwrite buf0 0 (sector_part ?fd ?len a)) else Inr buf0)
      = (Inr buf1 :: byte list res)" by (simp add: buf1_def)
  have b2: "(if \<not> p + k = 128 * (b + 1) \<and> (a \<noteq> b \<or> p = 128 * a)
      then Inr (overwrite buf1 (128 * (b - a)) (sector_part ?fd ?len b)) else Inr buf1)
      = (Inr buf2 :: byte list res)" by (simp add: buf2_def ly)
  have "WriteAt f g d from n (int p) = Inr (int k, d')"
    unfolding WriteAt_def Let_def FileLength_def SectorSize_eq n(1) [symmetric] D I(1-6)
      buf0_def [symmetric] rda rdb of_nat_eq_iff bind_res.simps prod.case b1 b2
    using I(7-9) d'(1) by (simp add: ys_def [symmetric])
  moreover have "contents d' (hdr f) ds = overwrite (contents d (hdr f) ds) p ys"
  proof -
    have "file_data d' ds = overwrite ?fd (128 * a) ?buf"
      using file_data_replace [OF inv(2) d'(2) len(3) rng d'(3)] d'(4) by simp
    moreover have "128 * a + length ?buf \<le> length ?fd" using lbuf rng inv(2) by auto
    ultimately show ?thesis
      using overwrite_buffer [OF fb(2) _ len(4)] by (simp add: contents_def)
  qed
  moreover have "\<forall>s. s \<notin> set ds \<longrightarrow> d' s = d s"
    using d'(3) by (meson in_set_dropD in_set_takeD)
  ultimately show ?thesis using d'(2) unfolding ys_def by blast
qed

lemma WriteAt_eq:
  assumes inv: "file_inv d (hdr f) ibs ds" "wf_disk d" "0 \<le> pos" "n \<le> int (length from)"
  defines "k \<equiv> transfer (hdr f) n pos"
  shows "\<exists>d'. WriteAt f g d from n pos = Inr (int k, d') \<and> wf_disk d' \<and> file_inv d' (hdr f) ibs ds
    \<and> (\<forall>s. s \<notin> set ds \<longrightarrow> d' s = d s)
    \<and> contents d' (hdr f) ds = overwrite (contents d (hdr f) ds) (nat pos) (take k from)"
proof (cases "0 < k")
  case True
  note t = transfer_pos [OF inv(3) True [unfolded k_def], folded k_def]
  have t4: "int k = (if int (nat pos) + n > numBytes (hdr f) then numBytes (hdr f) - int (nat pos) else n)"
    using t(4) inv(3) by simp
  have "k \<le> length from" using inv(4) by (auto simp: k_def transfer_def)
  from WriteAt_some [OF inv(1,2) True _ this, of "nat pos" n g] t(1,3) t4 obtain d' where
    d': "WriteAt f g d from n pos = Inr (int k, d')" "wf_disk d'" "\<forall>s. s \<notin> set ds \<longrightarrow> d' s = d s"
    "contents d' (hdr f) ds = overwrite (contents d (hdr f) ds) (nat pos) (take k from)" using inv(3) by auto
  have "set ibs \<inter> set ds = {}" using inv(1) by (auto simp: file_inv_def index_ok_def)
  then have "file_inv d' (hdr f) ibs ds"
    using file_inv_frame [OF inv(1), of d'] d'(3) by auto
  with d' show ?thesis by blast
next
  case False
  then have "n \<le> 0 \<or> pos \<ge> numBytes (hdr f)" by (auto simp: k_def transfer_def)
  with False inv show ?thesis by (intro exI [of _ d]) (auto simp: WriteAt_def FileLength_def)
qed

section \<open>The layout is determined by the header and the disk\<close>

definition hdr_blocks :: "FileHeader \<Rightarrow> int list" where
  "hdr_blocks h = takeWhile (\<lambda>s. s \<noteq> -1) (dataSectors h)"

definition hdr_data :: "disk \<Rightarrow> FileHeader \<Rightarrow> int list" where
  "hdr_data d h = concat (map (\<lambda>b. takeWhile (\<lambda>s. s \<noteq> -1) (bytes_to_ints (d b))) (hdr_blocks h))"

definition file_ok :: "disk \<Rightarrow> FileHeader \<Rightarrow> bool" where
  "file_ok d h \<longleftrightarrow> wf_disk d \<and> file_inv d h (hdr_blocks h) (hdr_data d h)"

definition bytes_of :: "disk \<Rightarrow> FileHeader \<Rightarrow> byte list" where
  "bytes_of d h = contents d h (hdr_data d h)"

lemma takeWhile_used: "\<forall>x\<in>set xs. valid_sector x \<Longrightarrow> takeWhile (\<lambda>s. s \<noteq> -1) (xs @ replicate n (-1)) = xs"
  by (induction xs) (auto simp: valid_sector_def takeWhile_replicate)

lemma file_inv_layout:
  assumes "file_inv d h ibs ds"
  shows "hdr_blocks h = ibs" "hdr_data d h = ds"
proof -
  have ok: "dataSectors h = hdr_slots ibs" "\<forall>x\<in>set ibs. valid_sector x" "\<forall>x\<in>set ds. valid_sector x"
    "\<forall>k<length ibs. bytes_to_ints (d (ibs ! k)) = slots (chunk ds k)" "length ibs = (length ds + 31) div 32"
    using assms by (auto simp: file_inv_def index_ok_def)
  then show b: "hdr_blocks h = ibs" by (simp add: hdr_blocks_def hdr_slots_def takeWhile_used)
  have "takeWhile (\<lambda>s. s \<noteq> -1) (slots (chunk ds k)) = chunk ds k" for k
    using ok(3) set_chunk [of ds k] unfolding slots_def by (intro takeWhile_used) auto
  then have "map (\<lambda>b. takeWhile (\<lambda>s. s \<noteq> -1) (bytes_to_ints (d b))) ibs = map (chunk ds) [0..<length ibs]"
    using ok(4) by (intro nth_equalityI) auto
  moreover have "length ds \<le> 32 * length ibs" using ok(5) ceil32_gt [of "length ibs" "length ds"] by simp
  ultimately show "hdr_data d h = ds" by (simp add: hdr_data_def b chunk_split)
qed

lemma file_okI: "file_inv d h ibs ds \<Longrightarrow> wf_disk d \<Longrightarrow> file_ok d h"
  using file_inv_layout [of d h ibs ds] by (simp add: file_ok_def)

lemma file_okD: "file_ok d h \<Longrightarrow> wf_disk d" "file_ok d h \<Longrightarrow> file_inv d h (hdr_blocks h) (hdr_data d h)"
  by (simp_all add: file_ok_def)

lemma length_bytes_of [simp]: "file_ok d h \<Longrightarrow> length (bytes_of d h) = nat (numBytes h)"
  by (auto simp: bytes_of_def file_ok_def)

text \<open>A file depends only on its own sectors.\<close>

lemma file_ok_frame:
  assumes "file_ok d h" "wf_disk d'" "\<And>s. s \<in> set (hdr_blocks h) \<union> set (hdr_data d h) \<Longrightarrow> d' s = d s"
  shows "file_ok d' h" "hdr_data d' h = hdr_data d h" "bytes_of d' h = bytes_of d h"
proof -
  have "file_inv d' h (hdr_blocks h) (hdr_data d h)"
    using file_inv_frame [OF file_okD(2) [OF assms(1)]] assms(3) by simp
  then show "file_ok d' h" and l: "hdr_data d' h = hdr_data d h"
    using assms(2) by (auto intro: file_okI dest: file_inv_layout)
  have "file_data d' (hdr_data d h) = file_data d (hdr_data d h)"
    using assms(3) by (intro file_data_cong) auto
  with l show "bytes_of d' h = bytes_of d h" by (simp add: bytes_of_def contents_def)
qed

section \<open>The contract of a file of bytes\<close>

locale byte_file =
  fixes ok :: "'s \<Rightarrow> 'f \<Rightarrow> bool"
    and data :: "'s \<Rightarrow> 'f \<Rightarrow> byte list"
    and read_at :: "'f \<Rightarrow> 's \<Rightarrow> int \<Rightarrow> int \<Rightarrow> (int \<times> byte list) res"
    and write_at :: "'f \<Rightarrow> (nat \<Rightarrow> byte) \<Rightarrow> 's \<Rightarrow> byte list \<Rightarrow> int \<Rightarrow> int \<Rightarrow> (int \<times> 's) res"
  assumes read_law: "ok d f \<Longrightarrow> 0 \<le> pos \<Longrightarrow> k = nat (min n (int (length (data d f)) - pos))
      \<Longrightarrow> read_at f d n pos = Inr (int k, take k (drop (nat pos) (data d f)))"
    and write_law: "ok d f \<Longrightarrow> 0 \<le> pos \<Longrightarrow> n \<le> int (length bs)
      \<Longrightarrow> k = nat (min n (int (length (data d f)) - pos))
      \<Longrightarrow> \<exists>d'. write_at f g d bs n pos = Inr (int k, d') \<and> ok d' f
            \<and> data d' f = overwrite (data d f) (nat pos) (take k bs)"
begin

lemma read_back:
  assumes "ok d f" "0 \<le> pos" "pos + int (length bs) \<le> int (length (data d f))"
  shows "\<exists>d'. write_at f g d bs (int (length bs)) pos = Inr (int (length bs), d')
    \<and> ok d' f \<and> read_at f d' (int (length bs)) pos = Inr (int (length bs), bs)"
proof -
  let ?k = "nat (min (int (length bs)) (int (length (data d f)) - pos))"
  have k: "?k = length bs" using assms(3) by auto
  from write_law [OF assms(1,2) _ refl, of "int (length bs)" bs g] k obtain d' where
    d': "write_at f g d bs (int (length bs)) pos = Inr (int (length bs), d')" "ok d' f"
    "data d' f = overwrite (data d f) (nat pos) bs" by auto
  have fit: "nat pos + length bs \<le> length (data d f)" using assms(2,3) by linarith
  then have "length (data d' f) = length (data d f)" using d'(3) by simp
  with assms(3) have "length bs = nat (min (int (length bs)) (int (length (data d' f)) - pos))" by auto
  from read_law [OF d'(2) assms(2) this] have "read_at f d' (int (length bs)) pos
      = Inr (int (length bs), take (length bs) (drop (nat pos) (data d' f)))" .
  moreover have "take (length bs) (drop (nat pos) (data d' f)) = bs"
    using fit by (simp add: d'(3) overwrite_def)
  ultimately show ?thesis using d' by auto
qed

text \<open>A write never reaches outside the range it names, nor changes the length.\<close>

lemma write_frame:
  assumes "ok d f" "0 \<le> pos" "n \<le> int (length bs)" "write_at f g d bs n pos = Inr (r, d')"
  shows "length (data d' f) = length (data d f)"
    and "j < length (data d f) \<Longrightarrow> int j < pos \<or> pos + n \<le> int j \<Longrightarrow> data d' f ! j = data d f ! j"
proof -
  let ?k = "nat (min n (int (length (data d f)) - pos))"
  from write_law [OF assms(1-3) refl, of g] assms(4)
  have d': "data d' f = overwrite (data d f) (nat pos) (take ?k bs)" by auto
  show "length (data d' f) = length (data d f)"
  proof (cases "?k = 0")
    case False
    then have "nat pos + ?k \<le> length (data d f)" "?k \<le> length bs" using assms(2,3) by linarith+
    with d' show ?thesis by simp
  qed (use d' in simp)
  show "data d' f ! j = data d f ! j"
    if "j < length (data d f)" "int j < pos \<or> pos + n \<le> int j"
  proof (cases "?k = 0")
    case False
    then have "nat pos + ?k \<le> length (data d f)" "?k \<le> length bs" "\<not> (nat pos \<le> j \<and> j < nat pos + ?k)"
      using assms(2,3) that(2) by linarith+
    with d' that(1) show ?thesis by (auto simp: nth_overwrite)
  qed (use d' in simp)
qed

end

interpretation bf: byte_file "\<lambda>d f. file_ok d (hdr f)" "\<lambda>d f. bytes_of d (hdr f)" ReadAt WriteAt
proof
  fix d and f :: OpenFile and pos :: int and n :: int and k :: nat
  assume ok: "file_ok d (hdr f)" "0 \<le> pos" and "k = nat (min n (int (length (bytes_of d (hdr f))) - pos))"
  then have k: "k = transfer (hdr f) n pos"
    by (auto simp: transfer_def file_ok_def file_inv_def)
  show "ReadAt f d n pos = Inr (int k, take k (drop (nat pos) (bytes_of d (hdr f))))"
    using ReadAt_eq [OF file_okD(2,1) [OF ok(1)] ok(2)] by (simp add: k bytes_of_def)
next
  fix d and f :: OpenFile and pos :: int and n :: int and k :: nat and bs :: "byte list" and g
  assume ok: "file_ok d (hdr f)" "0 \<le> pos" "n \<le> int (length bs)"
    and "k = nat (min n (int (length (bytes_of d (hdr f))) - pos))"
  then have k: "k = transfer (hdr f) n pos"
    by (auto simp: transfer_def file_ok_def file_inv_def)
  from WriteAt_eq [OF file_okD(2,1) [OF ok(1)] ok(2,3), of g] obtain d' where
    d': "WriteAt f g d bs n pos = Inr (int k, d')" "wf_disk d'"
    "file_inv d' (hdr f) (hdr_blocks (hdr f)) (hdr_data d (hdr f))"
    "contents d' (hdr f) (hdr_data d (hdr f)) = overwrite (bytes_of d (hdr f)) (nat pos) (take k bs)"
    by (auto simp: k bytes_of_def)
  with file_inv_layout [OF d'(3)] show "\<exists>d'. WriteAt f g d bs n pos = Inr (int k, d') \<and> file_ok d' (hdr f)
      \<and> bytes_of d' (hdr f) = overwrite (bytes_of d (hdr f)) (nat pos) (take k bs)"
    by (auto simp: bytes_of_def file_ok_def)
qed

lemma WriteAt_ok:
  assumes "file_ok d (hdr f)" "0 \<le> pos" "n \<le> int (length bs)"
  defines "k \<equiv> transfer (hdr f) n pos"
  shows "\<exists>d'. WriteAt f g d bs n pos = Inr (int k, d') \<and> file_ok d' (hdr f)
    \<and> hdr_data d' (hdr f) = hdr_data d (hdr f)
    \<and> bytes_of d' (hdr f) = overwrite (bytes_of d (hdr f)) (nat pos) (take k bs)
    \<and> (\<forall>s. s \<notin> set (hdr_data d (hdr f)) \<longrightarrow> d' s = d s)"
proof -
  from WriteAt_eq [OF file_okD(2,1) [OF assms(1)] assms(2,3), of g] obtain d' where
    d': "WriteAt f g d bs n pos = Inr (int k, d')" "wf_disk d'"
    "file_inv d' (hdr f) (hdr_blocks (hdr f)) (hdr_data d (hdr f))"
    "\<forall>s. s \<notin> set (hdr_data d (hdr f)) \<longrightarrow> d' s = d s"
    "contents d' (hdr f) (hdr_data d (hdr f)) = overwrite (bytes_of d (hdr f)) (nat pos) (take k bs)"
    by (auto simp: k_def bytes_of_def)
  with file_inv_layout [OF d'(3)] show ?thesis
    by (intro exI [of _ d']) (auto simp: bytes_of_def file_ok_def)
qed

lemma ReadAt_ok:
  fixes n :: int
  assumes "file_ok d (hdr f)" "0 \<le> pos"
  defines "k \<equiv> transfer (hdr f) n pos"
  shows "ReadAt f d n pos = Inr (int k, take k (drop (nat pos) (bytes_of d (hdr f))))"
  using ReadAt_eq [OF file_okD(2,1) [OF assms(1)] assms(2)] by (simp add: k_def bytes_of_def)

lemma transfer_length:
  "file_ok d h \<Longrightarrow> transfer h n pos = nat (min n (int (length (bytes_of d h)) - pos))"
  by (auto simp: transfer_def file_ok_def file_inv_def)

lemma example_open_file:
  "\<exists>d (f :: OpenFile). file_ok d (hdr f) \<and> length (bytes_of d (hdr f)) = 300"
proof -
  obtain b' where b: "Bitmap_new 1024 = Inr b'" "wf_bitmap b'" "numBits b' = 1024" "card (free_bits b') = 1024"
    using example_bitmap by blast
  have "enough_space b' (length ([] :: int list)) (length ([] :: int list)) (nat ((300 + 127) div 128))"
    using b by (simp add: enough_space_def)
  from FileHeader_Allocate_inv [OF file_inv_new alloc_pre_new [OF wf_blank_disk b(2,3)] _ this, of 0]
  obtain h d fm ibs ds where r: "file_inv d h ibs ds" "alloc_post blank_disk b' [] [] ibs ds d fm" "numBytes h = 300"
    by (auto simp: in_int_def FileHeader_new_def)
  then have "file_ok d h" by (auto intro: file_okI simp: alloc_post_def alloc_pre_def)
  with r(3) show ?thesis
    by (intro exI [of _ d] exI [of _ "\<lparr>hdr = h, seekPosition = 0, hdrSector = 9\<rparr>"]) simp
qed

section \<open>Properties\<close>

text \<open>
  \<open>OpenFile::ReadAt\<close> on a well laid out file never fails and returns the bytes of the file
  from the given position, as many as were asked for and exist, whatever the position
  and the sector boundaries in between.
\<close>

theorem ReadAt_correct:
  fixes n :: int
  assumes "file_ok d (hdr f)" "0 \<le> pos"
  defines "k \<equiv> nat (min n (int (length (bytes_of d (hdr f))) - pos))"
  shows "ReadAt f d n pos = Inr (int k, take k (drop (nat pos) (bytes_of d (hdr f))))"
  unfolding k_def by (rule bf.read_law [OF assms(1,2) refl])

theorem ReadAt_correct_witness:
  "\<exists>d f. ReadAt f d 200 150 = Inr (150, drop 150 (bytes_of d (hdr f)))"
proof -
  obtain d and f :: OpenFile where f: "file_ok d (hdr f)" "length (bytes_of d (hdr f)) = 300"
    using example_open_file by blast
  have "ReadAt f d 200 150 = Inr (150, drop 150 (bytes_of d (hdr f)))"
    using ReadAt_correct [OF f(1), of 150 200] f(2) by simp
  then show ?thesis by blast
qed

text \<open>
  C10. \<open>OpenFile::WriteAt\<close> on a well laid out file never fails, writes the bytes that fit into
  the file and no others, keeps the layout and every sector that is not one of the
  file's data sectors, does not depend on what the buffer's memory held, and what it
  wrote is read back from the same position.
\<close>

theorem WriteAt_correct:
  assumes "file_ok d (hdr f)" "0 \<le> pos" "n \<le> int (length bs)"
  defines "k \<equiv> nat (min n (int (length (bytes_of d (hdr f))) - pos))"
  shows "\<exists>d'. WriteAt f g d bs n pos = Inr (int k, d') \<and> file_ok d' (hdr f)
    \<and> bytes_of d' (hdr f) = overwrite (bytes_of d (hdr f)) (nat pos) (take k bs)
    \<and> (\<forall>s. s \<notin> set (hdr_data d (hdr f)) \<longrightarrow> d' s = d s)
    \<and> ReadAt f d' (int k) pos = Inr (int k, take k bs)"
proof -
  have kt: "k = transfer (hdr f) n pos" by (simp add: k_def transfer_length [OF assms(1)])
  from WriteAt_ok [OF assms(1-3), of g, folded kt] obtain d' where
    d': "WriteAt f g d bs n pos = Inr (int k, d')" "file_ok d' (hdr f)"
    "bytes_of d' (hdr f) = overwrite (bytes_of d (hdr f)) (nat pos) (take k bs)"
    "\<forall>s. s \<notin> set (hdr_data d (hdr f)) \<longrightarrow> d' s = d s" by blast
  have "ReadAt f d' (int k) pos = Inr (int k, take k bs)"
  proof (cases "k = 0")
    case True
    then show ?thesis using bf.read_law [OF d'(2) assms(2) refl, of 0] by simp
  next
    case False
    then have fit: "nat pos + k \<le> length (bytes_of d (hdr f))" "k \<le> length bs"
      using assms(2,3) unfolding k_def by linarith+
    then have "k = nat (min (int k) (int (length (bytes_of d' (hdr f))) - pos))"
      using assms(2) d'(3) by simp
    from bf.read_law [OF d'(2) assms(2) this] fit show ?thesis by (simp add: d'(3) overwrite_def)
  qed
  with d' show ?thesis by blast
qed

theorem WriteAt_correct_witness:
  "\<exists>d f d'. file_ok d (hdr f) \<and> WriteAt f (\<lambda>_. 0) d (replicate 200 7) 200 150 = Inr (150, d')
    \<and> ReadAt f d' 150 150 = Inr (150, replicate 150 7)"
proof -
  obtain d and f :: OpenFile where f: "file_ok d (hdr f)" "length (bytes_of d (hdr f)) = 300"
    using example_open_file by blast
  with WriteAt_correct [OF f(1), of 150 200 "replicate 200 7" "\<lambda>_. 0"] show ?thesis
    by (simp add: min_def) blast
qed

end
