(* ===== verification/PBitmap.thy ===== *)
theory PBitmap
  imports OpenFile
begin

text \<open>
  \<open>filesys/pbitmap.cc\<close>: a bitmap kept in a file. Its words are copied to the start of the
  file and back; \<open>ReadAt\<close> may return fewer bytes than the words take, in which case the
  rest of the words in memory stays as it was.
\<close>

definition PersistentBitmap_new :: "int \<Rightarrow> Bitmap res" where
  "PersistentBitmap_new numItems = Bitmap_new numItems"

definition PersistentBitmap_FetchFrom :: "Bitmap \<Rightarrow> OpenFile \<Rightarrow> disk \<Rightarrow> Bitmap res" where
  "PersistentBitmap_FetchFrom b file d =
     bind_res (ReadAt file d (numWords b * 4) 0) (\<lambda>(_, bs).
       Inr (b\<lparr>map_words := bytes_to_words (overwrite (words_to_bytes (map_words b)) 0 bs)\<rparr>))"

definition PersistentBitmap_open :: "OpenFile \<Rightarrow> int \<Rightarrow> disk \<Rightarrow> Bitmap res" where
  "PersistentBitmap_open file numItems d =
     bind_res (Bitmap_new numItems) (\<lambda>b. bind_res (ReadAt file d (numWords b * 4) 0) (\<lambda>(_, bs).
       Inr (b\<lparr>map_words := bytes_to_words (overwrite (words_to_bytes (map_words b)) 0 bs)\<rparr>)))"

definition PersistentBitmap_WriteBack ::
  "Bitmap \<Rightarrow> OpenFile \<Rightarrow> (nat \<Rightarrow> byte) \<Rightarrow> disk \<Rightarrow> disk res" where
  "PersistentBitmap_WriteBack b file garbage d =
     bind_res (WriteAt file garbage d (words_to_bytes (map_words b)) (numWords b * 4) 0)
       (\<lambda>(_, d). Inr d)"

text \<open>\<open>saved_in d f b\<close>: the file holds exactly the words of \<open>b\<close>.\<close>

definition saved_in :: "disk \<Rightarrow> FileHeader \<Rightarrow> Bitmap \<Rightarrow> bool" where
  "saved_in d h b \<longleftrightarrow> file_ok d h \<and> bytes_of d h = words_to_bytes (map_words b)"

lemma numWords_length: "wf_bitmap b \<Longrightarrow> numWords b = int (length (map_words b))"
  by (auto simp: wf_bitmap_def divRoundUp_nonneg BitsInWord_def BitsInByte_def)

lemma PersistentBitmap_WriteBack_ok:
  assumes "file_ok d (hdr f)" "wf_bitmap b" "numBytes (hdr f) = numWords b * 4"
  shows "\<exists>d'. PersistentBitmap_WriteBack b f g d = Inr d' \<and> saved_in d' (hdr f) b
    \<and> hdr_data d' (hdr f) = hdr_data d (hdr f) \<and> (\<forall>s. s \<notin> set (hdr_data d (hdr f)) \<longrightarrow> d' s = d s)"
proof -
  let ?bs = "words_to_bytes (map_words b)"
  have n: "numWords b * 4 = int (length ?bs)" using numWords_length [OF assms(2)] by simp
  have t: "transfer (hdr f) (numWords b * 4) 0 = length ?bs"
    using n assms(3) by (simp add: transfer_def)
  have "length (bytes_of d (hdr f)) = length ?bs" using assms(1,3) n by simp
  then have "overwrite (bytes_of d (hdr f)) 0 ?bs = ?bs" by (simp add: overwrite_def)
  with WriteAt_ok [OF assms(1), of 0 "numWords b * 4" ?bs g] n t show ?thesis
    by (auto simp: PersistentBitmap_WriteBack_def saved_in_def mult.commute)
qed

lemma read_words:
  assumes "saved_in d (hdr f) b" "wf_bitmap b" "wf_bitmap b0" "numBits b0 = numBits b"
  shows "bind_res (ReadAt f d (numWords b0 * 4) 0) (\<lambda>(_, bs).
       Inr (b0\<lparr>map_words := bytes_to_words (overwrite (words_to_bytes (map_words b0)) 0 bs)\<rparr>)) = Inr b"
proof -
  have nw: "numWords b0 = numWords b" using assms(2-4) by (simp add: wf_bitmap_def)
  have ok: "file_ok d (hdr f)" and bo: "bytes_of d (hdr f) = words_to_bytes (map_words b)"
    using assms(1) by (auto simp: saved_in_def)
  have "int (length (bytes_of d (hdr f))) = numWords b * 4"
    using numWords_length [OF assms(2)] by (simp add: bo)
  then have "ReadAt f d (numWords b0 * 4) 0 = Inr (numWords b * 4, words_to_bytes (map_words b))"
    using bf.read_law [OF ok, of 0 "nat (numWords b * 4)" "numWords b * 4"] numWords_length [OF assms(2)]
    by (simp add: nw bo)
  moreover have "overwrite (words_to_bytes (map_words b0)) 0 (words_to_bytes (map_words b))
      = words_to_bytes (map_words b)"
    using nw numWords_length [OF assms(2)] numWords_length [OF assms(3)] by (simp add: overwrite_def)
  ultimately show ?thesis using nw assms(4) by (simp add: codec_simps)
qed

lemma PersistentBitmap_FetchFrom_ok:
  "saved_in d (hdr f) b \<Longrightarrow> wf_bitmap b \<Longrightarrow> wf_bitmap b0 \<Longrightarrow> numBits b0 = numBits b
    \<Longrightarrow> PersistentBitmap_FetchFrom b0 f d = Inr b"
  unfolding PersistentBitmap_FetchFrom_def by (rule read_words)

lemma PersistentBitmap_open_ok:
  assumes "saved_in d (hdr f) b" "wf_bitmap b" "numBits b = n"
  shows "PersistentBitmap_open f n d = Inr b"
proof -
  have "0 < n" using assms(2,3) by (simp add: wf_bitmap_def)
  then obtain b0 where "Bitmap_new n = Inr b0" "wf_bitmap b0" "numBits b0 = n"
    using Bitmap_new_eq by metis
  with read_words [OF assms(1,2)] assms(3) show ?thesis by (simp add: PersistentBitmap_open_def)
qed

lemma PersistentBitmap_new_ok:
  "0 < n \<Longrightarrow> \<exists>b. PersistentBitmap_new n = Inr b \<and> wf_bitmap b \<and> numBits b = n \<and> marked b = {}"
  using Bitmap_new_eq [of n] by (metis PersistentBitmap_new_def)

end
