(* ===== verification/Volume.thy ===== *)
theory Volume
  imports PBitmap
begin

text \<open>
  The invariant of a whole disk: a table \<open>M\<close> of the files by header sector, each laid out
  by its header, no sector owned twice, and every owned sector marked in the free map.
  The lemmas say how each low-level operation of the file system moves between such
  states; \<open>FileIO\<close> and \<open>FileSystem\<close> rest on them.
\<close>

definition file_sectors :: "disk \<Rightarrow> FileHeader \<Rightarrow> int set" where
  "file_sectors d h = set (hdr_blocks h) \<union> set (hdr_data d h)"

definition owned :: "disk \<Rightarrow> (int \<rightharpoonup> FileHeader) \<Rightarrow> int \<Rightarrow> int set" where
  "owned d M s = (case M s of None \<Rightarrow> {} | Some h \<Rightarrow> insert s (file_sectors d h))"

definition file_at :: "disk \<Rightarrow> int \<Rightarrow> FileHeader \<Rightarrow> bool" where
  "file_at d s h \<longleftrightarrow> valid_sector s \<and> file_ok d h \<and> bytes_to_header (d s) = h \<and> s \<notin> file_sectors d h"

definition vol_inv :: "disk \<Rightarrow> (int \<rightharpoonup> FileHeader) \<Rightarrow> Bitmap \<Rightarrow> bool" where
  "vol_inv d M fm \<longleftrightarrow> wf_disk d \<and> wf_bitmap fm \<and> numBits fm = 1024
     \<and> (\<forall>s h. M s = Some h \<longrightarrow> file_at d s h)
     \<and> (\<forall>s t. s \<noteq> t \<longrightarrow> owned d M s \<inter> owned d M t = {})
     \<and> (\<forall>s. owned d M s \<subseteq> marked fm)"

lemma owned_Some: "M s = Some h \<Longrightarrow> owned d M s = insert s (file_sectors d h)"
  by (simp add: owned_def)

lemma owned_None [simp]: "M s = None \<Longrightarrow> owned d M s = {}"
  by (simp add: owned_def)

lemma owned_upd: "owned d (M(s \<mapsto> h)) t = (if t = s then insert s (file_sectors d h) else owned d M t)"
  by (simp add: owned_def)

lemma owned_del: "owned d (M(s := None)) t = (if t = s then {} else owned d M t)"
  by (simp add: owned_def)

lemma vol_invD:
  assumes "vol_inv d M fm"
  shows "wf_disk d" "wf_bitmap fm" "numBits fm = 1024"
    and "M s = Some h \<Longrightarrow> file_at d s h"
    and "s \<noteq> t \<Longrightarrow> owned d M s \<inter> owned d M t = {}"
    and "owned d M s \<subseteq> marked fm"
  using assms by (auto simp: vol_inv_def)

lemma marked_free: "marked b = {0..<numBits b} - free_bits b"
  by (auto simp: free_bits_def marked_def)

lemma file_inv_wf_header:
  assumes "file_inv d h ibs ds"
  shows "wf_header h"
proof -
  have ok: "length ibs \<le> 29" "\<forall>s\<in>set ibs. valid_sector s" "length ds \<le> 928" "dataSectors h = hdr_slots ibs"
    using assms index_ok_length by (auto simp: file_inv_def index_ok_def)
  then have "\<forall>s\<in>set (hdr_slots ibs). in_int s"
    by (auto simp: hdr_slots_def valid_sector_in_int) (simp add: in_int_def)
  with ok assms show ?thesis by (auto simp: wf_header_def file_inv_def in_int_def)
qed

lemma file_sectors_valid: "file_ok d h \<Longrightarrow> s \<in> file_sectors d h \<Longrightarrow> valid_sector s"
  by (auto simp: file_sectors_def file_ok_def file_inv_def index_ok_def)

lemma file_ok_change:
  assumes "file_ok d h" "wf_disk d'" "\<forall>s\<in>file_sectors d h. d' s = d s"
  shows "file_ok d' h" "file_sectors d' h = file_sectors d h" "bytes_of d' h = bytes_of d h"
    "hdr_data d' h = hdr_data d h"
  using file_ok_frame [OF assms(1,2)] assms(3) by (auto simp: file_sectors_def)

text \<open>Changing sectors no file owns keeps every file.\<close>

lemma owned_frame:
  assumes "vol_inv d M fm" "wf_disk d'" "\<forall>t\<in>owned d M s. d' t = d t" "M s = Some h"
  shows "file_at d' s h" "owned d' M s = owned d M s" "bytes_of d' h = bytes_of d h"
proof -
  have at: "file_at d s h" using vol_invD(4) [OF assms(1,4)] .
  have same: "\<forall>t\<in>insert s (file_sectors d h). d' t = d t"
    using assms(3) owned_Some [of M s h d] assms(4) by simp
  note fc = file_ok_change [of d h d', OF _ assms(2)]
  show "file_at d' s h" using at fc same by (auto simp: file_at_def)
  show "owned d' M s = owned d M s" "bytes_of d' h = bytes_of d h"
    using at fc same assms(4) by (auto simp: file_at_def owned_Some)
qed

lemma vol_frame:
  assumes "vol_inv d M fm" "wf_disk d'" "\<forall>s. \<forall>t\<in>owned d M s. d' t = d t"
    and "wf_bitmap fm'" "numBits fm' = 1024" "marked fm \<subseteq> marked fm'"
  shows "vol_inv d' M fm'" "\<And>s h. M s = Some h \<Longrightarrow> bytes_of d' h = bytes_of d h"
    "owned d' M = owned d M"
proof -
  have o: "owned d' M s = owned d M s" for s
    using owned_frame(2) [OF assms(1,2)] assms(3) by (cases "M s") auto
  then show "owned d' M = owned d M" by auto
  show "\<And>s h. M s = Some h \<Longrightarrow> bytes_of d' h = bytes_of d h"
    using owned_frame(3) [OF assms(1,2)] assms(3) by blast
  have "M s = Some h \<Longrightarrow> file_at d' s h" for s h
    using owned_frame(1) [OF assms(1,2)] assms(3) by blast
  with o assms show "vol_inv d' M fm'" unfolding vol_inv_def by blast
qed

text \<open>A free sector belongs to no file.\<close>

lemma free_not_owned: "vol_inv d M fm \<Longrightarrow> s \<in> free_bits fm \<Longrightarrow> s \<notin> owned d M t"
  using vol_invD(6) [of d M fm t] by (auto simp: free_bits_def)

text \<open>A sector claimed from the free map and the file allocated for it.\<close>

definition unowned :: "disk \<Rightarrow> (int \<rightharpoonup> FileHeader) \<Rightarrow> int \<Rightarrow> bool" where
  "unowned d M s \<longleftrightarrow> (\<forall>t. s \<notin> owned d M t)"

lemma vol_claim:
  assumes "vol_inv d M fm" "free_bits fm \<noteq> {}"
  obtains s fm' where "FindAndSet fm = Inr (s, fm')" "vol_inv d M fm'" "s \<in> free_bits fm"
    "valid_sector s" "free_bits fm' = free_bits fm - {s}" "unowned d M s" "s \<in> marked fm'" "M s = None"
proof -
  have wf: "wf_bitmap fm" "numBits fm = 1024" using assms(1) by (auto simp: vol_inv_def)
  from bits.claim_some [OF wf(1) assms(2)] obtain s fm' where s: "FindAndSet fm = Inr (s, fm')"
    "wf_bitmap fm'" "numBits fm' = numBits fm" "s \<in> free_bits fm" "0 \<le> s" "s < numBits fm"
    "free_bits fm' = free_bits fm - {s}" by metis
  have m: "marked fm \<subseteq> marked fm'" "s \<in> marked fm'"
    using s unfolding marked_free by auto
  have "vol_inv d M fm'"
    using vol_frame(1) [OF assms(1), of d fm'] s wf m vol_invD(1) [OF assms(1)] by simp
  moreover have "unowned d M s" using free_not_owned [OF assms(1) s(4)] by (simp add: unowned_def)
  moreover have "M s = None"
    using \<open>unowned d M s\<close> owned_Some [of M s _ d] by (cases "M s") (auto simp: unowned_def)
  ultimately show ?thesis using that [of s fm'] s wf m by (auto simp: valid_sector_def)
qed

lemma vol_allocate:
  assumes vol: "vol_inv d M fm" and s: "valid_sector s" "unowned d M s" "s \<in> marked fm"
    and al: "FileHeader_Allocate (FileHeader_new g) d fm sz = Inr (True, h, d', fm')"
    and post: "file_inv d' h ibs ds" "alloc_post d fm [] [] ibs ds d' fm'"
  shows "vol_inv d' M fm'" "file_ok d' h" "unowned d' M s" "s \<in> marked fm'" "s \<notin> file_sectors d' h"
    "\<And>t. owned d' M t \<inter> file_sectors d' h = {}" "file_sectors d' h \<subseteq> marked fm'"
    "\<And>t h'. M t = Some h' \<Longrightarrow> bytes_of d' h' = bytes_of d h'" "owned d' M = owned d M"
proof -
  have p: "wf_disk d'" "wf_bitmap fm'" "numBits fm' = 1024" "set (ibs @ ds) \<subseteq> free_bits fm"
    "free_bits fm' = free_bits fm - set (ibs @ ds)" "\<forall>t. t \<notin> set ibs \<longrightarrow> d' t = d t"
    using post by (auto simp: alloc_post_def alloc_pre_def)
  have fs: "file_sectors d' h = set (ibs @ ds)"
    using file_inv_layout [OF post(1)] by (simp add: file_sectors_def)
  have fm: "numBits fm = 1024" using vol_invD(3) [OF vol] .
  have mk: "marked fm' = marked fm \<union> set (ibs @ ds)"
  proof -
    have "set (ibs @ ds) \<subseteq> {0..<1024}" using p(4) fm by (auto simp: free_bits_def)
    then show ?thesis using p(3,5) fm unfolding marked_free by auto
  qed
  have same: "\<forall>u. \<forall>t\<in>owned d M u. d' t = d t"
    using p(4,6) free_not_owned [OF vol] by auto
  note vf = vol_frame [OF vol p(1) same p(2,3)]
  show "vol_inv d' M fm'" using vf(1) mk by blast
  show o: "owned d' M = owned d M" using vf(3) mk by blast
  show "\<And>t h'. M t = Some h' \<Longrightarrow> bytes_of d' h' = bytes_of d h'" using vf(2) mk by blast
  show "file_ok d' h" using post(1) p(1) by (rule file_okI)
  show "unowned d' M s" using s(2) o by (simp add: unowned_def)
  show "s \<in> marked fm'" "file_sectors d' h \<subseteq> marked fm'" using s(3) mk fs by auto
  show "s \<notin> file_sectors d' h" using s(3) p(4) fs by (auto simp: free_bits_def)
  show "owned d' M t \<inter> file_sectors d' h = {}" for t
    using o fs p(4) free_not_owned [OF vol] by auto
qed

lemma bytes_to_header_of_ok: "file_ok d h \<Longrightarrow> bytes_to_header (header_to_bytes h) = h"
  using file_inv_wf_header file_okD(2) bytes_to_header_to_bytes by blast

lemma length_header_of_ok: "file_ok d h \<Longrightarrow> length (header_to_bytes h) = 128"
  using file_inv_wf_header file_okD(2) length_header_to_bytes by blast

text \<open>Writing the header of the new file into its sector adds the file to the volume.\<close>

lemma vol_add_file:
  assumes vol: "vol_inv d M fm" and s: "valid_sector s" "unowned d M s" "s \<in> marked fm"
    and h: "file_ok d h" "s \<notin> file_sectors d h" "file_sectors d h \<subseteq> marked fm"
      "\<And>t. owned d M t \<inter> file_sectors d h = {}"
  shows "\<exists>d'. FileHeader_WriteBack h d s = Inr d' \<and> vol_inv d' (M(s \<mapsto> h)) fm
    \<and> bytes_of d' h = bytes_of d h \<and> (\<forall>t h'. M t = Some h' \<longrightarrow> bytes_of d' h' = bytes_of d h')
    \<and> owned d' (M(s \<mapsto> h)) = (owned d M)(s := insert s (file_sectors d h))
    \<and> (\<forall>t. t \<noteq> s \<longrightarrow> d' t = d t)"
proof -
  let ?d = "d(s := header_to_bytes h)"
  have wf: "wf_disk ?d" using vol_invD(1) [OF vol] length_header_of_ok [OF h(1)] by (rule wf_disk_upd)
  have w: "FileHeader_WriteBack h d s = Inr ?d" using s by (simp add: FileHeader_WriteBack_def WriteSector_valid)
  have "\<forall>u. \<forall>t\<in>owned d M u. ?d t = d t" using s(2) by (auto simp: unowned_def)
  note vf = vol_frame [of d M fm ?d fm, OF vol wf this vol_invD(2,3) [OF vol] subset_refl]
  have "\<forall>t\<in>file_sectors d h. ?d t = d t" using h(2) by auto
  note hc = file_ok_change [of d h ?d, OF h(1) wf this]
  have at: "file_at ?d s h"
    using s h hc bytes_to_header_of_ok [OF h(1)] by (simp add: file_at_def)
  have new: "insert s (file_sectors ?d h) \<inter> owned ?d M t = {}" for t
    using h(4) [of t] s(2) hc(2) vf(3) by (auto simp: unowned_def)
  have "owned ?d (M(s \<mapsto> h)) t \<inter> owned ?d (M(s \<mapsto> h)) u = {}" if "t \<noteq> u" for t u
    using that vol_invD(5) [OF vf(1) that] new [of t] new [of u] unfolding owned_upd by auto
  moreover have "owned ?d (M(s \<mapsto> h)) t \<subseteq> marked fm" for t
    using vol_invD(6) [OF vf(1), of t] vf(3) hc h(3) s(3) by (auto simp: owned_upd)
  ultimately have "vol_inv ?d (M(s \<mapsto> h)) fm"
    using vf(1) at by (auto simp: vol_inv_def)
  moreover have "owned ?d (M(s \<mapsto> h)) = (owned d M)(s := insert s (file_sectors d h))"
    using vf(3) hc(2) by (auto simp: fun_eq_iff owned_upd)
  ultimately show ?thesis using w vf(2) hc by (intro exI [of _ ?d]) auto
qed
text \<open>A change confined to one file's sectors that keeps that file well formed.\<close>

lemma vol_update:
  assumes vol: "vol_inv d M fm" and s: "M s = Some h" and new: "file_at d' s h'"
    "file_sectors d' h' \<inter> (marked fm - owned d M s) = {}" "file_sectors d' h' \<subseteq> marked fm'"
    and frame: "\<forall>t. t \<notin> insert s (file_sectors d' h') \<longrightarrow> d' t = d t"
    and fm': "wf_bitmap fm'" "numBits fm' = 1024" "marked fm \<subseteq> marked fm'"
  shows "vol_inv d' (M(s \<mapsto> h')) fm'" "\<And>t hh. t \<noteq> s \<Longrightarrow> M t = Some hh \<Longrightarrow> bytes_of d' hh = bytes_of d hh"
    "owned d' (M(s \<mapsto> h')) = (owned d M)(s := insert s (file_sectors d' h'))"
proof -
  have wf: "wf_disk d'" using new(1) by (auto simp: file_at_def file_ok_def)
  have sm: "s \<in> marked fm" "s \<in> owned d M s" using vol_invD(6) [OF vol, of s] s by (auto simp: owned_Some)
  have disj: "owned d M t \<inter> insert s (file_sectors d' h') = {}" if "t \<noteq> s" for t
    using vol_invD(5) [OF vol that] vol_invD(6) [OF vol, of t] new(2) sm by blast
  have other: "file_at d' t hh" "owned d' M t = owned d M t" "bytes_of d' hh = bytes_of d hh"
    if "t \<noteq> s" "M t = Some hh" for t hh
    using owned_frame [OF vol wf _ that(2)] disj [OF that(1)] frame by blast+
  then show "\<And>t hh. t \<noteq> s \<Longrightarrow> M t = Some hh \<Longrightarrow> bytes_of d' hh = bytes_of d hh" by blast
  have o: "owned d' (M(s \<mapsto> h')) t = (if t = s then insert s (file_sectors d' h') else owned d M t)" for t
    using other(2) [of t] by (cases "M t") (auto simp: owned_upd)
  then show "owned d' (M(s \<mapsto> h')) = (owned d M)(s := insert s (file_sectors d' h'))" by auto
  have at: "(M(s \<mapsto> h')) t = Some hh \<Longrightarrow> file_at d' t hh" for t hh
    using other(1) [of t hh] new(1) by (cases "t = s") auto
  have d2: "owned d' (M(s \<mapsto> h')) t \<inter> owned d' (M(s \<mapsto> h')) u = {}" if "t \<noteq> u" for t u
    using that vol_invD(5) [OF vol that] disj [of t] disj [of u] unfolding o by auto
  have mk: "owned d' (M(s \<mapsto> h')) t \<subseteq> marked fm'" for t
    using vol_invD(6) [OF vol, of t] fm'(3) new(3) sm unfolding o by auto
  show "vol_inv d' (M(s \<mapsto> h')) fm'"
    unfolding vol_inv_def using wf fm' at d2 mk by auto
qed

lemma vol_write:
  assumes vol: "vol_inv d M fm" and s: "M s = Some (hdr f)" and arg: "0 \<le> pos" "n \<le> int (length bs)"
  defines "k \<equiv> transfer (hdr f) n pos"
  shows "\<exists>d'. WriteAt f g d bs n pos = Inr (int k, d') \<and> vol_inv d' M fm
    \<and> bytes_of d' (hdr f) = overwrite (bytes_of d (hdr f)) (nat pos) (take k bs)
    \<and> (\<forall>t hh. t \<noteq> s \<longrightarrow> M t = Some hh \<longrightarrow> bytes_of d' hh = bytes_of d hh)
    \<and> owned d' M = owned d M"
proof -
  have at: "file_at d s (hdr f)" using vol_invD(4) [OF vol s] .
  then have ok: "file_ok d (hdr f)" "s \<notin> file_sectors d (hdr f)" by (auto simp: file_at_def)
  from WriteAt_ok [OF ok(1) arg, of g, folded k_def] obtain d' where d': "WriteAt f g d bs n pos = Inr (int k, d')"
    "file_ok d' (hdr f)" "hdr_data d' (hdr f) = hdr_data d (hdr f)"
    "bytes_of d' (hdr f) = overwrite (bytes_of d (hdr f)) (nat pos) (take k bs)"
    "\<forall>s. s \<notin> set (hdr_data d (hdr f)) \<longrightarrow> d' s = d s" by blast
  have fs: "file_sectors d' (hdr f) = file_sectors d (hdr f)" using d'(3) by (simp add: file_sectors_def)
  have at': "file_at d' s (hdr f)" using at ok d' fs by (auto simp: file_at_def file_sectors_def)
  have o: "owned d M s = insert s (file_sectors d (hdr f))" using s by (rule owned_Some)
  have "file_sectors d' (hdr f) \<inter> (marked fm - owned d M s) = {}" "file_sectors d' (hdr f) \<subseteq> marked fm"
    using vol_invD(6) [OF vol, of s] fs unfolding o by auto
  moreover have "\<forall>t. t \<notin> insert s (file_sectors d' (hdr f)) \<longrightarrow> d' t = d t"
    using d'(5) fs by (auto simp: file_sectors_def)
  ultimately have "vol_inv d' (M(s \<mapsto> hdr f)) fm" "\<And>t hh. t \<noteq> s \<Longrightarrow> M t = Some hh \<Longrightarrow> bytes_of d' hh = bytes_of d hh"
    "owned d' (M(s \<mapsto> hdr f)) = (owned d M)(s := insert s (file_sectors d' (hdr f)))"
    using vol_update [OF vol s at'] vol_invD(2,3) [OF vol] by blast+
  moreover have "(owned d M)(s := insert s (file_sectors d' (hdr f))) = owned d M"
    using o fs by (simp add: fun_upd_idem)
  moreover have "M(s \<mapsto> hdr f) = M" using s by (simp add: fun_upd_idem)
  ultimately show ?thesis using d' by auto
qed

text \<open>Growing a file: its index blocks change, its old data does not.\<close>

lemma vol_extend:
  assumes vol: "vol_inv d M fm" and s: "M s = Some h" and sz: "0 \<le> sz"
    and sp: "enough_space fm (length (hdr_blocks h)) (length (hdr_data d h)) (nat ((sz + 127) div 128))"
  shows "\<exists>h' d1 d' fm'. FileHeader_Allocate h d fm sz = Inr (True, h', d1, fm')
    \<and> FileHeader_WriteBack h' d1 s = Inr d' \<and> vol_inv d' (M(s \<mapsto> h')) fm'
    \<and> numBytes h' = numBytes h + sz \<and> take (nat (numBytes h)) (bytes_of d' h') = bytes_of d h
    \<and> (\<forall>t hh. t \<noteq> s \<longrightarrow> M t = Some hh \<longrightarrow> bytes_of d' hh = bytes_of d hh)"
proof -
  let ?ibs = "hdr_blocks h" and ?ds = "hdr_data d h"
  have at: "valid_sector s" "file_ok d h" "s \<notin> file_sectors d h"
    using vol_invD(4) [OF vol s] by (auto simp: file_at_def)
  note inv = file_okD(2) [OF at(2)]
  have o: "owned d M s = insert s (set (?ibs @ ?ds))" using owned_Some [of M s h d, OF s] by (simp add: file_sectors_def)
  have "set (?ibs @ ?ds) \<inter> free_bits fm = {}" "s \<notin> free_bits fm"
    using vol_invD(6) [OF vol, of s] unfolding o by (auto simp: free_bits_def)
  moreover have "index_ok d ?ibs ?ds" using inv by (simp add: file_inv_def)
  ultimately have pre: "alloc_pre d fm ?ibs ?ds" and sf: "s \<notin> free_bits fm"
    using vol by (auto simp: alloc_pre_def vol_inv_def)
  from FileHeader_Allocate_inv [OF inv pre sz sp] obtain nibs js d1 fm' h' where
    a: "FileHeader_Allocate h d fm sz = Inr (True, h', d1, fm')" "file_inv d1 h' (?ibs @ nibs) (?ds @ js)"
    "alloc_post d fm ?ibs ?ds nibs js d1 fm'" "numBytes h' = numBytes h + sz" by blast
  have p: "wf_disk d1" "wf_bitmap fm'" "numBits fm' = 1024" "set (nibs @ js) \<subseteq> free_bits fm"
    "free_bits fm' = free_bits fm - set (nibs @ js)" "\<forall>t. t \<notin> set (?ibs @ nibs) \<longrightarrow> d1 t = d t"
    using a(3) by (auto simp: alloc_post_def alloc_pre_def)
  let ?d = "d1(s := header_to_bytes h')"
  have ok1: "file_ok d1 h'" using a(2) p(1) by (rule file_okI)
  have fs1: "file_sectors d1 h' = set (?ibs @ nibs @ ?ds @ js)" "hdr_data d1 h' = ?ds @ js"
    using file_inv_layout [OF a(2)] by (auto simp: file_sectors_def)
  have sn: "s \<notin> file_sectors d1 h'" using at(3) sf p(4) unfolding fs1 by (auto simp: file_sectors_def)
  have wf: "wf_disk ?d" using p(1) length_header_of_ok [OF ok1] by (rule wf_disk_upd)
  have "\<forall>t\<in>file_sectors d1 h'. ?d t = d1 t" using sn by auto
  note hc = file_ok_change [of d1 h' ?d, OF ok1 wf this]
  have at': "file_at ?d s h'"
    using at(1) hc sn bytes_to_header_of_ok [OF ok1] by (simp add: file_at_def)
  have mk: "marked fm' = marked fm \<union> set (nibs @ js)"
  proof -
    have "set (nibs @ js) \<subseteq> {0..<1024}" using p(4) vol_invD(3) [OF vol] by (auto simp: free_bits_def)
    then show ?thesis using p(3,5) vol_invD(3) [OF vol] unfolding marked_free by auto
  qed
  have "file_sectors ?d h' \<inter> (marked fm - owned d M s) = {}" "file_sectors ?d h' \<subseteq> marked fm'"
    using vol_invD(6) [OF vol, of s] p(4) unfolding hc(2) fs1 o mk by (auto simp: free_bits_def)
  moreover have "\<forall>t. t \<notin> insert s (file_sectors ?d h') \<longrightarrow> ?d t = d t"
    using p(6) unfolding hc(2) fs1 by auto
  ultimately have vu: "vol_inv ?d (M(s \<mapsto> h')) fm'" "\<And>t hh. t \<noteq> s \<Longrightarrow> M t = Some hh \<Longrightarrow> bytes_of ?d hh = bytes_of d hh"
    using vol_update [OF vol s at', of fm'] p(2,3) mk by blast+
  have "file_data d1 ?ds = file_data d ?ds"
  proof (rule file_data_cong)
    fix t assume "t \<in> set ?ds"
    moreover have "set ?ds \<inter> set (?ibs @ nibs) = {}"
      using a(2) by (auto simp: file_inv_def index_ok_def)
    ultimately show "d1 t = d t" using p(6) by auto
  qed
  moreover have "nat (numBytes h) \<le> length (file_data d ?ds)" "0 \<le> numBytes h"
    using inv vol_invD(1) [OF vol] by (auto simp: file_inv_def)
  ultimately have "take (nat (numBytes h)) (bytes_of ?d h') = bytes_of d h"
    unfolding hc(3) using a(4) sz by (simp add: bytes_of_def contents_def fs1 file_data_append)
  moreover have "FileHeader_WriteBack h' d1 s = Inr ?d"
    using at(1) by (simp add: FileHeader_WriteBack_def WriteSector_valid)
  ultimately show ?thesis using a vu by blast
qed

text \<open>Freeing a file's sectors and its header removes it from the volume.\<close>

lemma vol_remove:
  assumes vol: "vol_inv d M fm" and s: "M s = Some h" and small: "length (hdr_data d h) \<le> 29"
  shows "\<exists>h' fm1 fm2. FileHeader_Deallocate h d fm = Inr (h', fm1) \<and> Clear fm1 s = Inr fm2
    \<and> vol_inv d (M(s := None)) fm2 \<and> free_bits fm2 = free_bits fm \<union> owned d M s"
proof -
  have at: "valid_sector s" "file_ok d h" using vol_invD(4) [OF vol s] by (auto simp: file_at_def)
  note inv = file_okD(2) [OF at(2)]
  have o: "owned d M s = insert s (set (hdr_blocks h @ hdr_data d h))"
    using owned_Some [of M s h d, OF s] by (simp add: file_sectors_def)
  have m: "set (hdr_blocks h @ hdr_data d h) \<subseteq> marked fm" using vol_invD(6) [OF vol, of s] unfolding o by auto
  from FileHeader_Deallocate_inv [OF inv vol_invD(2,3) [OF vol] m] small obtain fm1 where
    fm1: "FileHeader_Deallocate h d fm = Inr (h\<lparr>dataSectors := replicate 29 (-1)\<rparr>, fm1)" "wf_bitmap fm1"
    "numBits fm1 = 1024" "free_bits fm1 = free_bits fm \<union> set (hdr_blocks h @ hdr_data d h)" by auto
  let ?fm2 = "clear_bit_at fm1 s"
  have sr: "0 \<le> s" "s < numBits fm1" using at(1) fm1(3) by (auto simp: valid_sector_def)
  have cl: "Clear fm1 s = Inr ?fm2" using Clear_eq [OF fm1(2) sr] .
  have fr: "free_bits ?fm2 = free_bits fm \<union> owned d M s"
    unfolding free_bits_set_bit_at(2) [OF fm1(2) sr] fm1(4) o by auto
  have "marked ?fm2 = marked fm - owned d M s"
    using fr fm1(3) vol_invD(3) [OF vol] unfolding marked_free by auto
  then have "owned d (M(s := None)) t \<subseteq> marked ?fm2" for t
    using vol_invD(6) [OF vol, of t] vol_invD(5) [OF vol, of t s] by (auto simp: owned_del)
  moreover have "t \<noteq> u \<Longrightarrow> owned d (M(s := None)) t \<inter> owned d (M(s := None)) u = {}" for t u
    using vol_invD(5) [OF vol, of t u] by (simp add: owned_del)
  ultimately have "vol_inv d (M(s := None)) ?fm2"
    using vol fm1(2,3) unfolding vol_inv_def by auto
  with fm1 cl fr show ?thesis by blast
qed

section \<open>Opening and closing on a volume\<close>

definition open_maps :: "kstate \<Rightarrow> int \<Rightarrow> kstate" where
  "open_maps k s =
     k\<lparr>OpenFileCount := (OpenFileCount k)(s \<mapsto> (case OpenFileCount k s of None \<Rightarrow> 0 | Some c \<Rightarrow> c + 1)),
       readerCount := (readerCount k)(s \<mapsto> (case readerCount k s of None \<Rightarrow> 0 | Some c \<Rightarrow> c)),
       semaphoreWrite := (semaphoreWrite k)(s \<mapsto> (case semaphoreWrite k s of None \<Rightarrow> 1 | Some c \<Rightarrow> c)),
       semaphoreRead := (semaphoreRead k)(s \<mapsto> (case semaphoreRead k s of None \<Rightarrow> 1 | Some c \<Rightarrow> c))\<rparr>"

lemma open_maps_simps [simp]:
  "dsk (open_maps k s) = dsk k" "uninit (open_maps k s) = uninit k"
  by (simp_all add: open_maps_def)

lemma OpenFile_delete_simps [simp]:
  "dsk (OpenFile_delete f k) = dsk k" "uninit (OpenFile_delete f k) = uninit k"
  by (simp_all add: OpenFile_delete_def)

lemma OpenFile_new_eq:
  assumes "valid_sector s"
  shows "OpenFile_new k s
    = Inr (\<lparr>hdr = bytes_to_header (dsk k s), seekPosition = 0, hdrSector = s\<rparr>, open_maps k s)"
  using assms
  by (auto simp: OpenFile_new_def FileHeader_FetchFrom_def ReadSector_valid Let_def open_maps_def
      map_at_def fun_upd_idem split: option.splits intro!: kstate.equality)

lemma OpenFile_new_invalid: "\<not> valid_sector s \<Longrightarrow> OpenFile_new k s = Inl AssertFailed"
  by (simp add: OpenFile_new_def FileHeader_FetchFrom_def ReadSector_invalid)

lemma vol_open:
  "vol_inv (dsk k) M fm \<Longrightarrow> M s = Some h
    \<Longrightarrow> OpenFile_new k s = Inr (\<lparr>hdr = h, seekPosition = 0, hdrSector = s\<rparr>, open_maps k s)"
  using vol_invD(4) [of "dsk k" M fm s h] OpenFile_new_eq [of s k] by (auto simp: file_at_def)

section \<open>The free map on the disk\<close>

text \<open>\<open>fs_inv\<close>: the state of the disk between operations, the free map of sector 0 saved.\<close>

definition fs_inv :: "disk \<Rightarrow> (int \<rightharpoonup> FileHeader) \<Rightarrow> Bitmap \<Rightarrow> FileHeader \<Rightarrow> bool" where
  "fs_inv d M fm h0 \<longleftrightarrow> vol_inv d M fm \<and> M 0 = Some h0 \<and> numBytes h0 = 128 \<and> saved_in d h0 fm"

lemma numWords_1024: "wf_bitmap fm \<Longrightarrow> numBits fm = 1024 \<Longrightarrow> numWords fm = 32"
  by (simp add: wf_bitmap_def divRoundUp_nonneg BitsInWord_def BitsInByte_def)

lemma vol_save_map:
  assumes vol: "vol_inv d M fm" and m0: "M 0 = Some (hdr f)" "numBytes (hdr f) = 128"
  shows "\<exists>d'. PersistentBitmap_WriteBack fm f g d = Inr d' \<and> fs_inv d' M fm (hdr f)
    \<and> (\<forall>t hh. t \<noteq> 0 \<longrightarrow> M t = Some hh \<longrightarrow> bytes_of d' hh = bytes_of d hh)
    \<and> owned d' M = owned d M"
proof -
  let ?bs = "words_to_bytes (map_words fm)"
  have wf: "wf_bitmap fm" "numWords fm = 32" using vol_invD(2,3) [OF vol] numWords_1024 by auto
  then have l: "length ?bs = 128" using numWords_length [OF wf(1)] by simp
  have ok: "file_ok d (hdr f)" using vol_invD(4) [OF vol m0(1)] by (simp add: file_at_def)
  have t: "transfer (hdr f) 128 0 = 128" using m0(2) by (simp add: transfer_def)
  from vol_write [OF vol m0(1), of 0 128 ?bs g, unfolded t] l obtain d' where
    d': "WriteAt f g d ?bs 128 0 = Inr (128, d')" "vol_inv d' M fm"
    "bytes_of d' (hdr f) = overwrite (bytes_of d (hdr f)) 0 ?bs"
    "\<forall>t hh. t \<noteq> 0 \<longrightarrow> M t = Some hh \<longrightarrow> bytes_of d' hh = bytes_of d hh" "owned d' M = owned d M" by auto
  have "file_ok d' (hdr f)" using vol_invD(4) [OF d'(2) m0(1)] by (simp add: file_at_def)
  moreover have "overwrite (bytes_of d (hdr f)) 0 ?bs = ?bs"
    using ok m0(2) l by (simp add: overwrite_def)
  ultimately have "saved_in d' (hdr f) fm" using d'(3) by (simp add: saved_in_def)
  with d' wf m0 show ?thesis by (auto simp: PersistentBitmap_WriteBack_def fs_inv_def)
qed

lemma fs_fetch_map:
  assumes "fs_inv d M fm (hdr f)"
  shows "PersistentBitmap_open f NumSectors d = Inr fm"
    and "bind_res (PersistentBitmap_new NumSectors) (\<lambda>b. bind_res (PersistentBitmap_FetchFrom b f d) c) = c fm"
proof -
  have s: "saved_in d (hdr f) fm" "wf_bitmap fm" "numBits fm = 1024"
    using assms vol_invD(2,3) by (auto simp: fs_inv_def)
  then show "PersistentBitmap_open f NumSectors d = Inr fm" using PersistentBitmap_open_ok by simp
  from PersistentBitmap_new_ok [of 1024] obtain b where "PersistentBitmap_new 1024 = Inr b" "wf_bitmap b" "numBits b = 1024"
    by auto
  with PersistentBitmap_FetchFrom_ok [OF s(1,2)] s(3)
  show "bind_res (PersistentBitmap_new NumSectors) (\<lambda>b. bind_res (PersistentBitmap_FetchFrom b f d) c) = c fm"
    by simp
qed

end
