(* ===== verification/FileIO.thy ===== *)
theory FileIO
  imports Volume
begin

text \<open>
  \<open>OpenFile::Read\<close> and \<open>OpenFile::Write\<close>: the transfers at the implicit position, with the
  readers-writers semaphores the kernel keeps per file and the extension of a file that
  is written past its end. This theory is the view of one thread running alone: \<open>P\<close> on
  a zero semaphore is the error \<open>WouldBlock\<close>. The interleaving of several readers and
  writers is in the theory \<open>ReadersWriters\<close>.
\<close>

definition sem_P :: "(int \<rightharpoonup> int) \<Rightarrow> int \<Rightarrow> (int \<rightharpoonup> int) res" where
  "sem_P m key =
     (case m key of None \<Rightarrow> Inl NullPointer
      | Some v \<Rightarrow> if v = 0 then Inl WouldBlock else Inr (m(key \<mapsto> v - 1)))"

definition sem_V :: "(int \<rightharpoonup> int) \<Rightarrow> int \<Rightarrow> (int \<rightharpoonup> int) res" where
  "sem_V m key =
     (case m key of None \<Rightarrow> Inl NullPointer | Some v \<Rightarrow> Inr (m(key \<mapsto> v + 1)))"

definition read_enter :: "kstate \<Rightarrow> int \<Rightarrow> kstate res" where
  "read_enter k key =
     bind_res (sem_P (semaphoreRead k) key) (\<lambda>sr.
       let k = k\<lparr>semaphoreRead := sr\<rparr>;
           k = (if readerCount k key \<noteq> None
                then k\<lparr>readerCount := (readerCount k)(key \<mapsto> map_at (readerCount k) key + 1)\<rparr> else k)
       in bind_res (if map_at (readerCount k) key = 1 then sem_P (semaphoreWrite k) key
                    else Inr (semaphoreWrite k)) (\<lambda>sw.
          let k = k\<lparr>semaphoreWrite := sw\<rparr>
          in bind_res (sem_V (semaphoreRead k) key) (\<lambda>sr. Inr (k\<lparr>semaphoreRead := sr\<rparr>))))"

definition read_exit :: "kstate \<Rightarrow> int \<Rightarrow> kstate res" where
  "read_exit k key =
     bind_res (sem_P (semaphoreRead k) key) (\<lambda>sr.
       let k = k\<lparr>semaphoreRead := sr\<rparr>;
           k = (if readerCount k key \<noteq> None
                then k\<lparr>readerCount := (readerCount k)(key \<mapsto> map_at (readerCount k) key - 1)\<rparr> else k)
       in bind_res (if map_at (readerCount k) key = 0 then sem_V (semaphoreWrite k) key
                    else Inr (semaphoreWrite k)) (\<lambda>sw.
          let k = k\<lparr>semaphoreWrite := sw\<rparr>
          in bind_res (sem_V (semaphoreRead k) key) (\<lambda>sr. Inr (k\<lparr>semaphoreRead := sr\<rparr>))))"

text \<open>\<open>Read\<close> returns the count, the bytes stored at \<open>into\<close>, the file and the kernel state.\<close>

definition Read :: "OpenFile \<Rightarrow> kstate \<Rightarrow> int \<Rightarrow> (int \<times> byte list \<times> OpenFile \<times> kstate) res" where
  "Read f k n =
     bind_res (read_enter k (hdrSector f)) (\<lambda>k.
     bind_res (ReadAt f (dsk k) n (seekPosition f)) (\<lambda>(result, bs).
     let f = f\<lparr>seekPosition := seekPosition f + result\<rparr>
     in bind_res (read_exit k (hdrSector f)) (\<lambda>k. Inr (result, bs, f, k))))"

definition extend_file :: "OpenFile \<Rightarrow> OpenFile \<Rightarrow> kstate \<Rightarrow> int \<Rightarrow> (OpenFile \<times> kstate) res" where
  "extend_file f freeMapFile k n =
     bind_res (PersistentBitmap_new NumSectors) (\<lambda>freeMap.
     bind_res (PersistentBitmap_FetchFrom freeMap freeMapFile (dsk k)) (\<lambda>freeMap.
     bind_res (FileHeader_Allocate (hdr f) (dsk k) freeMap n) (\<lambda>(ok, h, d, freeMap).
     ASSERT ok
       (bind_res (FileHeader_WriteBack h d (hdrSector f)) (\<lambda>d.
        bind_res (PersistentBitmap_WriteBack freeMap freeMapFile (uninit k) d) (\<lambda>d.
        Inr (f\<lparr>hdr := h\<rparr>, k\<lparr>dsk := d\<rparr>)))))))"

definition Write :: "OpenFile \<Rightarrow> OpenFile \<Rightarrow> kstate \<Rightarrow> byte list \<Rightarrow> int \<Rightarrow> (int \<times> OpenFile \<times> kstate) res" where
  "Write f freeMapFile k from n =
     bind_res (if seekPosition f + n > FileLength (hdr f) then extend_file f freeMapFile k n
               else Inr (f, k)) (\<lambda>(f, k).
     bind_res (sem_P (semaphoreWrite k) (hdrSector f)) (\<lambda>sw.
     let k = k\<lparr>semaphoreWrite := sw\<rparr>
     in bind_res (WriteAt f (uninit k) (dsk k) from n (seekPosition f)) (\<lambda>(result, d).
     let f = f\<lparr>seekPosition := seekPosition f + result\<rparr>;
         k = k\<lparr>dsk := d\<rparr>
     in bind_res (sem_V (semaphoreWrite k) (hdrSector f)) (\<lambda>sw.
        Inr (result, f, k\<lparr>semaphoreWrite := sw\<rparr>)))))"

section \<open>One thread alone\<close>

text \<open>No reader and no writer is inside: the state between calls of a single thread.\<close>

definition idle :: "kstate \<Rightarrow> int \<Rightarrow> bool" where
  "idle k key \<longleftrightarrow> semaphoreRead k key = Some 1 \<and> semaphoreWrite k key = Some 1 \<and> readerCount k key = Some 0"

lemma read_enter_idle:
  "idle k key \<Longrightarrow> read_enter k key
    = Inr (k\<lparr>readerCount := (readerCount k)(key \<mapsto> 1), semaphoreWrite := (semaphoreWrite k)(key \<mapsto> 0)\<rparr>)"
  by (simp add: idle_def read_enter_def sem_P_def sem_V_def Let_def map_at_def fun_upd_idem)

lemma read_exit_idle:
  "idle k key \<Longrightarrow> read_exit (k\<lparr>readerCount := (readerCount k)(key \<mapsto> 1),
      semaphoreWrite := (semaphoreWrite k)(key \<mapsto> 0)\<rparr>) key = Inr k"
  by (simp add: idle_def read_exit_def sem_P_def sem_V_def Let_def map_at_def fun_upd_idem)

text \<open>A file just opened for the first time is idle.\<close>

lemma open_maps_idle:
  "semaphoreRead k s = None \<Longrightarrow> semaphoreWrite k s = None \<Longrightarrow> readerCount k s = None \<Longrightarrow> idle (open_maps k s) s"
  by (simp add: idle_def open_maps_def)

lemma open_maps_keeps_idle: "idle k s \<Longrightarrow> idle (open_maps k t) s"
  by (auto simp: idle_def open_maps_def)

lemma Read_ok:
  fixes n :: int
  assumes "file_ok (dsk k) (hdr f)" "idle k (hdrSector f)" "0 \<le> seekPosition f"
  defines "m \<equiv> transfer (hdr f) n (seekPosition f)"
  shows "Read f k n = Inr (int m, take m (drop (nat (seekPosition f)) (bytes_of (dsk k) (hdr f))),
      f\<lparr>seekPosition := seekPosition f + int m\<rparr>, k)"
  using assms ReadAt_ok [OF assms(1,3), of n]
  by (simp add: Read_def read_enter_idle read_exit_idle Let_def)

lemma sem_P_V_idle:
  "idle k key \<Longrightarrow> sem_P (semaphoreWrite k) key = Inr ((semaphoreWrite k)(key \<mapsto> 0))
    \<and> sem_V ((semaphoreWrite k)(key \<mapsto> 0)) key = Inr (semaphoreWrite k)"
  by (simp add: idle_def sem_P_def sem_V_def fun_upd_idem)

text \<open>Writing within the file.\<close>

lemma Write_inside:
  assumes "vol_inv (dsk k) M fm" "M (hdrSector f) = Some (hdr f)" "idle k (hdrSector f)"
    "0 \<le> seekPosition f" "n \<le> int (length bs)" "seekPosition f + n \<le> numBytes (hdr f)" "0 \<le> n"
  shows "\<exists>d'. Write f fmf k bs n = Inr (n, f\<lparr>seekPosition := seekPosition f + n\<rparr>, k\<lparr>dsk := d'\<rparr>)
    \<and> vol_inv d' M fm
    \<and> bytes_of d' (hdr f) = overwrite (bytes_of (dsk k) (hdr f)) (nat (seekPosition f)) (take (nat n) bs)
    \<and> (\<forall>t hh. t \<noteq> hdrSector f \<longrightarrow> M t = Some hh \<longrightarrow> bytes_of d' hh = bytes_of (dsk k) hh)"
proof -
  have t: "transfer (hdr f) n (seekPosition f) = nat n" using assms by (simp add: transfer_def)
  from vol_write [OF assms(1,2,4,5), of "uninit k", unfolded t] assms(7) obtain d' where
    d': "WriteAt f (uninit k) (dsk k) bs n (seekPosition f) = Inr (n, d')" "vol_inv d' M fm"
    "bytes_of d' (hdr f) = overwrite (bytes_of (dsk k) (hdr f)) (nat (seekPosition f)) (take (nat n) bs)"
    "\<forall>t hh. t \<noteq> hdrSector f \<longrightarrow> M t = Some hh \<longrightarrow> bytes_of d' hh = bytes_of (dsk k) hh" by auto
  have "Write f fmf k bs n = Inr (n, f\<lparr>seekPosition := seekPosition f + n\<rparr>, k\<lparr>dsk := d'\<rparr>)"
    using assms(6) d'(1) sem_P_V_idle [OF assms(3)]
    by (simp add: Write_def FileLength_def Let_def)
  with d' show ?thesis by blast
qed
text \<open>Growing the file: the header and the free map on the disk follow.\<close>

lemma extend_file_ok:
  assumes fs: "fs_inv (dsk k) M fm (hdr fmf)" and f: "M (hdrSector f) = Some (hdr f)" "hdrSector f \<noteq> 0" "0 \<le> n"
    and sp: "enough_space fm (length (hdr_blocks (hdr f))) (length (hdr_data (dsk k) (hdr f))) (nat ((n + 127) div 128))"
  shows "\<exists>h' d' fm'. extend_file f fmf k n = Inr (f\<lparr>hdr := h'\<rparr>, k\<lparr>dsk := d'\<rparr>)
    \<and> fs_inv d' (M(hdrSector f \<mapsto> h')) fm' (hdr fmf)
    \<and> numBytes h' = numBytes (hdr f) + n
    \<and> take (nat (numBytes (hdr f))) (bytes_of d' h') = bytes_of (dsk k) (hdr f)
    \<and> (\<forall>t hh. t \<noteq> hdrSector f \<longrightarrow> t \<noteq> 0 \<longrightarrow> M t = Some hh \<longrightarrow> bytes_of d' hh = bytes_of (dsk k) hh)"
proof -
  let ?s = "hdrSector f" and ?d = "dsk k"
  have vol: "vol_inv ?d M fm" and m0: "M 0 = Some (hdr fmf)" "numBytes (hdr fmf) = 128"
    using fs by (auto simp: fs_inv_def)
  from vol_extend [OF vol f(1,3) sp] obtain h' d1 d2 fm' where
    e: "FileHeader_Allocate (hdr f) ?d fm n = Inr (True, h', d1, fm')" "FileHeader_WriteBack h' d1 ?s = Inr d2"
    "vol_inv d2 (M(?s \<mapsto> h')) fm'" "numBytes h' = numBytes (hdr f) + n"
    "take (nat (numBytes (hdr f))) (bytes_of d2 h') = bytes_of ?d (hdr f)"
    "\<forall>t hh. t \<noteq> ?s \<longrightarrow> M t = Some hh \<longrightarrow> bytes_of d2 hh = bytes_of ?d hh" by blast
  have "(M(?s \<mapsto> h')) 0 = Some (hdr fmf)" using m0(1) f(2) by simp
  from vol_save_map [OF e(3) this m0(2), of "uninit k"] obtain d3 where
    w: "PersistentBitmap_WriteBack fm' fmf (uninit k) d2 = Inr d3" "fs_inv d3 (M(?s \<mapsto> h')) fm' (hdr fmf)"
    "\<forall>t hh. t \<noteq> 0 \<longrightarrow> (M(?s \<mapsto> h')) t = Some hh \<longrightarrow> bytes_of d3 hh = bytes_of d2 hh" by blast
  have "extend_file f fmf k n = Inr (f\<lparr>hdr := h'\<rparr>, k\<lparr>dsk := d3\<rparr>)"
    unfolding extend_file_def fs_fetch_map(2) [OF fs] using e(1,2) w(1) by simp
  moreover have "bytes_of d3 h' = bytes_of d2 h'" using w(3) f(2) by auto
  moreover have "bytes_of d3 hh = bytes_of ?d hh" if "t \<noteq> ?s" "t \<noteq> 0" "M t = Some hh" for t hh
    using w(3) e(6) that by (metis fun_upd_apply)
  ultimately show ?thesis using e w(2) by (intro exI [of _ h'] exI [of _ d3] exI [of _ fm']) auto
qed

lemma idle_dsk [simp]: "idle (k\<lparr>dsk := d\<rparr>) s = idle k s"
  by (simp add: idle_def)

lemma Write_ok:
  assumes fs: "fs_inv (dsk k) M fm (hdr fmf)" "M (hdrSector f) = Some (hdr f)" "hdrSector f \<noteq> 0"
    and id: "idle k (hdrSector f)" "0 \<le> seekPosition f" "seekPosition f \<le> numBytes (hdr f)"
    and n: "0 \<le> n" "n \<le> int (length bs)"
    and sp: "enough_space fm (length (hdr_blocks (hdr f))) (length (hdr_data (dsk k) (hdr f))) (nat ((n + 127) div 128))"
  shows "\<exists>h' d' fm'. Write f fmf k bs n
      = Inr (n, f\<lparr>hdr := h', seekPosition := seekPosition f + n\<rparr>, k\<lparr>dsk := d'\<rparr>)
    \<and> fs_inv d' (M(hdrSector f \<mapsto> h')) fm' (hdr fmf)
    \<and> numBytes h' = numBytes (hdr f) + (if seekPosition f + n > numBytes (hdr f) then n else 0)
    \<and> take (nat (seekPosition f)) (bytes_of d' h') = take (nat (seekPosition f)) (bytes_of (dsk k) (hdr f))
    \<and> take (nat n) (drop (nat (seekPosition f)) (bytes_of d' h')) = take (nat n) bs
    \<and> (\<forall>t hh. t \<noteq> hdrSector f \<longrightarrow> t \<noteq> 0 \<longrightarrow> M t = Some hh \<longrightarrow> bytes_of d' hh = bytes_of (dsk k) hh)"
proof -
  let ?s = "hdrSector f" and ?p = "nat (seekPosition f)" and ?grow = "seekPosition f + n > numBytes (hdr f)"
  obtain h1 d1 fm1 where
    e: "(if ?grow then extend_file f fmf k n else Inr (f, k)) = Inr (f\<lparr>hdr := h1\<rparr>, k\<lparr>dsk := d1\<rparr>)"
    "fs_inv d1 (M(?s \<mapsto> h1)) fm1 (hdr fmf)" "numBytes h1 = numBytes (hdr f) + (if ?grow then n else 0)"
    "take (nat (numBytes (hdr f))) (bytes_of d1 h1) = bytes_of (dsk k) (hdr f)"
    "\<forall>t hh. t \<noteq> ?s \<longrightarrow> t \<noteq> 0 \<longrightarrow> M t = Some hh \<longrightarrow> bytes_of d1 hh = bytes_of (dsk k) hh"
  proof (cases ?grow)
    case True
    with extend_file_ok [OF fs n(1) sp] that show ?thesis by auto
  next
    case False
    have "M(?s \<mapsto> hdr f) = M" using fs(2) by (simp add: fun_upd_idem)
    moreover have "file_ok (dsk k) (hdr f)"
      using fs vol_invD(4) [of "dsk k" M fm ?s "hdr f"] by (auto simp: fs_inv_def file_at_def)
    ultimately show ?thesis using False fs(1) that [of "hdr f" "dsk k" fm] by simp
  qed
  let ?f = "f\<lparr>hdr := h1\<rparr>" and ?k = "k\<lparr>dsk := d1\<rparr>" and ?M = "M(?s \<mapsto> h1)"
  have vol: "vol_inv (dsk ?k) ?M fm1" and m0: "M 0 = Some (hdr fmf)" "numBytes (hdr fmf) = 128" "saved_in d1 (hdr fmf) fm1"
    using e(2) fs(3) by (auto simp: fs_inv_def)
  have room: "seekPosition ?f + n \<le> numBytes (hdr ?f)" using e(3) id(3) by simp
  have "?M (hdrSector ?f) = Some (hdr ?f)" "idle ?k (hdrSector ?f)" "0 \<le> seekPosition ?f" using id by simp_all
  from Write_inside [of ?k ?M fm1 ?f n bs fmf, OF vol this n(2) room n(1)] obtain d' where
    w: "Write ?f fmf ?k bs n = Inr (n, ?f\<lparr>seekPosition := seekPosition f + n\<rparr>, k\<lparr>dsk := d'\<rparr>)"
    "vol_inv d' ?M fm1" "bytes_of d' h1 = overwrite (bytes_of d1 h1) ?p (take (nat n) bs)"
    "\<forall>t hh. t \<noteq> ?s \<longrightarrow> ?M t = Some hh \<longrightarrow> bytes_of d' hh = bytes_of d1 hh" by auto
  have "Write f fmf k bs n = Write ?f fmf ?k bs n"
    unfolding Write_def FileLength_def e(1) using room by simp
  with w(1) have run: "Write f fmf k bs n
      = Inr (n, f\<lparr>hdr := h1, seekPosition := seekPosition f + n\<rparr>, k\<lparr>dsk := d'\<rparr>)" by simp
  have "file_ok d1 h1" using vol_invD(4) [OF vol, of ?s h1] by (auto simp: file_at_def)
  then have fit: "?p + length (take (nat n) bs) \<le> length (bytes_of d1 h1)"
    using room n id(2) by auto
  have "bytes_of d' (hdr fmf) = bytes_of d1 (hdr fmf)" using w(4) m0(1) fs(3) by (metis fun_upd_apply)
  then have "saved_in d' (hdr fmf) fm1"
    using m0 fs(3) vol_invD(4) [OF w(2), of 0 "hdr fmf"] by (auto simp: saved_in_def file_at_def)
  then have "fs_inv d' ?M fm1 (hdr fmf)" using w(2) m0 fs(3) by (simp add: fs_inv_def)
  moreover have "take ?p (bytes_of d' h1) = take ?p (bytes_of (dsk k) (hdr f))"
  proof -
    have "?p \<le> length (bytes_of d1 h1)" using fit by simp
    then have "take ?p (bytes_of d' h1) = take ?p (bytes_of d1 h1)" by (simp add: w(3) overwrite_def)
    also have "\<dots> = take ?p (take (nat (numBytes (hdr f))) (bytes_of d1 h1))"
      using id(3) by (simp add: min_def nat_mono)
    finally show ?thesis unfolding e(4) .
  qed
  moreover have "take (nat n) (drop ?p (bytes_of d' h1)) = take (nat n) bs"
    using fit n by (simp add: w(3) overwrite_def)
  moreover have "bytes_of d' hh = bytes_of (dsk k) hh" if "t \<noteq> ?s" "t \<noteq> 0" "M t = Some hh" for t hh
    using w(4) e(5) that by (metis fun_upd_apply)
  ultimately show ?thesis using run e(3)
    by (intro exI [of _ h1] exI [of _ d'] exI [of _ fm1]) auto
qed

section \<open>Properties\<close>


end
