(* ===== verification/FilePrint.thy ===== *)
theory FilePrint
  imports OpenFile
begin

text \<open>
  What \<open>printf\<close> writes: the conversions the file system uses and \<open>FileHeader::Print\<close>
  (\<open>filesys/filehdr.cc\<close>), which reads the disk, and which \<open>FileSystem::Open\<close> calls through
  \<open>Directory::Print\<close>. Output is a character list.
\<close>

definition digit_char :: "nat \<Rightarrow> char" where
  "digit_char n = char_of (if n < 10 then 48 + n else 87 + n)"

fun show_base :: "nat \<Rightarrow> nat \<Rightarrow> string" where
  "show_base b n = (if b < 2 \<or> n < b then [digit_char n] else show_base b (n div b) @ [digit_char (n mod b)])"

declare show_base.simps [simp del]

definition show_d :: "int \<Rightarrow> string" where   \<comment> \<open>\<open>%d\<close>\<close>
  "show_d i = (if i < 0 then CHR ''-'' # show_base 10 (nat (- i)) else show_base 10 (nat i))"

definition show_x :: "byte \<Rightarrow> string" where   \<comment> \<open>\<open>%x\<close> of an unsigned char\<close>
  "show_x b = show_base 16 (unat b)"

definition byte_char :: "byte \<Rightarrow> char" where
  "byte_char b = char_of (unat b)"

text \<open>\<open>%s\<close> of a character array: without a terminator the read leaves the array.\<close>

definition show_s :: "byte list \<Rightarrow> string res" where
  "show_s bs = CHECK_BOUNDS (0 \<in> set bs) (Inr (map byte_char (takeWhile (\<lambda>b. b \<noteq> 0) bs)))"

definition newline :: string where "newline = [CHR 0x0A]"

definition show_byte :: "byte \<Rightarrow> string" where
  "show_byte b = (if 0x20 \<le> unat b \<and> unat b \<le> 0x7E then [byte_char b] else CHR 0x5C # show_x b)"

section \<open>FileHeader::Print\<close>

fun print_sector_list :: "FileHeader \<Rightarrow> nat \<Rightarrow> nat \<Rightarrow> string res" where
  "print_sector_list h i 0 = Inr []"
| "print_sector_list h i (Suc n) =
     CHECK_BOUNDS (i < NumDirect)
       (bind_res (print_sector_list h (i + 1) n) (\<lambda>out.
          Inr (show_d (dataSectors h ! i) @ '' '' @ out)))"

text \<open>The loop over \<open>i\<close>, with \<open>k\<close> the number of bytes of the file printed so far.\<close>

fun print_file_data :: "FileHeader \<Rightarrow> disk \<Rightarrow> nat \<Rightarrow> nat \<Rightarrow> nat \<Rightarrow> string res" where
  "print_file_data h d i k 0 = Inr []"
| "print_file_data h d i k (Suc n) =
     CHECK_BOUNDS (i < NumDirect)
       (let s = dataSectors h ! i
        in if s < 0 \<or> s > NumSectors then print_file_data h d (i + 1) k n
           else bind_res (ReadSector d s) (\<lambda>data.
             let m = min (nat SectorSize) (nat (numBytes h) - k)
             in bind_res (print_file_data h d (i + 1) (k + m) n) (\<lambda>out.
                  Inr (concat (map show_byte (take m data)) @ newline @ out))))"

definition FileHeader_Print :: "FileHeader \<Rightarrow> disk \<Rightarrow> string res" where
  "FileHeader_Print h d =
     bind_res (print_sector_list h 0 (nat (numSectors h))) (\<lambda>blocks.
     bind_res (print_file_data h d 0 0 (nat (numSectors h))) (\<lambda>data.
       Inr (''FileHeader contents.  File size: '' @ show_d (numBytes h) @ ''.  File blocks:''
         @ newline @ blocks @ newline @ ''File contents:'' @ newline @ data)))"

lemma print_sector_list_total: "i + n \<le> 29 \<Longrightarrow> \<exists>out. print_sector_list h i n = Inr out"
proof (induction n arbitrary: i)
  case (Suc n)
  then obtain out where "print_sector_list h (i + 1) n = Inr out" by fastforce
  with Suc.prems show ?case by auto
qed simp

lemma print_file_data_total:
  assumes "i + n \<le> 29" "\<forall>s\<in>set (dataSectors h). s = -1 \<or> valid_sector s" "length (dataSectors h) = 29"
  shows "\<exists>out. print_file_data h d i k n = Inr out"
  using assms(1)
proof (induction n arbitrary: i k)
  case (Suc n)
  then have i: "i < 29" by simp
  with assms(2,3) have "dataSectors h ! i = -1 \<or> valid_sector (dataSectors h ! i)" by auto
  then show ?case
  proof
    assume "dataSectors h ! i = -1"
    with Suc.IH [of "i + 1" k] Suc.prems i show ?thesis by (auto simp: Let_def)
  next
    let ?m = "min 128 (nat (numBytes h) - k)"
    assume "valid_sector (dataSectors h ! i)"
    moreover obtain out where "print_file_data h d (i + 1) (k + ?m) n = Inr out"
      using Suc.IH [of "i + 1" "k + ?m"] Suc.prems by auto
    ultimately show ?thesis
      using i by (auto simp: Let_def ReadSector_valid valid_sector_def)
  qed
qed simp

lemma FileHeader_Print_total:
  assumes "file_ok d h" "length (hdr_data d h) \<le> 29"
  shows "\<exists>out. FileHeader_Print h d = Inr out"
proof -
  have inv: "file_inv d h (hdr_blocks h) (hdr_data d h)" using assms(1) by (rule file_okD(2))
  then have s: "dataSectors h = hdr_slots (hdr_blocks h)" "\<forall>s\<in>set (hdr_blocks h). valid_sector s"
    "length (hdr_blocks h) \<le> 29" "numSectors h = int (length (hdr_data d h))"
    by (auto simp: file_inv_def index_ok_def)
  then have "\<forall>s\<in>set (dataSectors h). s = -1 \<or> valid_sector s" "length (dataSectors h) = 29"
    by (auto simp: hdr_slots_def)
  with print_file_data_total [of 0 "nat (numSectors h)" h d 0]
    print_sector_list_total [of 0 "nat (numSectors h)" h] s(4) assms(2)
  show ?thesis by (auto simp: FileHeader_Print_def)
qed

lemma FileHeader_Print_overrun:
  assumes "29 < numSectors h"
  shows "FileHeader_Print h d = Inl OutOfBounds"
proof -
  have "print_sector_list h i n = Inl OutOfBounds" if "i + n > 29" "i \<le> 29" for i n
    using that
  proof (induction n arbitrary: i)
    case (Suc n)
    show ?case
    proof (cases "i = 29")
      case False
      then have "print_sector_list h (i + 1) n = Inl OutOfBounds" using Suc by simp
      then show ?thesis using False Suc.prems by simp
    qed simp
  qed simp
  from this [of 0 "nat (numSectors h)"] assms show ?thesis by (simp add: FileHeader_Print_def)
qed

end
