(* ===== verification/Directory.thy ===== *)
theory Directory
  imports FilePrint Volume
begin

text \<open>
  \<open>filesys/directory.cc\<close>: a directory, a table of name and header sector pairs stored in a
  file. The table in memory is a list of entries; \<open>dir_abs\<close> reads it as a finite map from
  names to sectors, and the operations are proved to implement the map.
\<close>

section \<open>Names\<close>

text \<open>
  A \<open>char *\<close> argument is the list of its characters before the terminator; reading past
  the end of the list yields the terminator.
\<close>

definition FileNameMaxLen :: nat where "FileNameMaxLen = 9"
definition INCREASE_FACTOR :: nat where "INCREASE_FACTOR = 2"

definition first_char :: "byte list \<Rightarrow> byte" where
  "first_char s = (case s of [] \<Rightarrow> 0 | c # _ \<Rightarrow> c)"

text \<open>\<open>strncmp(a, b, n) == 0\<close> and \<open>strncpy(dst, src, n)\<close>.\<close>

fun strncmp_eq :: "nat \<Rightarrow> byte list \<Rightarrow> byte list \<Rightarrow> bool" where
  "strncmp_eq 0 a b = True"
| "strncmp_eq (Suc n) a b =
     (if first_char a \<noteq> first_char b then False
      else if first_char a = 0 then True else strncmp_eq n (tl a) (tl b))"

definition strncpy :: "byte list \<Rightarrow> byte list \<Rightarrow> nat \<Rightarrow> byte list" where
  "strncpy dst src n = take n (takeWhile (\<lambda>c. c \<noteq> 0) src @ replicate n 0) @ drop n dst"

section \<open>class DirectoryEntry\<close>

record DirectoryEntry =
  isDir :: bool
  inUse :: bool
  sector :: int
  name :: "byte list"   \<comment> \<open>FileNameMaxLen + 1 characters\<close>

text \<open>
  The memory image: the two flags, two bytes of padding, the sector, the name, two bytes
  of padding (\<open>sizeof(DirectoryEntry)\<close> is 20). The padding, which no code reads, is
  written as zero here.
\<close>

definition bool_byte :: "bool \<Rightarrow> byte" where
  "bool_byte b = (if b then 1 else 0)"

definition entry_to_bytes :: "DirectoryEntry \<Rightarrow> byte list" where
  "entry_to_bytes e =
     [bool_byte (isDir e), bool_byte (inUse e), 0, 0] @ int_to_bytes (sector e) @ name e @ [0, 0]"

definition bytes_to_entry :: "byte list \<Rightarrow> DirectoryEntry" where
  "bytes_to_entry bs =
     \<lparr>isDir = (bs ! 0 \<noteq> 0), inUse = (bs ! 1 \<noteq> 0), sector = bytes_to_int (take 4 (drop 4 bs)),
      name = take 10 (drop 8 bs)\<rparr>"

definition table_to_bytes :: "DirectoryEntry list \<Rightarrow> byte list" where
  "table_to_bytes es = concat (map entry_to_bytes es)"

fun bytes_to_table :: "nat \<Rightarrow> byte list \<Rightarrow> DirectoryEntry list" where
  "bytes_to_table 0 bs = []"
| "bytes_to_table (Suc n) bs = bytes_to_entry (take 20 bs) # bytes_to_table n (drop 20 bs)"

section \<open>class Directory\<close>

record Directory =
  tableSize :: int
  table :: "DirectoryEntry list"

text \<open>\<open>new DirectoryEntry[size]\<close> with the flags set, everything else as memory had it.\<close>

definition new_table :: "(nat \<Rightarrow> byte) \<Rightarrow> int \<Rightarrow> DirectoryEntry list" where
  "new_table garbage n = map (\<lambda>e. e\<lparr>inUse := False\<rparr>) (bytes_to_table (nat n) (map garbage [0..<20 * nat n]))"

definition Directory_new :: "(nat \<Rightarrow> byte) \<Rightarrow> int \<Rightarrow> Directory" where
  "Directory_new garbage n = \<lparr>tableSize = n, table = new_table garbage n\<rparr>"

definition Directory_FetchFrom :: "Directory \<Rightarrow> OpenFile \<Rightarrow> disk \<Rightarrow> Directory res" where
  "Directory_FetchFrom dir file d =
     bind_res (ReadAt file d (tableSize dir * 20) 0) (\<lambda>(_, bs).
       Inr (dir\<lparr>table := bytes_to_table (length (table dir)) (overwrite (table_to_bytes (table dir)) 0 bs)\<rparr>))"

definition Directory_WriteBack :: "Directory \<Rightarrow> OpenFile \<Rightarrow> (nat \<Rightarrow> byte) \<Rightarrow> disk \<Rightarrow> disk res" where
  "Directory_WriteBack dir file garbage d =
     bind_res (WriteAt file garbage d (table_to_bytes (table dir)) (tableSize dir * 20) 0)
       (\<lambda>(_, d). Inr d)"

fun FindIndex_from :: "DirectoryEntry list \<Rightarrow> int \<Rightarrow> byte list \<Rightarrow> int" where
  "FindIndex_from [] i nm = -1"
| "FindIndex_from (e # es) i nm =
     (if inUse e \<and> strncmp_eq FileNameMaxLen (name e) nm then i else FindIndex_from es (i + 1) nm)"

definition FindIndex :: "Directory \<Rightarrow> byte list \<Rightarrow> int" where
  "FindIndex dir nm = FindIndex_from (take (nat (tableSize dir)) (table dir)) 0 nm"

definition Find :: "Directory \<Rightarrow> byte list \<Rightarrow> int" where
  "Find dir nm = (let i = FindIndex dir nm in if i \<noteq> -1 then sector (table dir ! nat i) else -1)"

definition isDirectory :: "Directory \<Rightarrow> byte list \<Rightarrow> bool" where
  "isDirectory dir nm = (let i = FindIndex dir nm in if i \<noteq> -1 then isDir (table dir ! nat i) else False)"

definition set_entry :: "bool \<Rightarrow> byte list \<Rightarrow> int \<Rightarrow> DirectoryEntry \<Rightarrow> DirectoryEntry" where
  "set_entry dirflag nm newSector e =
     e\<lparr>inUse := True, name := strncpy (name e) nm FileNameMaxLen, sector := newSector, isDir := dirflag\<rparr>"

text \<open>The search loop of \<open>Add\<close> and \<open>AddDirectory\<close>: the first entry not in use is filled.\<close>

fun fill_first :: "(DirectoryEntry \<Rightarrow> DirectoryEntry) \<Rightarrow> DirectoryEntry list \<Rightarrow> DirectoryEntry list option" where
  "fill_first f [] = None"
| "fill_first f (e # es) =
     (if \<not> inUse e then Some (f e # es)
      else case fill_first f es of None \<Rightarrow> None | Some es' \<Rightarrow> Some (e # es'))"

definition Expand :: "(nat \<Rightarrow> byte) \<Rightarrow> Directory \<Rightarrow> int \<Rightarrow> Directory" where
  "Expand garbage dir n =
     dir\<lparr>table := map (\<lambda>i. if int i < tableSize dir then table dir ! i
                            else new_table garbage n ! i) [0..<nat n],
         tableSize := tableSize dir * 2\<rparr>"

definition Add :: "(nat \<Rightarrow> byte) \<Rightarrow> Directory \<Rightarrow> byte list \<Rightarrow> int \<Rightarrow> (bool \<times> Directory) res" where
  "Add garbage dir nm newSector =
     (if FindIndex dir nm \<noteq> -1 then Inr (False, dir)
      else case fill_first (set_entry False nm newSector) (table dir) of
        Some es \<Rightarrow> Inr (True, dir\<lparr>table := es\<rparr>)
      | None \<Rightarrow>
        (let dir = Expand garbage dir (tableSize dir * int INCREASE_FACTOR)
         in case fill_first (set_entry False nm newSector) (table dir) of
              Some es \<Rightarrow> Inr (True, dir\<lparr>table := es\<rparr>)
            | None \<Rightarrow> Inl AssertFailed))"

definition AddDirectory :: "(nat \<Rightarrow> byte) \<Rightarrow> Directory \<Rightarrow> byte list \<Rightarrow> int \<Rightarrow> bool \<times> Directory" where
  "AddDirectory garbage dir nm newSector =
     (if FindIndex dir nm \<noteq> -1 then (False, dir)
      else case fill_first (set_entry True nm newSector) (table dir) of
        Some es \<Rightarrow> (True, dir\<lparr>table := es\<rparr>)
      | None \<Rightarrow>
        (let dir = Expand garbage dir (tableSize dir * int INCREASE_FACTOR)
         in case fill_first (set_entry True nm newSector) (table dir) of
              Some es \<Rightarrow> (True, dir\<lparr>table := es\<rparr>)
            | None \<Rightarrow> (False, dir)))"

definition Directory_Remove :: "Directory \<Rightarrow> byte list \<Rightarrow> bool \<times> Directory" where
  "Directory_Remove dir nm =
     (let i = FindIndex dir nm
      in if i = -1 then (False, dir)
         else (True, dir\<lparr>table := (table dir)[nat i := (table dir ! nat i)\<lparr>inUse := False\<rparr>]\<rparr>))"

text \<open>\<open>GetNameBySector\<close> looks at every entry, in use or not.\<close>

fun name_by_sector :: "DirectoryEntry list \<Rightarrow> int \<Rightarrow> byte list" where
  "name_by_sector [] s = [0]"
| "name_by_sector (e # es) s = (if sector e = s then name e else name_by_sector es s)"

definition GetNameBySector :: "Directory \<Rightarrow> int \<Rightarrow> byte list" where
  "GetNameBySector dir s = name_by_sector (take (nat (tableSize dir)) (table dir)) s"

fun print_entries :: "DirectoryEntry list \<Rightarrow> disk \<Rightarrow> string res" where
  "print_entries [] d = Inr []"
| "print_entries (e # es) d =
     (if inUse e then
        bind_res (show_s (name e)) (\<lambda>nm.
        bind_res (FileHeader_FetchFrom d (sector e)) (\<lambda>h.
        bind_res (FileHeader_Print h d) (\<lambda>txt.
        bind_res (print_entries es d) (\<lambda>out.
          Inr (''Name: '' @ nm @ '', Sector: '' @ show_d (sector e) @ newline @ txt @ out)))))
      else print_entries es d)"

definition Directory_Print :: "Directory \<Rightarrow> disk \<Rightarrow> string res" where
  "Directory_Print dir d =
     bind_res (print_entries (take (nat (tableSize dir)) (table dir)) d) (\<lambda>out.
       Inr (''Directory contents:'' @ newline @ out @ newline))"
section \<open>Walking the hierarchy\<close>

text \<open>
  \<open>List\<close> descends into subdirectories and \<open>GetFullPath\<close> climbs the \<open>..\<close> entries; on a disk
  with a cycle neither returns. \<open>fuel\<close> bounds the depth, \<open>None\<close> is a run that needs more.
\<close>

definition dot :: "byte list" where "dot = [46]"
definition dotdot :: "byte list" where "dotdot = [46, 46]"

function list_entries :: "nat \<Rightarrow> kstate \<Rightarrow> DirectoryEntry list \<Rightarrow> nat \<Rightarrow> (string \<times> kstate) res option" where
  "list_entries fuel k [] tabs = Some (Inr ([], k))"
| "list_entries fuel k (e # es) tabs =
     (if \<not> inUse e then list_entries fuel k es tabs
      else case show_s (name e) of
        Inl err \<Rightarrow> Some (Inl err)
      | Inr nm \<Rightarrow>
        (let line = replicate tabs (CHR 0x09) @ nm @ newline;
             str = takeWhile (\<lambda>c. c \<noteq> 0) (name e)
         in if isDir e \<and> str \<noteq> dot \<and> str \<noteq> dotdot then
              (case fuel of
                 0 \<Rightarrow> None
               | Suc fuel' \<Rightarrow>
                 (case OpenFile_new k (sector e) of
                    Inl err \<Rightarrow> Some (Inl err)
                  | Inr (dirFile, k1) \<Rightarrow>
                    (case Directory_FetchFrom (Directory_new (uninit k) 10) dirFile (dsk k1) of
                       Inl err \<Rightarrow> Some (Inl err)
                     | Inr dir \<Rightarrow>
                       (case list_entries fuel' k1 (take (nat (tableSize dir)) (table dir)) (tabs + 1) of
                          None \<Rightarrow> None
                        | Some (Inl err) \<Rightarrow> Some (Inl err)
                        | Some (Inr (out, k2)) \<Rightarrow>
                          (case list_entries fuel (OpenFile_delete dirFile k2) es tabs of
                             None \<Rightarrow> None
                           | Some (Inl err) \<Rightarrow> Some (Inl err)
                           | Some (Inr (rest, k3)) \<Rightarrow> Some (Inr (line @ out @ rest, k3)))))))
            else (case list_entries fuel k es tabs of
                    None \<Rightarrow> None
                  | Some (Inl err) \<Rightarrow> Some (Inl err)
                  | Some (Inr (rest, k3)) \<Rightarrow> Some (Inr (line @ rest, k3)))))"
  by pat_completeness auto
termination by (relation "measures [\<lambda>(fuel, k, es, tabs). fuel, \<lambda>(fuel, k, es, tabs). length es]") auto

definition Directory_List :: "nat \<Rightarrow> kstate \<Rightarrow> Directory \<Rightarrow> nat \<Rightarrow> (string \<times> kstate) res option" where
  "Directory_List fuel k dir tabs = list_entries fuel k (take (nat (tableSize dir)) (table dir)) tabs"

fun climb :: "nat \<Rightarrow> kstate \<Rightarrow> int \<Rightarrow> int \<Rightarrow> string \<Rightarrow> (string \<times> kstate) res option" where
  "climb fuel k s preSector path =
     (if preSector = -1 then Some (Inr (''/'' @ path, k))
      else case fuel of
        0 \<Rightarrow> None
      | Suc fuel' \<Rightarrow>
        (case OpenFile_new k preSector of
           Inl err \<Rightarrow> Some (Inl err)
         | Inr (preDirFile, k1) \<Rightarrow>
           (case Directory_FetchFrom (Directory_new (uninit k) 10) preDirFile (dsk k1) of
              Inl err \<Rightarrow> Some (Inl err)
            | Inr preDir \<Rightarrow>
              (case show_s (GetNameBySector preDir s) of
                 Inl err \<Rightarrow> Some (Inl err)
               | Inr currentName \<Rightarrow>
                 climb fuel' (OpenFile_delete preDirFile k1) preSector (Find preDir dotdot)
                   (currentName @ ''/'' @ path)))))"

declare climb.simps [simp del]

definition GetFullPath :: "nat \<Rightarrow> kstate \<Rightarrow> Directory \<Rightarrow> int \<Rightarrow> (string \<times> kstate) res option" where
  "GetFullPath fuel k dir s = climb fuel k s (Find dir dotdot) []"

section \<open>Names as keys\<close>

text \<open>Only the first nine characters of a name count.\<close>

definition name_key :: "byte list \<Rightarrow> byte list" where
  "name_key s = takeWhile (\<lambda>c. c \<noteq> 0) (take 9 s)"

lemma strncmp_eq_iff:
  "strncmp_eq n a b \<longleftrightarrow> takeWhile (\<lambda>c. c \<noteq> 0) (take n a) = takeWhile (\<lambda>c. c \<noteq> 0) (take n b)"
proof (induction n arbitrary: a b)
  case (Suc n)
  show ?case by (cases a; cases b) (auto simp: first_char_def Suc)
qed simp

lemma strncmp_key: "strncmp_eq FileNameMaxLen a b \<longleftrightarrow> name_key a = name_key b"
  by (simp add: strncmp_eq_iff name_key_def FileNameMaxLen_def)

lemma takeWhile_take_idem:
  "takeWhile P (take n (takeWhile P xs @ replicate n y)) = takeWhile P (take n xs)" if "\<not> P y"
proof (induction xs arbitrary: n)
  case Nil
  then show ?case using that by (cases n) auto
next
  case (Cons x xs)
  then show ?case
  proof (cases n)
    case (Suc m)
    have "take m (takeWhile P xs @ y # replicate m y) = take m (takeWhile P xs @ replicate m y)"
      by (simp add: replicate_append_same [symmetric] flip: append_assoc replicate_Suc)
    with Suc Cons [of m] that show ?thesis by simp
  qed simp
qed

lemma name_key_strncpy [simp]: "name_key (strncpy dst src FileNameMaxLen) = name_key src"
proof -
  have "take 9 (strncpy dst src 9) = take 9 (takeWhile (\<lambda>c. c \<noteq> 0) src @ replicate 9 0)"
    by (simp add: strncpy_def)
  then show ?thesis using takeWhile_take_idem [of "\<lambda>c. c \<noteq> 0" 0 9 src]
    by (simp add: name_key_def FileNameMaxLen_def)
qed

lemma length_strncpy: "length dst = 10 \<Longrightarrow> length (strncpy dst src FileNameMaxLen) = 10"
  by (simp add: strncpy_def FileNameMaxLen_def)

section \<open>Encoding of the table\<close>

definition wf_entry :: "DirectoryEntry \<Rightarrow> bool" where
  "wf_entry e \<longleftrightarrow> in_int (sector e) \<and> length (name e) = 10"

lemma length_entry_to_bytes: "wf_entry e \<Longrightarrow> length (entry_to_bytes e) = 20"
  by (simp add: entry_to_bytes_def wf_entry_def)

lemma bytes_to_entry_to_bytes [codec_simps]: "wf_entry e \<Longrightarrow> bytes_to_entry (entry_to_bytes e) = e"
  by (simp add: bytes_to_entry_def entry_to_bytes_def wf_entry_def bool_byte_def codec_simps)

lemma wf_bytes_to_entry: "length bs = 20 \<Longrightarrow> wf_entry (bytes_to_entry bs)"
  by (simp add: wf_entry_def bytes_to_entry_def bytes_to_int_def)

lemma length_table_to_bytes: "\<forall>e\<in>set es. wf_entry e \<Longrightarrow> length (table_to_bytes es) = 20 * length es"
  by (induction es) (simp_all add: table_to_bytes_def length_entry_to_bytes)

lemma bytes_to_table_to_bytes [codec_simps]:
  "\<forall>e\<in>set es. wf_entry e \<Longrightarrow> bytes_to_table (length es) (table_to_bytes es @ bs) = es"
  by (induction es) (simp_all add: table_to_bytes_def length_entry_to_bytes bytes_to_entry_to_bytes)

lemma length_bytes_to_table [simp]: "length (bytes_to_table n bs) = n"
  by (induction n arbitrary: bs) simp_all

lemma wf_bytes_to_table:
  "20 * n \<le> length bs \<Longrightarrow> e \<in> set (bytes_to_table n bs) \<Longrightarrow> wf_entry e"
proof (induction n arbitrary: bs)
  case (Suc n)
  then have "20 * n \<le> length (drop 20 bs)" by simp
  with Suc.IH [of "drop 20 bs"] Suc.prems show ?case by (auto simp: wf_bytes_to_entry)
qed simp

lemma bytes_to_table_cong:
  "take (20 * n) bs = take (20 * n) bs' \<Longrightarrow> bytes_to_table n bs = bytes_to_table n bs'"
proof (induction n arbitrary: bs bs')
  case (Suc n)
  have t: "take 20 xs = take 20 (take (20 * Suc n) xs)" "take (20 * n) (drop 20 xs) = drop 20 (take (20 * Suc n) xs)"
    for xs :: "byte list" by (simp_all add: drop_take)
  have "take 20 bs = take 20 bs'" "take (20 * n) (drop 20 bs) = take (20 * n) (drop 20 bs')"
    unfolding t [of bs] t [of bs'] Suc.prems by simp_all
  with Suc.IH [of "drop 20 bs" "drop 20 bs'"] show ?case by simp
qed simp

definition wf_dir :: "Directory \<Rightarrow> bool" where
  "wf_dir dir \<longleftrightarrow> tableSize dir = int (length (table dir)) \<and> (\<forall>e\<in>set (table dir). wf_entry e)"

lemma new_table_props:
  "length (new_table g n) = nat n" "e \<in> set (new_table g n) \<Longrightarrow> wf_entry e \<and> \<not> inUse e"
proof -
  show "length (new_table g n) = nat n" by (simp add: new_table_def)
  show "wf_entry e \<and> \<not> inUse e" if "e \<in> set (new_table g n)"
  proof -
    from that obtain e' where "e' \<in> set (bytes_to_table (nat n) (map g [0..<20 * nat n]))"
      "e = e'\<lparr>inUse := False\<rparr>" by (auto simp: new_table_def)
    then show ?thesis
      using wf_bytes_to_table [of "nat n" "map g [0..<20 * nat n]" e'] by (simp add: wf_entry_def)
  qed
qed

lemma wf_Directory_new [simp]: "0 \<le> n \<Longrightarrow> wf_dir (Directory_new g n)"
  using new_table_props(1) [of g n] new_table_props(2) [of _ g n] by (simp add: Directory_new_def wf_dir_def)

section \<open>The directory as a map\<close>

definition entry_pair :: "DirectoryEntry \<Rightarrow> byte list \<times> int \<times> bool" where
  "entry_pair e = (name_key (name e), sector e, isDir e)"

definition dir_entries :: "DirectoryEntry list \<Rightarrow> (byte list \<times> int \<times> bool) list" where
  "dir_entries es = map entry_pair (filter inUse es)"

definition dir_abs :: "Directory \<Rightarrow> byte list \<rightharpoonup> int \<times> bool" where
  "dir_abs dir = map_of (dir_entries (table dir))"

definition dir_ok :: "Directory \<Rightarrow> bool" where
  "dir_ok dir \<longleftrightarrow> wf_dir dir \<and> 0 < tableSize dir \<and> distinct (map fst (dir_entries (table dir)))"

lemma dir_entries_simps [simp]:
  "dir_entries [] = []"
  "dir_entries (e # es) = (if inUse e then entry_pair e # dir_entries es else dir_entries es)"
  "dir_entries (xs @ ys) = dir_entries xs @ dir_entries ys"
  by (simp_all add: dir_entries_def)

lemma FindIndex_from_cases:
  "0 \<le> i \<Longrightarrow> case map_of (dir_entries es) (name_key nm) of
      None \<Rightarrow> FindIndex_from es i nm = -1
    | Some v \<Rightarrow> \<exists>j<length es. FindIndex_from es i nm = i + int j \<and> inUse (es ! j)
        \<and> name_key (name (es ! j)) = name_key nm \<and> v = (sector (es ! j), isDir (es ! j))"
proof (induction es arbitrary: i)
  case (Cons e es)
  show ?case
  proof (cases "inUse e \<and> name_key (name e) = name_key nm")
    case True
    then show ?thesis by (auto simp: entry_pair_def strncmp_key)
  next
    case False
    then have eq: "FindIndex_from (e # es) i nm = FindIndex_from es (i + 1) nm"
      "map_of (dir_entries (e # es)) (name_key nm) = map_of (dir_entries es) (name_key nm)"
      by (auto simp: entry_pair_def strncmp_key)
    show ?thesis
    proof (cases "map_of (dir_entries es) (name_key nm)")
      case None
      with Cons.IH [of "i + 1"] Cons.prems show ?thesis unfolding eq by simp
    next
      case (Some v)
      with Cons.IH [of "i + 1"] Cons.prems obtain j where "j < length es" "FindIndex_from es (i + 1) nm = i + 1 + int j"
        "inUse (es ! j)" "name_key (name (es ! j)) = name_key nm" "v = (sector (es ! j), isDir (es ! j))" by auto
      then show ?thesis unfolding eq Some by (auto intro!: exI [of _ "Suc j"])
    qed
  qed
qed simp

lemma FindIndex_cases:
  assumes "wf_dir dir"
  obtains "dir_abs dir (name_key nm) = None" "FindIndex dir nm = -1"
    | j where "j < length (table dir)" "FindIndex dir nm = int j" "inUse (table dir ! j)"
      "name_key (name (table dir ! j)) = name_key nm"
      "dir_abs dir (name_key nm) = Some (sector (table dir ! j), isDir (table dir ! j))"
proof -
  have "FindIndex dir nm = FindIndex_from (table dir) 0 nm"
    using assms by (simp add: FindIndex_def wf_dir_def)
  then show thesis
    using FindIndex_from_cases [of 0 "table dir" nm] that
    by (cases "dir_abs dir (name_key nm)") (auto simp: dir_abs_def)
qed

lemma Find_abs:
  "wf_dir dir \<Longrightarrow> Find dir nm = (case dir_abs dir (name_key nm) of None \<Rightarrow> -1 | Some (s, _) \<Rightarrow> s)"
  by (rule FindIndex_cases [of dir nm]) (auto simp: Find_def)

lemma isDirectory_abs:
  "wf_dir dir \<Longrightarrow> isDirectory dir nm = (case dir_abs dir (name_key nm) of None \<Rightarrow> False | Some (_, b) \<Rightarrow> b)"
  by (rule FindIndex_cases [of dir nm]) (auto simp: isDirectory_def)

lemma FindIndex_none: "wf_dir dir \<Longrightarrow> FindIndex dir nm = -1 \<longleftrightarrow> dir_abs dir (name_key nm) = None"
  by (rule FindIndex_cases [of dir nm]) auto

subsection \<open>Insertion\<close>

lemma fill_first_cases:
  "case fill_first f es of
     None \<Rightarrow> \<forall>e\<in>set es. inUse e
   | Some es' \<Rightarrow> \<exists>xs e ys. es = xs @ e # ys \<and> \<not> inUse e \<and> es' = xs @ f e # ys"
proof (induction es)
  case (Cons e es)
  show ?case
  proof (cases "inUse e")
    case True
    then show ?thesis
      using Cons.IH by (auto split: option.splits) (metis append_Cons)
  qed (auto intro: exI [of _ "[]"])
qed simp

lemma fill_first_full: "fill_first f es = None \<longleftrightarrow> (\<forall>e\<in>set es. inUse e)"
proof
  show "fill_first f es = None \<Longrightarrow> \<forall>e\<in>set es. inUse e" using fill_first_cases [where f = f and es = es] by auto
  show "\<forall>e\<in>set es. inUse e \<Longrightarrow> fill_first f es = None" by (induction es) auto
qed

lemma set_entry_pair:
  "inUse (set_entry b nm s e)" "entry_pair (set_entry b nm s e) = (name_key nm, s, b)"
  "wf_entry e \<Longrightarrow> in_int s \<Longrightarrow> wf_entry (set_entry b nm s e)"
  by (auto simp: set_entry_def entry_pair_def wf_entry_def length_strncpy)

lemma map_of_insert:
  "k \<notin> fst ` set (xs @ ys) \<Longrightarrow> map_of (xs @ (k, v) # ys) = (map_of (xs @ ys))(k \<mapsto> v)"
  by (simp add: map_add_upd_left dom_map_of_conv_image_fst image_Un)

lemma fill_table:
  assumes fill: "fill_first (set_entry b nm s) (table dir) = Some es" and ok: "dir_ok dir" "in_int s"
    and new: "dir_abs dir (name_key nm) = None"
  shows "dir_ok (dir\<lparr>table := es\<rparr>)" "dir_abs (dir\<lparr>table := es\<rparr>) = (dir_abs dir)(name_key nm \<mapsto> (s, b))"
proof -
  from fill_first_cases [where f = "set_entry b nm s" and es = "table dir"] fill obtain xs e ys where
    e: "table dir = xs @ e # ys" "\<not> inUse e" "es = xs @ set_entry b nm s e # ys" by auto
  have ent: "dir_entries (table dir) = dir_entries xs @ dir_entries ys"
    "dir_entries es = dir_entries xs @ (name_key nm, s, b) # dir_entries ys"
    using e by (auto simp: set_entry_pair)
  have k: "name_key nm \<notin> fst ` set (dir_entries xs @ dir_entries ys)"
    using new by (simp add: dir_abs_def ent map_of_eq_None_iff image_Un)
  then show "dir_abs (dir\<lparr>table := es\<rparr>) = (dir_abs dir)(name_key nm \<mapsto> (s, b))"
    by (simp add: dir_abs_def ent map_of_insert del: map_of_append)
  have "\<forall>e\<in>set es. wf_entry e" using ok e set_entry_pair(3) by (auto simp: dir_ok_def wf_dir_def)
  moreover have "distinct (map fst (dir_entries es))" using ok k ent by (auto simp: dir_ok_def)
  ultimately show "dir_ok (dir\<lparr>table := es\<rparr>)" using ok e by (simp add: dir_ok_def wf_dir_def)
qed

text \<open>\<open>Expand\<close> doubles the table and keeps its contents.\<close>

lemma Expand_table:
  assumes "dir_ok dir"
  defines "n \<equiv> tableSize dir * 2"
  shows "table (Expand g dir n) = table dir @ drop (length (table dir)) (new_table g n)"
    and "dir_ok (Expand g dir n)" "dir_abs (Expand g dir n) = dir_abs dir"
    and "fill_first f (table (Expand g dir n)) \<noteq> None"
proof -
  let ?m = "length (table dir)" and ?nt = "new_table g n"
  have m: "tableSize dir = int ?m" "0 < ?m" "nat n = 2 * ?m"
    using assms by (auto simp: dir_ok_def wf_dir_def)
  show t: "table (Expand g dir n) = table dir @ drop ?m ?nt"
    using m new_table_props(1) [of g n] by (intro nth_equalityI) (auto simp: Expand_def nth_append)
  have free: "e \<in> set (drop ?m ?nt) \<Longrightarrow> wf_entry e \<and> \<not> inUse e" for e
    using new_table_props(2) [of e g n] in_set_dropD by metis
  then have "dir_entries (drop ?m ?nt) = []" by (simp add: dir_entries_def filter_empty_conv)
  then have ent: "dir_entries (table (Expand g dir n)) = dir_entries (table dir)" using t by simp
  then show "dir_abs (Expand g dir n) = dir_abs dir" by (simp add: dir_abs_def)
  show "dir_ok (Expand g dir n)"
    using assms m ent free new_table_props(1) [of g n] unfolding dir_ok_def wf_dir_def t
    by (auto simp: Expand_def)
  have "drop ?m ?nt \<noteq> []" using m new_table_props(1) [of g n] by simp
  then obtain e where "e \<in> set (drop ?m ?nt)" by (metis list.set_sel(1))
  then show "fill_first f (table (Expand g dir n)) \<noteq> None"
    using free unfolding t fill_first_full by auto
qed

text \<open>Where a new name goes: into the table, or into the table doubled.\<close>

definition dir_full :: "Directory \<Rightarrow> bool" where
  "dir_full dir \<longleftrightarrow> (\<forall>e\<in>set (table dir). inUse e)"

lemma dir_full_card:
  assumes "dir_ok dir"
  shows "dir_full dir \<longleftrightarrow> card (dom (dir_abs dir)) = nat (tableSize dir)"
proof -
  have "dom (dir_abs dir) = set (map fst (dir_entries (table dir)))"
    by (simp add: dir_abs_def dom_map_of_conv_image_fst)
  then have "card (dom (dir_abs dir)) = length (filter inUse (table dir))"
    using assms distinct_card [of "map fst (dir_entries (table dir))"] by (simp add: dir_ok_def dir_entries_def)
  moreover have "length (filter inUse (table dir)) = length (table dir) \<longleftrightarrow> dir_full dir"
    unfolding dir_full_def by (metis length_filter_less less_irrefl filter_True)
  ultimately show ?thesis using assms by (simp add: dir_ok_def wf_dir_def)
qed

lemma insert_entry:
  fixes g :: "nat \<Rightarrow> byte"
  assumes ok: "dir_ok dir" "in_int s" and new: "dir_abs dir (name_key nm) = None"
  defines "base \<equiv> if dir_full dir then Expand g dir (tableSize dir * 2) else dir"
  shows "\<exists>es. fill_first (set_entry b nm s) (table base) = Some es \<and> dir_ok (base\<lparr>table := es\<rparr>)
    \<and> dir_abs (base\<lparr>table := es\<rparr>) = (dir_abs dir)(name_key nm \<mapsto> (s, b))"
proof -
  have base: "dir_ok base" "dir_abs base = dir_abs dir" "fill_first (set_entry b nm s) (table base) \<noteq> None"
    using ok Expand_table [OF ok(1), where g = g] fill_first_full [of "set_entry b nm s" "table dir"]
    by (auto simp: base_def dir_full_def)
  then obtain es where "fill_first (set_entry b nm s) (table base) = Some es" by auto
  with fill_table [OF this base(1) ok(2)] base new show ?thesis by auto
qed

lemma Add_fill:
  assumes "wf_dir dir" "dir_abs dir (name_key nm) = None"
    and "fill_first (set_entry False nm s) (table (if dir_full dir then Expand g dir (tableSize dir * 2) else dir)) = Some es"
  shows "Add g dir nm s = Inr (True, (if dir_full dir then Expand g dir (tableSize dir * 2) else dir)\<lparr>table := es\<rparr>)"
proof -
  have fi: "FindIndex dir nm = -1" using assms FindIndex_none by simp
  show ?thesis
  proof (cases "dir_full dir")
    case True
    then have "fill_first (set_entry False nm s) (table dir) = None" by (simp add: fill_first_full dir_full_def)
    with True fi assms(3) show ?thesis by (simp add: Add_def Let_def INCREASE_FACTOR_def)
  next
    case False
    with fi assms(3) show ?thesis by (simp add: Add_def)
  qed
qed

lemma AddDirectory_fill:
  assumes "wf_dir dir" "dir_abs dir (name_key nm) = None"
    and "fill_first (set_entry True nm s) (table (if dir_full dir then Expand g dir (tableSize dir * 2) else dir)) = Some es"
  shows "AddDirectory g dir nm s = (True, (if dir_full dir then Expand g dir (tableSize dir * 2) else dir)\<lparr>table := es\<rparr>)"
proof -
  have fi: "FindIndex dir nm = -1" using assms FindIndex_none by simp
  show ?thesis
  proof (cases "dir_full dir")
    case True
    then have "fill_first (set_entry True nm s) (table dir) = None" by (simp add: fill_first_full dir_full_def)
    with True fi assms(3) show ?thesis by (simp add: AddDirectory_def Let_def INCREASE_FACTOR_def)
  next
    case False
    with fi assms(3) show ?thesis by (simp add: AddDirectory_def)
  qed
qed

lemma Add_abs:
  assumes ok: "dir_ok dir" "in_int s"
  shows "if dir_abs dir (name_key nm) = None
    then \<exists>dir'. Add g dir nm s = Inr (True, dir') \<and> dir_ok dir'
      \<and> dir_abs dir' = (dir_abs dir)(name_key nm \<mapsto> (s, False))
      \<and> tableSize dir' = (if dir_full dir then 2 * tableSize dir else tableSize dir)
    else Add g dir nm s = Inr (False, dir)"
proof (cases "dir_abs dir (name_key nm) = None")
  case True
  have wf: "wf_dir dir" using ok by (simp add: dir_ok_def)
  from insert_entry [OF ok True, where g = g and b = False] True show ?thesis
    using Add_fill [OF wf True, of s g] by (auto simp: Expand_def)
next
  case False
  then show ?thesis using ok FindIndex_none [of dir nm] by (auto simp: Add_def dir_ok_def)
qed

lemma AddDirectory_abs:
  assumes ok: "dir_ok dir" "in_int s"
  shows "if dir_abs dir (name_key nm) = None
    then \<exists>dir'. AddDirectory g dir nm s = (True, dir') \<and> dir_ok dir'
      \<and> dir_abs dir' = (dir_abs dir)(name_key nm \<mapsto> (s, True))
      \<and> tableSize dir' = (if dir_full dir then 2 * tableSize dir else tableSize dir)
    else AddDirectory g dir nm s = (False, dir)"
proof (cases "dir_abs dir (name_key nm) = None")
  case True
  have wf: "wf_dir dir" using ok by (simp add: dir_ok_def)
  from insert_entry [OF ok True, where g = g and b = True] True show ?thesis
    using AddDirectory_fill [OF wf True, of s g] by (auto simp: Expand_def)
next
  case False
  then show ?thesis using ok FindIndex_none [of dir nm] by (auto simp: AddDirectory_def dir_ok_def)
qed

subsection \<open>Removal\<close>

lemma map_of_delete:
  "distinct (map fst (xs @ (k, v) # ys)) \<Longrightarrow> map_of (xs @ ys) = (map_of (xs @ (k, v) # ys))(k := None)"
proof -
  assume "distinct (map fst (xs @ (k, v) # ys))"
  then have k: "map_of xs k = None" "map_of ys k = None"
    by (auto simp: map_of_eq_None_iff)
  show ?thesis using k by (auto simp: fun_eq_iff map_add_def split: option.splits)
qed

lemma Directory_Remove_abs:
  assumes ok: "dir_ok dir"
  shows "\<exists>dir'. Directory_Remove dir nm = (dir_abs dir (name_key nm) \<noteq> None, dir') \<and> dir_ok dir'
    \<and> dir_abs dir' = (dir_abs dir)(name_key nm := None) \<and> tableSize dir' = tableSize dir"
proof -
  have wf: "wf_dir dir" using ok by (simp add: dir_ok_def)
  show ?thesis
  proof (rule FindIndex_cases [OF wf, of nm])
    assume "dir_abs dir (name_key nm) = None" "FindIndex dir nm = -1"
    then show ?thesis using ok by (simp add: Directory_Remove_def fun_upd_idem)
  next
    fix j assume j: "j < length (table dir)" "FindIndex dir nm = int j" "inUse (table dir ! j)"
      "name_key (name (table dir ! j)) = name_key nm"
      "dir_abs dir (name_key nm) = Some (sector (table dir ! j), isDir (table dir ! j))"
    let ?e = "table dir ! j" and ?xs = "take j (table dir)" and ?ys = "drop (Suc j) (table dir)"
    let ?es = "(table dir)[j := ?e\<lparr>inUse := False\<rparr>]"
    have t: "table dir = ?xs @ ?e # ?ys" "?es = ?xs @ (?e\<lparr>inUse := False\<rparr>) # ?ys"
      using j(1) by (simp_all add: id_take_nth_drop upd_conv_take_nth_drop)
    have "dir_entries (table dir) = dir_entries ?xs @ (name_key nm, sector ?e, isDir ?e) # dir_entries ?ys"
      using j(3,4) by (subst t(1)) (simp add: entry_pair_def)
    moreover have "dir_entries ?es = dir_entries ?xs @ dir_entries ?ys" by (subst t(2)) simp
    moreover have "distinct (map fst (dir_entries (table dir)))" using ok by (simp add: dir_ok_def)
    ultimately have "dir_abs (dir\<lparr>table := ?es\<rparr>) = (dir_abs dir)(name_key nm := None)"
      "distinct (map fst (dir_entries ?es))"
      using map_of_delete [of "dir_entries ?xs" "name_key nm" "(sector ?e, isDir ?e)" "dir_entries ?ys"]
      by (auto simp: dir_abs_def)
    moreover have "\<forall>e\<in>set ?es. wf_entry e"
      using wf j(1) set_update_subset_insert [of "table dir" j] nth_mem [OF j(1)]
      by (fastforce simp: wf_dir_def wf_entry_def)
    ultimately show ?thesis
      using j ok by (intro exI [of _ "dir\<lparr>table := ?es\<rparr>"]) (auto simp: Directory_Remove_def dir_ok_def wf_dir_def)
  qed
qed

section \<open>The contract of a name table\<close>

locale name_table =
  fixes ok :: "'d \<Rightarrow> bool"
    and abs :: "'d \<Rightarrow> 'k \<rightharpoonup> int \<times> bool"
    and key :: "'n \<Rightarrow> 'k"
    and find :: "'d \<Rightarrow> 'n \<Rightarrow> int"
    and add :: "'d \<Rightarrow> 'n \<Rightarrow> int \<Rightarrow> (bool \<times> 'd) res"
    and remove :: "'d \<Rightarrow> 'n \<Rightarrow> bool \<times> 'd"
  assumes find_law: "ok d \<Longrightarrow> find d nm = (case abs d (key nm) of None \<Rightarrow> -1 | Some (s, _) \<Rightarrow> s)"
    and add_new: "ok d \<Longrightarrow> in_int s \<Longrightarrow> abs d (key nm) = None
      \<Longrightarrow> \<exists>d'. add d nm s = Inr (True, d') \<and> ok d' \<and> abs d' = (abs d)(key nm \<mapsto> (s, False))"
    and add_old: "ok d \<Longrightarrow> abs d (key nm) \<noteq> None \<Longrightarrow> add d nm s = Inr (False, d)"
    and remove_law: "ok d \<Longrightarrow> \<exists>d'. remove d nm = (abs d (key nm) \<noteq> None, d') \<and> ok d'
      \<and> abs d' = (abs d)(key nm := None)"
begin

lemma find_added:
  assumes "ok d" "in_int s" "find d nm = -1" "abs d (key nm) = None"
  shows "\<exists>d'. add d nm s = Inr (True, d') \<and> find d' nm = s
    \<and> (\<forall>m. key m \<noteq> key nm \<longrightarrow> find d' m = find d m)"
proof -
  obtain d' where "add d nm s = Inr (True, d')" "ok d'" "abs d' = (abs d)(key nm \<mapsto> (s, False))"
    using add_new [OF assms(1,2,4)] by blast
  then show ?thesis using assms(1) by (intro exI [of _ d']) (auto simp: find_law)
qed

text \<open>Adding a new name and removing it again restores the map.\<close>

lemma add_remove:
  assumes "ok d" "in_int s" "abs d (key nm) = None" "add d nm s = Inr (b, d')"
  shows "b \<and> (\<exists>d''. remove d' nm = (True, d'') \<and> abs d'' = abs d)"
proof -
  have d': "b" "ok d'" "abs d' = (abs d)(key nm \<mapsto> (s, False))"
    using add_new [OF assms(1-3)] assms(4) by auto
  from remove_law [OF d'(2), of nm] d'(1,3) assms(3) show ?thesis by (auto simp: fun_upd_idem)
qed

lemma find_removed:
  assumes "ok d" "remove d nm = (b, d')"
  shows "find d' nm = -1 \<and> (\<forall>m. key m \<noteq> key nm \<longrightarrow> find d' m = find d m)"
proof -
  have "ok d'" "abs d' = (abs d)(key nm := None)" using remove_law [OF assms(1), of nm] assms(2) by auto
  then show ?thesis using assms(1) by (simp add: find_law)
qed

end

interpretation nt: name_table dir_ok dir_abs name_key Find "Add g" Directory_Remove for g
proof
  fix d nm and s :: int
  show "dir_ok d \<Longrightarrow> Find d nm = (case dir_abs d (name_key nm) of None \<Rightarrow> -1 | Some (s, _) \<Rightarrow> s)"
    by (simp add: Find_abs dir_ok_def)
  show "dir_ok d \<Longrightarrow> in_int s \<Longrightarrow> dir_abs d (name_key nm) = None
      \<Longrightarrow> \<exists>d'. Add g d nm s = Inr (True, d') \<and> dir_ok d' \<and> dir_abs d' = (dir_abs d)(name_key nm \<mapsto> (s, False))"
    using Add_abs [of d s nm g] by auto
  show "dir_ok d \<Longrightarrow> dir_abs d (name_key nm) \<noteq> None \<Longrightarrow> Add g d nm s = Inr (False, d)"
    using FindIndex_none [of d nm] by (auto simp: Add_def dir_ok_def)
  show "dir_ok d \<Longrightarrow> \<exists>d'. Directory_Remove d nm = (dir_abs d (name_key nm) \<noteq> None, d') \<and> dir_ok d'
      \<and> dir_abs d' = (dir_abs d)(name_key nm := None)"
    using Directory_Remove_abs [of d nm] by blast
qed

section \<open>Directories on the disk\<close>

text \<open>The directory a file of at least ten entries holds.\<close>

definition dir_of :: "disk \<Rightarrow> FileHeader \<Rightarrow> Directory" where
  "dir_of d h = \<lparr>tableSize = 10, table = bytes_to_table 10 (bytes_of d h)\<rparr>"

lemma wf_dir_of: "file_ok d h \<Longrightarrow> 200 \<le> numBytes h \<Longrightarrow> wf_dir (dir_of d h)"
  using wf_bytes_to_table [of 10 "bytes_of d h"] by (auto simp: dir_of_def wf_dir_def)

lemma dir_new_table: "length (table (Directory_new g 10)) = 10" "tableSize (Directory_new g 10) = 10"
  "length (table_to_bytes (table (Directory_new g 10))) = 200"
  using wf_Directory_new [of 10 g] length_table_to_bytes [of "table (Directory_new g 10)"]
  by (auto simp: wf_dir_def Directory_new_def new_table_props(1))

lemma Directory_FetchFrom_ok:
  assumes "file_ok d (hdr f)" "200 \<le> numBytes (hdr f)"
  shows "Directory_FetchFrom (Directory_new g 10) f d = Inr (dir_of d (hdr f))"
proof -
  have "transfer (hdr f) 200 0 = 200" using assms(2) by (simp add: transfer_def)
  with ReadAt_ok [OF assms(1), of 0 200] have
    r: "ReadAt f d 200 0 = Inr (200, take 200 (bytes_of d (hdr f)))" by simp
  let ?bs = "take 200 (bytes_of d (hdr f))"
  have "length ?bs = 200" using assms by simp
  then have "overwrite (table_to_bytes (table (Directory_new g 10))) 0 ?bs = ?bs"
    using dir_new_table [of g] by (simp add: overwrite_def)
  moreover have "bytes_to_table 10 ?bs = bytes_to_table 10 (bytes_of d (hdr f))"
    by (rule bytes_to_table_cong) simp
  moreover have "Directory_new g 10 = \<lparr>tableSize = 10, table = table (Directory_new g 10)\<rparr>"
    by (simp add: Directory_new_def)
  ultimately show ?thesis
    using r dir_new_table [of g] by (simp add: Directory_FetchFrom_def dir_of_def)
qed

text \<open>A file of size zero leaves the table as the constructor made it.\<close>

lemma Directory_FetchFrom_empty:
  assumes "FileLength (hdr f) = 0"
  shows "Directory_FetchFrom (Directory_new g 10) f d = Inr (Directory_new g 10)"
proof -
  have "ReadAt f d 200 0 = Inr (0, [])" using assms by (simp add: ReadAt_def)
  moreover have "bytes_to_table 10 (table_to_bytes (table (Directory_new g 10))) = table (Directory_new g 10)"
    using bytes_to_table_to_bytes [of "table (Directory_new g 10)" "[]"] wf_Directory_new [of 10 g] dir_new_table [of g]
    by (simp add: wf_dir_def)
  ultimately show ?thesis using dir_new_table [of g] by (simp add: Directory_FetchFrom_def)
qed

lemma table_to_bytes_take:
  "\<forall>e\<in>set es. wf_entry e \<Longrightarrow> take (20 * n) (table_to_bytes es) = table_to_bytes (take n es)"
proof (induction es arbitrary: n)
  case (Cons e es)
  then show ?case by (cases n) (simp_all add: table_to_bytes_def length_entry_to_bytes)
qed (simp add: table_to_bytes_def)

lemma bytes_to_table_prefix:
  assumes "\<forall>e\<in>set es. wf_entry e" "n \<le> length es"
  shows "bytes_to_table n (table_to_bytes es @ bs) = take n es"
proof -
  have w: "\<forall>e\<in>set (take n es). wf_entry e" using assms(1) by (auto dest: in_set_takeD)
  have l: "length (table_to_bytes (take n es)) = 20 * n" using length_table_to_bytes [OF w] assms(2) by simp
  have "take (20 * n) (table_to_bytes es @ bs) = table_to_bytes (take n es)"
    using table_to_bytes_take [OF assms(1), of n] length_table_to_bytes [OF assms(1)] assms(2) by simp
  then have "take (20 * n) (table_to_bytes es @ bs) = take (20 * n) (table_to_bytes (take n es) @ [])"
    using l by simp
  then have "bytes_to_table n (table_to_bytes es @ bs) = bytes_to_table n (table_to_bytes (take n es) @ [])"
    by (rule bytes_to_table_cong)
  also have "\<dots> = take n es" using bytes_to_table_to_bytes [OF w, of "[]"] assms(2) by simp
  finally show ?thesis .
qed

text \<open>
  Writing a table back to a directory file of 200 bytes stores its first ten entries: all
  of a table that was never expanded, and only those of one that was.
\<close>

lemma vol_dir_write:
  assumes vol: "vol_inv d M fm" "M s = Some (hdr f)" and sz: "numBytes (hdr f) = 200"
    and dir: "wf_dir dir" "10 \<le> length (table dir)"
  shows "\<exists>d'. Directory_WriteBack dir f g d = Inr d' \<and> vol_inv d' M fm
    \<and> dir_of d' (hdr f) = \<lparr>tableSize = 10, table = take 10 (table dir)\<rparr>
    \<and> (\<forall>t hh. t \<noteq> s \<longrightarrow> M t = Some hh \<longrightarrow> bytes_of d' hh = bytes_of d hh)
    \<and> owned d' M = owned d M"
proof -
  let ?bs = "table_to_bytes (table dir)" and ?n = "tableSize dir * 20"
  have wf: "\<forall>e\<in>set (table dir). wf_entry e" "?n = int (length ?bs)" "200 \<le> length ?bs"
    using dir length_table_to_bytes [of "table dir"] by (auto simp: wf_dir_def)
  have t: "transfer (hdr f) ?n 0 = 200" using sz wf by (simp add: transfer_def)
  from vol_write [OF vol, of 0 ?n ?bs g, unfolded t] wf(2) obtain d' where
    d': "WriteAt f g d ?bs ?n 0 = Inr (200, d')" "vol_inv d' M fm"
    "bytes_of d' (hdr f) = overwrite (bytes_of d (hdr f)) 0 (take 200 ?bs)"
    "\<forall>t hh. t \<noteq> s \<longrightarrow> M t = Some hh \<longrightarrow> bytes_of d' hh = bytes_of d hh" "owned d' M = owned d M" by auto
  have "file_ok d (hdr f)" using vol_invD(4) [OF vol] by (simp add: file_at_def)
  then have "bytes_of d' (hdr f) = take 200 ?bs"
    using d'(3) wf(3) sz by (simp add: overwrite_def)
  then have "bytes_to_table 10 (bytes_of d' (hdr f)) = bytes_to_table 10 (?bs @ [])"
    by (intro bytes_to_table_cong) simp
  also have "\<dots> = take 10 (table dir)" using wf(1) dir(2) by (rule bytes_to_table_prefix)
  finally have "dir_of d' (hdr f) = \<lparr>tableSize = 10, table = take 10 (table dir)\<rparr>"
    by (simp add: dir_of_def)
  with d' show ?thesis by (auto simp: Directory_WriteBack_def)
qed

section \<open>Property\<close>

text \<open>
  C14. A directory implements a finite map from names, cut to nine characters, to sectors and a directory flag:
  \<open>Find\<close> and \<open>isDirectory\<close> look up, \<open>Add\<close> and \<open>AddDirectory\<close> insert a new name and refuse an old
  one, growing the table when it is full, and \<open>Remove\<close> deletes.
\<close>

theorem Directory_refines_map:
  fixes nm :: "byte list"
  assumes "dir_ok dir" "in_int s"
  defines "key \<equiv> name_key nm"
  shows "Find dir nm = (case dir_abs dir key of None \<Rightarrow> -1 | Some (t, _) \<Rightarrow> t)
    \<and> isDirectory dir nm = (case dir_abs dir key of None \<Rightarrow> False | Some (_, b) \<Rightarrow> b)
    \<and> (if dir_abs dir key = None
       then (\<exists>dir'. Add g dir nm s = Inr (True, dir') \<and> dir_ok dir' \<and> dir_abs dir' = (dir_abs dir)(key \<mapsto> (s, False)))
         \<and> (\<exists>dir'. AddDirectory g dir nm s = (True, dir') \<and> dir_ok dir' \<and> dir_abs dir' = (dir_abs dir)(key \<mapsto> (s, True)))
       else Add g dir nm s = Inr (False, dir) \<and> AddDirectory g dir nm s = (False, dir))
    \<and> (\<exists>dir'. Directory_Remove dir nm = (dir_abs dir key \<noteq> None, dir') \<and> dir_ok dir'
         \<and> dir_abs dir' = (dir_abs dir)(key := None))"
proof -
  have wf: "wf_dir dir" using assms(1) by (simp add: dir_ok_def)
  show ?thesis
    unfolding key_def
    using nt.find_law [OF assms(1), of nm] isDirectory_abs [OF wf, of nm] nt.add_new [OF assms(1,2), of nm]
      nt.add_old [OF assms(1), of nm] nt.remove_law [OF assms(1), of nm] AddDirectory_abs [OF assms(1,2), of nm g]
    by (auto split: if_splits)
qed

theorem Directory_refines_map_witness:
  "\<exists>dir'. Add (\<lambda>_. 0) (Directory_new (\<lambda>_. 0) 10) [97] 5 = Inr (True, dir') \<and> Find (Directory_new (\<lambda>_. 0) 10) [97] = -1"
proof -
  let ?d = "Directory_new (\<lambda>_. 0) 10"
  have "\<forall>e\<in>set (table ?d). \<not> inUse e" using new_table_props(2) [of _ "\<lambda>_. 0" 10] by (auto simp: Directory_new_def)
  then have e: "dir_entries (table ?d) = []" by (simp add: dir_entries_def filter_empty_conv)
  then have ok: "dir_ok ?d" using wf_Directory_new [of 10 "\<lambda>_. 0"] by (simp add: dir_ok_def) (simp add: Directory_new_def)
  have "in_int 5" by (simp add: in_int_def)
  from Directory_refines_map [OF ok this, of "[97]" "\<lambda>_. 0"] e show ?thesis
    by (auto simp: dir_abs_def)
qed

end
