(* ===== verification/FileSystem.thy ===== *)
theory FileSystem
  imports FileIO Directory
begin

text \<open>
  \<open>filesys/filesys.cc\<close>: formatting a disk and the operations on path names. Every operation
  is modelled with the objects it opens and those it forgets to close, on the state of
  one running thread; messages written to the console are not part of the state, except
  where writing them reads the disk (\<open>Directory::Print\<close> in \<open>Open\<close>).
\<close>

definition FreeMapSector :: int where "FreeMapSector = 0"
definition DirectorySector :: int where "DirectorySector = 1"
definition FreeMapFileSize :: int where "FreeMapFileSize = NumSectors div BitsInByte"
definition NumDirEntries :: int where "NumDirEntries = 10"
definition DirectoryFileSize :: int where "DirectoryFileSize = 20 * NumDirEntries"

record FileSystem =
  freeMapFile :: OpenFile
  directoryFile :: OpenFile

text \<open>What the constructor of a header finds in the memory of \<open>permisstion\<close>.\<close>

definition hdr_garbage :: "kstate \<Rightarrow> int" where
  "hdr_garbage k = bytes_to_int (map (uninit k) [0..<4])"

section \<open>Path names\<close>

lemma dropWhile_shorter: "x \<in> set xs \<Longrightarrow> length (tl (dropWhile (\<lambda>c. c \<noteq> x) xs)) < length xs"
  using length_dropWhile_le [of "\<lambda>c. c \<noteq> x" xs] by (cases xs) auto

function parse_path :: "kstate \<Rightarrow> byte list \<Rightarrow> int \<Rightarrow> (int \<times> byte list \<times> kstate) res" where
  "parse_path k path wdSector =
     (if 47 \<in> set path then
        (let dirname = takeWhile (\<lambda>c. c \<noteq> 47) path;
             cur_path = tl (dropWhile (\<lambda>c. c \<noteq> 47) path)
         in bind_res (OpenFile_new k wdSector) (\<lambda>(dirFile, k).
            bind_res (Directory_FetchFrom (Directory_new (uninit k) NumDirEntries) dirFile (dsk k)) (\<lambda>dir.
            if \<not> isDirectory dir dirname then Inr (-1, path, k)
            else parse_path (OpenFile_delete dirFile k) cur_path (Find dir dirname))))
      else Inr (wdSector, path, k))"
  by pat_completeness auto

termination
  by (relation "measure (\<lambda>(k, path, wd). length path)") (auto intro: dropWhile_shorter [simplified])

declare parse_path.simps [simp del]

text \<open>The directory an operation works in: opened, and its table fetched.\<close>

definition open_dir :: "kstate \<Rightarrow> int \<Rightarrow> (OpenFile \<times> Directory \<times> kstate) res" where
  "open_dir k wdSector =
     bind_res (OpenFile_new k wdSector) (\<lambda>(dirFile, k).
     bind_res (Directory_FetchFrom (Directory_new (uninit k) NumDirEntries) dirFile (dsk k)) (\<lambda>directory.
     Inr (dirFile, directory, k)))"

section \<open>FileSystem::FileSystem\<close>

definition FileSystem_new :: "kstate \<Rightarrow> bool \<Rightarrow> (FileSystem \<times> kstate) res" where
  "FileSystem_new k format =
     (if format then
        bind_res (PersistentBitmap_new NumSectors) (\<lambda>freeMap.
        let directory = Directory_new (uninit k) NumDirEntries;
            mapHdr = FileHeader_new (hdr_garbage k);
            dirHdr = FileHeader_new (hdr_garbage k)
        in bind_res (Mark freeMap FreeMapSector) (\<lambda>freeMap.
           bind_res (Mark freeMap DirectorySector) (\<lambda>freeMap.
           bind_res (FileHeader_Allocate mapHdr (dsk k) freeMap FreeMapFileSize) (\<lambda>(ok, mapHdr, d, freeMap).
           ASSERT ok (bind_res (FileHeader_Allocate dirHdr d freeMap DirectoryFileSize) (\<lambda>(ok, dirHdr, d, freeMap).
           ASSERT ok (bind_res (FileHeader_WriteBack mapHdr d FreeMapSector) (\<lambda>d.
           bind_res (FileHeader_WriteBack dirHdr d DirectorySector) (\<lambda>d.
           bind_res (OpenFile_new (k\<lparr>dsk := d\<rparr>) FreeMapSector) (\<lambda>(mapFile, k).
           bind_res (OpenFile_new k DirectorySector) (\<lambda>(dirFile, k).
           bind_res (PersistentBitmap_WriteBack freeMap mapFile (uninit k) (dsk k)) (\<lambda>d.
           bind_res (Directory_WriteBack directory dirFile (uninit k) d) (\<lambda>d.
           Inr (\<lparr>freeMapFile = mapFile, directoryFile = dirFile\<rparr>, k\<lparr>dsk := d\<rparr>))))))))))))))
      else
        bind_res (OpenFile_new k FreeMapSector) (\<lambda>(mapFile, k).
        bind_res (OpenFile_new k DirectorySector) (\<lambda>(dirFile, k).
        Inr (\<lparr>freeMapFile = mapFile, directoryFile = dirFile\<rparr>, k))))"

section \<open>FileSystem::Create\<close>

text \<open>\<open>dirFile\<close> is not deleted on any path.\<close>

definition Create :: "FileSystem \<Rightarrow> kstate \<Rightarrow> byte list \<Rightarrow> int \<Rightarrow> int \<Rightarrow> (bool \<times> kstate) res" where
  "Create fs k nm initialSize wdSector =
     bind_res (parse_path k nm wdSector) (\<lambda>(wdSector, nm, k).
     if wdSector < 0 then Inr (False, k)
     else bind_res (open_dir k wdSector) (\<lambda>(dirFile, directory, k).
     if Find directory nm \<noteq> -1 then Inr (False, k)
     else bind_res (PersistentBitmap_open (freeMapFile fs) NumSectors (dsk k)) (\<lambda>freeMap.
     bind_res (FindAndSet freeMap) (\<lambda>(s, freeMap).
     if s = -1 then Inr (False, k)
     else bind_res (Add (uninit k) directory nm s) (\<lambda>(added, directory).
     if \<not> added then Inr (False, k)
     else bind_res (FileHeader_Allocate (FileHeader_new (hdr_garbage k)) (dsk k) freeMap initialSize)
       (\<lambda>(ok, h, d, freeMap).
     if \<not> ok then Inr (False, k\<lparr>dsk := d\<rparr>)
     else bind_res (FileHeader_WriteBack h d s) (\<lambda>d.
     bind_res (Directory_WriteBack directory dirFile (uninit k) d) (\<lambda>d.
     bind_res (PersistentBitmap_WriteBack freeMap (freeMapFile fs) (uninit k) d) (\<lambda>d.
     Inr (True, k\<lparr>dsk := d\<rparr>))))))))))"

section \<open>FileSystem::Open\<close>

text \<open>
  The constructor of \<open>OpenFile\<close> has entered the sector in all four maps, so of the three
  updates below only the increment takes effect; the last compares an iterator of one
  map with the end of another, which is never equal to it.
\<close>

definition open_counts :: "kstate \<Rightarrow> int \<Rightarrow> kstate" where
  "open_counts k s =
     (let k = (if OpenFileCount k s = None then k\<lparr>OpenFileCount := (OpenFileCount k)(s \<mapsto> 1)\<rparr>
               else k\<lparr>OpenFileCount := (OpenFileCount k)(s \<mapsto> map_at (OpenFileCount k) s + 1)\<rparr>)
      in if semaphoreRead k s = None then k\<lparr>semaphoreRead := (semaphoreRead k)(s \<mapsto> 1)\<rparr> else k)"

definition Open :: "kstate \<Rightarrow> byte list \<Rightarrow> int \<Rightarrow> (OpenFile option \<times> string \<times> kstate) res" where
  "Open k nm wdSector =
     bind_res (parse_path k nm wdSector) (\<lambda>(wdSector, nm, k).
     if wdSector < 0 then Inr (None, [], k)
     else bind_res (open_dir k wdSector) (\<lambda>(dirFile, directory, k).
     bind_res (Directory_Print directory (dsk k)) (\<lambda>out.
     let s = Find directory nm
     in if s \<ge> 0 then
          bind_res (OpenFile_new k s) (\<lambda>(openFile, k).
          Inr (Some openFile, out, OpenFile_delete dirFile (open_counts k s)))
        else Inr (None, out, OpenFile_delete dirFile k))))"

section \<open>FileSystem::Remove\<close>

definition Remove :: "FileSystem \<Rightarrow> kstate \<Rightarrow> byte list \<Rightarrow> int \<Rightarrow> (bool \<times> kstate) res" where
  "Remove fs k nm wdSector =
     bind_res (parse_path k nm wdSector) (\<lambda>(wdSector, nm, k).
     if wdSector < 0 then Inr (False, k)
     else if OpenFileCount k wdSector \<noteq> None \<and> map_at (OpenFileCount k) wdSector > 0 then Inr (False, k)
     else bind_res (open_dir k wdSector) (\<lambda>(dirFile, directory, k).
     let s = Find directory nm
     in if s = -1 then Inr (False, OpenFile_delete dirFile k)
        else if isDirectory directory nm then Inr (False, OpenFile_delete dirFile k)
        else bind_res (FileHeader_FetchFrom (dsk k) s) (\<lambda>fileHdr.
          bind_res (PersistentBitmap_open (freeMapFile fs) NumSectors (dsk k)) (\<lambda>freeMap.
          bind_res (FileHeader_Deallocate fileHdr (dsk k) freeMap) (\<lambda>(fileHdr, freeMap).
          bind_res (Clear freeMap s) (\<lambda>freeMap.
          let directory = snd (Directory_Remove directory nm)
          in bind_res (PersistentBitmap_WriteBack freeMap (freeMapFile fs) (uninit k) (dsk k)) (\<lambda>d.
             bind_res (Directory_WriteBack directory dirFile (uninit k) d) (\<lambda>d.
             Inr (True, OpenFile_delete dirFile (k\<lparr>dsk := d\<rparr>))))))))))"

section \<open>FileSystem::MakeDir\<close>

definition init_subdir :: "kstate \<Rightarrow> int \<Rightarrow> int \<Rightarrow> kstate res" where
  "init_subdir k s wdSector =
     (let newDir = Directory_new (uninit k) NumDirEntries
      in bind_res (OpenFile_new k s) (\<lambda>(newFile, k).
         case AddDirectory (uninit k) newDir dot s of (ok, newDir) \<Rightarrow>
         ASSERT ok (case AddDirectory (uninit k) newDir dotdot wdSector of (ok, newDir) \<Rightarrow>
         ASSERT ok (bind_res (Directory_WriteBack newDir newFile (uninit k) (dsk k)) (\<lambda>d.
         Inr (OpenFile_delete newFile (k\<lparr>dsk := d\<rparr>)))))))"

definition MakeDir :: "FileSystem \<Rightarrow> kstate \<Rightarrow> byte list \<Rightarrow> int \<Rightarrow> int \<Rightarrow> (bool \<times> kstate) res" where
  "MakeDir fs k nm initialSize wdSector =
     bind_res (parse_path k nm wdSector) (\<lambda>(wdSector, nm, k).
     if wdSector < 0 then Inr (False, k)
     else bind_res (open_dir k wdSector) (\<lambda>(dirFile, directory, k).
     if Find directory nm \<noteq> -1 then Inr (False, OpenFile_delete dirFile k)
     else bind_res (PersistentBitmap_new NumSectors) (\<lambda>freeMap.
     bind_res (PersistentBitmap_FetchFrom freeMap (freeMapFile fs) (dsk k)) (\<lambda>freeMap.
     bind_res (FindAndSet freeMap) (\<lambda>(s, freeMap).
     if s = -1 then Inr (False, OpenFile_delete dirFile k)
     else case AddDirectory (uninit k) directory nm s of (added, directory) \<Rightarrow>
     if \<not> added then Inr (False, OpenFile_delete dirFile k)
     else ASSERT (Find directory nm \<noteq> -1)
       (bind_res (FileHeader_Allocate (FileHeader_new (hdr_garbage k)) (dsk k) freeMap initialSize)
         (\<lambda>(ok, h, d, freeMap).
       if \<not> ok then Inr (False, OpenFile_delete dirFile (k\<lparr>dsk := d\<rparr>))
       else bind_res (FileHeader_WriteBack h d s) (\<lambda>d.
       bind_res (Directory_WriteBack directory dirFile (uninit k) d) (\<lambda>d.
       bind_res (PersistentBitmap_WriteBack freeMap (freeMapFile fs) (uninit k) d) (\<lambda>d.
       bind_res (init_subdir (k\<lparr>dsk := d\<rparr>) s wdSector) (\<lambda>k.
       Inr (True, OpenFile_delete dirFile k))))))))))))"

section \<open>ChangeDir, PrintFullPath, List, Print\<close>

definition ChangeDir :: "kstate \<Rightarrow> byte list \<Rightarrow> int \<Rightarrow> (int \<times> kstate) res" where
  "ChangeDir k nm wdSector =
     bind_res (parse_path k nm wdSector) (\<lambda>(wdSector, nm, k).
     if wdSector < 0 then Inr (-1, k)
     else bind_res (open_dir k wdSector) (\<lambda>(dirFile, dir, k).
     if \<not> isDirectory dir nm then Inr (-1, OpenFile_delete dirFile k)
     else Inr (Find dir nm, OpenFile_delete dirFile k)))"

definition PrintFullPath :: "nat \<Rightarrow> kstate \<Rightarrow> int \<Rightarrow> (string \<times> kstate) res option" where
  "PrintFullPath fuel k workSector =
     (case open_dir k workSector of
        Inl err \<Rightarrow> Some (Inl err)
      | Inr (dirFile, directory, k) \<Rightarrow>
        (case GetFullPath fuel k directory workSector of
           None \<Rightarrow> None
         | Some (Inl err) \<Rightarrow> Some (Inl err)
         | Some (Inr (path, k)) \<Rightarrow>
           Some (Inr (''Current path is: '' @ path @ newline, OpenFile_delete dirFile k))))"

definition FileSystem_List :: "nat \<Rightarrow> kstate \<Rightarrow> int \<Rightarrow> (string \<times> kstate) res option" where
  "FileSystem_List fuel k dirSector =
     (case open_dir k dirSector of
        Inl err \<Rightarrow> Some (Inl err)
      | Inr (dirFile, directory, k) \<Rightarrow>
        (case Directory_List fuel k directory 0 of
           None \<Rightarrow> None
         | Some (Inl err) \<Rightarrow> Some (Inl err)
         | Some (Inr (out, k)) \<Rightarrow> Some (Inr (out, OpenFile_delete dirFile k))))"

definition FileSystem_Print :: "FileSystem \<Rightarrow> kstate \<Rightarrow> string res" where
  "FileSystem_Print fs k =
     bind_res (PersistentBitmap_open (freeMapFile fs) NumSectors (dsk k)) (\<lambda>freeMap.
     bind_res (FileHeader_FetchFrom (dsk k) FreeMapSector) (\<lambda>bitHdr.
     bind_res (FileHeader_Print bitHdr (dsk k)) (\<lambda>t1.
     bind_res (FileHeader_FetchFrom (dsk k) DirectorySector) (\<lambda>dirHdr.
     bind_res (FileHeader_Print dirHdr (dsk k)) (\<lambda>t2.
     bind_res (Bitmap_Print freeMap) (\<lambda>bits.
     bind_res (Directory_FetchFrom (Directory_new (uninit k) NumDirEntries) (directoryFile fs) (dsk k)) (\<lambda>directory.
     bind_res (Directory_Print directory (dsk k)) (\<lambda>t3.
     Inr (''Bit map file header:'' @ newline @ t1 @ ''Directory file header:'' @ newline @ t2
       @ ''Bitmap set:'' @ newline @ concat (map (\<lambda>i. show_d i @ '', '') bits) @ newline @ t3)))))))))"

definition GetFreeMapFile :: "FileSystem \<Rightarrow> OpenFile" where "GetFreeMapFile fs = freeMapFile fs"
definition GetDirectoryFile :: "FileSystem \<Rightarrow> OpenFile" where "GetDirectoryFile fs = directoryFile fs"

section \<open>Common steps\<close>

lemma NumDirEntries_eq [simp]: "NumDirEntries = 10"
  by (simp add: NumDirEntries_def)

lemma in_int_garbage [simp]: "in_int (hdr_garbage k)"
  by (simp add: hdr_garbage_def bytes_to_int_def)

lemma parse_path_plain: "47 \<notin> set path \<Longrightarrow> parse_path k path wd = Inr (wd, path, k)"
  by (simp add: parse_path.simps)

lemma open_dir_ok:
  assumes "vol_inv (dsk k) M fm" "M wd = Some h" "200 \<le> numBytes h"
  shows "open_dir k wd = Inr (\<lparr>hdr = h, seekPosition = 0, hdrSector = wd\<rparr>, dir_of (dsk k) h, open_maps k wd)"
proof -
  have "file_ok (dsk k) h" using vol_invD(4) [OF assms(1,2)] by (simp add: file_at_def)
  with Directory_FetchFrom_ok [of "dsk k" "\<lparr>hdr = h, seekPosition = 0, hdrSector = wd\<rparr>"] assms(3)
  show ?thesis using vol_open [OF assms(1,2)] by (simp add: open_dir_def)
qed

lemma dir_of_table: "length (table (dir_of d h)) = 10" "tableSize (dir_of d h) = 10"
  by (simp_all add: dir_of_def)

text \<open>
  Creating a file or a directory, once its header sector is claimed and its entry is in the
  table: the sectors, the header, the parent directory and the free map are written.
\<close>

lemma new_file_core:
  assumes fs: "fs_inv d M fm (hdr fmf)" and wd: "M wd = Some (hdr dirFile)" "wd \<noteq> 0" "numBytes (hdr dirFile) = 200"
    and cl: "vol_inv d M fm1" "valid_sector s" "unowned d M s" "s \<in> marked fm1" "M s = None"
    and dir: "wf_dir dir" "10 \<le> length (table dir)" and sz: "0 \<le> sz" "in_int g"
    and sp: "enough_space fm1 0 0 (nat ((sz + 127) div 128))"
  shows "\<exists>h d1 d2 d3 d4 fm2. FileHeader_Allocate (FileHeader_new g) d fm1 sz = Inr (True, h, d1, fm2)
    \<and> FileHeader_WriteBack h d1 s = Inr d2 \<and> Directory_WriteBack dir dirFile u d2 = Inr d3
    \<and> PersistentBitmap_WriteBack fm2 fmf u d3 = Inr d4 \<and> fs_inv d4 (M(s \<mapsto> h)) fm2 (hdr fmf)
    \<and> numBytes h = sz \<and> numSectors h = (sz + 127) div 128 \<and> dir_of d4 (hdr dirFile) = \<lparr>tableSize = 10, table = take 10 (table dir)\<rparr>
    \<and> free_bits fm2 = free_bits fm1 - owned d4 (M(s \<mapsto> h)) s
    \<and> card (free_bits fm1) = card (free_bits fm2) + nat ((sz + 127) div 128) + (nat ((sz + 127) div 128) + 31) div 32
    \<and> (\<forall>t hh. t \<noteq> 0 \<longrightarrow> t \<noteq> wd \<longrightarrow> M t = Some hh \<longrightarrow> bytes_of d4 hh = bytes_of d hh)"
proof -
  have m0: "M 0 = Some (hdr fmf)" "numBytes (hdr fmf) = 128" using fs by (auto simp: fs_inv_def)
  have ne: "s \<noteq> 0" "s \<noteq> wd" using cl(5) m0 wd by auto
  note pre = alloc_pre_new [OF vol_invD(1-3) [OF cl(1)]]
  from FileHeader_Allocate_inv [OF file_inv_new [OF sz(2)] pre sz(1)] sp obtain ibs ds d1 fm2 h where
    a: "FileHeader_Allocate (FileHeader_new g) d fm1 sz = Inr (True, h, d1, fm2)" "file_inv d1 h ibs ds"
    "alloc_post d fm1 [] [] ibs ds d1 fm2" "numBytes h = sz" "length ds = nat ((sz + 127) div 128)"
    by (auto simp: FileHeader_new_def)
  have "length ibs = (length ds + 31) div 32" using a(2) by (simp add: file_inv_def index_ok_def)
  then have cnt: "card (free_bits fm1) = card (free_bits fm2) + length ds + (length ds + 31) div 32"
    using alloc_post_card [OF a(3)] by simp
  note va = vol_allocate [OF cl(1-4) a(1-3)]
  from vol_add_file [OF va(1) cl(2) va(3,4) va(2,5,7,6)] obtain d2 where
    w2: "FileHeader_WriteBack h d1 s = Inr d2" "vol_inv d2 (M(s \<mapsto> h)) fm2"
    "\<forall>t h'. M t = Some h' \<longrightarrow> bytes_of d2 h' = bytes_of d1 h'"
    "owned d2 (M(s \<mapsto> h)) = (owned d1 M)(s := insert s (file_sectors d1 h))" by blast
  have "(M(s \<mapsto> h)) wd = Some (hdr dirFile)" using ne wd by simp
  from vol_dir_write [OF w2(2) this wd(3) dir, of u] obtain d3 where
    w3: "Directory_WriteBack dir dirFile u d2 = Inr d3" "vol_inv d3 (M(s \<mapsto> h)) fm2"
    "dir_of d3 (hdr dirFile) = \<lparr>tableSize = 10, table = take 10 (table dir)\<rparr>"
    "\<forall>t hh. t \<noteq> wd \<longrightarrow> (M(s \<mapsto> h)) t = Some hh \<longrightarrow> bytes_of d3 hh = bytes_of d2 hh"
    "owned d3 (M(s \<mapsto> h)) = owned d2 (M(s \<mapsto> h))" by blast
  have "(M(s \<mapsto> h)) 0 = Some (hdr fmf)" using ne m0 by simp
  from vol_save_map [OF w3(2) this m0(2), of u] obtain d4 where
    w4: "PersistentBitmap_WriteBack fm2 fmf u d3 = Inr d4" "fs_inv d4 (M(s \<mapsto> h)) fm2 (hdr fmf)"
    "\<forall>t hh. t \<noteq> 0 \<longrightarrow> (M(s \<mapsto> h)) t = Some hh \<longrightarrow> bytes_of d4 hh = bytes_of d3 hh"
    "owned d4 (M(s \<mapsto> h)) = owned d3 (M(s \<mapsto> h))" by blast
  have "dir_of d4 (hdr dirFile) = dir_of d3 (hdr dirFile)"
    using w4(3) wd ne by (auto simp: dir_of_def)
  moreover have "bytes_of d4 hh = bytes_of d hh" if "t \<noteq> 0" "t \<noteq> wd" "M t = Some hh" for t hh
  proof -
    have "(M(s \<mapsto> h)) t = Some hh" using that cl(5) by auto
    then show ?thesis using w4(3) w3(4) w2(3) va(8) that by metis
  qed
  moreover have "free_bits fm2 = free_bits fm1 - owned d4 (M(s \<mapsto> h)) s"
  proof -
    have "owned d4 (M(s \<mapsto> h)) s = insert s (set (ibs @ ds))"
      using w4(4) w3(5) w2(4) file_inv_layout [OF a(2)] by (simp add: file_sectors_def)
    moreover have "free_bits fm2 = free_bits fm1 - set (ibs @ ds)" using a(3) by (simp add: alloc_post_def)
    moreover have "s \<notin> free_bits fm1" using cl(4) by (simp add: free_bits_def)
    ultimately show ?thesis by auto
  qed
  moreover have "numSectors h = (sz + 127) div 128" using a(2,5) sz(1) by (simp add: file_inv_def)
  ultimately show ?thesis using a(1,4) cnt [unfolded a(5)] w2(1) w3(1,3) w4(1,2)
    by (intro exI [of _ h] exI [of _ d1] exI [of _ d2] exI [of _ d3] exI [of _ d4] exI [of _ fm2]) simp
qed

text \<open>The state in which an operation works in directory \<open>wd\<close>.\<close>

definition in_dir :: "FileSystem \<Rightarrow> kstate \<Rightarrow> (int \<rightharpoonup> FileHeader) \<Rightarrow> Bitmap \<Rightarrow> int \<Rightarrow> FileHeader \<Rightarrow> bool" where
  "in_dir fs k M fm wd hw \<longleftrightarrow> fs_inv (dsk k) M fm (hdr (freeMapFile fs)) \<and> M wd = Some hw
     \<and> wd \<noteq> 0 \<and> numBytes hw = 200 \<and> dir_ok (dir_of (dsk k) hw)"

lemma in_dirD:
  assumes "in_dir fs k M fm wd hw"
  shows "vol_inv (dsk k) M fm" "fs_inv (dsk k) M fm (hdr (freeMapFile fs))" "M wd = Some hw" "wd \<noteq> 0"
    "numBytes hw = 200" "dir_ok (dir_of (dsk k) hw)" "valid_sector wd" "0 \<le> wd" "200 \<le> numBytes hw"
  using assms vol_invD(4) [of "dsk k" M fm wd hw]
  by (auto simp: in_dir_def fs_inv_def file_at_def valid_sector_def)

lemma in_dir_open:
  "in_dir fs k M fm wd hw
    \<Longrightarrow> open_dir k wd = Inr (\<lparr>hdr = hw, seekPosition = 0, hdrSector = wd\<rparr>, dir_of (dsk k) hw, open_maps k wd)"
  using in_dirD(1,3,9) [of fs k M fm wd hw] open_dir_ok [of k M fm wd hw] by simp

lemma valid_in_int: "valid_sector s \<Longrightarrow> in_int s" "valid_sector s \<Longrightarrow> s \<noteq> -1" "valid_sector s \<Longrightarrow> \<not> s < 0"
  by (auto simp: valid_sector_def in_int_def)

text \<open>
  Where the table has a free entry the new table is stored whole; a full table was expanded,
  and only its first ten entries, the old ones, are stored.
\<close>

lemma stored_entries:
  assumes ok: "dir_ok dir" "length (table dir) = 10" "in_int s" "dir_abs dir (name_key nm) = None"
    and fill: "fill_first (set_entry b nm s) (table (if dir_full dir then Expand g dir (tableSize dir * 2) else dir)) = Some es"
  shows "dir_full dir \<Longrightarrow> take 10 es = table dir" "\<not> dir_full dir \<Longrightarrow> length es = 10"
proof -
  let ?base = "if dir_full dir then Expand g dir (tableSize dir * 2) else dir"
  from fill_first_cases [where f = "set_entry b nm s" and es = "table ?base"] fill obtain xs e ys where
    e: "table ?base = xs @ e # ys" "\<not> inUse e" "es = xs @ set_entry b nm s e # ys" by auto
  show "\<not> dir_full dir \<Longrightarrow> length es = 10" using e ok(2) by auto
  show "take 10 es = table dir" if full: "dir_full dir"
  proof -
    have t: "table dir @ drop 10 (new_table g (tableSize dir * 2)) = xs @ e # ys"
      using e(1) full Expand_table(1) [OF ok(1), of g] ok(2) by simp
    have "10 \<le> length xs"
    proof (rule ccontr)
      assume "\<not> 10 \<le> length xs"
      then have "e = table dir ! length xs" "length xs < length (table dir)"
        using t ok(2) by (metis nth_append nth_append_length not_le, simp)
      then show False using full e(2) nth_mem by (auto simp: dir_full_def)
    qed
    then have "take 10 es = take 10 (table dir @ drop 10 (new_table g (tableSize dir * 2)))"
      unfolding t e(3) by simp
    then show ?thesis using ok(2) by simp
  qed
qed

section \<open>Create\<close>

lemma Create_run:
  assumes dir: "in_dir fs k M fm wd hw" and nm: "47 \<notin> set nm" "dir_abs (dir_of (dsk k) hw) (name_key nm) = None"
    and sz: "0 \<le> sz" and fm: "FindAndSet fm = Inr (s, fm1)" "free_bits fm \<noteq> {}"
    and sp: "enough_space fm1 0 0 (nat ((sz + 127) div 128))"
  shows "\<exists>h d' fm' es. Create fs k nm sz wd = Inr (True, (open_maps k wd)\<lparr>dsk := d'\<rparr>)
    \<and> fs_inv d' (M(s \<mapsto> h)) fm' (hdr (freeMapFile fs)) \<and> M s = None \<and> valid_sector s
    \<and> numBytes h = sz \<and> numSectors h = (sz + 127) div 128
    \<and> fill_first (set_entry False nm s) (table (if dir_full (dir_of (dsk k) hw)
        then Expand (uninit k) (dir_of (dsk k) hw) (tableSize (dir_of (dsk k) hw) * 2) else dir_of (dsk k) hw)) = Some es
    \<and> dir_of d' hw = \<lparr>tableSize = 10, table = take 10 es\<rparr>
    \<and> free_bits fm' = free_bits fm - owned d' (M(s \<mapsto> h)) s
    \<and> card (free_bits fm) = card (free_bits fm') + 1 + nat ((sz + 127) div 128) + (nat ((sz + 127) div 128) + 31) div 32
    \<and> (\<forall>t hh. t \<noteq> 0 \<longrightarrow> t \<noteq> wd \<longrightarrow> M t = Some hh \<longrightarrow> bytes_of d' hh = bytes_of (dsk k) hh)"
proof -
  note D = in_dirD [OF dir]
  let ?dir = "dir_of (dsk k) hw" and ?f = "\<lparr>hdr = hw, seekPosition = 0, hdrSector = wd\<rparr>"
  let ?base = "if dir_full ?dir then Expand (uninit k) ?dir (tableSize ?dir * 2) else ?dir"
  from vol_claim [OF D(1) fm(2)] fm(1) have
    cl: "vol_inv (dsk k) M fm1" "valid_sector s" "unowned (dsk k) M s" "s \<in> marked fm1" "M s = None"
      "free_bits fm1 = free_bits fm - {s}" "s \<in> free_bits fm" by (metis Inr_inject prod.inject)+
  from insert_entry [OF D(6) valid_in_int(1) [OF cl(2)] nm(2), where g = "uninit k" and b = False] obtain es where
    es: "fill_first (set_entry False nm s) (table ?base) = Some es" "dir_ok (?base\<lparr>table := es\<rparr>)" by blast
  have add: "Add (uninit k) ?dir nm s = Inr (True, ?base\<lparr>table := es\<rparr>)"
    using D(6) by (intro Add_fill [OF _ nm(2) es(1)]) (simp add: dir_ok_def)
  have wf: "wf_dir (?base\<lparr>table := es\<rparr>)" "10 \<le> length (table (?base\<lparr>table := es\<rparr>))"
    using es(2) dir_of_table [of "dsk k" hw] by (auto simp: dir_ok_def wf_dir_def Expand_def split: if_splits)
  have "M wd = Some (hdr ?f)" "numBytes (hdr ?f) = 200" using D by simp_all
  from new_file_core [OF D(2) this(1) D(4) this(2) cl(1-5) wf sz in_int_garbage sp, of k "uninit k"]
  obtain h d1 d2 d3 d4 fm2 where
    c: "FileHeader_Allocate (FileHeader_new (hdr_garbage k)) (dsk k) fm1 sz = Inr (True, h, d1, fm2)"
    "FileHeader_WriteBack h d1 s = Inr d2" "Directory_WriteBack (?base\<lparr>table := es\<rparr>) ?f (uninit k) d2 = Inr d3"
    "PersistentBitmap_WriteBack fm2 (freeMapFile fs) (uninit k) d3 = Inr d4"
    "fs_inv d4 (M(s \<mapsto> h)) fm2 (hdr (freeMapFile fs))" "numBytes h = sz"
    "dir_of d4 hw = \<lparr>tableSize = 10, table = take 10 es\<rparr>" "numSectors h = (sz + 127) div 128"
    "free_bits fm2 = free_bits fm1 - owned d4 (M(s \<mapsto> h)) s"
    "card (free_bits fm1) = card (free_bits fm2) + nat ((sz + 127) div 128) + (nat ((sz + 127) div 128) + 31) div 32"
    "\<forall>t hh. t \<noteq> 0 \<longrightarrow> t \<noteq> wd \<longrightarrow> M t = Some hh \<longrightarrow> bytes_of d4 hh = bytes_of (dsk k) hh" by auto
  have g: "hdr_garbage (open_maps k wd) = hdr_garbage k" by (simp add: hdr_garbage_def)
  have "Find ?dir nm = -1" using Find_abs [of ?dir nm] nm(2) D(6) by (simp add: dir_ok_def)
  then have "Create fs k nm sz wd = Inr (True, (open_maps k wd)\<lparr>dsk := d4\<rparr>)"
    using D(8) valid_in_int [OF cl(2)] fm(1) add c(1-4)
    by (simp add: Create_def parse_path_plain [OF nm(1)] in_dir_open [OF dir] fs_fetch_map(1) [OF D(2), simplified] g)
  moreover have "free_bits fm2 = free_bits fm - owned d4 (M(s \<mapsto> h)) s"
    using c(9) cl(6) by (auto simp: owned_upd)
  moreover have "card (free_bits fm) = card (free_bits fm1) + 1"
    unfolding cl(6) using cl(7) card_Suc_Diff1 [of "free_bits fm" s] by simp
  ultimately show ?thesis using c es cl
    by (intro exI [of _ h] exI [of _ d4] exI [of _ fm2] exI [of _ es]) simp
qed

section \<open>Formatting\<close>

lemma vol_inv_empty: "wf_disk d \<Longrightarrow> wf_bitmap fm \<Longrightarrow> numBits fm = 1024 \<Longrightarrow> vol_inv d Map.empty fm"
  by (simp add: vol_inv_def)

lemma fresh_map_marked:
  "\<exists>fm. (\<forall>c. bind_res (PersistentBitmap_new NumSectors) (\<lambda>b. bind_res (Mark b FreeMapSector) (\<lambda>b.
      bind_res (Mark b DirectorySector) c)) = c fm)
    \<and> wf_bitmap fm \<and> numBits fm = 1024 \<and> marked fm = {0, 1}"
proof -
  obtain b where b: "PersistentBitmap_new 1024 = Inr b" "wf_bitmap b" "numBits b = 1024" "marked b = {}"
    using PersistentBitmap_new_ok [of 1024] by auto
  let ?b1 = "set_bit_at b 0" let ?b2 = "set_bit_at ?b1 1"
  have "Mark b 0 = Inr ?b1" "Mark ?b1 1 = Inr ?b2" using b Mark_eq by simp_all
  moreover have "wf_bitmap ?b2" "numBits ?b2 = 1024" "marked ?b2 = {0, 1}" using b by auto
  ultimately show ?thesis using b(1) by (intro exI [of _ ?b2]) (simp add: FreeMapSector_def DirectorySector_def)
qed

text \<open>A new file allocated on a volume leaves every sector but its index blocks unchanged.\<close>

lemma alloc_new_file:
  assumes vol: "vol_inv d M fm" and sz: "0 \<le> sz" "enough_space fm 0 0 (nat ((sz + 127) div 128))" "in_int g"
  shows "\<exists>h d' fm'. FileHeader_Allocate (FileHeader_new g) d fm sz = Inr (True, h, d', fm')
    \<and> file_ok d' h \<and> numBytes h = sz \<and> vol_inv d' M fm' \<and> owned d' M = owned d M
    \<and> (\<forall>t. t \<notin> file_sectors d' h \<longrightarrow> d' t = d t) \<and> file_sectors d' h \<subseteq> free_bits fm
    \<and> free_bits fm' = free_bits fm - file_sectors d' h
    \<and> card (file_sectors d' h) = nat ((sz + 127) div 128) + (nat ((sz + 127) div 128) + 31) div 32"
proof -
  note pre = alloc_pre_new [OF vol_invD(1-3) [OF vol]]
  from FileHeader_Allocate_inv [OF file_inv_new [OF sz(3)] pre sz(1)] sz(2) obtain ibs ds d' fm' h where
    a: "FileHeader_Allocate (FileHeader_new g) d fm sz = Inr (True, h, d', fm')" "file_inv d' h ibs ds"
    "alloc_post d fm [] [] ibs ds d' fm'" "numBytes h = sz" "int (length ds) = (sz + 127) div 128"
    by (auto simp: FileHeader_new_def)
  have p: "wf_disk d'" "wf_bitmap fm'" "numBits fm' = 1024" "set (ibs @ ds) \<subseteq> free_bits fm"
    "free_bits fm' = free_bits fm - set (ibs @ ds)" "\<forall>t. t \<notin> set ibs \<longrightarrow> d' t = d t"
    "distinct (ibs @ ds)" "length ibs = (length ds + 31) div 32"
    using a(3) by (auto simp: alloc_post_def alloc_pre_def index_ok_def)
  have fs: "file_sectors d' h = set (ibs @ ds)" using file_inv_layout [OF a(2)] by (simp add: file_sectors_def)
  have same: "\<forall>u. \<forall>t\<in>owned d M u. d' t = d t" using p(4,6) free_not_owned [OF vol] by auto
  have "marked fm \<subseteq> marked fm'" using p(3,5) vol_invD(3) [OF vol] unfolding marked_free by auto
  note vf = vol_frame [OF vol p(1) same p(2,3) this]
  have "card (file_sectors d' h) = length ds + (length ds + 31) div 32"
    unfolding fs using distinct_card [OF p(7)] p(8) by simp
  moreover have "length ds = nat ((sz + 127) div 128)" using a(5) by simp
  ultimately show ?thesis
    using a(1,4) file_okI [OF a(2) p(1)] vf(1,3) p(4-6) fs
    by (intro exI [of _ h] exI [of _ d'] exI [of _ fm']) auto
qed

lemma Directory_new_empty:
  "dir_ok (Directory_new g 10)" "dir_abs (Directory_new g 10) = Map.empty" "\<not> dir_full (Directory_new g 10)"
proof -
  have t: "table (Directory_new g 10) = new_table g 10" "tableSize (Directory_new g 10) = 10"
    by (simp_all add: Directory_new_def)
  have "\<forall>e\<in>set (new_table g 10). \<not> inUse e" using new_table_props(2) [of _ g 10] by blast
  moreover from this have "dir_entries (new_table g 10) = []" by (simp add: dir_entries_def filter_empty_conv)
  moreover have "new_table g 10 \<noteq> []" using new_table_props(1) [of g 10] by auto
  ultimately show "dir_ok (Directory_new g 10)" "dir_abs (Directory_new g 10) = Map.empty"
    "\<not> dir_full (Directory_new g 10)"
    using wf_Directory_new [of 10 g] t by (auto simp: dir_ok_def dir_abs_def dir_full_def neq_Nil_conv)
qed

text \<open>The two files of an empty disk, allocated one after the other, then their headers.\<close>

lemma two_files:
  assumes vol: "vol_inv d Map.empty fm" "marked fm = {0, 1}" and g: "in_int g"
  shows "\<exists>h0 h1 d1 d2 d3 d4 fm1 fm2. FileHeader_Allocate (FileHeader_new g) d fm 128 = Inr (True, h0, d1, fm1)
    \<and> FileHeader_Allocate (FileHeader_new g) d1 fm1 200 = Inr (True, h1, d2, fm2)
    \<and> FileHeader_WriteBack h0 d2 0 = Inr d3 \<and> FileHeader_WriteBack h1 d3 1 = Inr d4
    \<and> vol_inv d4 [0 \<mapsto> h0, 1 \<mapsto> h1] fm2 \<and> numBytes h0 = 128 \<and> numBytes h1 = 200
    \<and> card (free_bits fm2) = 1017"
proof -
  have fr: "free_bits fm = {0..<1024} - {0, 1}" using vol vol_invD(3) by (auto simp: free_bits_def)
  have c: "card (free_bits fm) = 1022" unfolding fr by (subst card_Diff_subset) auto
  then have "enough_space fm 0 0 (nat ((128 + 127) div 128))" by (simp add: enough_space_def)
  from alloc_new_file [OF vol(1) _ this g] obtain h0 d1 fm1 where a0:
    "FileHeader_Allocate (FileHeader_new g) d fm 128 = Inr (True, h0, d1, fm1)" "file_ok d1 h0" "numBytes h0 = 128"
    "vol_inv d1 Map.empty fm1" "file_sectors d1 h0 \<subseteq> free_bits fm" "free_bits fm1 = free_bits fm - file_sectors d1 h0"
    "card (file_sectors d1 h0) = 2" by auto
  have c1: "card (free_bits fm1) = 1020"
    unfolding a0(6) using a0(5,7) c by (simp add: card_Diff_subset finite_subset)
  then have "enough_space fm1 0 0 (nat ((200 + 127) div 128))" by (simp add: enough_space_def)
  from alloc_new_file [OF a0(4) _ this g] obtain h1 d2 fm2 where a1:
    "FileHeader_Allocate (FileHeader_new g) d1 fm1 200 = Inr (True, h1, d2, fm2)" "file_ok d2 h1" "numBytes h1 = 200"
    "vol_inv d2 Map.empty fm2" "\<forall>t. t \<notin> file_sectors d2 h1 \<longrightarrow> d2 t = d1 t"
    "file_sectors d2 h1 \<subseteq> free_bits fm1" "free_bits fm2 = free_bits fm1 - file_sectors d2 h1"
    "card (file_sectors d2 h1) = 3" by auto
  have c2: "card (free_bits fm2) = 1017"
    unfolding a1(7) using a1(6,8) c1 by (simp add: card_Diff_subset finite_subset)
  have "\<forall>t\<in>file_sectors d1 h0. d2 t = d1 t" using a1(5,6) a0(6) by auto
  note h0 = file_ok_change [OF a0(2) vol_invD(1) [OF a1(4)] this]
  have not01: "0 \<notin> free_bits fm" "1 \<notin> free_bits fm" unfolding fr by auto
  have mk: "marked fm2 = {0..<1024} - free_bits fm2"
    using vol_invD(3) [OF a1(4)] marked_free by metis
  have s0: "0 \<notin> file_sectors d2 h0" "1 \<notin> file_sectors d2 h0" "0 \<notin> file_sectors d2 h1" "1 \<notin> file_sectors d2 h1"
    using a0(5,6) a1(6) not01 h0(2) by auto
  have sub: "file_sectors d2 h0 \<subseteq> marked fm2" "file_sectors d2 h1 \<subseteq> marked fm2" "0 \<in> marked fm2" "1 \<in> marked fm2"
    "file_sectors d2 h0 \<inter> file_sectors d2 h1 = {}"
    unfolding mk using a0(5,6) a1(6,7) fr h0(2) by auto
  have v: "valid_sector 0" "valid_sector 1" by (simp_all add: valid_sector_def)
  have o: "unowned d2 Map.empty 0" "owned d2 Map.empty t \<inter> file_sectors d2 h0 = {}" for t
    by (simp_all add: unowned_def)
  from vol_add_file [OF a1(4) v(1) o(1) sub(3) h0(1) s0(1) sub(1) o(2)] obtain d3 where
    d3: "FileHeader_WriteBack h0 d2 0 = Inr d3" "vol_inv d3 [0 \<mapsto> h0] fm2"
    "owned d3 [0 \<mapsto> h0] = (owned d2 Map.empty)(0 := insert 0 (file_sectors d2 h0))" "\<forall>t. t \<noteq> 0 \<longrightarrow> d3 t = d2 t"
    by blast
  have "\<forall>t\<in>file_sectors d2 h1. d3 t = d2 t" using d3(4) s0 by metis
  note h1 = file_ok_change [OF a1(2) vol_invD(1) [OF d3(2)] this]
  have u: "unowned d3 [0 \<mapsto> h0] 1" "owned d3 [0 \<mapsto> h0] t \<inter> file_sectors d3 h1 = {}" for t
    unfolding unowned_def d3(3) h1(2) using s0 sub(5) by auto
  have h1': "1 \<notin> file_sectors d3 h1" "file_sectors d3 h1 \<subseteq> marked fm2" using h1(2) s0 sub by auto
  from vol_add_file [OF d3(2) v(2) u(1) sub(4) h1(1) h1' u(2)] obtain d4 where
    "FileHeader_WriteBack h1 d3 1 = Inr d4" "vol_inv d4 [0 \<mapsto> h0, 1 \<mapsto> h1] fm2" by blast
  with a0(1,3) a1(1,3) d3(1) c2 show ?thesis by blast
qed

lemma format_ok:
  assumes wf: "wf_disk (dsk k)"
  shows "\<exists>fs k' h0 h1 fm. FileSystem_new k True = Inr (fs, k') \<and> in_dir fs k' [0 \<mapsto> h0, 1 \<mapsto> h1] fm 1 h1
    \<and> hdr (freeMapFile fs) = h0 \<and> hdr (directoryFile fs) = h1 \<and> dir_abs (dir_of (dsk k') h1) = Map.empty
    \<and> \<not> dir_full (dir_of (dsk k') h1) \<and> card (free_bits fm) = 1017
    \<and> k' = (open_maps (open_maps k 0) 1)\<lparr>dsk := dsk k'\<rparr>"
proof -
  let ?g = "hdr_garbage k" and ?dir = "Directory_new (uninit k) 10"
  obtain fm where fm: "\<forall>c :: Bitmap \<Rightarrow> (FileSystem \<times> kstate) res. bind_res (PersistentBitmap_new NumSectors)
      (\<lambda>b. bind_res (Mark b FreeMapSector) (\<lambda>b. bind_res (Mark b DirectorySector) c)) = c fm"
    "wf_bitmap fm" "numBits fm = 1024" "marked fm = {0, 1}" using fresh_map_marked by blast
  from two_files [OF vol_inv_empty [OF wf fm(2,3)] fm(4), of ?g] obtain h0 h1 d1 d2 d3 d4 fm1 fm2 where
    t: "FileHeader_Allocate (FileHeader_new ?g) (dsk k) fm 128 = Inr (True, h0, d1, fm1)"
    "FileHeader_Allocate (FileHeader_new ?g) d1 fm1 200 = Inr (True, h1, d2, fm2)"
    "FileHeader_WriteBack h0 d2 0 = Inr d3" "FileHeader_WriteBack h1 d3 1 = Inr d4"
    "vol_inv d4 [0 \<mapsto> h0, 1 \<mapsto> h1] fm2" "numBytes h0 = 128" "numBytes h1 = 200" "card (free_bits fm2) = 1017"
    using in_int_garbage by blast
  let ?M = "[0 \<mapsto> h0, 1 \<mapsto> h1] :: int \<rightharpoonup> FileHeader" and ?k4 = "k\<lparr>dsk := d4\<rparr>"
  let ?f0 = "\<lparr>hdr = h0, seekPosition = 0, hdrSector = 0\<rparr>" and ?f1 = "\<lparr>hdr = h1, seekPosition = 0, hdrSector = 1\<rparr>"
  have op: "OpenFile_new ?k4 0 = Inr (?f0, open_maps ?k4 0)"
    "OpenFile_new (open_maps ?k4 0) 1 = Inr (?f1, open_maps (open_maps ?k4 0) 1)"
    using vol_open [of ?k4 ?M fm2 0 h0] vol_open [of "open_maps ?k4 0" ?M fm2 1 h1] t(5) by simp_all
  from vol_save_map [of d4 ?M fm2 ?f0, OF t(5), of "uninit k"] t(6) obtain d5 where
    w5: "PersistentBitmap_WriteBack fm2 ?f0 (uninit k) d4 = Inr d5" "fs_inv d5 ?M fm2 h0" by auto
  have v5: "vol_inv d5 ?M fm2" using w5(2) by (simp add: fs_inv_def)
  have wd: "wf_dir ?dir" "10 \<le> length (table ?dir)" using dir_new_table [of "uninit k"] by simp_all
  from vol_dir_write [of d5 ?M fm2 1 ?f1, OF v5 _ _ wd, of "uninit k"] t(7) obtain d6 where
    w6: "Directory_WriteBack ?dir ?f1 (uninit k) d5 = Inr d6" "vol_inv d6 ?M fm2"
    "dir_of d6 h1 = \<lparr>tableSize = 10, table = take 10 (table ?dir)\<rparr>"
    "\<forall>t hh. t \<noteq> 1 \<longrightarrow> ?M t = Some hh \<longrightarrow> bytes_of d6 hh = bytes_of d5 hh" by auto
  have "bytes_of d6 h0 = bytes_of d5 h0" using w6(4) by (metis fun_upd_apply zero_neq_one)
  then have fs6: "fs_inv d6 ?M fm2 h0"
    using w5(2) w6(2) vol_invD(4) [OF w6(2), of 0 h0] by (auto simp: fs_inv_def saved_in_def file_at_def)
  have dd: "dir_of d6 h1 = ?dir"
    unfolding w6(3) using dir_new_table [of "uninit k"] by (simp add: Directory_new_def)
  let ?k6 = "(open_maps (open_maps ?k4 0) 1)\<lparr>dsk := d6\<rparr>" and ?fs = "\<lparr>freeMapFile = ?f0, directoryFile = ?f1\<rparr>"
  have "FileSystem_new k True = Inr (?fs, ?k6)"
    unfolding FileSystem_new_def Let_def if_True fm(1) [rule_format] using t(1-4) op w5(1) w6(1)
    by (simp add: FreeMapFileSize_def DirectoryFileSize_def BitsInByte_def FreeMapSector_def DirectorySector_def)
  moreover have "in_dir ?fs ?k6 ?M fm2 1 h1" using fs6 t(7) Directory_new_empty dd by (simp add: in_dir_def)
  moreover have "?k6 = (open_maps (open_maps k 0) 1)\<lparr>dsk := dsk ?k6\<rparr>" by (simp add: open_maps_def)
  ultimately show ?thesis using dd Directory_new_empty t(8)
    by (intro exI [of _ ?fs] exI [of _ ?k6] exI [of _ h0] exI [of _ h1] exI [of _ fm2]) simp
qed

section \<open>Remove\<close>

lemma Remove_run:
  assumes dir: "in_dir fs k M fm wd hw" and nm: "47 \<notin> set nm" "dir_abs (dir_of (dsk k) hw) (name_key nm) = Some (s, False)"
    and s: "M s = Some h" "s \<noteq> 0" "s \<noteq> wd" "length (hdr_data (dsk k) h) \<le> 29"
    and cnt: "\<not> (OpenFileCount k wd \<noteq> None \<and> map_at (OpenFileCount k) wd > 0)"
  shows "\<exists>d' fm'. Remove fs k nm wd = Inr (True, OpenFile_delete \<lparr>hdr = hw, seekPosition = 0, hdrSector = wd\<rparr>
        ((open_maps k wd)\<lparr>dsk := d'\<rparr>))
    \<and> fs_inv d' (M(s := None)) fm' (hdr (freeMapFile fs)) \<and> free_bits fm' = free_bits fm \<union> owned (dsk k) M s
    \<and> dir_ok (dir_of d' hw) \<and> dir_abs (dir_of d' hw) = (dir_abs (dir_of (dsk k) hw))(name_key nm := None)
    \<and> (\<forall>t hh. t \<noteq> 0 \<longrightarrow> t \<noteq> wd \<longrightarrow> t \<noteq> s \<longrightarrow> M t = Some hh \<longrightarrow> bytes_of d' hh = bytes_of (dsk k) hh)"
proof -
  note D = in_dirD [OF dir]
  let ?dir = "dir_of (dsk k) hw" and ?f = "\<lparr>hdr = hw, seekPosition = 0, hdrSector = wd\<rparr>" and ?M = "M(s := None)"
  have wfd: "wf_dir ?dir" using D(6) by (simp add: dir_ok_def)
  have at: "file_at (dsk k) s h" using vol_invD(4) [OF D(1) s(1)] .
  then have vs: "valid_sector s" "bytes_to_header (dsk k s) = h" by (auto simp: file_at_def)
  have fetch: "FileHeader_FetchFrom (dsk k) s = Inr h" using vs by (simp add: FileHeader_FetchFrom_def ReadSector_valid)
  from vol_remove [OF D(1) s(1,4)] obtain h' fm1 fm2 where
    r: "FileHeader_Deallocate h (dsk k) fm = Inr (h', fm1)" "Clear fm1 s = Inr fm2" "vol_inv (dsk k) ?M fm2"
    "free_bits fm2 = free_bits fm \<union> owned (dsk k) M s" by blast
  from Directory_Remove_abs [OF D(6), of nm] nm(2) obtain dir' where
    dr: "Directory_Remove ?dir nm = (True, dir')" "dir_ok dir'" "dir_abs dir' = (dir_abs ?dir)(name_key nm := None)"
    "tableSize dir' = 10" using dir_of_table(2) [of "dsk k" hw] by auto
  have m0: "?M 0 = Some (hdr (freeMapFile fs))" "numBytes (hdr (freeMapFile fs)) = 128"
    using D(2) s(2) by (auto simp: fs_inv_def)
  from vol_save_map [of "dsk k" ?M fm2 "freeMapFile fs", OF r(3) m0, of "uninit k"] obtain d1 where
    w1: "PersistentBitmap_WriteBack fm2 (freeMapFile fs) (uninit k) (dsk k) = Inr d1"
    "fs_inv d1 ?M fm2 (hdr (freeMapFile fs))"
    "\<forall>t hh. t \<noteq> 0 \<longrightarrow> ?M t = Some hh \<longrightarrow> bytes_of d1 hh = bytes_of (dsk k) hh" by blast
  have v1: "vol_inv d1 ?M fm2" using w1(2) by (simp add: fs_inv_def)
  have wd': "?M wd = Some (hdr ?f)" "numBytes (hdr ?f) = 200" using D s(3) by simp_all
  have tl: "wf_dir dir'" "length (table dir') = 10" using dr(2,4) by (auto simp: dir_ok_def wf_dir_def)
  from vol_dir_write [of d1 ?M fm2 wd ?f dir', OF v1 wd' tl(1), of "uninit k"] tl(2) obtain d2 where
    w2: "Directory_WriteBack dir' ?f (uninit k) d1 = Inr d2" "vol_inv d2 ?M fm2"
    "dir_of d2 hw = \<lparr>tableSize = 10, table = take 10 (table dir')\<rparr>"
    "\<forall>t hh. t \<noteq> wd \<longrightarrow> ?M t = Some hh \<longrightarrow> bytes_of d2 hh = bytes_of d1 hh" by auto
  have dd: "dir_of d2 hw = dir'" using w2(3) tl dr(4) by simp
  have "bytes_of d2 (hdr (freeMapFile fs)) = bytes_of d1 (hdr (freeMapFile fs))" using w2(4) m0(1) D(4) by metis
  then have "fs_inv d2 ?M fm2 (hdr (freeMapFile fs))"
    using w1(2) w2(2) vol_invD(4) [OF w2(2) m0(1)] by (auto simp: fs_inv_def saved_in_def file_at_def)
  moreover have "Find ?dir nm = s" "isDirectory ?dir nm = False" using nm(2) Find_abs [OF wfd] isDirectory_abs [OF wfd] by simp_all
  then have "Remove fs k nm wd = Inr (True, OpenFile_delete ?f ((open_maps k wd)\<lparr>dsk := d2\<rparr>))"
    using D(8) valid_in_int [OF vs(1)] cnt fetch r(1,2) dr(1) w1(1) w2(1)
    by (simp add: Remove_def parse_path_plain [OF nm(1)] in_dir_open [OF dir] fs_fetch_map(1) [OF D(2), simplified])
  moreover have "bytes_of d2 hh = bytes_of (dsk k) hh" if "t \<noteq> 0" "t \<noteq> wd" "t \<noteq> s" "M t = Some hh" for t hh
    using that w1(3) w2(4) by (metis fun_upd_apply)
  ultimately show ?thesis using r(4) dr(2,3) dd
    by (intro exI [of _ d2] exI [of _ fm2]) auto
qed

text \<open>
  While the count of the directory (not of the file) is positive, \<open>Remove\<close> refuses.
\<close>

lemma Remove_refused:
  assumes "47 \<notin> set nm" "0 \<le> wd" "OpenFileCount k wd = Some c" "0 < c"
  shows "Remove fs k nm wd = Inr (False, k)"
  using assms by (simp add: Remove_def parse_path_plain map_at_def)

section \<open>Open\<close>

definition printable :: "disk \<Rightarrow> (int \<rightharpoonup> FileHeader) \<Rightarrow> DirectoryEntry list \<Rightarrow> bool" where
  "printable d M es \<longleftrightarrow> (\<forall>e\<in>set es. inUse e \<longrightarrow> 0 \<in> set (name e)
     \<and> (\<exists>h. M (sector e) = Some h \<and> length (hdr_data d h) \<le> 29))"

lemma name_terminated:
  assumes "wf_entry e" "length (name_key (name e)) < 9"
  shows "0 \<in> set (name e)"
proof (rule ccontr)
  assume "0 \<notin> set (name e)"
  then have "name_key (name e) = take 9 (name e)"
    unfolding name_key_def by (auto simp: takeWhile_eq_all_conv dest: in_set_takeD)
  then show False using assms by (simp add: wf_entry_def)
qed

text \<open>In terms of the map: names shorter than nine characters, files of at most 29 sectors.\<close>

lemma numSectors_data: "file_ok d h \<Longrightarrow> numSectors h = int (length (hdr_data d h))"
  using file_okD(2) by (auto simp: file_inv_def)

lemma dir_abs_entry:
  assumes "dir_ok dir" "e \<in> set (table dir)" "inUse e"
  shows "dir_abs dir (name_key (name e)) = Some (sector e, isDir e)"
proof -
  have "entry_pair e \<in> set (dir_entries (table dir))" using assms(2,3) by (simp add: dir_entries_def)
  then show ?thesis using assms(1) by (simp add: dir_abs_def dir_ok_def entry_pair_def)
qed

lemma printable_abs:
  assumes "vol_inv d M fm" "dir_ok dir"
    and "\<forall>nm s b. dir_abs dir nm = Some (s, b) \<longrightarrow> length nm < 9 \<and> (\<exists>h. M s = Some h \<and> numSectors h \<le> 29)"
  shows "printable d M (table dir)"
  unfolding printable_def
proof (intro ballI impI)
  fix e assume e: "e \<in> set (table dir)" "inUse e"
  then have "dir_abs dir (name_key (name e)) = Some (sector e, isDir e)" using assms(2) dir_abs_entry by blast
  with assms(3) obtain h where h: "length (name_key (name e)) < 9" "M (sector e) = Some h" "numSectors h \<le> 29" by blast
  have "file_ok d h" using vol_invD(4) [OF assms(1) h(2)] by (simp add: file_at_def)
  then have "length (hdr_data d h) \<le> 29" using h(3) numSectors_data [of d h] by simp
  moreover have "wf_entry e" using assms(2) e(1) by (simp add: dir_ok_def wf_dir_def)
  ultimately show "0 \<in> set (name e) \<and> (\<exists>h. M (sector e) = Some h \<and> length (hdr_data d h) \<le> 29)"
    using h name_terminated by blast
qed

lemma print_entries_total:
  "vol_inv d M fm \<Longrightarrow> printable d M es \<Longrightarrow> \<exists>out. print_entries es d = Inr out"
proof (induction es)
  case (Cons e es)
  then obtain out where out: "print_entries es d = Inr out" by (auto simp: printable_def)
  show ?case
  proof (cases "inUse e")
    case True
    with Cons.prems(2) obtain h where h: "0 \<in> set (name e)" "M (sector e) = Some h" "length (hdr_data d h) \<le> 29"
      by (auto simp: printable_def)
    have at: "file_at d (sector e) h" using vol_invD(4) [OF Cons.prems(1) h(2)] .
    then have "FileHeader_FetchFrom d (sector e) = Inr h"
      by (simp add: file_at_def FileHeader_FetchFrom_def ReadSector_valid)
    moreover obtain tx where "FileHeader_Print h d = Inr tx"
      using FileHeader_Print_total [of d h] at h(3) by (auto simp: file_at_def)
    ultimately show ?thesis using True out h(1) by (simp add: show_s_def)
  qed (use out in simp)
qed simp

lemma Open_run:
  assumes dir: "in_dir fs k M fm wd hw" and nm: "47 \<notin> set nm"
    and pr: "printable (dsk k) M (table (dir_of (dsk k) hw))"
  shows "\<exists>out k'. Open k nm wd = Inr
      (case dir_abs (dir_of (dsk k) hw) (name_key nm) of
         None \<Rightarrow> None
       | Some (s, _) \<Rightarrow> Some \<lparr>hdr = the (M s), seekPosition = 0, hdrSector = s\<rparr>, out, k')
    \<and> dsk k' = dsk k \<and> uninit k' = uninit k"
proof -
  note D = in_dirD [OF dir]
  let ?dir = "dir_of (dsk k) hw"
  have wf: "wf_dir ?dir" using D(6) by (simp add: dir_ok_def)
  obtain out0 where "print_entries (table ?dir) (dsk k) = Inr out0" using print_entries_total [OF D(1) pr] by blast
  then obtain out where out: "Directory_Print ?dir (dsk k) = Inr out"
    using dir_of_table [of "dsk k" hw] by (simp add: Directory_Print_def)
  show ?thesis
  proof (cases "dir_abs ?dir (name_key nm)")
    case None
    then have "Find ?dir nm = -1" using Find_abs [OF wf] by simp
    then show ?thesis using None out D(8)
      by (simp add: Open_def parse_path_plain [OF nm] in_dir_open [OF dir] Let_def)
  next
    case (Some v)
    obtain s b where v: "v = (s, b)" by (cases v)
    then have find: "Find ?dir nm = s" using Some Find_abs [OF wf] by simp
    from FindIndex_cases [OF wf, of nm] Some v obtain e where "e \<in> set (table ?dir)" "inUse e" "sector e = s"
      by (metis nth_mem option.distinct(1) option.inject prod.inject)
    then obtain h where h: "M s = Some h" using pr by (auto simp: printable_def)
    have "valid_sector s" using vol_invD(4) [OF D(1) h] by (simp add: file_at_def)
    then have "0 \<le> s" by (simp add: valid_sector_def)
    moreover have "OpenFile_new (open_maps k wd) s
        = Inr (\<lparr>hdr = h, seekPosition = 0, hdrSector = s\<rparr>, open_maps (open_maps k wd) s)"
      using vol_open [of "open_maps k wd" M fm s h] D(1) h by simp
    moreover have "dsk (open_counts k' s) = dsk k'" "uninit (open_counts k' s) = uninit k'" for k'
      by (simp_all add: open_counts_def Let_def)
    ultimately show ?thesis using Some v out find h D(8)
      by (simp add: Open_def parse_path_plain [OF nm] in_dir_open [OF dir] Let_def)
  qed
qed

section \<open>MakeDir\<close>

text \<open>The table of a new directory: itself and its parent.\<close>

lemma new_subdir_table:
  assumes "in_int s" "in_int wd"
  shows "\<exists>dir1 dir2. AddDirectory g (Directory_new g 10) dot s = (True, dir1)
    \<and> AddDirectory g dir1 dotdot wd = (True, dir2) \<and> dir_ok dir2 \<and> tableSize dir2 = 10
    \<and> dir_abs dir2 = [name_key dot \<mapsto> (s, True), name_key dotdot \<mapsto> (wd, True)] \<and> \<not> dir_full dir2"
proof -
  have ne: "name_key dot \<noteq> name_key dotdot" by (simp add: name_key_def dot_def dotdot_def)
  note N = Directory_new_empty [of g]
  from AddDirectory_abs [OF N(1) assms(1), of dot g] N(2,3) obtain dir1 where
    a1: "AddDirectory g (Directory_new g 10) dot s = (True, dir1)" "dir_ok dir1"
    "dir_abs dir1 = [name_key dot \<mapsto> (s, True)]" "tableSize dir1 = 10"
    using dir_new_table(2) [of g] by auto
  have "\<not> dir_full dir1" using dir_full_card [OF a1(2)] a1(3,4) by simp
  with AddDirectory_abs [OF a1(2) assms(2), of dotdot g] a1(3,4) ne obtain dir2 where
    a2: "AddDirectory g dir1 dotdot wd = (True, dir2)" "dir_ok dir2" "tableSize dir2 = 10"
    "dir_abs dir2 = [name_key dot \<mapsto> (s, True), name_key dotdot \<mapsto> (wd, True)]" by auto
  have "card (dom (dir_abs dir2)) = 2" using a2(4) ne by (simp add: card_insert_if)
  with dir_full_card [OF a2(2)] a1(1) a2 show ?thesis by auto
qed

lemma init_subdir_200:
  assumes fs: "fs_inv (dsk k) M fm h0" "M s = Some h" "s \<noteq> 0" "numBytes h = 200" "in_int wd"
  shows "\<exists>d'. init_subdir k s wd = Inr (OpenFile_delete \<lparr>hdr = h, seekPosition = 0, hdrSector = s\<rparr> ((open_maps k s)\<lparr>dsk := d'\<rparr>))
    \<and> fs_inv d' M fm h0 \<and> dir_ok (dir_of d' h) \<and> \<not> dir_full (dir_of d' h)
    \<and> dir_abs (dir_of d' h) = [name_key dot \<mapsto> (s, True), name_key dotdot \<mapsto> (wd, True)]
    \<and> (\<forall>t hh. t \<noteq> s \<longrightarrow> M t = Some hh \<longrightarrow> bytes_of d' hh = bytes_of (dsk k) hh)"
proof -
  have vol: "vol_inv (dsk k) M fm" and m0: "M 0 = Some h0" using fs(1) by (auto simp: fs_inv_def)
  have vs: "valid_sector s" using vol_invD(4) [OF vol fs(2)] by (simp add: file_at_def)
  let ?f = "\<lparr>hdr = h, seekPosition = 0, hdrSector = s\<rparr>"
  from new_subdir_table [OF valid_in_int(1) [OF vs] fs(5), of "uninit k"] obtain dir1 dir2 where
    n: "AddDirectory (uninit k) (Directory_new (uninit k) 10) dot s = (True, dir1)"
    "AddDirectory (uninit k) dir1 dotdot wd = (True, dir2)" "dir_ok dir2" "tableSize dir2 = 10"
    "dir_abs dir2 = [name_key dot \<mapsto> (s, True), name_key dotdot \<mapsto> (wd, True)]" "\<not> dir_full dir2" by blast
  have tl: "wf_dir dir2" "length (table dir2) = 10" using n(3,4) by (auto simp: dir_ok_def wf_dir_def)
  from vol_dir_write [of "dsk k" M fm s ?f dir2, OF vol _ _ tl(1), of "uninit k"] tl(2) fs(2,4) obtain d' where
    w: "Directory_WriteBack dir2 ?f (uninit k) (dsk k) = Inr d'" "vol_inv d' M fm"
    "dir_of d' h = \<lparr>tableSize = 10, table = take 10 (table dir2)\<rparr>"
    "\<forall>t hh. t \<noteq> s \<longrightarrow> M t = Some hh \<longrightarrow> bytes_of d' hh = bytes_of (dsk k) hh" by auto
  have dd: "dir_of d' h = dir2" using w(3) tl n(4) by simp
  have "bytes_of d' h0 = bytes_of (dsk k) h0" using w(4) m0 fs(3) by metis
  then have "fs_inv d' M fm h0"
    using fs(1) w(2) vol_invD(4) [OF w(2) m0] by (auto simp: fs_inv_def saved_in_def file_at_def)
  moreover have "init_subdir k s wd = Inr (OpenFile_delete ?f ((open_maps k s)\<lparr>dsk := d'\<rparr>))"
    using n(1,2) w(1) vol_open [OF vol fs(2)] by (simp add: init_subdir_def Let_def)
  ultimately show ?thesis using w(4) dd n(3,5,6) by (intro exI [of _ d']) auto
qed

text \<open>With size zero the two entries are written to a file with no room for them.\<close>

lemma WriteAt_empty_file: "numBytes (hdr f) = 0 \<Longrightarrow> WriteAt f g d bs n 0 = Inr (0, d)"
  by (simp add: WriteAt_def FileLength_def)

lemma init_subdir_0:
  assumes fs: "fs_inv (dsk k) M fm h0" "M s = Some h" "numBytes h = 0" "in_int wd"
  shows "init_subdir k s wd = Inr (OpenFile_delete \<lparr>hdr = h, seekPosition = 0, hdrSector = s\<rparr> (open_maps k s))"
proof -
  have vol: "vol_inv (dsk k) M fm" using fs(1) by (auto simp: fs_inv_def)
  have vs: "valid_sector s" using vol_invD(4) [OF vol fs(2)] by (simp add: file_at_def)
  from new_subdir_table [OF valid_in_int(1) [OF vs] fs(4), of "uninit k"] obtain dir1 dir2 where
    "AddDirectory (uninit k) (Directory_new (uninit k) 10) dot s = (True, dir1)"
    "AddDirectory (uninit k) dir1 dotdot wd = (True, dir2)" by blast
  then show ?thesis
    using vol_open [OF vol fs(2)] fs(3)
    by (simp add: init_subdir_def Let_def Directory_WriteBack_def WriteAt_empty_file open_maps_def)
qed

text \<open>\<open>MakeDir\<close> up to the initialisation of the new directory.\<close>

lemma MakeDir_run:
  assumes dir: "in_dir fs k M fm wd hw" and nm: "47 \<notin> set nm" "dir_abs (dir_of (dsk k) hw) (name_key nm) = None"
      "\<not> dir_full (dir_of (dsk k) hw)"
    and sz: "0 \<le> sz" and fm: "FindAndSet fm = Inr (s, fm1)" "free_bits fm \<noteq> {}"
    and sp: "enough_space fm1 0 0 (nat ((sz + 127) div 128))"
  shows "\<exists>h d' fm'. MakeDir fs k nm sz wd = bind_res (init_subdir ((open_maps k wd)\<lparr>dsk := d'\<rparr>) s wd)
        (\<lambda>k. Inr (True, OpenFile_delete \<lparr>hdr = hw, seekPosition = 0, hdrSector = wd\<rparr> k))
    \<and> fs_inv d' (M(s \<mapsto> h)) fm' (hdr (freeMapFile fs)) \<and> M s = None \<and> valid_sector s
    \<and> numBytes h = sz \<and> numSectors h = (sz + 127) div 128 \<and> dir_ok (dir_of d' hw) \<and> dir_abs (dir_of d' hw) = (dir_abs (dir_of (dsk k) hw))(name_key nm \<mapsto> (s, True))
    \<and> (\<forall>t hh. t \<noteq> 0 \<longrightarrow> t \<noteq> wd \<longrightarrow> M t = Some hh \<longrightarrow> bytes_of d' hh = bytes_of (dsk k) hh)"
proof -
  note D = in_dirD [OF dir]
  let ?dir = "dir_of (dsk k) hw" and ?f = "\<lparr>hdr = hw, seekPosition = 0, hdrSector = wd\<rparr>"
  from vol_claim [OF D(1) fm(2)] fm(1) have
    cl: "vol_inv (dsk k) M fm1" "valid_sector s" "unowned (dsk k) M s" "s \<in> marked fm1" "M s = None"
    by (metis Inr_inject prod.inject)+
  from AddDirectory_abs [OF D(6) valid_in_int(1) [OF cl(2)], of nm "uninit k"] nm(2,3) obtain dir' where
    a: "AddDirectory (uninit k) ?dir nm s = (True, dir')" "dir_ok dir'" "tableSize dir' = 10"
    "dir_abs dir' = (dir_abs ?dir)(name_key nm \<mapsto> (s, True))" using dir_of_table(2) [of "dsk k" hw] by auto
  have wf: "wf_dir dir'" "length (table dir') = 10" "10 \<le> length (table dir')" using a(2,3) by (auto simp: dir_ok_def wf_dir_def)
  have "M wd = Some (hdr ?f)" "numBytes (hdr ?f) = 200" using D by simp_all
  from new_file_core [OF D(2) this(1) D(4) this(2) cl wf(1,3) sz in_int_garbage sp, of k "uninit k"]
  obtain h d1 d2 d3 d4 fm2 where
    c: "FileHeader_Allocate (FileHeader_new (hdr_garbage k)) (dsk k) fm1 sz = Inr (True, h, d1, fm2)"
    "FileHeader_WriteBack h d1 s = Inr d2" "Directory_WriteBack dir' ?f (uninit k) d2 = Inr d3"
    "PersistentBitmap_WriteBack fm2 (freeMapFile fs) (uninit k) d3 = Inr d4"
    "fs_inv d4 (M(s \<mapsto> h)) fm2 (hdr (freeMapFile fs))" "numBytes h = sz"
    "dir_of d4 hw = \<lparr>tableSize = 10, table = take 10 (table dir')\<rparr>" "numSectors h = (sz + 127) div 128"
    "\<forall>t hh. t \<noteq> 0 \<longrightarrow> t \<noteq> wd \<longrightarrow> M t = Some hh \<longrightarrow> bytes_of d4 hh = bytes_of (dsk k) hh" by auto
  have dd: "dir_of d4 hw = dir'" using c(7) wf(2) a(3) by simp
  have g: "hdr_garbage (open_maps k wd) = hdr_garbage k" by (simp add: hdr_garbage_def)
  have "Find ?dir nm = -1" using Find_abs [of ?dir nm] nm(2) D(6) by (simp add: dir_ok_def)
  moreover have "Find dir' nm \<noteq> -1" using Find_abs [OF wf(1), of nm] a(4) valid_in_int(2) [OF cl(2)] by simp
  ultimately have "MakeDir fs k nm sz wd = bind_res (init_subdir ((open_maps k wd)\<lparr>dsk := d4\<rparr>) s wd)
        (\<lambda>k. Inr (True, OpenFile_delete ?f k))"
    using D(8) valid_in_int [OF cl(2)] fm(1) a(1) c(1-4)
    by (simp add: MakeDir_def parse_path_plain [OF nm(1)] in_dir_open [OF dir] fs_fetch_map(2) [OF D(2), simplified] g)
  then show ?thesis using c dd a cl
    by (intro exI [of _ h] exI [of _ d4] exI [of _ fm2]) simp
qed

section \<open>Resolving paths\<close>

text \<open>
  A set of directories closed under the entries flagged as directories, and the walk along
  the components of a path; \<open>-1\<close> where a component is not a directory.
\<close>

definition dir_tree :: "disk \<Rightarrow> (int \<rightharpoonup> FileHeader) \<Rightarrow> int set \<Rightarrow> bool" where
  "dir_tree d M Dirs \<longleftrightarrow> (\<forall>wd\<in>Dirs. \<exists>h. M wd = Some h \<and> 200 \<le> numBytes h
     \<and> (\<forall>nm s. dir_abs (dir_of d h) nm = Some (s, True) \<longrightarrow> s \<in> Dirs))"

fun walk :: "disk \<Rightarrow> (int \<rightharpoonup> FileHeader) \<Rightarrow> int \<Rightarrow> byte list list \<Rightarrow> int" where
  "walk d M wd [] = wd"
| "walk d M wd (c # cs) =
     (case M wd of
        None \<Rightarrow> -1
      | Some h \<Rightarrow> (case dir_abs (dir_of d h) (name_key c) of
          Some (s, True) \<Rightarrow> walk d M s cs
        | _ \<Rightarrow> -1))"

fun join_path :: "byte list list \<Rightarrow> byte list \<Rightarrow> byte list" where
  "join_path [] nm = nm"
| "join_path (c # cs) nm = c @ 47 # join_path cs nm"

lemma takeWhile_join:
  "47 \<notin> set c \<Longrightarrow> takeWhile (\<lambda>x. x \<noteq> 47) (c @ 47 # xs) = c"
  "47 \<notin> set c \<Longrightarrow> tl (dropWhile (\<lambda>x. x \<noteq> 47) (c @ 47 # xs)) = xs"
  by (induction c) auto

lemma parse_path_walk:
  assumes "vol_inv (dsk k) M fm" "dir_tree (dsk k) M Dirs" "wd \<in> Dirs" "\<forall>c\<in>set cs. 47 \<notin> set c" "47 \<notin> set nm"
  shows "\<exists>k' p. parse_path k (join_path cs nm) wd = Inr (walk (dsk k) M wd cs, p, k')
    \<and> dsk k' = dsk k \<and> uninit k' = uninit k
    \<and> (walk (dsk k) M wd cs \<noteq> -1 \<longrightarrow> p = nm \<and> walk (dsk k) M wd cs \<in> Dirs)"
  using assms
proof (induction cs arbitrary: k wd)
  case Nil
  then show ?case using parse_path_plain by simp
next
  case (Cons c cs)
  obtain h where h: "M wd = Some h" "200 \<le> numBytes h"
    "\<forall>nm s. dir_abs (dir_of (dsk k) h) nm = Some (s, True) \<longrightarrow> s \<in> Dirs"
    using Cons.prems(2,3) by (auto simp: dir_tree_def)
  let ?f = "\<lparr>hdr = h, seekPosition = 0, hdrSector = wd\<rparr>" and ?dir = "dir_of (dsk k) h"
  have ok: "file_ok (dsk k) h" using vol_invD(4) [OF Cons.prems(1) h(1)] by (simp add: file_at_def)
  have wf: "wf_dir ?dir" using wf_dir_of [OF ok h(2)] .
  have op: "OpenFile_new k wd = Inr (?f, open_maps k wd)" using vol_open [OF Cons.prems(1) h(1)] .
  have fetch: "Directory_FetchFrom (Directory_new (uninit k) 10) ?f (dsk k) = Inr ?dir"
    using Directory_FetchFrom_ok [of "dsk k" ?f "uninit k"] ok h(2) by simp
  have tw: "takeWhile (\<lambda>x. x \<noteq> 47) (c @ 47 # join_path cs nm) = c"
    "tl (dropWhile (\<lambda>x. x \<noteq> 47) (c @ 47 # join_path cs nm)) = join_path cs nm"
    using takeWhile_join [of c] Cons.prems(4) by auto
  have step: "parse_path k (join_path (c # cs) nm) wd = (if \<not> isDirectory ?dir c then Inr (-1, join_path (c # cs) nm, open_maps k wd)
      else parse_path (OpenFile_delete ?f (open_maps k wd)) (join_path cs nm) (Find ?dir c))"
    by (subst parse_path.simps) (simp add: op fetch tw Let_def)
  show ?case
  proof (cases "dir_abs ?dir (name_key c)")
    case None
    then show ?thesis using step isDirectory_abs [OF wf, of c] h(1) by simp
  next
    case (Some v)
    obtain s b where v: "v = (s, b)" by (cases v)
    show ?thesis
    proof (cases b)
      case True
      have s: "s \<in> Dirs" using h(3) Some v True by auto
      let ?k = "OpenFile_delete ?f (open_maps k wd)"
      have "parse_path k (join_path (c # cs) nm) wd = parse_path ?k (join_path cs nm) s"
        using step isDirectory_abs [OF wf, of c] Find_abs [OF wf, of c] Some v True by simp
      moreover have "walk (dsk k) M wd (c # cs) = walk (dsk k) M s cs" using h(1) Some v True by simp
      ultimately show ?thesis using Cons.IH [of ?k s] Cons.prems s by simp
    next
      case False
      then show ?thesis using step isDirectory_abs [OF wf, of c] h(1) Some v by simp
    qed
  qed
qed

lemma ChangeDir_run:
  assumes dir: "in_dir fs k M fm wd hw" and nm: "47 \<notin> set nm"
  shows "\<exists>k'. ChangeDir k nm wd = Inr (case dir_abs (dir_of (dsk k) hw) (name_key nm) of
      Some (s, True) \<Rightarrow> s | _ \<Rightarrow> -1, k') \<and> dsk k' = dsk k"
proof -
  note D = in_dirD [OF dir]
  have wf: "wf_dir (dir_of (dsk k) hw)" using D(6) by (simp add: dir_ok_def)
  show ?thesis
    using D(8) isDirectory_abs [OF wf, of nm] Find_abs [OF wf, of nm]
    by (auto simp: ChangeDir_def parse_path_plain [OF nm] in_dir_open [OF dir] split: option.splits prod.splits bool.splits)
qed

end
