(* ===== verification/FileSystemCorrect.thy ===== *)
theory FileSystemCorrect
  imports FileSystem
begin

text \<open>
  What the file system promises: the properties of formatting, \<open>Create\<close>, \<open>Open\<close>, \<open>Write\<close>,
  \<open>Read\<close>, \<open>Remove\<close>, \<open>MakeDir\<close>, \<open>ChangeDir\<close> and path resolution over the whole disk, each with
  an instance on a freshly formatted disk, and the places where the code breaks its promise.
\<close>

section \<open>A disk to try things on\<close>

definition boot_state :: kstate where
  "boot_state = \<lparr>dsk = blank_disk, OpenFileCount = Map.empty, readerCount = Map.empty,
     semaphoreRead = Map.empty, semaphoreWrite = Map.empty, uninit = (\<lambda>_. 0)\<rparr>"

lemma booted:
  "\<exists>fs k h0 h1 fm. FileSystem_new boot_state True = Inr (fs, k) \<and> in_dir fs k [0 \<mapsto> h0, 1 \<mapsto> h1] fm 1 h1
    \<and> hdr (freeMapFile fs) = h0 \<and> hdr (directoryFile fs) = h1 \<and> dir_abs (dir_of (dsk k) h1) = Map.empty
    \<and> \<not> dir_full (dir_of (dsk k) h1) \<and> card (free_bits fm) = 1017
    \<and> k = (open_maps (open_maps boot_state 0) 1)\<lparr>dsk := dsk k\<rparr>"
  using format_ok [of boot_state] by (simp add: boot_state_def)

text \<open>Room for a file of \<open>sz\<close> bytes and its header, in terms of the free map.\<close>

definition has_room :: "Bitmap \<Rightarrow> int \<Rightarrow> bool" where
  "has_room fm sz \<longleftrightarrow> (let n = nat ((sz + 127) div 128)
     in 1 + n + (n + 31) div 32 \<le> card (free_bits fm) \<and> n \<le> 928)"

lemma has_room_claim:
  assumes "vol_inv d M fm" "has_room fm sz"
  obtains s fm1 where "FindAndSet fm = Inr (s, fm1)" "free_bits fm \<noteq> {}"
    "enough_space fm1 0 0 (nat ((sz + 127) div 128))" "s = Min (free_bits fm)"
proof -
  have ne: "free_bits fm \<noteq> {}" using assms(2) by (auto simp: has_room_def Let_def)
  from vol_claim [OF assms(1) this] obtain s fm1 where s: "FindAndSet fm = Inr (s, fm1)" "s \<in> free_bits fm"
    "free_bits fm1 = free_bits fm - {s}" by metis
  then have "card (free_bits fm1) = card (free_bits fm) - 1" by simp
  moreover have "1 + n + m \<le> c \<Longrightarrow> n + m \<le> c - 1" for n m c :: nat by linarith
  ultimately have "enough_space fm1 0 0 (nat ((sz + 127) div 128))"
    using assms(2) unfolding has_room_def enough_space_def Let_def by simp
  moreover have "s = Min (free_bits fm)"
    using s(1) ne FindAndSet_eq [OF vol_invD(2) [OF assms(1)]] by simp
  ultimately show thesis using that s(1) ne by blast
qed

section \<open>Formatting\<close>

text \<open>
  C1. Formatting any disk never fails an ASSERT and leaves a consistent volume that holds exactly
  two files, the free map in sector 0 and an empty root directory in sector 1, with the
  free map saved and 1017 of the 1024 sectors free.
\<close>

theorem FileSystem_format_correct:
  assumes "wf_disk (dsk k)"
  shows "\<exists>fs k' h0 h1 fm. FileSystem_new k True = Inr (fs, k')
    \<and> fs_inv (dsk k') [FreeMapSector \<mapsto> h0, DirectorySector \<mapsto> h1] fm h0
    \<and> hdr (freeMapFile fs) = h0 \<and> hdr (directoryFile fs) = h1
    \<and> Length (freeMapFile fs) = FreeMapFileSize \<and> Length (directoryFile fs) = DirectoryFileSize
    \<and> dir_ok (dir_of (dsk k') h1) \<and> dir_abs (dir_of (dsk k') h1) = Map.empty
    \<and> card (free_bits fm) = 1017"
proof -
  obtain fs k' h0 h1 fm where f: "FileSystem_new k True = Inr (fs, k')" "in_dir fs k' [0 \<mapsto> h0, 1 \<mapsto> h1] fm 1 h1"
    "hdr (freeMapFile fs) = h0" "hdr (directoryFile fs) = h1" "dir_abs (dir_of (dsk k') h1) = Map.empty"
    "card (free_bits fm) = 1017" using format_ok [OF assms] by blast
  have "numBytes h0 = 128" using in_dirD(2) [OF f(2)] f(3) by (simp add: fs_inv_def)
  then show ?thesis using f in_dirD(2,5,6) [OF f(2)]
    by (intro exI [of _ fs] exI [of _ k'] exI [of _ h0] exI [of _ h1] exI [of _ fm])
      (simp add: FreeMapSector_def DirectorySector_def Length_def FileLength_def FreeMapFileSize_def
        DirectoryFileSize_def BitsInByte_def)
qed

theorem FileSystem_format_correct_witness:
  "\<exists>fs k' h1 fm. FileSystem_new boot_state True = Inr (fs, k') \<and> hdr (directoryFile fs) = h1
    \<and> dir_abs (dir_of (dsk k') h1) = Map.empty \<and> card (free_bits fm) = 1017"
proof -
  have "wf_disk (dsk boot_state)" by (simp add: boot_state_def)
  from FileSystem_format_correct [OF this] show ?thesis by blast
qed

section \<open>Create\<close>

lemma Create_step:
  assumes dir: "in_dir fs k M fm wd hw" and nm: "47 \<notin> set nm" "dir_abs (dir_of (dsk k) hw) (name_key nm) = None"
    and room: "\<not> dir_full (dir_of (dsk k) hw)" "0 \<le> sz" "has_room fm sz"
  shows "\<exists>d' h fm' s. Create fs k nm sz wd = Inr (True, (open_maps k wd)\<lparr>dsk := d'\<rparr>)
    \<and> s = Min (free_bits fm) \<and> M s = None \<and> valid_sector s
    \<and> in_dir fs ((open_maps k wd)\<lparr>dsk := d'\<rparr>) (M(s \<mapsto> h)) fm' wd hw \<and> numBytes h = sz
    \<and> numSectors h = (sz + 127) div 128
    \<and> dir_abs (dir_of d' hw) = (dir_abs (dir_of (dsk k) hw))(name_key nm \<mapsto> (s, False))
    \<and> free_bits fm' = free_bits fm - owned d' (M(s \<mapsto> h)) s
    \<and> card (free_bits fm) = card (free_bits fm') + 1 + nat ((sz + 127) div 128) + (nat ((sz + 127) div 128) + 31) div 32
    \<and> (\<forall>t hh. t \<noteq> 0 \<longrightarrow> t \<noteq> wd \<longrightarrow> M t = Some hh \<longrightarrow> bytes_of d' hh = bytes_of (dsk k) hh)"
proof -
  note D = in_dirD [OF dir]
  let ?dir = "dir_of (dsk k) hw"
  obtain s fm1 where fm: "FindAndSet fm = Inr (s, fm1)" "free_bits fm \<noteq> {}"
    "enough_space fm1 0 0 (nat ((sz + 127) div 128))" "s = Min (free_bits fm)"
    using has_room_claim [OF D(1) room(3)] by metis
  from Create_run [OF dir nm room(2) fm(1-3)] room(1) obtain h d' fm' es where
    c: "Create fs k nm sz wd = Inr (True, (open_maps k wd)\<lparr>dsk := d'\<rparr>)"
    "fs_inv d' (M(s \<mapsto> h)) fm' (hdr (freeMapFile fs))" "M s = None" "valid_sector s" "numBytes h = sz"
    "fill_first (set_entry False nm s) (table ?dir) = Some es" "dir_of d' hw = \<lparr>tableSize = 10, table = take 10 es\<rparr>"
    "numSectors h = (sz + 127) div 128"
    "free_bits fm' = free_bits fm - owned d' (M(s \<mapsto> h)) s"
    "card (free_bits fm) = card (free_bits fm') + 1 + nat ((sz + 127) div 128) + (nat ((sz + 127) div 128) + 31) div 32"
    "\<forall>t hh. t \<noteq> 0 \<longrightarrow> t \<noteq> wd \<longrightarrow> M t = Some hh \<longrightarrow> bytes_of d' hh = bytes_of (dsk k) hh" by auto
  have "length es = 10"
    using stored_entries(2) [OF D(6) dir_of_table(1) valid_in_int(1) [OF c(4)] nm(2), of False _ es] c(6) room(1) by simp
  then have "dir_of d' hw = ?dir\<lparr>table := es\<rparr>" using c(7) by (simp add: dir_of_def)
  with fill_table [OF c(6) D(6) valid_in_int(1) [OF c(4)] nm(2)]
  have "dir_ok (dir_of d' hw)" "dir_abs (dir_of d' hw) = (dir_abs ?dir)(name_key nm \<mapsto> (s, False))" by simp_all
  moreover have "s \<noteq> wd" using c(3) D(3) by auto
  ultimately show ?thesis using c fm(4) D(3-5)
    by (intro exI [of _ d'] exI [of _ h] exI [of _ fm'] exI [of _ s]) (simp add: in_dir_def)
qed

text \<open>
  C2. \<open>Create\<close> of a new name in a directory that has a free entry, with room on the disk, returns TRUE:
  the header goes into the lowest free sector, exactly the new file's sectors leave the
  free map, the directory maps the name to it, the free map on the disk agrees, no
  other file changes, and the volume is consistent again.
\<close>

theorem Create_correct:
  assumes "in_dir fs k M fm wd hw" "47 \<notin> set nm" "dir_abs (dir_of (dsk k) hw) (name_key nm) = None"
    and "\<not> dir_full (dir_of (dsk k) hw)" "0 \<le> sz" "has_room fm sz"
  shows "\<exists>k' h fm' s. Create fs k nm sz wd = Inr (True, k') \<and> s = Min (free_bits fm) \<and> M s = None
    \<and> in_dir fs k' (M(s \<mapsto> h)) fm' wd hw \<and> numBytes h = sz
    \<and> dir_abs (dir_of (dsk k') hw) = (dir_abs (dir_of (dsk k) hw))(name_key nm \<mapsto> (s, False))
    \<and> free_bits fm' = free_bits fm - owned (dsk k') (M(s \<mapsto> h)) s
    \<and> (\<forall>t hh. t \<noteq> 0 \<longrightarrow> t \<noteq> wd \<longrightarrow> M t = Some hh \<longrightarrow> bytes_of (dsk k') hh = bytes_of (dsk k) hh)"
proof -
  obtain d' h fm' s where "Create fs k nm sz wd = Inr (True, (open_maps k wd)\<lparr>dsk := d'\<rparr>)"
    "s = Min (free_bits fm)" "M s = None" "in_dir fs ((open_maps k wd)\<lparr>dsk := d'\<rparr>) (M(s \<mapsto> h)) fm' wd hw"
    "numBytes h = sz" "dir_abs (dir_of d' hw) = (dir_abs (dir_of (dsk k) hw))(name_key nm \<mapsto> (s, False))"
    "free_bits fm' = free_bits fm - owned d' (M(s \<mapsto> h)) s"
    "\<forall>t hh. t \<noteq> 0 \<longrightarrow> t \<noteq> wd \<longrightarrow> M t = Some hh \<longrightarrow> bytes_of d' hh = bytes_of (dsk k) hh"
    using Create_step [OF assms] by blast
  then show ?thesis
    by (intro exI [of _ "(open_maps k wd)\<lparr>dsk := d'\<rparr>"] exI [of _ h] exI [of _ fm'] exI [of _ s]) simp
qed

theorem Create_correct_witness:
  "\<exists>fs k k'. FileSystem_new boot_state True = Inr (fs, k) \<and> Create fs k [97] 300 1 = Inr (True, k')"
proof -
  obtain fs k h0 h1 fm where b: "FileSystem_new boot_state True = Inr (fs, k)"
    "in_dir fs k [0 \<mapsto> h0, 1 \<mapsto> h1] fm 1 h1" "dir_abs (dir_of (dsk k) h1) = Map.empty"
    "\<not> dir_full (dir_of (dsk k) h1)" "card (free_bits fm) = 1017" using booted by blast
  have "47 \<notin> set [97 :: byte]" "dir_abs (dir_of (dsk k) h1) (name_key [97]) = None" "has_room fm 300"
    using b by (simp_all add: has_room_def)
  from Create_correct [OF b(2) this(1,2) b(4) _ this(3)] b(1) show ?thesis by auto
qed

text \<open>
  C18. The eleventh name: in a directory whose ten entries are all in use \<open>Create\<close> still returns TRUE and
  takes the sectors of the file, but the directory on the disk is as it was: the name
  cannot be found and the sectors are lost. The table was doubled in memory only.
\<close>

theorem Create_full_directory_loses_entry:
  assumes dir: "in_dir fs k M fm wd hw" and nm: "47 \<notin> set nm" "dir_abs (dir_of (dsk k) hw) (name_key nm) = None"
    and room: "dir_full (dir_of (dsk k) hw)" "0 \<le> sz" "has_room fm sz"
  shows "\<exists>k' h fm' s. Create fs k nm sz wd = Inr (True, k')
    \<and> in_dir fs k' (M(s \<mapsto> h)) fm' wd hw \<and> free_bits fm' \<subset> free_bits fm
    \<and> dir_of (dsk k') hw = dir_of (dsk k) hw \<and> Find (dir_of (dsk k') hw) nm = -1"
proof -
  note D = in_dirD [OF dir]
  let ?dir = "dir_of (dsk k) hw"
  obtain s fm1 where fm: "FindAndSet fm = Inr (s, fm1)" "free_bits fm \<noteq> {}"
    "enough_space fm1 0 0 (nat ((sz + 127) div 128))" "s = Min (free_bits fm)"
    using has_room_claim [OF D(1) room(3)] by metis
  from Create_run [OF dir nm room(2) fm(1-3)] obtain h d' fm' es where
    c: "Create fs k nm sz wd = Inr (True, (open_maps k wd)\<lparr>dsk := d'\<rparr>)"
    "fs_inv d' (M(s \<mapsto> h)) fm' (hdr (freeMapFile fs))" "M s = None" "valid_sector s"
    "fill_first (set_entry False nm s) (table (if dir_full ?dir
        then Expand (uninit k) ?dir (tableSize ?dir * 2) else ?dir)) = Some es"
    "dir_of d' hw = \<lparr>tableSize = 10, table = take 10 es\<rparr>"
    "free_bits fm' = free_bits fm - owned d' (M(s \<mapsto> h)) s" by blast
  have "take 10 es = table ?dir"
    using stored_entries(1) [OF D(6) dir_of_table(1) valid_in_int(1) [OF c(4)] nm(2) c(5)] room(1) by simp
  then have dd: "dir_of d' hw = ?dir" using c(6) by (simp add: dir_of_def)
  have "s \<in> free_bits fm" unfolding fm(4) using fm(2) by (intro Min_in) simp_all
  then have sub: "free_bits fm' \<subset> free_bits fm" unfolding c(7) by (auto simp: owned_upd)
  have f: "Find ?dir nm = -1" using Find_abs [of ?dir nm] nm(2) D(6) by (simp add: dir_ok_def)
  have "s \<noteq> wd" using c(3) D(3) by auto
  then show ?thesis using c(1,2) D(3-6) dd sub f
    by (intro exI [of _ "(open_maps k wd)\<lparr>dsk := d'\<rparr>"] exI [of _ h] exI [of _ fm'] exI [of _ s])
      (simp add: in_dir_def)
qed
text \<open>Ten empty files fill the root directory of a formatted disk.\<close>

definition letter :: "nat \<Rightarrow> byte list" where
  "letter i = [of_nat (97 + i)]"

lemma name_key_letter: "i < 20 \<Longrightarrow> name_key (letter i) = letter i" "47 \<notin> set (letter i) \<or> 20 \<le> i"
  "i < 20 \<Longrightarrow> j < 20 \<Longrightarrow> letter i = letter j \<longleftrightarrow> i = j"
proof -
  have u: "i < 20 \<Longrightarrow> unat (of_nat (97 + i) :: byte) = 97 + i" for i :: nat
    by (simp only: unat_of_nat) simp
  have "i < 20 \<Longrightarrow> (of_nat (97 + i) :: byte) \<noteq> 0" using u [of i] by (metis unat_0 add_is_0 zero_neq_numeral)
  then show "i < 20 \<Longrightarrow> name_key (letter i) = letter i" by (simp add: name_key_def letter_def)
  have "i < 20 \<Longrightarrow> (of_nat (97 + i) :: byte) \<noteq> 47"
  proof
    assume "i < 20" "(of_nat (97 + i) :: byte) = 47"
    with u [of i] have "97 + i = unat (47 :: byte)" by metis
    then show False by simp
  qed
  then show "47 \<notin> set (letter i) \<or> 20 \<le> i" 
    unfolding letter_def by (metis empty_iff empty_set not_le set_ConsD)
  show "letter i = letter j \<longleftrightarrow> i = j" if "i < 20" "j < 20"
  proof
    assume "letter i = letter j"
    then have "(of_nat (97 + i) :: byte) = of_nat (97 + j)" unfolding letter_def by (simp only: list.inject)
    then have "97 + i = 97 + j" using u [OF that(1)] u [OF that(2)] by argo
    then show "i = j" by simp
  qed simp
qed

lemma many_files:
  assumes "n \<le> 10"
  shows "\<exists>fs k M fm h1. in_dir fs k M fm 1 h1 \<and> dom (dir_abs (dir_of (dsk k) h1)) = letter ` {..<n}
    \<and> card (free_bits fm) + n = 1017"
  using assms
proof (induction n)
  case 0
  obtain fs k h0 h1 fm where "in_dir fs k [0 \<mapsto> h0, 1 \<mapsto> h1] fm 1 h1" "dir_abs (dir_of (dsk k) h1) = Map.empty"
    "card (free_bits fm) = 1017" using booted by blast
  then show ?case by fastforce
next
  case (Suc n)
  then obtain fs k M fm h1 where s: "in_dir fs k M fm 1 h1" "dom (dir_abs (dir_of (dsk k) h1)) = letter ` {..<n}"
    "card (free_bits fm) + n = 1017" by auto
  have inj: "inj_on letter {..<n}" using Suc.prems name_key_letter(3) by (auto simp: inj_on_def)
  have l: "47 \<notin> set (letter n)" "name_key (letter n) = letter n" "letter n \<notin> letter ` {..<n}"
    using Suc.prems name_key_letter by (auto, fastforce)
  have none: "dir_abs (dir_of (dsk k) h1) (name_key (letter n)) = None" using s(2) l by (auto simp: domIff)
  have "\<not> dir_full (dir_of (dsk k) h1)"
    using dir_full_card [OF in_dirD(6) [OF s(1)]] dir_of_table(2) s(2) card_image [OF inj] Suc.prems by simp
  moreover have "has_room fm 0" using s(3) Suc.prems by (simp add: has_room_def)
  ultimately obtain d' h fm' t where c: "in_dir fs ((open_maps k 1)\<lparr>dsk := d'\<rparr>) (M(t \<mapsto> h)) fm' 1 h1"
    "dir_abs (dir_of d' h1) = (dir_abs (dir_of (dsk k) h1))(name_key (letter n) \<mapsto> (t, False))"
    "card (free_bits fm) = card (free_bits fm') + 1" using Create_step [OF s(1) l(1) none, of 0] by auto
  let ?k = "(open_maps k 1)\<lparr>dsk := d'\<rparr>"
  have "dom (dir_abs (dir_of (dsk ?k) h1)) = letter ` {..<Suc n}"
    using c(2) s(2) l(2) by (auto simp: lessThan_Suc)
  moreover have "card (free_bits fm') + Suc n = 1017" using c(3) s(3) by simp
  ultimately show ?case using c(1) by blast
qed

theorem Create_full_directory_loses_entry_witness:
  "\<exists>fs k k' hw. Create fs k (letter 10) 300 1 = Inr (True, k') \<and> card (dom (dir_abs (dir_of (dsk k) hw))) = 10
    \<and> Find (dir_of (dsk k') hw) (letter 10) = -1"
proof -
  obtain fs k M fm h1 where s: "in_dir fs k M fm 1 h1" "dom (dir_abs (dir_of (dsk k) h1)) = letter ` {..<10}"
    "card (free_bits fm) + 10 = 1017" using many_files [of 10] by auto
  have "inj_on letter {..<10}" using name_key_letter(3) by (auto simp: inj_on_def)
  then have c10: "card (dom (dir_abs (dir_of (dsk k) h1))) = 10" using s(2) by (simp add: card_image)
  then have full: "dir_full (dir_of (dsk k) h1)"
    using dir_full_card [OF in_dirD(6) [OF s(1)]] dir_of_table(2) by simp
  have l: "47 \<notin> set (letter 10)" using name_key_letter(2) [of 10] by simp
  have "letter 10 \<notin> letter ` {..<10}" by (auto simp: name_key_letter(3))
  then have none: "dir_abs (dir_of (dsk k) h1) (name_key (letter 10)) = None"
    using s(2) name_key_letter(1) [of 10] by (auto simp: domIff)
  have "has_room fm 300" using s(3) by (simp add: has_room_def)
  from Create_full_directory_loses_entry [OF s(1) l none full _ this] c10 show ?thesis
    by (metis zero_le_numeral)
qed

section \<open>Open, Write and Read\<close>

text \<open>
  A volume with one file of 300 bytes in its root directory, open and idle: the setting of
  the instances below.
\<close>

lemma example_volume:
  "\<exists>fs k M fm hw (f :: OpenFile). in_dir fs k M fm 1 hw \<and> dir_abs (dir_of (dsk k) hw) = [letter 0 \<mapsto> (hdrSector f, False)]
    \<and> M (hdrSector f) = Some (hdr f) \<and> hdrSector f \<noteq> 0 \<and> hdrSector f \<noteq> 1 \<and> idle k (hdrSector f)
    \<and> seekPosition f = 0 \<and> numBytes (hdr f) = 300 \<and> numSectors (hdr f) = 3 \<and> 1000 \<le> card (free_bits fm)
    \<and> OpenFileCount k 1 = None"
proof -
  obtain fs k h0 h1 fm where b: "in_dir fs k [0 \<mapsto> h0, 1 \<mapsto> h1] fm 1 h1" "dir_abs (dir_of (dsk k) h1) = Map.empty"
    "\<not> dir_full (dir_of (dsk k) h1)" "card (free_bits fm) = 1017" using booted by blast
  let ?M = "[0 \<mapsto> h0, 1 \<mapsto> h1] :: int \<rightharpoonup> FileHeader"
  have l: "47 \<notin> set (letter 0)" "name_key (letter 0) = letter 0" using name_key_letter(1,2) [of 0] by auto
  have "dir_abs (dir_of (dsk k) h1) (name_key (letter 0)) = None" "has_room fm 300" using b by (simp_all add: has_room_def)
  from Create_step [OF b(1) l(1) this(1) b(3) _ this(2)] obtain d' h fm' s where
    c: "?M s = None" "in_dir fs ((open_maps k 1)\<lparr>dsk := d'\<rparr>) (?M(s \<mapsto> h)) fm' 1 h1" "numBytes h = 300"
    "numSectors h = 3" "dir_abs (dir_of d' h1) = [letter 0 \<mapsto> (s, False)]"
    "card (free_bits fm) = card (free_bits fm') + 1 + 3 + 1" unfolding l(2) b(2) by auto
  let ?k = "\<lparr>dsk = d', OpenFileCount = Map.empty, readerCount = [s \<mapsto> 0], semaphoreRead = [s \<mapsto> 1],
    semaphoreWrite = [s \<mapsto> 1], uninit = (\<lambda>_. 0)\<rparr> :: kstate"
  let ?f = "\<lparr>hdr = h, seekPosition = 0, hdrSector = s\<rparr>"
  have "s \<noteq> 0" "s \<noteq> 1" using c(1) by (auto split: if_splits)
  moreover have "in_dir fs ?k (?M(s \<mapsto> h)) fm' 1 h1" using c(2) by (simp add: in_dir_def)
  moreover have "idle ?k s" by (simp add: idle_def)
  ultimately show ?thesis using c(3-6) b(4)
    by (intro exI [of _ fs] exI [of _ ?k] exI [of _ "?M(s \<mapsto> h)"] exI [of _ fm'] exI [of _ h1] exI [of _ ?f]) simp
qed




text \<open>
  C4. What \<open>Write\<close> put into a file, also past its old end, \<open>Read\<close> returns after a \<open>Seek\<close> back to the
  position: the calls of one thread, through the semaphores and the disk.
\<close>

theorem Write_Seek_Read:
  assumes fs: "fs_inv (dsk k) M fm (hdr fmf)" "M (hdrSector f) = Some (hdr f)" "hdrSector f \<noteq> 0"
    and id: "idle k (hdrSector f)" "0 \<le> seekPosition f" "seekPosition f \<le> numBytes (hdr f)"
    and sp: "enough_space fm (length (hdr_blocks (hdr f))) (length (hdr_data (dsk k) (hdr f))) ((length bs + 127) div 128)"
  shows "\<exists>f' k'. Write f fmf k bs (int (length bs)) = Inr (int (length bs), f', k')
    \<and> (\<exists>f'' k''. Read (Seek f' (seekPosition f)) k' (int (length bs)) = Inr (int (length bs), bs, f'', k''))"
proof -
  have sp': "enough_space fm (length (hdr_blocks (hdr f))) (length (hdr_data (dsk k) (hdr f)))
      (nat ((int (length bs) + 127) div 128))"
    using sp by (simp add: nat_div_distrib nat_add_distrib)
  from Write_ok [OF fs id _ _ sp', of bs] obtain h' d' fm' where
    w: "Write f fmf k bs (int (length bs))
      = Inr (int (length bs), f\<lparr>hdr := h', seekPosition := seekPosition f + int (length bs)\<rparr>, k\<lparr>dsk := d'\<rparr>)"
    "fs_inv d' (M(hdrSector f \<mapsto> h')) fm' (hdr fmf)"
    "take (length bs) (drop (nat (seekPosition f)) (bytes_of d' h')) = bs"
    "numBytes h' = numBytes (hdr f) + (if seekPosition f + int (length bs) > numBytes (hdr f) then int (length bs) else 0)"
    by auto
  let ?f = "Seek (f\<lparr>hdr := h', seekPosition := seekPosition f + int (length bs)\<rparr>) (seekPosition f)"
  have ok: "file_ok d' h'"
    using w(2) vol_invD(4) [of d' "M(hdrSector f \<mapsto> h')" fm' "hdrSector f" h'] by (simp add: fs_inv_def file_at_def)
  have "seekPosition f + int (length bs) \<le> numBytes h'" using w(4) id(3) by simp
  then have t: "transfer h' (int (length bs)) (seekPosition f) = length bs" by (simp add: transfer_def)
  have "Read ?f (k\<lparr>dsk := d'\<rparr>) (int (length bs)) = Inr (int (length bs), bs,
      ?f\<lparr>seekPosition := seekPosition f + int (length bs)\<rparr>, k\<lparr>dsk := d'\<rparr>)"
    using Read_ok [of "k\<lparr>dsk := d'\<rparr>" ?f "int (length bs)"] ok id t w(3) by (simp add: Seek_def)
  with w(1) show ?thesis by blast
qed

theorem Write_Seek_Read_witness:
  "\<exists>(fs :: FileSystem) k f f' k'. Write f (freeMapFile fs) k (replicate 500 7) 500 = Inr (500, f', k')
    \<and> (\<exists>f'' k''. Read (Seek f' (seekPosition f)) k' 500 = Inr (500, replicate 500 7, f'', k''))"
proof -
  obtain fs k M fm hw and f :: OpenFile where e: "in_dir fs k M fm 1 hw" "M (hdrSector f) = Some (hdr f)" "hdrSector f \<noteq> 0"
    "idle k (hdrSector f)" "seekPosition f = 0" "numBytes (hdr f) = 300" "numSectors (hdr f) = 3"
    "1000 \<le> card (free_bits fm)" using example_volume by blast
  have ok: "file_ok (dsk k) (hdr f)" using vol_invD(4) [OF in_dirD(1) [OF e(1)] e(2)] by (simp add: file_at_def)
  then have "length (hdr_data (dsk k) (hdr f)) = 3" using numSectors_data [OF ok] e(7) by simp
  moreover from this have "length (hdr_blocks (hdr f)) = 1" using file_okD(2) [OF ok] by (simp add: file_inv_def index_ok_def)
  ultimately have sp: "enough_space fm (length (hdr_blocks (hdr f))) (length (hdr_data (dsk k) (hdr f)))
      ((length (replicate 500 (7 :: byte)) + 127) div 128)"
    using e(8) by (simp add: enough_space_def)
  have "0 \<le> seekPosition f" "seekPosition f \<le> numBytes (hdr f)" using e by simp_all
  from Write_Seek_Read [OF in_dirD(2) [OF e(1)] e(2,3,4) this sp] have
    "\<exists>f' k'. Write f (freeMapFile fs) k (replicate 500 7) 500 = Inr (500, f', k')
      \<and> (\<exists>f'' k''. Read (Seek f' (seekPosition f)) k' 500 = Inr (500, replicate 500 7, f'', k''))" by simp
  then show ?thesis by blast
qed

section \<open>Remove\<close>



text \<open>
  C19. After a successful \<open>Create\<close> in a directory that some \<open>OpenFile\<close> had opened before, as the constructor of
  \<open>FileSystem\<close> opens the root, no file of that directory can be removed: \<open>Create\<close> never
  closes the directory, and \<open>Remove\<close> tests the open count of the directory, not of the file.
\<close>

theorem Remove_refused_after_Create:
  assumes dir: "in_dir fs k M fm wd hw" and nm: "47 \<notin> set nm" "dir_abs (dir_of (dsk k) hw) (name_key nm) = None"
    and room: "\<not> dir_full (dir_of (dsk k) hw)" "0 \<le> sz" "has_room fm sz" and cnt: "OpenFileCount k wd = Some c" "0 \<le> c"
    and other: "47 \<notin> set nm2"
  shows "\<exists>k'. Create fs k nm sz wd = Inr (True, k') \<and> Remove fs k' nm2 wd = Inr (False, k')"
proof -
  obtain d' where c: "Create fs k nm sz wd = Inr (True, (open_maps k wd)\<lparr>dsk := d'\<rparr>)"
    using Create_step [OF dir nm room] by blast
  have "OpenFileCount ((open_maps k wd)\<lparr>dsk := d'\<rparr>) wd = Some (c + 1)" using cnt(1) by (simp add: open_maps_def)
  then show ?thesis using c Remove_refused [OF other in_dirD(8) [OF dir]] cnt(2) by fastforce
qed

theorem Remove_refused_after_Create_witness:
  "\<exists>fs k k'. FileSystem_new boot_state True = Inr (fs, k) \<and> Create fs k (letter 0) 300 1 = Inr (True, k')
    \<and> Remove fs k' (letter 0) 1 = Inr (False, k')"
proof -
  obtain fs k h0 h1 fm where b: "FileSystem_new boot_state True = Inr (fs, k)" "in_dir fs k [0 \<mapsto> h0, 1 \<mapsto> h1] fm 1 h1"
    "dir_abs (dir_of (dsk k) h1) = Map.empty" "\<not> dir_full (dir_of (dsk k) h1)" "card (free_bits fm) = 1017"
    "k = (open_maps (open_maps boot_state 0) 1)\<lparr>dsk := dsk k\<rparr>" using booted by blast
  have "OpenFileCount k 1 = Some 0" by (subst b(6)) (simp add: open_maps_def boot_state_def)
  moreover have "47 \<notin> set (letter 0)" using name_key_letter(2) [of 0] by auto
  moreover have "dir_abs (dir_of (dsk k) h1) (name_key (letter 0)) = None" "has_room fm 300"
    using b by (simp_all add: has_room_def)
  ultimately show ?thesis using Remove_refused_after_Create [OF b(2) _ _ b(4), of "letter 0" 300 0 "letter 0"] b(1) by auto
qed

section \<open>Directories and paths\<close>



text \<open>
  C20. With initial size 0, as \<open>Kernel::Initialize\<close> creates \<open>bin\<close>, \<open>MakeDir\<close> returns TRUE although the file has no room for a
  single entry: the new directory has no parent entry, so \<open>..\<close> cannot be entered from it,
  and a \<open>Create\<close> inside it that returns TRUE leaves no entry on the disk.
\<close>

theorem MakeDir_size_0_loses_entries:
  assumes dir: "in_dir fs k M fm wd hw" and nm: "47 \<notin> set nm" "dir_abs (dir_of (dsk k) hw) (name_key nm) = None"
    and room: "\<not> dir_full (dir_of (dsk k) hw)" "has_room fm 0"
  shows "\<exists>k' h fm' s. MakeDir fs k nm 0 wd = Inr (True, k') \<and> fs_inv (dsk k') (M(s \<mapsto> h)) fm' (hdr (freeMapFile fs))
    \<and> FileLength h = 0 \<and> (\<exists>k1. ChangeDir k' nm wd = Inr (s, k1)) \<and> (\<exists>k2. ChangeDir k' dotdot s = Inr (-1, k2))
    \<and> (\<forall>d2 dir2 g f. hdr f = h \<longrightarrow> Directory_WriteBack dir2 f g d2 = Inr d2)"
proof -
  note D = in_dirD [OF dir]
  obtain s fm1 where fm: "FindAndSet fm = Inr (s, fm1)" "free_bits fm \<noteq> {}"
    "enough_space fm1 0 0 (nat ((0 + 127) div 128))" using has_room_claim [OF D(1) room(2)] by metis
  from MakeDir_run [OF dir nm room(1) order_refl fm] obtain h d1 fm' where
    m: "MakeDir fs k nm 0 wd = bind_res (init_subdir ((open_maps k wd)\<lparr>dsk := d1\<rparr>) s wd)
        (\<lambda>k. Inr (True, OpenFile_delete \<lparr>hdr = hw, seekPosition = 0, hdrSector = wd\<rparr> k))"
    "fs_inv d1 (M(s \<mapsto> h)) fm' (hdr (freeMapFile fs))" "M s = None" "valid_sector s" "numBytes h = 0"
    "dir_ok (dir_of d1 hw)" "dir_abs (dir_of d1 hw) = (dir_abs (dir_of (dsk k) hw))(name_key nm \<mapsto> (s, True))"
    by (elim exE conjE)
  have ne: "s \<noteq> wd" using m(3) D(3) by auto
  let ?k1 = "(open_maps k wd)\<lparr>dsk := d1\<rparr>" and ?M = "M(s \<mapsto> h)" and ?f = "\<lparr>hdr = h, seekPosition = 0, hdrSector = s\<rparr>"
  have fs1: "fs_inv (dsk ?k1) ?M fm' (hdr (freeMapFile fs))" "?M s = Some h" using m(2) by simp_all
  obtain k' where k': "MakeDir fs k nm 0 wd = Inr (True, k')" "dsk k' = d1"
    using m(1) init_subdir_0 [OF fs1 m(5) valid_in_int(1) [OF D(7)]] by simp
  have in1: "in_dir fs k' ?M fm' wd hw" using m(2,6) D(3-5) ne by (simp add: in_dir_def k'(2))
  have cd: "\<exists>k1. ChangeDir k' nm wd = Inr (s, k1)" using ChangeDir_run [OF in1 nm(1)] m(7) by (auto simp: k'(2))
  have "vol_inv (dsk k') ?M fm'" using m(2) k'(2) by (simp add: fs_inv_def)
  from vol_open [OF this fs1(2)] have "open_dir k' s = Inr (?f, Directory_new (uninit k') 10, open_maps k' s)"
    using Directory_FetchFrom_empty [of ?f] m(5) by (simp add: open_dir_def FileLength_def)
  moreover have "isDirectory (Directory_new (uninit k') 10) dotdot = False"
    using isDirectory_abs [of "Directory_new (uninit k') 10"] Directory_new_empty(2) by simp
  ultimately have "\<exists>k2. ChangeDir k' dotdot s = Inr (-1, k2)"
    using valid_in_int(3) [OF m(4)] by (simp add: ChangeDir_def parse_path_plain dotdot_def)
  moreover have "Directory_WriteBack dir2 f g d2 = Inr d2" if "hdr f = h" for dir2 f g d2
    using m(5) that by (simp add: Directory_WriteBack_def WriteAt_empty_file)
  ultimately show ?thesis using k' m(2,5) cd
    by (intro exI [of _ k'] exI [of _ h] exI [of _ fm'] exI [of _ s]) (simp add: FileLength_def)
qed

theorem MakeDir_size_0_loses_entries_witness:
  "\<exists>fs k k' s k1 k2. FileSystem_new boot_state True = Inr (fs, k) \<and> MakeDir fs k (letter 0) 0 1 = Inr (True, k')
    \<and> ChangeDir k' (letter 0) 1 = Inr (s, k1) \<and> ChangeDir k' dotdot s = Inr (-1, k2)"
proof -
  obtain fs k h0 h1 fm where b: "FileSystem_new boot_state True = Inr (fs, k)"
    "in_dir fs k [0 \<mapsto> h0, 1 \<mapsto> h1] fm 1 h1" "dir_abs (dir_of (dsk k) h1) = Map.empty"
    "\<not> dir_full (dir_of (dsk k) h1)" "card (free_bits fm) = 1017" using booted by blast
  have "47 \<notin> set (letter 0)" using name_key_letter(2) [of 0] by auto
  moreover have "dir_abs (dir_of (dsk k) h1) (name_key (letter 0)) = None" "has_room fm 0"
    using b by (simp_all add: has_room_def)
  ultimately show ?thesis using MakeDir_size_0_loses_entries [OF b(2) _ _ b(4)] b(1) by blast
qed



end
