(* ===== verification/Machine.thy ===== *)
theory Machine
  imports Prelude
begin

text \<open>
  The simulated hardware a user program sees: the registers and physical memory of
  \<open>machine/machine.h\<close> and \<open>machine.cc\<close>, and the translation of virtual addresses of
  \<open>machine/translate.cc\<close>, through a linear page table or a TLB, with the use and dirty bits
  and every exception it can report. A C \<open>int\<close> register is a 32-bit word, read with
  \<open>sint\<close> where the code compares or divides it as a signed number. Page tables are arrays
  in kernel memory to which the machine holds a pointer, so they live in a heap
  \<open>tables\<close> and \<open>pageTable\<close> is an address in it.
\<close>

section \<open>Registers, memory and page tables\<close>

definition PageSize :: int where "PageSize = 128"
definition NumPhysPages :: int where "NumPhysPages = 32"
definition MemorySize :: int where "MemorySize = NumPhysPages * PageSize"
definition TLBSize :: nat where "TLBSize = 4"

datatype ExceptionType =
    NoException | SyscallException | PageFaultException | ReadOnlyException
  | BusErrorException | AddressErrorException | OverflowException | IllegalInstrException

definition StackReg :: nat where "StackReg = 29"
definition RetAddrReg :: nat where "RetAddrReg = 31"
definition NumGPRegs :: nat where "NumGPRegs = 32"
definition HiReg :: nat where "HiReg = 32"
definition LoReg :: nat where "LoReg = 33"
definition PCReg :: nat where "PCReg = 34"
definition NextPCReg :: nat where "NextPCReg = 35"
definition PrevPCReg :: nat where "PrevPCReg = 36"
definition LoadReg :: nat where "LoadReg = 37"
definition LoadValueReg :: nat where "LoadValueReg = 38"
definition BadVAddrReg :: nat where "BadVAddrReg = 39"
definition NumTotalRegs :: nat where "NumTotalRegs = 40"

lemmas reg_defs = StackReg_def RetAddrReg_def NumGPRegs_def HiReg_def LoReg_def PCReg_def NextPCReg_def
  PrevPCReg_def LoadReg_def LoadValueReg_def BadVAddrReg_def NumTotalRegs_def

lemmas page_defs = PageSize_def NumPhysPages_def MemorySize_def

record TranslationEntry =
  virtualPage :: int
  physicalPage :: int
  valid :: bool
  readOnly :: bool
  useBit :: bool        \<comment> \<open>\<open>use\<close>\<close>
  dirty :: bool

record Machine =
  registers :: "u32 list"
  mainMemory :: "byte list"
  tlb :: "TranslationEntry list option"      \<comment> \<open>\<open>None\<close> is \<open>NULL\<close>\<close>
  pageTable :: "nat option"                   \<comment> \<open>an address in \<open>tables\<close>; \<open>None\<close> is \<open>NULL\<close>\<close>
  pageTableSize :: u32
  tables :: "nat \<Rightarrow> TranslationEntry list"
  singleStep :: bool
  runUntilTime :: int

definition CheckEndian :: "unit res" where
  "CheckEndian = ASSERT (bytes_to_word [1, 2, 3, 4] = 0x04030201) (Inr ())"

text \<open>
  The constructor without \<open>USE_TLB\<close>; \<open>tabs\<close> is the rest of kernel memory, \<open>sz\<close> and \<open>time\<close> what the
  fields it does not initialise happen to hold.
\<close>

definition Machine_new :: "(nat \<Rightarrow> TranslationEntry list) \<Rightarrow> u32 \<Rightarrow> int \<Rightarrow> bool \<Rightarrow> Machine res" where
  "Machine_new tabs sz time debug =
     bind_res CheckEndian (\<lambda>_.
     Inr \<lparr> registers = replicate NumTotalRegs 0, mainMemory = replicate (nat MemorySize) 0,
           tlb = None, pageTable = None, pageTableSize = sz, tables = tabs,
           singleStep = debug, runUntilTime = time \<rparr>)"

definition ReadRegister :: "Machine \<Rightarrow> int \<Rightarrow> u32 res" where
  "ReadRegister m num = ASSERT (0 \<le> num \<and> num < int NumTotalRegs) (Inr (registers m ! nat num))"

definition WriteRegister :: "Machine \<Rightarrow> int \<Rightarrow> u32 \<Rightarrow> Machine res" where
  "WriteRegister m num v =
     ASSERT (0 \<le> num \<and> num < int NumTotalRegs) (Inr (m\<lparr>registers := (registers m)[nat num := v]\<rparr>))"

text \<open>
  \<open>DelayedLoad\<close> (\<open>mipssim.cc\<close>) and what \<open>RaiseException\<close> does before it enters the kernel. The trap
  itself is the value \<open>Fault\<close>: every caller returns at once, and \<open>ExceptionHandler\<close> runs
  on the machine it carries.
\<close>

definition DelayedLoad :: "Machine \<Rightarrow> u32 \<Rightarrow> u32 \<Rightarrow> Machine res" where
  "DelayedLoad m nextReg nextValue =
     (let r = registers m; target = unat (r ! LoadReg)
      in CHECK_BOUNDS (target < length r)
           (Inr (m\<lparr>registers := (r[target := r ! LoadValueReg])
                     [LoadReg := nextReg, LoadValueReg := nextValue, 0 := 0]\<rparr>)))"

definition RaiseException :: "Machine \<Rightarrow> u32 \<Rightarrow> Machine res" where
  "RaiseException m badVAddr = DelayedLoad (m\<lparr>registers := (registers m)[BadVAddrReg := badVAddr]\<rparr>) 0 0"

datatype 'a access = Fault ExceptionType Machine | Access 'a Machine

section \<open>Byte order\<close>

definition WordToHost :: "u32 \<Rightarrow> u32" where "WordToHost w = w"
definition ShortToHost :: "16 word \<Rightarrow> 16 word" where "ShortToHost w = w"
definition WordToMachine :: "u32 \<Rightarrow> u32" where "WordToMachine w = WordToHost w"
definition ShortToMachine :: "16 word \<Rightarrow> 16 word" where "ShortToMachine w = ShortToHost w"

definition short_to_bytes :: "16 word \<Rightarrow> byte list" where
  "short_to_bytes w = [ucast w, ucast (drop_bit 8 w)]"

definition bytes_to_short :: "byte list \<Rightarrow> 16 word" where
  "bytes_to_short bs = ucast (bs ! 0) OR push_bit 8 (ucast (bs ! 1))"

section \<open>Machine::Translate\<close>

text \<open>
  The entry of a virtual page: an index into the page table, or a search of the TLB.
  The entry is returned with the way to store it back.
\<close>

fun find_tlb :: "TranslationEntry list \<Rightarrow> int \<Rightarrow> nat \<Rightarrow> nat option" where
  "find_tlb [] vpn i = None"
| "find_tlb (e # es) vpn i = (if valid e \<and> virtualPage e = vpn then Some i else find_tlb es vpn (Suc i))"

datatype lookup = NotFound ExceptionType | InTable nat nat | InTlb nat

definition find_entry :: "Machine \<Rightarrow> u32 \<Rightarrow> lookup res" where
  "find_entry m vpn =
     (case tlb m of
        None \<Rightarrow> (case pageTable m of
            None \<Rightarrow> Inl NullPointer
          | Some p \<Rightarrow>
              if pageTableSize m \<le> vpn then Inr (NotFound AddressErrorException)
              else CHECK_BOUNDS (unat vpn < length (tables m p))
                (if \<not> valid (tables m p ! unat vpn) then Inr (NotFound PageFaultException)
                 else Inr (InTable p (unat vpn))))
      | Some t \<Rightarrow> (case find_tlb (take TLBSize t) (sint vpn) 0 of
            None \<Rightarrow> Inr (NotFound PageFaultException)
          | Some i \<Rightarrow> Inr (InTlb i)))"

definition get_entry :: "Machine \<Rightarrow> lookup \<Rightarrow> TranslationEntry" where
  "get_entry m l = (case l of InTable p i \<Rightarrow> tables m p ! i | InTlb i \<Rightarrow> the (tlb m) ! i)"

definition set_entry_at :: "Machine \<Rightarrow> lookup \<Rightarrow> TranslationEntry \<Rightarrow> Machine" where
  "set_entry_at m l e =
     (case l of
        InTable p i \<Rightarrow> m\<lparr>tables := (tables m)(p := (tables m p)[i := e])\<rparr>
      | InTlb i \<Rightarrow> m\<lparr>tlb := Some ((the (tlb m))[i := e])\<rparr>
      | NotFound _ \<Rightarrow> m)"

definition Translate :: "Machine \<Rightarrow> u32 \<Rightarrow> int \<Rightarrow> bool \<Rightarrow> (ExceptionType \<times> int \<times> Machine) res" where
  "Translate m virtAddr sz writing =
     (if (sz = 4 \<and> virtAddr AND 3 \<noteq> 0) \<or> (sz = 2 \<and> virtAddr AND 1 \<noteq> 0) then
        Inr (AddressErrorException, 0, m)
      else
        ASSERT (tlb m = None \<or> pageTable m = None)
        (ASSERT (tlb m \<noteq> None \<or> pageTable m \<noteq> None)
        (let vpn = virtAddr div word_of_int PageSize;
             offset = virtAddr mod word_of_int PageSize
         in bind_res (find_entry m vpn) (\<lambda>l.
            case l of
              NotFound exc \<Rightarrow> Inr (exc, 0, m)
            | _ \<Rightarrow>
              (let entry = get_entry m l; pageFrame = word_of_int (physicalPage entry) :: u32
               in if readOnly entry \<and> writing then Inr (ReadOnlyException, 0, m)
                  else if word_of_int NumPhysPages \<le> pageFrame then Inr (BusErrorException, 0, m)
                  else
                    (let entry = entry\<lparr>useBit := True\<rparr>;
                         entry = (if writing then entry\<lparr>dirty := True\<rparr> else entry);
                         m = set_entry_at m l entry;
                         physAddr = sint (pageFrame * word_of_int PageSize + offset)
                     in ASSERT (0 \<le> physAddr \<and> physAddr + sz \<le> MemorySize)
                          (Inr (NoException, physAddr, m))))))))"

section \<open>Machine::ReadMem and Machine::WriteMem\<close>

definition mem_bytes :: "Machine \<Rightarrow> int \<Rightarrow> nat \<Rightarrow> byte list" where
  "mem_bytes m a n = take n (drop (nat a) (mainMemory m))"

definition ReadMem :: "Machine \<Rightarrow> u32 \<Rightarrow> int \<Rightarrow> u32 access res" where
  "ReadMem m addr sz =
     bind_res (Translate m addr sz False) (\<lambda>(exception, physicalAddress, m).
     if exception \<noteq> NoException then
       bind_res (RaiseException m addr) (\<lambda>m. Inr (Fault exception m))
     else if sz = 1 then
       Inr (Access (scast (mem_bytes m physicalAddress 1 ! 0)) m)
     else if sz = 2 then
       Inr (Access (ucast (ShortToHost (bytes_to_short (mem_bytes m physicalAddress 2)))) m)
     else if sz = 4 then
       Inr (Access (WordToHost (bytes_to_word (mem_bytes m physicalAddress 4))) m)
     else Inl AssertFailed)"

definition store_bytes :: "u32 \<Rightarrow> int \<Rightarrow> byte list" where
  "store_bytes value sz =
     (if sz = 1 then [ucast (value AND 0xff)]
      else if sz = 2 then short_to_bytes (ShortToMachine (ucast (value AND 0xffff)))
      else word_to_bytes (WordToMachine value))"

definition WriteMem :: "Machine \<Rightarrow> u32 \<Rightarrow> int \<Rightarrow> u32 \<Rightarrow> unit access res" where
  "WriteMem m addr sz value =
     bind_res (Translate m addr sz True) (\<lambda>(exception, physicalAddress, m).
     if exception \<noteq> NoException then
       bind_res (RaiseException m addr) (\<lambda>m. Inr (Fault exception m))
     else if sz = 1 \<or> sz = 2 \<or> sz = 4 then
       Inr (Access () (m\<lparr>mainMemory :=
         overwrite (mainMemory m) (nat physicalAddress) (store_bytes value sz)\<rparr>))
     else Inl AssertFailed)"

section \<open>The translation and what it keeps\<close>

definition mmu_ok :: "Machine \<Rightarrow> bool" where
  "mmu_ok m \<longleftrightarrow>
     (case (tlb m, pageTable m) of
        (None, Some p) \<Rightarrow> unat (pageTableSize m) \<le> length (tables m p)
      | (Some t, None) \<Rightarrow> True
      | _ \<Rightarrow> False)"

definition wf_machine :: "Machine \<Rightarrow> bool" where
  "wf_machine m \<longleftrightarrow> length (registers m) = 40 \<and> registers m ! 0 = 0 \<and> unat (registers m ! LoadReg) < 32
     \<and> length (mainMemory m) = 4096 \<and> mmu_ok m"

definition current_entries :: "Machine \<Rightarrow> TranslationEntry list" where
  "current_entries m = (case tlb m of Some t \<Rightarrow> t | None \<Rightarrow> tables m (the (pageTable m)))"

text \<open>The frames the running program can reach.\<close>

definition frames :: "Machine \<Rightarrow> int set" where
  "frames m = {uint (word_of_int (physicalPage e) :: u32) | e. e \<in> set (current_entries m) \<and> valid e}"

text \<open>Two machines that differ in the use and dirty bits at most.\<close>

definition clean :: "TranslationEntry \<Rightarrow> TranslationEntry" where
  "clean e = e\<lparr>useBit := False, dirty := False\<rparr>"

definition same_map :: "Machine \<Rightarrow> Machine \<Rightarrow> bool" where
  "same_map m m' \<longleftrightarrow> map_option (map clean) (tlb m') = map_option (map clean) (tlb m)
     \<and> pageTable m' = pageTable m \<and> pageTableSize m' = pageTableSize m
     \<and> (\<forall>p. map clean (tables m' p) = map clean (tables m p))"

lemma clean_simps [simp]:
  "virtualPage (clean e) = virtualPage e" "physicalPage (clean e) = physicalPage e"
  "valid (clean e) = valid e" "readOnly (clean e) = readOnly e"
  by (simp_all add: clean_def)

lemma clean_eqD:
  assumes "clean e = clean e'"
  shows "virtualPage e = virtualPage e'" "physicalPage e = physicalPage e'" "valid e = valid e'" "readOnly e = readOnly e'"
  using assms by (metis clean_simps)+

lemma same_map_refl [simp]: "same_map m m"
  by (simp add: same_map_def)

lemma same_map_length: "same_map m m' \<Longrightarrow> length (tables m' p) = length (tables m p)"
  by (metis same_map_def length_map)

lemma same_map_nth: "same_map m m' \<Longrightarrow> i < length (tables m p) \<Longrightarrow> clean (tables m' p ! i) = clean (tables m p ! i)"
  by (metis same_map_def nth_map same_map_length)

lemma find_tlb_clean: "map clean t = map clean t' \<Longrightarrow> find_tlb t v i = find_tlb t' v i"
proof (induction t arbitrary: t' i)
  case (Cons e t)
  from Cons.prems obtain e' t'' where e: "t' = e' # t''" "clean e = clean e'" "map clean t = map clean t''"
    by (cases t') auto
  with Cons.IH [OF e(3), of "Suc i"] clean_eqD(1,3) [OF e(2)] show ?case by simp
qed simp

lemma find_tlb_bound: "find_tlb t v i = Some j \<Longrightarrow> i \<le> j \<and> j < i + length t \<and> valid (t ! (j - i))"
proof (induction t arbitrary: i)
  case (Cons e t)
  show ?case
  proof (cases "valid e \<and> virtualPage e = v")
    case False
    then have "find_tlb t v (Suc i) = Some j" using Cons.prems by (simp split: if_splits)
    from Cons.IH [OF this] show ?thesis by (simp add: nth_Cons' Suc_le_eq)
  qed (use Cons.prems in auto)
qed simp

lemma find_tlb_hit: "find_tlb (take n t) v 0 = Some i \<Longrightarrow> i < length t \<and> valid (t ! i)"
  using find_tlb_bound [of "take n t" v 0 i] by auto

lemma find_entry_same_map: "same_map m m' \<Longrightarrow> find_entry m' vpn = find_entry m vpn"
proof -
  assume s: "same_map m m'"
  have "valid (tables m' p ! i) = valid (tables m p ! i)" if "i < length (tables m p)" for p i
    using clean_eqD(3) [OF same_map_nth [OF s that]] .
  note v = this and len = same_map_length [OF s]
  show ?thesis
  proof (cases "tlb m")
    case None
    with s have "tlb m' = None" by (simp add: same_map_def)
    with None s v show ?thesis
      by (cases "pageTable m") (simp_all add: find_entry_def len same_map_def CHECK_BOUNDS_def)
  next
    case (Some t)
    with s obtain t' where t': "tlb m' = Some t'" "map clean t' = map clean t" by (auto simp: same_map_def)
    then have "find_tlb (take TLBSize t') v 0 = find_tlb (take TLBSize t) v 0" for v
      by (intro find_tlb_clean) (simp add: take_map [symmetric])
    with Some t' show ?thesis by (simp add: find_entry_def)
  qed
qed

lemma get_entry_same_map:
  assumes s: "same_map m m'" and f: "find_entry m vpn = Inr l" "\<forall>e. l \<noteq> NotFound e"
  shows "clean (get_entry m' l) = clean (get_entry m l)"
proof (cases l)
  case (InTable p i)
  then have "i < length (tables m p)"
    using f by (auto simp: find_entry_def CHECK_BOUNDS_def split: option.splits if_splits)
  with InTable s show ?thesis by (simp add: get_entry_def same_map_nth)
next
  case (InTlb i)
  with f obtain t where t: "tlb m = Some t" "i < length t"
    by (auto simp: find_entry_def CHECK_BOUNDS_def split: option.splits if_splits dest: find_tlb_hit)
  with s obtain t' where t': "tlb m' = Some t'" "map clean t' = map clean t" by (auto simp: same_map_def)
  with t have "clean (t' ! i) = clean (t ! i)" by (metis nth_map length_map)
  with t t' InTlb show ?thesis by (simp add: get_entry_def)
qed (use f in simp)

lemma find_entry_ok:
  assumes "mmu_ok m"
  shows "\<exists>l. find_entry m vpn = Inr l
    \<and> (case l of NotFound e \<Rightarrow> e = AddressErrorException \<or> e = PageFaultException
       | _ \<Rightarrow> get_entry m l \<in> set (current_entries m) \<and> valid (get_entry m l))"
proof (cases "tlb m")
  case None
  with assms obtain p where p: "pageTable m = Some p" "unat (pageTableSize m) \<le> length (tables m p)"
    by (auto simp: mmu_ok_def split: option.splits)
  show ?thesis
  proof (cases "pageTableSize m \<le> vpn")
    case False
    then have "unat vpn < length (tables m p)" using p(2) by (simp add: word_le_nat_alt)
    with None p False show ?thesis
      by (auto simp: find_entry_def get_entry_def current_entries_def)
  qed (use None p in \<open>auto simp: find_entry_def\<close>)
next
  case (Some t)
  then show ?thesis
    by (cases "find_tlb (take TLBSize t) (sint vpn) 0")
      (auto simp: find_entry_def get_entry_def current_entries_def dest: find_tlb_hit)
qed

lemma map_list_update_same: "f e = f (xs ! i) \<Longrightarrow> map f (xs[i := e]) = map f xs"
  by (cases "i < length xs") (simp_all add: map_update list_update_same_conv list_update_beyond)

lemma set_entry_at_same_map:
  assumes "clean e = clean (get_entry m l)" "find_entry m vpn = Inr l"
  shows "same_map m (set_entry_at m l e)"
proof (cases l)
  case (InTlb i)
  with assms(2) obtain t where "tlb m = Some t" by (auto simp: find_entry_def CHECK_BOUNDS_def split: option.splits if_splits)
  with InTlb assms(1) show ?thesis by (simp add: same_map_def set_entry_at_def get_entry_def map_list_update_same)
qed (use assms in \<open>simp_all add: same_map_def set_entry_at_def get_entry_def map_list_update_same\<close>)

lemma set_entry_at_frame [simp]:
  "registers (set_entry_at m l e) = registers m" "mainMemory (set_entry_at m l e) = mainMemory m"
  "singleStep (set_entry_at m l e) = singleStep m"
  by (cases l; simp add: set_entry_at_def)+

lemma mmu_ok_same_map: "same_map m m' \<Longrightarrow> mmu_ok m \<Longrightarrow> mmu_ok m'"
  using same_map_length [of m m'] unfolding mmu_ok_def same_map_def
  by (auto split: option.splits)

text \<open>The physical address of a frame and an offset fits the memory, as the last ASSERT demands.\<close>

lemma phys_addr:
  fixes f va :: u32
  assumes "f < 32"
  shows "sint (f * 128 + va mod 128) = 128 * uint f + uint va mod 128"
proof -
  have f: "uint f < 32" using assms by (simp add: word_less_def)
  have o: "uint (va mod 128) = uint va mod 128" by (simp add: uint_mod)
  have b: "uint va mod 128 < 128" "0 \<le> uint va mod 128" by simp_all
  have m: "uint (f * 128) = uint f * 128" using f by (subst uint_mult_lem [THEN iffD1]) simp_all
  have "uint (f * 128 + va mod 128) = 128 * uint f + uint va mod 128"
    using f b by (subst uint_plus_if_size) (simp add: m o word_size)
  moreover have "128 * uint f + uint va mod 128 < 2 ^ 31" using f b by simp
  ultimately show ?thesis using sint_small [of "f * 128 + va mod 128"] by simp
qed

lemma uint_and_3: "uint (va AND 3 :: u32) = uint va mod 4" and uint_and_1: "uint (va AND 1 :: u32) = uint va mod 2"
proof -
  have "va AND 3 = take_bit 2 va" "va AND 1 = take_bit 1 va" by (simp_all add: take_bit_eq_mask mask_eq_exp_minus_1)
  then show "uint (va AND 3) = uint va mod 4" "uint (va AND 1) = uint va mod 2"
    by (simp_all only: unsigned_take_bit_eq) (simp_all add: take_bit_eq_mod)
qed

lemma aligned_in_page:
  assumes "\<not> (sz = 4 \<and> va AND 3 \<noteq> (0 :: u32)) \<and> \<not> (sz = 2 \<and> va AND 1 \<noteq> 0)" "sz = 1 \<or> sz = 2 \<or> sz = (4 :: int)"
  shows "uint va mod 128 + sz \<le> 128"
proof -
  have "sz = 4 \<Longrightarrow> uint va mod 4 = 0" "sz = 2 \<Longrightarrow> uint va mod 2 = 0"
    using assms(1) by (auto simp flip: uint_and_3 uint_and_1)
  with assms(2) show ?thesis by (elim disjE) (simp, presburger+)
qed

lemma word_128: "word_of_int 128 = (128 :: u32)" "word_of_int 32 = (32 :: u32)"
  by simp_all

definition touched :: "bool \<Rightarrow> TranslationEntry \<Rightarrow> TranslationEntry" where
  "touched w e = (if w then e\<lparr>useBit := True, dirty := True\<rparr> else e\<lparr>useBit := True\<rparr>)"

lemma Translate_hit:
  assumes "\<not> ((sz = 4 \<and> va AND 3 \<noteq> 0) \<or> (sz = 2 \<and> va AND 1 \<noteq> 0))" "mmu_ok m"
    and "find_entry m (va div 128) = Inr l" "\<forall>e. l \<noteq> NotFound e"
  shows "Translate m va sz w =
    (let e = get_entry m l; f = word_of_int (physicalPage e) :: u32 in
     if readOnly e \<and> w then Inr (ReadOnlyException, 0, m)
     else if 32 \<le> f then Inr (BusErrorException, 0, m)
     else ASSERT (0 \<le> sint (f * 128 + va mod 128) \<and> sint (f * 128 + va mod 128) + sz \<le> 4096)
            (Inr (NoException, sint (f * 128 + va mod 128), set_entry_at m l (touched w e))))"
proof -
  have a: "tlb m = None \<or> pageTable m = None" "tlb m \<noteq> None \<or> pageTable m \<noteq> None"
    using assms(2) by (auto simp: mmu_ok_def split: option.splits)
  then show ?thesis
    using assms(3,4) unfolding Translate_def if_not_P [OF assms(1)]
    by (cases l) (simp_all add: page_defs touched_def Let_def)
qed

lemma Translate_misaligned:
  assumes "(sz = 4 \<and> va AND 3 \<noteq> 0) \<or> (sz = 2 \<and> va AND 1 \<noteq> 0)"
  shows "Translate m va sz w = Inr (AddressErrorException, 0, m)"
  unfolding Translate_def if_P [OF assms] ..

lemma Translate_miss:
  assumes "\<not> ((sz = 4 \<and> va AND 3 \<noteq> 0) \<or> (sz = 2 \<and> va AND 1 \<noteq> 0))" "mmu_ok m"
    and "find_entry m (va div 128) = Inr (NotFound exc)"
  shows "Translate m va sz w = Inr (exc, 0, m)"
proof -
  have a: "tlb m = None \<or> pageTable m = None" "tlb m \<noteq> None \<or> pageTable m \<noteq> None"
    using assms(2) by (auto simp: mmu_ok_def split: option.splits)
  then show ?thesis
    using assms(3) unfolding Translate_def if_not_P [OF assms(1)] by (simp add: page_defs Let_def)
qed

lemma Translate_spec:
  assumes "mmu_ok m" "sz = 1 \<or> sz = 2 \<or> sz = 4"
  shows "\<exists>exc pa m'. Translate m va sz w = Inr (exc, pa, m') \<and> same_map m m'
    \<and> registers m' = registers m \<and> mainMemory m' = mainMemory m
    \<and> (if exc = NoException
       then 0 \<le> pa \<and> pa + sz \<le> 4096 \<and> pa mod 128 = uint va mod 128 \<and> pa div 128 \<in> frames m
       else exc \<in> {AddressErrorException, PageFaultException, ReadOnlyException, BusErrorException} \<and> m' = m)"
proof (cases "(sz = 4 \<and> va AND 3 \<noteq> 0) \<or> (sz = 2 \<and> va AND 1 \<noteq> 0)")
  case True
  then show ?thesis by (intro exI [of _ AddressErrorException] exI [of _ 0] exI [of _ m]) (simp add: Translate_misaligned)
next
  case False
  define vpn where "vpn = va div (128 :: u32)"
  from find_entry_ok [OF assms(1), of vpn] obtain l where l: "find_entry m vpn = Inr l"
    and c: "case l of NotFound e \<Rightarrow> e = AddressErrorException \<or> e = PageFaultException
       | _ \<Rightarrow> get_entry m l \<in> set (current_entries m) \<and> valid (get_entry m l)" by blast
  have sz: "uint va mod 128 + sz \<le> 128" using False assms(2) by (intro aligned_in_page) auto
  have bad: ?thesis if "Translate m va sz w = Inr (exc, 0, m)"
    "exc \<in> {AddressErrorException, PageFaultException, ReadOnlyException, BusErrorException}" for exc
    using that by (intro exI [of _ exc] exI [of _ 0] exI [of _ m]) auto
  show ?thesis
  proof (cases "\<exists>e. l = NotFound e")
    case True
    then obtain exc where exc: "l = NotFound exc" by blast
    show ?thesis
      by (rule bad [of exc]) (use c l exc Translate_miss [OF False assms(1)] in \<open>auto simp: vpn_def\<close>)
  next
    case nf: False
    define e f where "e = get_entry m l" and "f = (word_of_int (physicalPage e) :: u32)"
    note T = Translate_hit [OF False assms(1) l [unfolded vpn_def], of w, folded e_def, unfolded Let_def, folded f_def]
    show ?thesis
    proof (cases "(readOnly e \<and> w) \<or> 32 \<le> f")
      case True
      then show ?thesis
        using T nf by (intro bad [of "if readOnly e \<and> w then ReadOnlyException else BusErrorException"]) auto
    next
      case ok: False
      then have f: "f < 32" "uint f < 32" by (simp_all add: word_less_def not_le)
      have pa: "sint (f * 128 + va mod 128) = 128 * uint f + uint va mod 128" using phys_addr [OF f(1)] .
      have "e \<in> set (current_entries m)" "valid e" using c nf by (cases l; simp add: e_def)+
      then have fr: "uint f \<in> frames m" by (auto simp: frames_def f_def)
      have "clean (touched w e) = clean (get_entry m l)" by (simp add: touched_def e_def clean_def)
      then have "same_map m (set_entry_at m l (touched w e))" using l by (rule set_entry_at_same_map)
      with ok f(2) sz fr T nf show ?thesis by (simp add: pa)
    qed
  qed
qed

lemma same_map_trans: "same_map m m' \<Longrightarrow> same_map m' m'' \<Longrightarrow> same_map m m''"
  by (simp add: same_map_def)

lemma same_map_registers [simp]: "same_map m (m\<lparr>registers := r\<rparr>)" "same_map m (m\<lparr>mainMemory := b\<rparr>)"
  by (simp_all add: same_map_def)

lemma wf_machineD:
  assumes "wf_machine m"
  shows "length (registers m) = 40" "registers m ! 0 = 0" "unat (registers m ! LoadReg) < 32"
    "length (mainMemory m) = 4096" "mmu_ok m"
  using assms by (simp_all add: wf_machine_def)

lemma DelayedLoad_ok:
  assumes "length (registers m) = 40" "unat (registers m ! LoadReg) < 32" "length (mainMemory m) = 4096" "mmu_ok m"
    and "unat nr < 32"
  shows "\<exists>m'. DelayedLoad m nr nv = Inr m' \<and> wf_machine m' \<and> same_map m m' \<and> mainMemory m' = mainMemory m
    \<and> registers m' = (registers m)[unat (registers m ! LoadReg) := registers m ! LoadValueReg, LoadReg := nr,
        LoadValueReg := nv, 0 := 0]"
  using assms
  by (auto simp: DelayedLoad_def Let_def wf_machine_def reg_defs nth_list_update intro: mmu_ok_same_map [OF same_map_registers(1)])

lemma RaiseException_ok:
  assumes "length (registers m) = 40" "unat (registers m ! LoadReg) < 32" "length (mainMemory m) = 4096" "mmu_ok m"
  shows "\<exists>m'. RaiseException m va = Inr m' \<and> wf_machine m' \<and> same_map m m' \<and> mainMemory m' = mainMemory m
    \<and> registers m' ! BadVAddrReg = va \<and> registers m' ! PCReg = registers m ! PCReg
    \<and> registers m' ! NextPCReg = registers m ! NextPCReg"
proof -
  let ?m = "m\<lparr>registers := (registers m)[BadVAddrReg := va]\<rparr>"
  have "mmu_ok ?m" using assms(4) by (rule mmu_ok_same_map [OF same_map_registers(1)])
  then obtain m' where m': "DelayedLoad ?m 0 0 = Inr m'" "wf_machine m'" "same_map ?m m'" "mainMemory m' = mainMemory ?m"
    "registers m' = (registers ?m)[unat (registers ?m ! LoadReg) := registers ?m ! LoadValueReg, LoadReg := 0,
        LoadValueReg := 0, 0 := 0]"
    using assms DelayedLoad_ok [of ?m 0 0] by (auto simp: reg_defs)
  with assms show ?thesis
    by (auto simp: RaiseException_def reg_defs nth_list_update intro: same_map_trans [OF same_map_registers(1)])
qed

section \<open>Memory accesses\<close>

lemma Translate_again:
  assumes "mmu_ok m" "Translate m va sz True = Inr (NoException, pa, m')" "same_map m m2"
  shows "\<exists>m3. Translate m2 va sz w = Inr (NoException, pa, m3) \<and> registers m3 = registers m2 \<and> mainMemory m3 = mainMemory m2"
proof -
  have al: "\<not> ((sz = 4 \<and> va AND 3 \<noteq> 0) \<or> (sz = 2 \<and> va AND 1 \<noteq> 0))"
    using Translate_misaligned [of sz va m True] assms(2) by (intro notI) simp
  obtain l where l: "find_entry m (va div 128) = Inr l" using find_entry_ok [OF assms(1)] by blast
  have nf: "\<forall>e. l \<noteq> NotFound e"
    using Translate_miss [OF al assms(1)] assms(2) l find_entry_ok [OF assms(1), of "va div 128"] by auto
  have l2: "find_entry m2 (va div 128) = Inr l" using l find_entry_same_map [OF assms(3)] by simp
  note e = clean_eqD [OF get_entry_same_map [OF assms(3) l nf]]
  show ?thesis
    using assms(2) Translate_hit [OF al assms(1) l nf, of True] Translate_hit [OF al mmu_ok_same_map [OF assms(3,1)] l2 nf, of w] e
    by (auto simp: Let_def ASSERT_def split: if_splits)
qed

lemma short_roundtrip [codec_simps]: "bytes_to_short (short_to_bytes w) = w"
  by (rule bit_word_eqI) (auto simp: bytes_to_short_def short_to_bytes_def bit_simps)

lemma length_store_bytes: "sz = 1 \<or> sz = 2 \<or> sz = 4 \<Longrightarrow> length (store_bytes v sz) = nat sz"
  by (auto simp: store_bytes_def short_to_bytes_def)

text \<open>What a load of the given size returns for the stored value: a byte is sign-extended, a half-word not.\<close>

definition loaded :: "u32 \<Rightarrow> int \<Rightarrow> u32" where
  "loaded v sz = (if sz = 1 then scast (ucast v :: byte) else if sz = 2 then ucast (ucast v :: 16 word) else v)"

lemma take_drop_overwrite: "off + length ys \<le> length xs \<Longrightarrow> take (length ys) (drop off (overwrite xs off ys)) = ys"
  by (simp add: overwrite_def)

lemma ucast_low: "ucast (v AND 0xff :: u32) = (ucast v :: byte)" "ucast (v AND 0xffff :: u32) = (ucast v :: 16 word)"
proof -
  have m: "(0xff :: u32) = mask 8" "(0xffff :: u32) = mask 16" by (simp_all add: mask_eq_exp_minus_1)
  show "ucast (v AND 0xff) = (ucast v :: byte)" "ucast (v AND 0xffff) = (ucast v :: 16 word)"
    unfolding m by (auto intro!: bit_word_eqI simp: bit_simps)
qed

lemma ReadMem_stored:
  assumes "sz = 1 \<or> sz = 2 \<or> sz = 4" "Translate m va sz False = Inr (NoException, pa, m')"
    and "mainMemory m' = overwrite mem (nat pa) (store_bytes v sz)" "nat pa + nat sz \<le> length mem"
  shows "ReadMem m va sz = Inr (Access (loaded v sz) m')"
proof -
  have "take (nat sz) (drop (nat pa) (mainMemory m')) = store_bytes v sz"
    using assms(3,4) take_drop_overwrite [of "nat pa" "store_bytes v sz" mem] length_store_bytes [OF assms(1), of v] by simp
  moreover have "xs ! 0 = x" if "take (Suc 0) xs = [x]" for xs and x :: byte using that by (cases xs) auto
  ultimately show ?thesis using assms(1,2)
    by (auto simp: ucast_low ReadMem_def mem_bytes_def store_bytes_def loaded_def codec_simps ShortToHost_def ShortToMachine_def
        WordToHost_def WordToMachine_def)
qed

lemma WriteMem_spec:
  assumes wf: "wf_machine m" and sz: "sz = 1 \<or> sz = 2 \<or> sz = 4"
  shows "(\<exists>exc m'. WriteMem m va sz v = Inr (Fault exc m')
      \<and> exc \<in> {AddressErrorException, PageFaultException, ReadOnlyException, BusErrorException}
      \<and> wf_machine m' \<and> same_map m m' \<and> mainMemory m' = mainMemory m \<and> registers m' ! BadVAddrReg = va
      \<and> registers m' ! PCReg = registers m ! PCReg)
    \<or> (\<exists>m' m'' pa. WriteMem m va sz v = Inr (Access () m') \<and> wf_machine m' \<and> same_map m m' \<and> registers m' = registers m
      \<and> 0 \<le> pa \<and> pa + sz \<le> 4096 \<and> pa mod 128 = uint va mod 128 \<and> pa div 128 \<in> frames m
      \<and> (\<forall>i<4096. \<not> (pa \<le> int i \<and> int i < pa + sz) \<longrightarrow> mainMemory m' ! i = mainMemory m ! i)
      \<and> ReadMem m' va sz = Inr (Access (loaded v sz) m''))"
proof -
  note w = wf_machineD [OF wf]
  from Translate_spec [OF w(5) sz, of va True] obtain exc pa m1 where
    T: "Translate m va sz True = Inr (exc, pa, m1)" "same_map m m1" "registers m1 = registers m" "mainMemory m1 = mainMemory m"
    and E: "if exc = NoException
       then 0 \<le> pa \<and> pa + sz \<le> 4096 \<and> pa mod 128 = uint va mod 128 \<and> pa div 128 \<in> frames m
       else exc \<in> {AddressErrorException, PageFaultException, ReadOnlyException, BusErrorException} \<and> m1 = m"
    by blast
  show ?thesis
  proof (cases "exc = NoException")
    case False
    with RaiseException_ok [OF w(1,3-5), of va] T E show ?thesis by (auto simp: WriteMem_def)
  next
    case True
    with E have pa: "0 \<le> pa" "pa + sz \<le> 4096" by simp_all
    let ?m = "m1\<lparr>mainMemory := overwrite (mainMemory m) (nat pa) (store_bytes v sz)\<rparr>"
    have W: "WriteMem m va sz v = Inr (Access () ?m)" using T True sz by (auto simp: WriteMem_def)
    have len: "nat pa + length (store_bytes v sz) \<le> length (mainMemory m)"
      using pa sz w(4) by (auto simp: length_store_bytes)
    have sm: "same_map m ?m" by (rule same_map_trans [OF T(2)]) simp
    then have wf': "wf_machine ?m" using w T len mmu_ok_same_map [OF sm w(5)] by (simp add: wf_machine_def)
    from Translate_again [OF w(5) T(1) [unfolded True] sm, of False] obtain m3 where
      R: "Translate ?m va sz False = Inr (NoException, pa, m3)" "mainMemory m3 = mainMemory ?m" by blast
    have "ReadMem ?m va sz = Inr (Access (loaded v sz) m3)"
      by (rule ReadMem_stored [OF sz R(1), of "mainMemory m" v]) (use R pa len sz in \<open>auto simp: length_store_bytes w\<close>)
    moreover have "mainMemory ?m ! i = mainMemory m ! i"
      if "i < 4096" "\<not> (pa \<le> int i \<and> int i < pa + sz)" for i
      using that len pa sz w(4) by (auto simp: nth_overwrite length_store_bytes)
    ultimately show ?thesis
      using W sm wf' E True T(3) by (intro disjI2 exI [of _ ?m] exI [of _ m3] exI [of _ pa]) simp
  qed
qed

lemma ReadMem_spec:
  assumes wf: "wf_machine m" and sz: "sz = 1 \<or> sz = 2 \<or> sz = 4"
  shows "(\<exists>exc m'. ReadMem m va sz = Inr (Fault exc m')
      \<and> exc \<in> {AddressErrorException, PageFaultException, ReadOnlyException, BusErrorException}
      \<and> wf_machine m' \<and> same_map m m' \<and> mainMemory m' = mainMemory m \<and> registers m' ! PCReg = registers m ! PCReg)
    \<or> (\<exists>v m'. ReadMem m va sz = Inr (Access v m') \<and> wf_machine m' \<and> same_map m m' \<and> registers m' = registers m
      \<and> mainMemory m' = mainMemory m)"
proof -
  note w = wf_machineD [OF wf]
  from Translate_spec [OF w(5) sz, of va False] obtain exc pa m1 where
    T: "Translate m va sz False = Inr (exc, pa, m1)" "same_map m m1" "registers m1 = registers m" "mainMemory m1 = mainMemory m"
    and E: "if exc = NoException then True
       else exc \<in> {AddressErrorException, PageFaultException, ReadOnlyException, BusErrorException} \<and> m1 = m"
    by (metis (full_types))
  show ?thesis
  proof (cases "exc = NoException")
    case False
    with RaiseException_ok [OF w(1,3-5), of va] T E show ?thesis by (auto simp: ReadMem_def)
  next
    case True
    then show ?thesis
      using T w mmu_ok_same_map [OF T(2) w(5)] sz by (auto simp: ReadMem_def wf_machine_def)
  qed
qed

section \<open>Properties\<close>

definition example_entry :: "int \<Rightarrow> TranslationEntry" where
  "example_entry f = \<lparr> virtualPage = 0, physicalPage = f, valid = True, readOnly = False, useBit = False, dirty = False \<rparr>"

definition example_machine :: Machine where
  "example_machine = \<lparr> registers = replicate 40 0, mainMemory = replicate 4096 0, tlb = None, pageTable = Some 7,
     pageTableSize = 1, tables = (\<lambda>_. [example_entry 5]), singleStep = False, runUntilTime = 0 \<rparr>"

lemma wf_example_machine: "wf_machine example_machine"
  by (simp add: wf_machine_def example_machine_def mmu_ok_def LoadReg_def)

text \<open>
  C21. A store of 1, 2 or 4 bytes by a user program either faults, with one of the four addressing
  exceptions, the faulting address in its register and memory untouched, or writes exactly
  its bytes, all of them inside one physical page that a valid entry of the running
  program's own table names, so no other program's frame can change; the translations stay as
  they were but for the use and dirty bits, and a load from the same address returns the
  value. No ASSERT fails either way.
\<close>

theorem WriteMem_correct:
  assumes "wf_machine m" "sz = 1 \<or> sz = 2 \<or> sz = 4"
  shows "(\<exists>exc m'. WriteMem m va sz v = Inr (Fault exc m')
      \<and> exc \<in> {AddressErrorException, PageFaultException, ReadOnlyException, BusErrorException}
      \<and> wf_machine m' \<and> same_map m m' \<and> mainMemory m' = mainMemory m \<and> registers m' ! BadVAddrReg = va
      \<and> registers m' ! PCReg = registers m ! PCReg)
    \<or> (\<exists>m' m'' pa. WriteMem m va sz v = Inr (Access () m') \<and> wf_machine m' \<and> same_map m m' \<and> registers m' = registers m
      \<and> 0 \<le> pa \<and> pa + sz \<le> 4096 \<and> pa mod 128 = uint va mod 128 \<and> pa div 128 \<in> frames m
      \<and> (\<forall>i<4096. \<not> (pa \<le> int i \<and> int i < pa + sz) \<longrightarrow> mainMemory m' ! i = mainMemory m ! i)
      \<and> ReadMem m' va sz = Inr (Access (loaded v sz) m''))"
  using assms by (rule WriteMem_spec)

theorem WriteMem_correct_witness:
  "\<exists>m' m'' (pa :: int). WriteMem example_machine 0x14 4 0xdeadbeef = Inr (Access () m') \<and> wf_machine m' \<and> pa div 128 = 5
     \<and> pa mod 128 = 0x14 \<and> ReadMem m' 0x14 4 = Inr (Access 0xdeadbeef m'')"
proof -
  have t: "find_entry example_machine (0x14 div 128) = Inr (InTable 7 0)"
    by (simp add: find_entry_def example_machine_def example_entry_def)
  have "\<nexists>exc m'. WriteMem example_machine 0x14 4 0xdeadbeef = Inr (Fault exc m')"
    using Translate_hit [OF _ wf_machineD(5) [OF wf_example_machine] t, of 4 True]
    by (simp add: WriteMem_def Let_def get_entry_def example_machine_def example_entry_def sint_small)
  moreover have "frames example_machine = {5}" by (auto simp: frames_def current_entries_def example_machine_def example_entry_def)
  ultimately show ?thesis
    using WriteMem_correct [OF wf_example_machine, of 4 "0x14" "0xdeadbeef"] by (auto simp: loaded_def)
qed

end
