(* ===== verification/Mips.thy ===== *)
theory Mips
  imports Machine
begin

text \<open>
  The MIPS R2/3000 processor of \<open>machine/mipssim.cc\<close> and \<open>mipssim.h\<close>: decoding, one instruction, the delayed
  load and the branch delay slot, and multiplication. The build has \<open>SIM_FIX\<close> on, so
  the unaligned loads and stores are the corrected ones. \<open>int\<close> arithmetic wraps, as the host
  compiles it; \<open>>>\<close> on an \<open>int\<close> is the arithmetic shift.
\<close>

section \<open>Instructions and their decoding\<close>

text \<open>The \<open>OP_\<close> numbers and the two special values of the decoding table, by name.\<close>

datatype opcode =
    OP_ADD | OP_ADDI | OP_ADDIU | OP_ADDU | OP_AND | OP_ANDI | OP_BEQ | OP_BGEZ | OP_BGEZAL | OP_BGTZ
  | OP_BLEZ | OP_BLTZ | OP_BLTZAL | OP_BNE | OP_DIV | OP_DIVU | OP_J | OP_JAL | OP_JALR | OP_JR
  | OP_LB | OP_LBU | OP_LH | OP_LHU | OP_LUI | OP_LW | OP_LWL | OP_LWR | OP_MFHI | OP_MFLO
  | OP_MTHI | OP_MTLO | OP_MULT | OP_MULTU | OP_NOR | OP_OR | OP_ORI | OP_RFE | OP_SB | OP_SH
  | OP_SLL | OP_SLLV | OP_SLT | OP_SLTI | OP_SLTIU | OP_SLTU | OP_SRA | OP_SRAV | OP_SRL | OP_SRLV
  | OP_SUB | OP_SUBU | OP_SW | OP_SWL | OP_SWR | OP_XOR | OP_XORI | OP_SYSCALL | OP_UNIMP | OP_RES
  | SPECIAL | BCOND

datatype op_format = IFMT | JFMT | RFMT

definition opTable :: "(opcode \<times> op_format) list" where
  "opTable =
    [(SPECIAL, RFMT), (BCOND, IFMT), (OP_J, JFMT), (OP_JAL, JFMT),
     (OP_BEQ, IFMT), (OP_BNE, IFMT), (OP_BLEZ, IFMT), (OP_BGTZ, IFMT),
     (OP_ADDI, IFMT), (OP_ADDIU, IFMT), (OP_SLTI, IFMT), (OP_SLTIU, IFMT),
     (OP_ANDI, IFMT), (OP_ORI, IFMT), (OP_XORI, IFMT), (OP_LUI, IFMT),
     (OP_UNIMP, IFMT), (OP_UNIMP, IFMT), (OP_UNIMP, IFMT), (OP_UNIMP, IFMT),
     (OP_RES, IFMT), (OP_RES, IFMT), (OP_RES, IFMT), (OP_RES, IFMT),
     (OP_RES, IFMT), (OP_RES, IFMT), (OP_RES, IFMT), (OP_RES, IFMT),
     (OP_RES, IFMT), (OP_RES, IFMT), (OP_RES, IFMT), (OP_RES, IFMT),
     (OP_LB, IFMT), (OP_LH, IFMT), (OP_LWL, IFMT), (OP_LW, IFMT),
     (OP_LBU, IFMT), (OP_LHU, IFMT), (OP_LWR, IFMT), (OP_RES, IFMT),
     (OP_SB, IFMT), (OP_SH, IFMT), (OP_SWL, IFMT), (OP_SW, IFMT),
     (OP_RES, IFMT), (OP_RES, IFMT), (OP_SWR, IFMT), (OP_RES, IFMT),
     (OP_UNIMP, IFMT), (OP_UNIMP, IFMT), (OP_UNIMP, IFMT), (OP_UNIMP, IFMT),
     (OP_RES, IFMT), (OP_RES, IFMT), (OP_RES, IFMT), (OP_RES, IFMT),
     (OP_UNIMP, IFMT), (OP_UNIMP, IFMT), (OP_UNIMP, IFMT), (OP_UNIMP, IFMT),
     (OP_RES, IFMT), (OP_RES, IFMT), (OP_RES, IFMT), (OP_RES, IFMT)]"

definition specialTable :: "opcode list" where
  "specialTable =
    [OP_SLL, OP_RES, OP_SRL, OP_SRA, OP_SLLV, OP_RES, OP_SRLV, OP_SRAV,
     OP_JR, OP_JALR, OP_RES, OP_RES, OP_SYSCALL, OP_UNIMP, OP_RES, OP_RES,
     OP_MFHI, OP_MTHI, OP_MFLO, OP_MTLO, OP_RES, OP_RES, OP_RES, OP_RES,
     OP_MULT, OP_MULTU, OP_DIV, OP_DIVU, OP_RES, OP_RES, OP_RES, OP_RES,
     OP_ADD, OP_ADDU, OP_SUB, OP_SUBU, OP_AND, OP_OR, OP_XOR, OP_NOR,
     OP_RES, OP_RES, OP_SLT, OP_SLTU, OP_RES, OP_RES, OP_RES, OP_RES,
     OP_RES, OP_RES, OP_RES, OP_RES, OP_RES, OP_RES, OP_RES, OP_RES,
     OP_RES, OP_RES, OP_RES, OP_RES, OP_RES, OP_RES, OP_RES, OP_RES]"

record Instruction =
  opCode :: opcode
  rs :: nat
  rt :: nat
  rd :: nat
  extra :: u32

definition IndexToAddr :: "u32 \<Rightarrow> u32" where "IndexToAddr x = push_bit 2 x"
definition SIGN_BIT :: u32 where "SIGN_BIT = 0x80000000"
definition R31 :: nat where "R31 = 31"

definition Decode :: "u32 \<Rightarrow> Instruction" where
  "Decode v =
     (let (op, fmt) = opTable ! unat (drop_bit 26 v AND 0x3f);
          ex = (case fmt of
                  IFMT \<Rightarrow> (let e = v AND 0xffff in if e AND 0x8000 \<noteq> 0 then e OR 0xffff0000 else e)
                | RFMT \<Rightarrow> drop_bit 6 v AND 0x1f
                | JFMT \<Rightarrow> v AND 0x3ffffff);
          op' = (if op = SPECIAL then specialTable ! unat (v AND 0x3f)
                 else if op = BCOND then
                   (let i = v AND 0x1f0000
                    in if i = 0 then OP_BLTZ
                       else if i = 0x10000 then OP_BGEZ
                       else if i = 0x100000 then OP_BLTZAL
                       else if i = 0x110000 then OP_BGEZAL
                       else OP_UNIMP)
                 else op)
      in \<lparr> opCode = op', rs = unat (drop_bit 21 v AND 0x1f), rt = unat (drop_bit 16 v AND 0x1f),
           rd = unat (drop_bit 11 v AND 0x1f), extra = ex \<rparr>)"

section \<open>Multiplication\<close>

text \<open>The loop over the bits of \<open>a\<close>, \<open>n\<close> rounds left.\<close>

fun Mult_loop :: "nat \<Rightarrow> u32 \<Rightarrow> u32 \<Rightarrow> u32 \<Rightarrow> u32 \<Rightarrow> u32 \<Rightarrow> u32 \<times> u32" where
  "Mult_loop 0 a bHi bLo hi lo = (hi, lo)"
| "Mult_loop (Suc n) a bHi bLo hi lo =
     (let odd_bit = (a AND 1 \<noteq> 0);
          lo' = (if odd_bit then lo + bLo else lo);
          hi' = (if odd_bit then (if lo' < bLo then hi + 1 else hi) + bHi else hi)
      in if odd_bit \<and> a AND 0xfffffffe = 0 then (hi', lo')
         else Mult_loop n (signed_drop_bit 1 a)
                (push_bit 1 bHi OR (if bLo AND 0x80000000 \<noteq> 0 then 1 else 0)) (push_bit 1 bLo) hi' lo')"

definition Mult :: "u32 \<Rightarrow> u32 \<Rightarrow> bool \<Rightarrow> u32 \<times> u32" where
  "Mult a b signedArith =
     (if a = 0 \<or> b = 0 then (0, 0)
      else
        (let negA = signedArith \<and> sint a < 0; negB = signedArith \<and> sint b < 0;
             negative = (negA \<noteq> negB);
             a' = (if negA then - a else a); b' = (if negB then - b else b);
             (hi, lo) = Mult_loop 32 a' 0 b' 0 0
         in if negative then
              (let hi' = NOT hi; lo' = NOT lo + 1 in (if lo' = 0 then hi' + 1 else hi', lo'))
            else (hi, lo)))"

section \<open>One instruction\<close>

text \<open>
  What a case of the switch leaves: the machine, the program counter after the next
  instruction and the delayed load it starts, or a trap to the kernel, after which
  \<open>OneInstruction\<close> returns at once.
\<close>

datatype outcome = Trap ExceptionType Machine | Continue Machine u32 nat u32

definition reg :: "Machine \<Rightarrow> nat \<Rightarrow> u32" where "reg m i = registers m ! i"

definition set_reg :: "Machine \<Rightarrow> nat \<Rightarrow> u32 \<Rightarrow> Machine" where
  "set_reg m i v = m\<lparr>registers := (registers m)[i := v]\<rparr>"

definition raise :: "Machine \<Rightarrow> ExceptionType \<Rightarrow> u32 \<Rightarrow> outcome res" where
  "raise m exc badVAddr = bind_res (RaiseException m badVAddr) (\<lambda>m. Inr (Trap exc m))"

definition continue_at :: "Machine \<Rightarrow> u32 \<Rightarrow> outcome res" where
  "continue_at m pcAfter = Inr (Continue m pcAfter 0 0)"

definition signed_less :: "u32 \<Rightarrow> u32 \<Rightarrow> bool" where "signed_less a b \<longleftrightarrow> sint a < sint b"

definition of_flag :: "bool \<Rightarrow> u32" where "of_flag b = (if b then 1 else 0)"

text \<open>The cases of the switch, in the groups the source lists them in.\<close>

definition exec_add :: "Machine \<Rightarrow> Instruction \<Rightarrow> u32 \<Rightarrow> outcome res" where
  "exec_add m i pcAfter =
     (let s = reg m (rs i); t = reg m (rt i); x = extra i;
          to_rd = (\<lambda>v. continue_at (set_reg m (rd i) v) pcAfter);
          to_rt = (\<lambda>v. continue_at (set_reg m (rt i) v) pcAfter)
      in case opCode i of
           OP_ADD \<Rightarrow>
             if (s XOR t) AND SIGN_BIT = 0 \<and> (s XOR (s + t)) AND SIGN_BIT \<noteq> 0 then raise m OverflowException 0
             else to_rd (s + t)
         | OP_ADDI \<Rightarrow>
             if (s XOR x) AND SIGN_BIT = 0 \<and> (x XOR (s + x)) AND SIGN_BIT \<noteq> 0 then raise m OverflowException 0
             else to_rt (s + x)
         | OP_ADDIU \<Rightarrow> to_rt (s + x)
         | OP_ADDU \<Rightarrow> to_rd (s + t)
         | OP_AND \<Rightarrow> to_rd (s AND t)
         | OP_ANDI \<Rightarrow> to_rt (s AND (x AND 0xffff))
         | _ \<Rightarrow> Inl AssertFailed)"

definition exec_branch :: "Machine \<Rightarrow> Instruction \<Rightarrow> u32 \<Rightarrow> outcome res" where
  "exec_branch m i pcAfter =
     (let s = reg m (rs i); next_pc = reg m NextPCReg;
          branch = (\<lambda>m c. continue_at m (if c then next_pc + IndexToAddr (extra i) else pcAfter));
          linked = set_reg m R31 (next_pc + 4)
      in case opCode i of
           OP_BEQ \<Rightarrow> branch m (s = reg m (rt i))
         | OP_BGEZAL \<Rightarrow> branch linked (reg linked (rs i) AND SIGN_BIT = 0)
         | OP_BGEZ \<Rightarrow> branch m (s AND SIGN_BIT = 0)
         | OP_BGTZ \<Rightarrow> branch m (sint s > 0)
         | OP_BLEZ \<Rightarrow> branch m (sint s \<le> 0)
         | OP_BLTZAL \<Rightarrow> branch linked (reg linked (rs i) AND SIGN_BIT \<noteq> 0)
         | OP_BLTZ \<Rightarrow> branch m (s AND SIGN_BIT \<noteq> 0)
         | OP_BNE \<Rightarrow> branch m (s \<noteq> reg m (rt i))
         | _ \<Rightarrow> Inl AssertFailed)"

definition exec_div :: "Machine \<Rightarrow> Instruction \<Rightarrow> u32 \<Rightarrow> outcome res" where
  "exec_div m i pcAfter =
     (let s = reg m (rs i); t = reg m (rt i);
          hi_lo = (\<lambda>hi lo. continue_at (set_reg (set_reg m LoReg lo) HiReg hi) pcAfter)
      in case opCode i of
           OP_DIV \<Rightarrow>
             if t = 0 then hi_lo 0 0
             else if sint s = - (2 ^ 31) \<and> sint t = -1 then Inl HostTrap
             else hi_lo (word_of_int (sint s smod sint t)) (word_of_int (sint s sdiv sint t))
         | OP_DIVU \<Rightarrow> if t = 0 then hi_lo 0 0 else hi_lo (s mod t) (s div t)
         | _ \<Rightarrow> Inl AssertFailed)"

definition exec_jump :: "Machine \<Rightarrow> Instruction \<Rightarrow> u32 \<Rightarrow> outcome res" where
  "exec_jump m i pcAfter =
     (let next_pc = reg m NextPCReg; target = (pcAfter AND 0xf0000000) OR IndexToAddr (extra i)
      in case opCode i of
           OP_JAL \<Rightarrow> continue_at (set_reg m R31 (next_pc + 4)) target
         | OP_J \<Rightarrow> continue_at m target
         | OP_JALR \<Rightarrow> (let m = set_reg m (rd i) (next_pc + 4) in continue_at m (reg m (rs i)))
         | OP_JR \<Rightarrow> continue_at m (reg m (rs i))
         | _ \<Rightarrow> Inl AssertFailed)"

definition exec_hilo :: "Machine \<Rightarrow> Instruction \<Rightarrow> u32 \<Rightarrow> outcome res" where
  "exec_hilo m i pcAfter =
     (let s = reg m (rs i); t = reg m (rt i);
          product = (\<lambda>(hi, lo). continue_at (set_reg (set_reg m LoReg lo) HiReg hi) pcAfter)
      in case opCode i of
           OP_MFHI \<Rightarrow> continue_at (set_reg m (rd i) (reg m HiReg)) pcAfter
         | OP_MFLO \<Rightarrow> continue_at (set_reg m (rd i) (reg m LoReg)) pcAfter
         | OP_MTHI \<Rightarrow> continue_at (set_reg m HiReg s) pcAfter
         | OP_MTLO \<Rightarrow> continue_at (set_reg m LoReg s) pcAfter
         | OP_MULT \<Rightarrow> product (Mult s t True)
         | OP_MULTU \<Rightarrow> product (Mult s t False)
         | _ \<Rightarrow> Inl AssertFailed)"

definition exec_logic :: "Machine \<Rightarrow> Instruction \<Rightarrow> u32 \<Rightarrow> outcome res" where
  "exec_logic m i pcAfter =
     (let s = reg m (rs i); t = reg m (rt i); x = extra i AND 0xffff;
          to_rd = (\<lambda>v. continue_at (set_reg m (rd i) v) pcAfter);
          to_rt = (\<lambda>v. continue_at (set_reg m (rt i) v) pcAfter)
      in case opCode i of
           OP_NOR \<Rightarrow> to_rd (NOT (s OR t))
         | OP_OR \<Rightarrow> to_rd (s OR t)
         | OP_ORI \<Rightarrow> to_rt (s OR x)
         | OP_XOR \<Rightarrow> to_rd (s XOR t)
         | OP_XORI \<Rightarrow> to_rt (s XOR x)
         | _ \<Rightarrow> Inl AssertFailed)"

definition exec_shift :: "Machine \<Rightarrow> Instruction \<Rightarrow> u32 \<Rightarrow> outcome res" where
  "exec_shift m i pcAfter =
     (let s = reg m (rs i); t = reg m (rt i); x = extra i;
          to_rd = (\<lambda>v. continue_at (set_reg m (rd i) v) pcAfter);
          to_rt = (\<lambda>v. continue_at (set_reg m (rt i) v) pcAfter)
      in case opCode i of
           OP_SLL \<Rightarrow> to_rd (push_bit (unat x) t)
         | OP_SLLV \<Rightarrow> to_rd (push_bit (unat (s AND 0x1f)) t)
         | OP_SLT \<Rightarrow> to_rd (of_flag (signed_less s t))
         | OP_SLTI \<Rightarrow> to_rt (of_flag (signed_less s x))
         | OP_SLTIU \<Rightarrow> to_rt (of_flag (s < x))
         | OP_SLTU \<Rightarrow> to_rd (of_flag (s < t))
         | OP_SRA \<Rightarrow> to_rd (signed_drop_bit (unat x) t)
         | OP_SRAV \<Rightarrow> to_rd (signed_drop_bit (unat (s AND 0x1f)) t)
         | OP_SRL \<Rightarrow> to_rd (signed_drop_bit (unat x) t)
         | OP_SRLV \<Rightarrow> to_rd (signed_drop_bit (unat (s AND 0x1f)) t)
         | OP_SUB \<Rightarrow>
             if (s XOR t) AND SIGN_BIT \<noteq> 0 \<and> (s XOR (s - t)) AND SIGN_BIT \<noteq> 0 then raise m OverflowException 0
             else to_rd (s - t)
         | OP_SUBU \<Rightarrow> to_rd (s - t)
         | _ \<Rightarrow> Inl AssertFailed)"

text \<open>Loads and stores: a fault of \<open>ReadMem\<close> or \<open>WriteMem\<close> ends the instruction.\<close>

definition with_mem :: "'a access res \<Rightarrow> ('a \<Rightarrow> Machine \<Rightarrow> outcome res) \<Rightarrow> outcome res" where
  "with_mem r k = bind_res r (\<lambda>a. case a of Fault exc m \<Rightarrow> Inr (Trap exc m) | Access v m \<Rightarrow> k v m)"

definition exec_load :: "Machine \<Rightarrow> Instruction \<Rightarrow> u32 \<Rightarrow> outcome res" where
  "exec_load m i pcAfter =
     (let tmp = reg m (rs i) + extra i;
          delayed = (\<lambda>v m. Inr (Continue m pcAfter (rt i) v))
      in case opCode i of
           OP_LB \<Rightarrow> with_mem (ReadMem m tmp 1)
             (\<lambda>v. delayed (if v AND 0x80 \<noteq> 0 then v OR 0xffffff00 else v AND 0xff))
         | OP_LBU \<Rightarrow> with_mem (ReadMem m tmp 1) (\<lambda>v. delayed (v AND 0xff))
         | OP_LH \<Rightarrow>
             if tmp AND 1 \<noteq> 0 then raise m AddressErrorException tmp
             else with_mem (ReadMem m tmp 2)
               (\<lambda>v. delayed (if v AND 0x8000 \<noteq> 0 then v OR 0xffff0000 else v AND 0xffff))
         | OP_LHU \<Rightarrow>
             if tmp AND 1 \<noteq> 0 then raise m AddressErrorException tmp
             else with_mem (ReadMem m tmp 2) (\<lambda>v. delayed (v AND 0xffff))
         | OP_LW \<Rightarrow>
             if tmp AND 3 \<noteq> 0 then raise m AddressErrorException tmp
             else with_mem (ReadMem m tmp 4) delayed
         | OP_LUI \<Rightarrow> continue_at (set_reg m (rt i) (push_bit 16 (extra i))) pcAfter
         | _ \<Rightarrow> Inl AssertFailed)"

text \<open>The unaligned loads merge the word with the register's value, or with the load still in flight to it.\<close>

definition lwl_merge :: "nat \<Rightarrow> u32 \<Rightarrow> u32 \<Rightarrow> u32" where
  "lwl_merge n old v =
     (if n = 0 then v
      else if n = 1 then (old AND 0xff) OR push_bit 8 v
      else if n = 2 then (old AND 0xffff) OR push_bit 16 v
      else (old AND 0xffffff) OR push_bit 24 v)"

definition lwr_merge :: "nat \<Rightarrow> u32 \<Rightarrow> u32 \<Rightarrow> u32" where
  "lwr_merge n old v =
     (if n = 0 then (old AND 0xffffff00) OR (signed_drop_bit 24 v AND 0xff)
      else if n = 1 then (old AND 0xffff0000) OR (signed_drop_bit 16 v AND 0xffff)
      else if n = 2 then (old AND 0xff000000) OR (signed_drop_bit 8 v AND 0xffffff)
      else v)"

definition exec_LWL :: "Machine \<Rightarrow> Instruction \<Rightarrow> u32 \<Rightarrow> outcome res" where
  "exec_LWL m i pcAfter =
     (let tmp = reg m (rs i) + extra i; byt = tmp AND 3
      in with_mem (ReadMem m (tmp - byt) 4) (\<lambda>v m.
           let old = (if unat (reg m LoadReg) = rt i then reg m LoadValueReg else reg m (rt i))
           in Inr (Continue m pcAfter (rt i) (lwl_merge (3 - unat byt) old v))))"

definition exec_LWR :: "Machine \<Rightarrow> Instruction \<Rightarrow> u32 \<Rightarrow> outcome res" where
  "exec_LWR m i pcAfter =
     (let tmp = reg m (rs i) + extra i; byt = tmp AND 3
      in with_mem (ReadMem m (tmp - byt) 4) (\<lambda>v m.
           let old = (if unat (reg m LoadReg) = rt i then reg m LoadValueReg else reg m (rt i))
           in Inr (Continue m pcAfter (rt i) (lwr_merge (3 - unat byt) old v))))"

definition exec_store :: "Machine \<Rightarrow> Instruction \<Rightarrow> u32 \<Rightarrow> outcome res" where
  "exec_store m i pcAfter =
     (let addr = reg m (rs i) + extra i; v = reg m (rt i);
          store = (\<lambda>n. with_mem (WriteMem m addr n v) (\<lambda>_ m. continue_at m pcAfter))
      in case opCode i of OP_SB \<Rightarrow> store 1 | OP_SH \<Rightarrow> store 2 | OP_SW \<Rightarrow> store 4 | _ \<Rightarrow> Inl AssertFailed)"

definition swl_merge :: "nat \<Rightarrow> u32 \<Rightarrow> u32 \<Rightarrow> u32" where
  "swl_merge n v r =
     (if n = 0 then r
      else if n = 1 then (v AND 0xff000000) OR (signed_drop_bit 8 r AND 0xffffff)
      else if n = 2 then (v AND 0xffff0000) OR (signed_drop_bit 16 r AND 0xffff)
      else (v AND 0xffffff00) OR (signed_drop_bit 24 r AND 0xff))"

definition swr_merge :: "nat \<Rightarrow> u32 \<Rightarrow> u32 \<Rightarrow> u32" where
  "swr_merge n v r =
     (if n = 0 then (v AND 0xffffff) OR push_bit 24 r
      else if n = 1 then (v AND 0xffff) OR push_bit 16 r
      else if n = 2 then (v AND 0xff) OR push_bit 8 r
      else r)"

definition exec_SWL :: "Machine \<Rightarrow> Instruction \<Rightarrow> u32 \<Rightarrow> outcome res" where
  "exec_SWL m i pcAfter =
     (let tmp = reg m (rs i) + extra i; byt = tmp AND 3
      in with_mem (ReadMem m (tmp - byt) 4) (\<lambda>v m.
           with_mem (WriteMem m (tmp - byt) 4 (swl_merge (3 - unat byt) v (reg m (rt i)))) (\<lambda>_ m. continue_at m pcAfter)))"

definition exec_SWR :: "Machine \<Rightarrow> Instruction \<Rightarrow> u32 \<Rightarrow> outcome res" where
  "exec_SWR m i pcAfter =
     (let tmp = reg m (rs i) + extra i; byt = tmp AND 3
      in with_mem (ReadMem m (tmp - byt) 4) (\<lambda>v m.
           with_mem (WriteMem m (tmp - byt) 4 (swr_merge (3 - unat byt) v (reg m (rt i)))) (\<lambda>_ m. continue_at m pcAfter)))"

text \<open>The switch: each case in the group that models it; \<open>OP_RFE\<close> has none and falls to the default.\<close>

definition exec_instr :: "Machine \<Rightarrow> Instruction \<Rightarrow> u32 \<Rightarrow> outcome res" where
  "exec_instr m i pcAfter =
     (let op = opCode i
      in if op \<in> {OP_ADD, OP_ADDI, OP_ADDIU, OP_ADDU, OP_AND, OP_ANDI} then exec_add m i pcAfter
         else if op \<in> {OP_BEQ, OP_BGEZAL, OP_BGEZ, OP_BGTZ, OP_BLEZ, OP_BLTZAL, OP_BLTZ, OP_BNE} then exec_branch m i pcAfter
         else if op \<in> {OP_DIV, OP_DIVU} then exec_div m i pcAfter
         else if op \<in> {OP_JAL, OP_J, OP_JALR, OP_JR} then exec_jump m i pcAfter
         else if op \<in> {OP_LB, OP_LBU, OP_LH, OP_LHU, OP_LUI, OP_LW} then exec_load m i pcAfter
         else if op = OP_LWL then exec_LWL m i pcAfter
         else if op = OP_LWR then exec_LWR m i pcAfter
         else if op \<in> {OP_MFHI, OP_MFLO, OP_MTHI, OP_MTLO, OP_MULT, OP_MULTU} then exec_hilo m i pcAfter
         else if op \<in> {OP_NOR, OP_OR, OP_ORI, OP_XOR, OP_XORI} then exec_logic m i pcAfter
         else if op \<in> {OP_SB, OP_SH, OP_SW} then exec_store m i pcAfter
         else if op \<in> {OP_SLL, OP_SLLV, OP_SLT, OP_SLTI, OP_SLTIU, OP_SLTU, OP_SRA, OP_SRAV, OP_SRL, OP_SRLV, OP_SUB, OP_SUBU}
         then exec_shift m i pcAfter
         else if op = OP_SWL then exec_SWL m i pcAfter
         else if op = OP_SWR then exec_SWR m i pcAfter
         else if op = OP_SYSCALL then raise m SyscallException 0
         else if op = OP_RES \<or> op = OP_UNIMP then raise m IllegalInstrException 0
         else Inl AssertFailed)"

text \<open>The end of an instruction that did not trap: the delayed load, then the program counters.\<close>

definition finish_instr :: "Machine \<Rightarrow> u32 \<Rightarrow> nat \<Rightarrow> u32 \<Rightarrow> Machine res" where
  "finish_instr m pcAfter nextLoadReg nextLoadValue =
     bind_res (DelayedLoad m (of_nat nextLoadReg) nextLoadValue) (\<lambda>m.
     (let r = registers m
      in Inr (m\<lparr>registers := r[PrevPCReg := r ! PCReg, PCReg := r ! NextPCReg, NextPCReg := pcAfter]\<rparr>)))"

text \<open>The instruction as a whole: \<open>Fault\<close> where it trapped to the kernel.\<close>

definition OneInstruction :: "Machine \<Rightarrow> unit access res" where
  "OneInstruction m =
     bind_res (ReadMem m (registers m ! PCReg) 4) (\<lambda>a.
     case a of
       Fault exc m \<Rightarrow> Inr (Fault exc m)
     | Access raw m \<Rightarrow>
         (let instr = Decode raw; pcAfter = reg m NextPCReg + 4
          in bind_res (exec_instr m instr pcAfter) (\<lambda>out.
             case out of
               Trap exc m \<Rightarrow> Inr (Fault exc m)
             | Continue m pcAfter nextLoadReg nextLoadValue \<Rightarrow>
                 bind_res (finish_instr m pcAfter nextLoadReg nextLoadValue) (\<lambda>m. Inr (Access () m)))))"

section \<open>Multiplication is exact\<close>

definition comb :: "u32 \<Rightarrow> u32 \<Rightarrow> int" where "comb hi lo = uint hi * 2 ^ 32 + uint lo"

lemma wrap_once:
  fixes x m :: int
  assumes "m \<le> x" "x < 2 * m"
  shows "x mod m = x - m" "x div m = 1"
proof -
  have "(x - m) mod m = x - m" using assms by (intro mod_pos_pos_trivial) simp_all
  then show "x mod m = x - m" by (simp only: minus_mod_self2)
  show "x div m = 1" using assms by (intro int_div_pos_eq [of _ _ _ "x - m"]) auto
qed

lemma comb_mod: "comb hi lo mod 2 ^ 64 = comb hi lo"
proof -
  have "uint hi \<le> 2 ^ 32 - 1" "uint lo \<le> 2 ^ 32 - 1"
    using uint_lt2p [of hi] uint_lt2p [of lo] by simp_all
  then have "comb hi lo < 2 ^ 64" by (simp add: comb_def)
  then show ?thesis by (simp add: comb_def)
qed

lemma high_mod: "(x mod 2 ^ 32) * 2 ^ 32 = (x * 2 ^ 32) mod (2 ^ 64 :: int)"
  using mult_mod_left [of x "2 ^ 32" "2 ^ 32"] by (simp add: mult.commute)

lemma comb_of_sum:
  assumes "uint hi = x mod 2 ^ 32"
  shows "comb hi lo mod 2 ^ 64 = (x * 2 ^ 32 + uint lo) mod 2 ^ 64"
  unfolding comb_def assms high_mod by (simp add: mod_add_left_eq)

lemma add64:
  "comb ((if lo + bLo < bLo then hi + 1 else hi) + bHi) (lo + bLo) mod 2 ^ 64 = (comb hi lo + comb bHi bLo) mod 2 ^ 64"
proof -
  define c where "c = (if lo + bLo < bLo then 1 else 0 :: int)"
  have l: "uint (lo + bLo) = (uint lo + uint bLo) mod 2 ^ 32" by (simp add: uint_word_ariths)
  have b: "uint lo < 2 ^ 32" "uint bLo < 2 ^ 32" "0 \<le> uint lo" "0 \<le> uint bLo"
    using uint_lt2p [of lo] uint_lt2p [of bLo] by simp_all
  have s: "uint lo + uint bLo = c * 2 ^ 32 + uint (lo + bLo)"
  proof (cases "uint lo + uint bLo < 2 ^ 32")
    case True
    then have "uint (lo + bLo) = uint lo + uint bLo" using l b by simp
    then show ?thesis using b by (simp add: c_def word_less_def)
  next
    case False
    then have "uint (lo + bLo) = uint lo + uint bLo - 2 ^ 32"
      unfolding l using b by (intro wrap_once(1)) simp_all
    then show ?thesis using b by (simp add: c_def word_less_def)
  qed
  have "uint ((if lo + bLo < bLo then hi + 1 else hi) + bHi) = (uint hi + c + uint bHi) mod 2 ^ 32"
    by (simp add: c_def uint_word_ariths mod_simps)
  note h = this
  have "comb ((if lo + bLo < bLo then hi + 1 else hi) + bHi) (lo + bLo) mod 2 ^ 64
      = ((uint hi + c + uint bHi) * 2 ^ 32 + uint (lo + bLo)) mod 2 ^ 64" by (rule comb_of_sum [OF h])
  also have "(uint hi + c + uint bHi) * 2 ^ 32 + uint (lo + bLo) = comb hi lo + comb bHi bLo"
    using s by (simp add: comb_def distrib_right)
  finally show ?thesis .
qed

lemma bit_31: "bit w 31 \<longleftrightarrow> 2 ^ 31 \<le> uint w" for w :: u32
proof -
  have "uint w < 2 ^ 32" using uint_lt2p [of w] by simp
  then have "odd (uint w div 2 ^ 31) \<longleftrightarrow> 2 ^ 31 \<le> uint w"
    using wrap_once(2) [of "2 ^ 31" "uint w"] div_pos_pos_trivial [of "uint w" "2 ^ 31"]
    by (cases "2 ^ 31 \<le> uint w") simp_all
  then show ?thesis using bit_uint_iff [of w 31] by (simp add: bit_iff_odd [of "uint w"])
qed

lemma and_sign: "w AND 0x80000000 \<noteq> 0 \<longleftrightarrow> bit w 31" for w :: u32
  using and_exp_eq_0_iff_not_bit [of w 31] by simp

lemma shift64:
  "comb (push_bit 1 bHi OR (if bLo AND 0x80000000 \<noteq> 0 then 1 else 0)) (push_bit 1 bLo) mod 2 ^ 64 = (2 * comb bHi bLo) mod 2 ^ 64"
proof -
  define c where "c = (if bit bLo 31 then 1 else 0 :: int)"
  have b: "uint bLo < 2 ^ 32" "0 \<le> uint bLo" using uint_lt2p [of bLo] by simp_all
  have "push_bit 1 bHi OR (if bit bLo 31 then 1 else 0) = push_bit 1 bHi + (if bit bLo 31 then 1 else 0)"
    by (rule disjunctive_add [symmetric]) (auto simp add: bit_push_bit_iff bit_1_iff simp del: push_bit_numeral push_bit_Suc)
  then have h: "uint (push_bit 1 bHi OR (if bit bLo 31 then 1 else 0)) = (2 * uint bHi + c) mod 2 ^ 32"
    by (simp add: c_def push_bit_eq_mult uint_word_ariths mod_simps mult.commute)
  have l: "2 * uint bLo = c * 2 ^ 32 + uint (push_bit 1 bLo)"
    using b wrap_once(1) [of "2 ^ 32" "2 * uint bLo"] mod_pos_pos_trivial [of "2 * uint bLo" "2 ^ 32"]
    by (cases "bit bLo 31") (simp_all add: c_def bit_31 push_bit_eq_mult uint_word_ariths mult.commute)
  show ?thesis
    unfolding and_sign comb_of_sum [OF h] using l by (simp add: comb_def algebra_simps)
qed

lemma low_bits_step:
  fixes a :: u32
  assumes "n < 32"
  shows "uint a mod 2 ^ Suc n = (if a AND 1 \<noteq> 0 then 1 else 0) + 2 * (uint (signed_drop_bit 1 a) mod 2 ^ n)"
proof -
  have "uint a mod 2 ^ Suc n mod 2 = uint a mod 2" by (simp add: mod_mod_cancel)
  moreover have "uint a mod 2 = (if a AND 1 \<noteq> 0 then 1 else 0)"
    using uint_and_1 [of a] by (auto simp: and_one_eq mod_2_eq_odd)
  moreover have "uint a mod 2 ^ Suc n div 2 = uint (signed_drop_bit 1 a) mod 2 ^ n"
  proof -
    have "drop_bit 1 (take_bit (Suc n) (uint a)) = take_bit n (uint (signed_drop_bit 1 a))"
      using assms by (auto intro!: bit_eqI simp: bit_simps min_def)
    then show ?thesis by (simp add: take_bit_eq_mod drop_bit_eq_div)
  qed
  moreover have "uint a mod 2 ^ Suc n = uint a mod 2 ^ Suc n mod 2 + 2 * (uint a mod 2 ^ Suc n div 2)"
    by (rule mod_mult_div_eq [symmetric])
  ultimately show ?thesis by (simp only:)
qed

lemma only_bit_0: "a AND 1 \<noteq> 0 \<Longrightarrow> a AND 0xfffffffe = 0 \<Longrightarrow> a = 1" for a :: u32
proof -
  assume a: "a AND 1 \<noteq> 0" "a AND 0xfffffffe = 0"
  have ones: "(0xffffffff :: u32) = - 1" by (rule word_uint_eqI) (simp add: unsigned_minus_1_eq_mask mask_eq_exp_minus_1)
  have "a = (a AND 1) OR (a AND 0xfffffffe)" by (simp flip: bit.conj_disj_distrib add: ones)
  also have "\<dots> = 1" using a by (simp add: and_one_eq mod_2_eq_odd split: if_splits)
  finally show ?thesis .
qed

lemma Mult_loop_spec:
  assumes "n \<le> 32" "Mult_loop n a bHi bLo hi lo = (h, l)"
  shows "comb h l mod 2 ^ 64 = (comb hi lo + (uint a mod 2 ^ n) * comb bHi bLo) mod 2 ^ 64"
  using assms
proof (induction n arbitrary: a bHi bLo hi lo)
  case 0
  then show ?case by simp
next
  case (Suc n)
  define odd_bit where "odd_bit = (a AND 1 \<noteq> 0)"
  define lo' where "lo' = (if odd_bit then lo + bLo else lo)"
  define hi' where "hi' = (if odd_bit then (if lo' < bLo then hi + 1 else hi) + bHi else hi)"
  define c where "c = (if odd_bit then 1 else 0 :: int)"
  have sum: "comb hi' lo' mod 2 ^ 64 = (comb hi lo + c * comb bHi bLo) mod 2 ^ 64"
    using add64 [of lo bLo hi bHi] by (simp add: hi'_def lo'_def c_def)
  show ?case
  proof (cases "odd_bit \<and> a AND 0xfffffffe = 0")
    case True
    then have "a = 1" using only_bit_0 [of a] by (simp add: odd_bit_def)
    moreover have "(h, l) = (hi', lo')"
      using Suc.prems(2) True by (auto simp: Let_def hi'_def lo'_def odd_bit_def)
    moreover have "(1 :: int) mod 2 ^ Suc n = 1" by (intro mod_pos_pos_trivial one_less_power) simp_all
    ultimately show ?thesis using sum True by (simp add: c_def)
  next
    case False
    let ?bH = "push_bit 1 bHi OR (if bLo AND 0x80000000 \<noteq> 0 then 1 else 0)"
    have "Mult_loop n (signed_drop_bit 1 a) ?bH (push_bit 1 bLo) hi' lo' = (h, l)"
      using Suc.prems(2) False unfolding Mult_loop.simps Let_def hi'_def lo'_def odd_bit_def by (simp only: if_False)
    with Suc.prems(1) have IH: "comb h l mod 2 ^ 64
        = (comb hi' lo' + (uint (signed_drop_bit 1 a) mod 2 ^ n) * comb ?bH (push_bit 1 bLo)) mod 2 ^ 64"
      by (intro Suc.IH) simp_all
    let ?r = "uint (signed_drop_bit 1 a) mod 2 ^ n"
    have "\<dots> = (comb hi lo + c * comb bHi bLo + ?r * (2 * comb bHi bLo)) mod 2 ^ 64"
      by (intro mod_add_cong mod_mult_cong sum shift64 refl)
    also have "comb hi lo + c * comb bHi bLo + ?r * (2 * comb bHi bLo) = comb hi lo + (c + 2 * ?r) * comb bHi bLo"
      by (simp add: algebra_simps)
    also have "c + 2 * ?r = uint a mod 2 ^ Suc n"
      using low_bits_step [of n a] Suc.prems(1) by (simp only: c_def odd_bit_def)
    finally show ?thesis unfolding IH .
  qed
qed

lemma negate64:
  fixes hi lo :: u32
  defines "lo' \<equiv> NOT lo + 1"
  shows "comb (if lo' = 0 then NOT hi + 1 else NOT hi) lo' mod 2 ^ 64 = (- comb hi lo) mod 2 ^ 64"
proof -
  have n: "NOT w = - w - 1" for w :: u32 by (simp add: not_eq_complement)
  have l: "lo' = - lo" by (simp add: lo'_def n)
  have b: "uint lo < 2 ^ 32" "0 \<le> uint lo" using uint_lt2p [of lo] by simp_all
  show ?thesis
  proof (cases "lo = 0")
    case True
    have h: "uint (- hi) = (- uint hi) mod 2 ^ 32" by (simp add: uint_word_ariths)
    show ?thesis using True comb_of_sum [OF h, of 0] by (simp add: l n comb_def)
  next
    case False
    then have "uint lo \<noteq> 0" by (simp add: uint_0_iff)
    then have "uint (- lo) = 2 ^ 32 - uint lo"
      using b by (simp add: uint_word_ariths zmod_zminus1_eq_if)
    moreover have h: "uint (- hi - 1) = (- uint hi - 1) mod 2 ^ 32" by (simp add: uint_word_ariths mod_simps)
    ultimately have "(- uint hi - 1) * 2 ^ 32 + uint (- lo) = - comb hi lo" by (simp add: comb_def)
    with comb_of_sum [OF h, of "- lo"] have "comb (- hi - 1) (- lo) mod 2 ^ 64 = (- comb hi lo) mod 2 ^ 64" by (simp only:)
    with False show ?thesis by (simp add: l n)
  qed
qed

lemma sint_uint_cong: "sint a mod 2 ^ 32 = uint a" for a :: u32
  by (simp add: uint_sint take_bit_eq_mod)

text \<open>The product of the magnitudes, and its sign: exact for every operand, \<open>INT_MIN\<close> included.\<close>

lemma abs_operand:
  fixes a :: u32
  shows "(if sint a < 0 then - 1 else 1) * uint (if sint a < 0 then - a else a) = sint a"
proof (cases "sint a < 0")
  case True
  have "sint a mod 2 ^ 32 = uint a" by (rule sint_uint_cong)
  moreover have r: "- (2 ^ 31) \<le> sint a" using sint_ge [of a] by simp
  ultimately have "uint a = sint a + 2 ^ 32"
    using True mod_add_self2 [of "sint a" "2 ^ 32"] mod_pos_pos_trivial [of "sint a + 2 ^ 32" "2 ^ 32"] by simp
  moreover have "uint (- a) = (- uint a) mod 2 ^ 32" by (simp add: uint_word_ariths)
  ultimately have "uint (- a) = (- sint a) mod 2 ^ 32"
    using mod_add_self2 [of "- sint a - 2 ^ 32" "2 ^ 32"] by simp
  then have "uint (- a) = - sint a" using r True by simp
  with True show ?thesis by simp
next
  case False
  have "sint a < 2 ^ 31" using sint_lt [of a] by simp
  with False have "uint a = sint a" using sint_uint_cong [of a] by simp
  with False show ?thesis by simp
qed

lemma Mult_spec:
  assumes "Mult a b signedArith = (hi, lo)"
  shows "comb hi lo = (if signedArith then sint a * sint b else uint a * uint b) mod 2 ^ 64"
proof (cases "a = 0 \<or> b = 0")
  case True
  with assms have "hi = 0" "lo = 0" by (auto simp: Mult_def)
  then have "comb hi lo = 0" by (simp add: comb_def)
  moreover have "sint a * sint b = 0 \<and> uint a * uint b = 0" using True by auto
  ultimately show ?thesis by (simp only: split: if_split) simp
next
  case nz: False
  define nA where "nA = (signedArith \<and> sint a < 0)"
  define nB where "nB = (signedArith \<and> sint b < 0)"
  define a' where "a' = (if nA then - a else a)"
  define b' where "b' = (if nB then - b else b)"
  obtain h l where L: "Mult_loop 32 a' 0 b' 0 0 = (h, l)" by (metis surj_pair)
  have "comb 0 0 + uint a' mod 2 ^ 32 * comb 0 b' = uint a' * uint b'"
    using uint_lt2p [of a'] by (simp add: comb_def)
  with Mult_loop_spec [OF _ L] have M: "comb h l mod 2 ^ 64 = (uint a' * uint b') mod 2 ^ 64" by simp
  have R: "Mult a b signedArith = (if nA \<noteq> nB then
      (let hi' = NOT h; lo' = NOT l + 1 in (if lo' = 0 then hi' + 1 else hi', lo')) else (h, l))"
    using nz L by (simp add: Mult_def Let_def nA_def nB_def a'_def b'_def)
  have C: "comb hi lo mod 2 ^ 64 = ((if nA \<noteq> nB then - 1 else 1) * (uint a' * uint b')) mod 2 ^ 64"
  proof (cases "nA = nB")
    case True
    with R assms M show ?thesis by simp
  next
    case False
    then have "hi = (if NOT l + 1 = 0 then NOT h + 1 else NOT h)" "lo = NOT l + 1"
      using R assms by (simp_all add: Let_def)
    then have "comb hi lo mod 2 ^ 64 = (- comb h l) mod 2 ^ 64" using negate64 [of l h] by simp
    also have "\<dots> = (- (uint a' * uint b')) mod 2 ^ 64" by (metis M mod_minus_eq)
    finally show ?thesis using False by simp
  qed
  have "(if nA \<noteq> nB then - 1 else 1) * (uint a' * uint b') = (if signedArith then sint a * sint b else uint a * uint b)"
  proof (cases signedArith)
    case True
    have "(if nA \<noteq> nB then - 1 else 1) * (uint a' * uint b')
        = ((if nA then - 1 else 1) * uint a') * ((if nB then - 1 else 1) * uint b')" by simp
    then show ?thesis using True abs_operand [of a] abs_operand [of b] by (simp only: nA_def nB_def a'_def b'_def simp_thms if_True)
  qed (simp add: nA_def nB_def a'_def b'_def)
  with C show ?thesis by (simp only: comb_mod)
qed

section \<open>Every instruction is safe\<close>

lemma length_tables: "length opTable = 64" "length specialTable = 64"
  by (simp_all add: opTable_def specialTable_def)

lemma table_ops: "OP_RFE \<notin> fst ` set opTable" "{OP_RFE, SPECIAL, BCOND} \<inter> set specialTable = {}"
  by (simp_all add: opTable_def specialTable_def)

lemma unat_and_less: "unat y < n \<Longrightarrow> unat (x AND y :: u32) < n"
  using word_and_le1 [of x y] by (auto simp: word_le_nat_alt)

lemma Decode_fields:
  "rs (Decode v) < 32" "rt (Decode v) < 32" "rd (Decode v) < 32" "opCode (Decode v) \<notin> {OP_RFE, SPECIAL, BCOND}"
proof -
  show "rs (Decode v) < 32" "rt (Decode v) < 32" "rd (Decode v) < 32"
    by (simp_all add: Decode_def Let_def unat_and_less split: prod.split)
  have "unat (drop_bit 26 v AND 0x3f) < length opTable" "unat (v AND 0x3f) < length specialTable"
    by (simp_all add: length_tables unat_and_less)
  then have "fst (opTable ! unat (drop_bit 26 v AND 0x3f)) \<noteq> OP_RFE"
    "specialTable ! unat (v AND 0x3f) \<notin> {OP_RFE, SPECIAL, BCOND}"
    using table_ops by (metis image_eqI nth_mem, metis disjoint_iff nth_mem)
  then show "opCode (Decode v) \<notin> {OP_RFE, SPECIAL, BCOND}"
    by (auto simp: Decode_def Let_def split: prod.split)
qed

text \<open>
  The machine inside an instruction, where register 0 may be overwritten until the delayed
  load clears it, and what an instruction may change: only the use and dirty bits of
  the translation, and only frames the program has mapped.
\<close>

definition running :: "Machine \<Rightarrow> bool" where
  "running m \<longleftrightarrow> length (registers m) = 40 \<and> unat (registers m ! LoadReg) < 32 \<and> length (mainMemory m) = 4096 \<and> mmu_ok m"

definition confined :: "Machine \<Rightarrow> Machine \<Rightarrow> bool" where
  "confined m m' \<longleftrightarrow> same_map m m' \<and> (\<forall>i<4096. int i div 128 \<notin> frames m \<longrightarrow> mainMemory m' ! i = mainMemory m ! i)"

definition exec_ok :: "Machine \<Rightarrow> outcome \<Rightarrow> bool" where
  "exec_ok m out \<longleftrightarrow>
     (case out of
        Trap exc m' \<Rightarrow> exc \<noteq> NoException \<and> wf_machine m' \<and> confined m m' \<and> registers m' ! PCReg = registers m ! PCReg
      | Continue m' pc r v \<Rightarrow> running m' \<and> confined m m' \<and> r < 32
          \<and> registers m' ! PCReg = registers m ! PCReg \<and> registers m' ! NextPCReg = registers m ! NextPCReg)"

lemma wf_running: "wf_machine m \<Longrightarrow> running m"
  by (simp add: wf_machine_def running_def)

lemma map_clean_eqD: "map clean xs = map clean ys \<Longrightarrow> e \<in> set xs \<Longrightarrow> \<exists>e'\<in>set ys. clean e = clean e'"
  by (metis (no_types, opaque_lifting) image_iff list.set_map)

lemma current_entries_same_map:
  assumes "same_map m m'" "mmu_ok m"
  shows "map clean (current_entries m') = map clean (current_entries m)"
  using assms by (auto simp: current_entries_def same_map_def mmu_ok_def split: option.splits)

lemma frames_same_map:
  assumes "same_map m m'" "mmu_ok m"
  shows "frames m' = frames m"
proof -
  have *: "{uint (word_of_int (physicalPage e) :: u32) | e. e \<in> set xs \<and> valid e}
      \<subseteq> {uint (word_of_int (physicalPage e) :: u32) | e. e \<in> set ys \<and> valid e}"
    if "map clean xs = map clean ys" for xs ys
  proof
    fix x assume "x \<in> {uint (word_of_int (physicalPage e) :: u32) | e. e \<in> set xs \<and> valid e}"
    then obtain e where e: "x = uint (word_of_int (physicalPage e) :: u32)" "e \<in> set xs" "valid e" by blast
    from map_clean_eqD [OF that e(2)] obtain e' where e': "e' \<in> set ys" "clean e = clean e'" by blast
    with e clean_eqD [OF e'(2)] show "x \<in> {uint (word_of_int (physicalPage e) :: u32) | e. e \<in> set ys \<and> valid e}" by auto
  qed
  note c = current_entries_same_map [OF assms]
  show ?thesis unfolding frames_def using * [OF c] * [OF c [symmetric]] by blast
qed

lemma confined_refl [simp]: "confined m m"
  by (simp add: confined_def)

lemma confined_trans:
  assumes "confined m m'" "confined m' m''" "mmu_ok m"
  shows "confined m m''"
  using assms frames_same_map [of m m'] by (auto simp: confined_def intro: same_map_trans)

lemma confined_registers [simp]: "confined m (m'\<lparr>registers := r\<rparr>) = confined m m'"
  by (simp add: confined_def same_map_def)

lemma set_reg_simps [simp]:
  "mainMemory (set_reg m i v) = mainMemory m" "confined m (set_reg m' i v) = confined m m'"
  "length (registers (set_reg m i v)) = length (registers m)"
  by (simp_all add: set_reg_def)

lemma set_reg_nth: "i < length (registers m) \<Longrightarrow> registers (set_reg m i v) ! j = (if j = i then v else registers m ! j)"
  by (simp add: set_reg_def nth_list_update)

lemma running_set_reg: "running m \<Longrightarrow> i < 34 \<Longrightarrow> running (set_reg m i v)"
  unfolding running_def by (auto simp: set_reg_nth LoadReg_def set_reg_def intro: mmu_ok_same_map [OF same_map_registers(1)])

lemma continue_ok:
  assumes "running m'" "confined m m'" "registers m' ! PCReg = registers m ! PCReg" "registers m' ! NextPCReg = registers m ! NextPCReg"
  shows "\<exists>out. continue_at m' pc = Inr out \<and> exec_ok m out"
  using assms by (simp add: continue_at_def exec_ok_def)

lemma continue_set_reg:
  assumes "running m" "i < 34"
  shows "\<exists>out. continue_at (set_reg m i v) pc = Inr out \<and> exec_ok m out"
  using assms by (intro continue_ok running_set_reg) (auto simp: running_def set_reg_nth reg_defs)

lemma raise_ok:
  assumes "running m" "exc \<noteq> NoException"
  shows "\<exists>out. raise m exc va = Inr out \<and> exec_ok m out"
proof -
  obtain m' where "RaiseException m va = Inr m'" "wf_machine m'" "same_map m m'" "mainMemory m' = mainMemory m"
    "registers m' ! PCReg = registers m ! PCReg"
    using RaiseException_ok [of m va] assms(1) unfolding running_def by blast
  with assms(2) show ?thesis by (simp add: raise_def exec_ok_def confined_def)
qed

definition wf_instr :: "Instruction \<Rightarrow> bool" where
  "wf_instr i \<longleftrightarrow> rs i < 32 \<and> rt i < 32 \<and> rd i < 32 \<and> opCode i \<notin> {OP_RFE, SPECIAL, BCOND}"

text \<open>Each group of cases: it ends in one register write, or in a trap.\<close>

lemma exec_alu_ok:
  assumes "running m" "wf_instr i"
  shows "opCode i \<in> {OP_ADD, OP_ADDI, OP_ADDIU, OP_ADDU, OP_AND, OP_ANDI} \<Longrightarrow> \<exists>out. exec_add m i pc = Inr out \<and> exec_ok m out"
    and "opCode i \<in> {OP_NOR, OP_OR, OP_ORI, OP_XOR, OP_XORI} \<Longrightarrow> \<exists>out. exec_logic m i pc = Inr out \<and> exec_ok m out"
    and "opCode i \<in> {OP_SLL, OP_SLLV, OP_SLT, OP_SLTI, OP_SLTIU, OP_SLTU, OP_SRA, OP_SRAV, OP_SRL, OP_SRLV, OP_SUB, OP_SUBU}
      \<Longrightarrow> \<exists>out. exec_shift m i pc = Inr out \<and> exec_ok m out"
proof -
  have rd: "\<exists>out. continue_at (set_reg m (rd i) v) pc = Inr out \<and> exec_ok m out"
    and rt: "\<exists>out. continue_at (set_reg m (rt i) v) pc = Inr out \<and> exec_ok m out" for v
    using assms by (auto simp: wf_instr_def intro!: continue_set_reg)
  have ex: "\<exists>out. raise m OverflowException 0 = Inr out \<and> exec_ok m out" by (rule raise_ok [OF assms(1)]) simp
  show "opCode i \<in> {OP_ADD, OP_ADDI, OP_ADDIU, OP_ADDU, OP_AND, OP_ANDI} \<Longrightarrow> \<exists>out. exec_add m i pc = Inr out \<and> exec_ok m out"
    unfolding exec_add_def Let_def by (elim insertE emptyE) (simp_all add: rd rt ex)
  show "opCode i \<in> {OP_NOR, OP_OR, OP_ORI, OP_XOR, OP_XORI} \<Longrightarrow> \<exists>out. exec_logic m i pc = Inr out \<and> exec_ok m out"
    unfolding exec_logic_def Let_def by (elim insertE emptyE) (simp_all add: rd rt)
  show "opCode i \<in> {OP_SLL, OP_SLLV, OP_SLT, OP_SLTI, OP_SLTIU, OP_SLTU, OP_SRA, OP_SRAV, OP_SRL, OP_SRLV, OP_SUB, OP_SUBU}
      \<Longrightarrow> \<exists>out. exec_shift m i pc = Inr out \<and> exec_ok m out"
    unfolding exec_shift_def Let_def by (elim insertE emptyE) (simp_all add: rd rt ex)
qed

lemma exec_branch_ok:
  assumes "running m" "wf_instr i"
  shows "opCode i \<in> {OP_BEQ, OP_BGEZAL, OP_BGEZ, OP_BGTZ, OP_BLEZ, OP_BLTZAL, OP_BLTZ, OP_BNE}
      \<Longrightarrow> \<exists>out. exec_branch m i pc = Inr out \<and> exec_ok m out"
    and "opCode i \<in> {OP_JAL, OP_J, OP_JALR, OP_JR} \<Longrightarrow> \<exists>out. exec_jump m i pc = Inr out \<and> exec_ok m out"
proof -
  have plain: "\<exists>out. continue_at m p = Inr out \<and> exec_ok m out" for p using assms(1) by (simp add: continue_ok)
  have r31: "\<exists>out. continue_at (set_reg m R31 v) p = Inr out \<and> exec_ok m out" for v p
    using assms(1) by (rule continue_set_reg) (simp add: R31_def)
  have rd: "\<exists>out. continue_at (set_reg m (rd i) v) p = Inr out \<and> exec_ok m out" for v p
    using assms by (auto simp: wf_instr_def intro!: continue_set_reg)
  show "opCode i \<in> {OP_BEQ, OP_BGEZAL, OP_BGEZ, OP_BGTZ, OP_BLEZ, OP_BLTZAL, OP_BLTZ, OP_BNE}
      \<Longrightarrow> \<exists>out. exec_branch m i pc = Inr out \<and> exec_ok m out"
    unfolding exec_branch_def Let_def by (elim insertE emptyE) (simp_all add: plain r31)
  show "opCode i \<in> {OP_JAL, OP_J, OP_JALR, OP_JR} \<Longrightarrow> \<exists>out. exec_jump m i pc = Inr out \<and> exec_ok m out"
    unfolding exec_jump_def Let_def by (elim insertE emptyE) (simp_all add: plain r31 rd)
qed

lemma exec_muldiv_ok:
  assumes "running m" "wf_instr i"
  shows "opCode i \<in> {OP_DIV, OP_DIVU} \<Longrightarrow>
      (opCode i = OP_DIV \<and> sint (reg m (rs i)) = - (2 ^ 31) \<and> sint (reg m (rt i)) = - 1 \<and> exec_div m i pc = Inl HostTrap)
      \<or> (\<exists>out. exec_div m i pc = Inr out \<and> exec_ok m out)"
    and "opCode i \<in> {OP_MFHI, OP_MFLO, OP_MTHI, OP_MTLO, OP_MULT, OP_MULTU} \<Longrightarrow> \<exists>out. exec_hilo m i pc = Inr out \<and> exec_ok m out"
proof -
  have two: "\<exists>out. continue_at (set_reg (set_reg m LoReg l) HiReg h) pc = Inr out \<and> exec_ok m out" for h l
    using assms(1) by (intro continue_ok running_set_reg) (auto simp: running_def set_reg_nth reg_defs)
  have one: "\<exists>out. continue_at (set_reg m j v) pc = Inr out \<and> exec_ok m out" if "j \<in> {rd i, HiReg, LoReg}" for j v
    using assms that by (intro continue_set_reg) (auto simp: wf_instr_def reg_defs)
  show "opCode i \<in> {OP_DIV, OP_DIVU} \<Longrightarrow>
      (opCode i = OP_DIV \<and> sint (reg m (rs i)) = - (2 ^ 31) \<and> sint (reg m (rt i)) = - 1 \<and> exec_div m i pc = Inl HostTrap)
      \<or> (\<exists>out. exec_div m i pc = Inr out \<and> exec_ok m out)"
    unfolding exec_div_def Let_def by (elim insertE emptyE) (simp_all add: two)
  show "opCode i \<in> {OP_MFHI, OP_MFLO, OP_MTHI, OP_MTLO, OP_MULT, OP_MULTU} \<Longrightarrow> \<exists>out. exec_hilo m i pc = Inr out \<and> exec_ok m out"
    unfolding exec_hilo_def Let_def by (elim insertE emptyE) (simp_all add: one two split: prod.split)
qed

lemma with_mem_read:
  assumes "wf_machine m" "n = 1 \<or> n = 2 \<or> n = 4"
    and k: "\<And>v m'. ReadMem m va n = Inr (Access v m') \<Longrightarrow> wf_machine m' \<Longrightarrow> same_map m m' \<Longrightarrow> registers m' = registers m
      \<Longrightarrow> mainMemory m' = mainMemory m \<Longrightarrow> \<exists>out. k v m' = Inr out \<and> exec_ok m out"
  shows "\<exists>out. with_mem (ReadMem m va n) k = Inr out \<and> exec_ok m out"
  using ReadMem_spec [OF assms(1,2), of va]
proof (elim disjE exE conjE)
  fix exc m' assume "ReadMem m va n = Inr (Fault exc m')" "wf_machine m'" "same_map m m'" "mainMemory m' = mainMemory m"
    "registers m' ! PCReg = registers m ! PCReg"
    "exc \<in> {AddressErrorException, PageFaultException, ReadOnlyException, BusErrorException}"
  then show ?thesis by (auto simp: with_mem_def exec_ok_def confined_def)
next
  fix v m' assume r: "ReadMem m va n = Inr (Access v m')" "wf_machine m'" "same_map m m'" "registers m' = registers m" "mainMemory m' = mainMemory m"
  from k [OF this] show ?thesis by (simp add: with_mem_def r(1))
qed

lemma same_page:
  fixes x pa n :: int
  assumes "pa \<le> x" "x < pa + n" "pa mod 128 + n \<le> 128"
  shows "x div 128 = pa div 128"
proof -
  define q r where "q = pa div 128" and "r = pa mod 128"
  have pa: "pa = 128 * q + r" "0 \<le> r" by (simp_all add: q_def r_def)
  have "0 \<le> x - 128 * q" "x - 128 * q < 128" using assms(1,2) assms(3) [folded r_def] pa by linarith+
  then have "x div 128 = q" by (intro int_div_pos_eq [of _ _ _ "x - 128 * q"]) auto
  then show ?thesis by (simp add: q_def)
qed

lemma WriteMem_confined:
  assumes "wf_machine m" "n = 1 \<or> n = 2 \<or> n = 4"
  shows "(\<exists>exc m'. WriteMem m va n v = Inr (Fault exc m') \<and> exc \<noteq> NoException \<and> wf_machine m' \<and> confined m m'
      \<and> registers m' ! PCReg = registers m ! PCReg)
    \<or> (\<exists>m'. WriteMem m va n v = Inr (Access () m') \<and> wf_machine m' \<and> confined m m' \<and> registers m' = registers m)"
  using WriteMem_spec [OF assms, of va v]
proof (elim disjE exE conjE)
  fix exc m' assume "WriteMem m va n v = Inr (Fault exc m')" "wf_machine m'" "same_map m m'" "mainMemory m' = mainMemory m"
    "registers m' ! PCReg = registers m ! PCReg"
    "exc \<in> {AddressErrorException, PageFaultException, ReadOnlyException, BusErrorException}"
  then show ?thesis by (auto simp: confined_def)
next
  fix m' m'' pa
  assume w: "WriteMem m va n v = Inr (Access () m')" "wf_machine m'" "same_map m m'" "registers m' = registers m" "0 \<le> pa" "pa mod 128 = uint va mod 128"
    and p: "pa + n \<le> 4096" "pa div 128 \<in> frames m"
      "\<forall>i<4096. \<not> (pa \<le> int i \<and> int i < pa + n) \<longrightarrow> mainMemory m' ! i = mainMemory m ! i"
  have pg: "pa mod 128 + n \<le> 128"
  proof -
    have "\<not> (n = 4 \<and> va AND 3 \<noteq> 0) \<and> \<not> (n = 2 \<and> va AND 1 \<noteq> 0)"
      using Translate_misaligned [of n va m True] w(1) by (auto simp: WriteMem_def bind_res_eq_Inr split: if_splits)
    then show ?thesis using aligned_in_page [of n va] assms(2) w(6) by simp
  qed
  have "int i div 128 = pa div 128" if "pa \<le> int i" "int i < pa + n" for i
using that pg by (rule same_page)
  with p have "confined m m'" using w(3) by (auto simp: confined_def)
  with w show ?thesis by blast
qed

lemma with_mem_write:
  assumes "wf_machine m'" "confined m m'" "mmu_ok m" "registers m' = registers m" "n = 1 \<or> n = 2 \<or> n = 4"
  shows "\<exists>out. with_mem (WriteMem m' va n v) (\<lambda>_ m. continue_at m pc) = Inr out \<and> exec_ok m out"
  using WriteMem_confined [OF assms(1,5), of va v]
proof (elim disjE exE conjE)
  fix exc m1 assume "WriteMem m' va n v = Inr (Fault exc m1)" "exc \<noteq> NoException" "wf_machine m1" "confined m' m1"
    "registers m1 ! PCReg = registers m' ! PCReg"
  with assms show ?thesis by (auto simp: with_mem_def exec_ok_def intro: confined_trans)
next
  fix m1 assume "WriteMem m' va n v = Inr (Access () m1)" "wf_machine m1" "confined m' m1" "registers m1 = registers m'"
  with assms show ?thesis
    by (auto simp: with_mem_def intro!: continue_ok wf_running intro: confined_trans)
qed

lemma delayed_ok:
  assumes "wf_machine m'" "same_map m m'" "registers m' = registers m" "mainMemory m' = mainMemory m" "r < 32"
  shows "exec_ok m (Continue m' pc r v)"
  using assms wf_running [of m'] by (simp add: exec_ok_def confined_def)

lemma exec_load_ok:
  assumes "wf_machine m" "wf_instr i" "opCode i \<in> {OP_LB, OP_LBU, OP_LH, OP_LHU, OP_LUI, OP_LW}"
  shows "\<exists>out. exec_load m i pc = Inr out \<and> exec_ok m out"
proof -
  have rt: "rt i < 32" using assms(2) by (simp add: wf_instr_def)
  have ld: "\<exists>out. with_mem (ReadMem m va n) (\<lambda>v m. Inr (Continue m pc (rt i) (f v))) = Inr out \<and> exec_ok m out"
    if "n = 1 \<or> n = 2 \<or> n = 4" for va n f
    by (rule with_mem_read [OF assms(1) that]) (use rt in \<open>simp add: delayed_ok\<close>)
  have ex: "\<exists>out. raise m AddressErrorException va = Inr out \<and> exec_ok m out" for va
    by (rule raise_ok [OF wf_running [OF assms(1)]]) simp
  have lui: "\<exists>out. continue_at (set_reg m (rt i) v) pc = Inr out \<and> exec_ok m out" for v
    using wf_running [OF assms(1)] rt by (intro continue_set_reg) simp_all
  show ?thesis using assms(3) ld [where f = "\<lambda>v. v"] unfolding exec_load_def Let_def
    by (elim insertE emptyE) (simp_all add: ld ex lui)
qed

lemma exec_unaligned_ok:
  assumes "wf_machine m" "wf_instr i"
  shows "\<exists>out. exec_LWL m i pc = Inr out \<and> exec_ok m out" "\<exists>out. exec_LWR m i pc = Inr out \<and> exec_ok m out"
    "\<exists>out. exec_SWL m i pc = Inr out \<and> exec_ok m out" "\<exists>out. exec_SWR m i pc = Inr out \<and> exec_ok m out"
proof -
  have rt: "rt i < 32" using assms(2) by (simp add: wf_instr_def)
  note rd = with_mem_read [OF assms(1), of 4, simplified]
  note mmu = wf_machineD(5) [OF assms(1)]
  show "\<exists>out. exec_LWL m i pc = Inr out \<and> exec_ok m out" "\<exists>out. exec_LWR m i pc = Inr out \<and> exec_ok m out"
    unfolding exec_LWL_def exec_LWR_def Let_def by (rule rd, simp add: rt delayed_ok)+
  show "\<exists>out. exec_SWL m i pc = Inr out \<and> exec_ok m out" "\<exists>out. exec_SWR m i pc = Inr out \<and> exec_ok m out"
    unfolding exec_SWL_def exec_SWR_def Let_def
    by (rule rd, rule with_mem_write, simp_all add: mmu confined_def)+
qed

lemma exec_store_ok:
  assumes "wf_machine m" "opCode i \<in> {OP_SB, OP_SH, OP_SW}"
  shows "\<exists>out. exec_store m i pc = Inr out \<and> exec_ok m out"
proof -
  have st: "\<exists>out. with_mem (WriteMem m va n v) (\<lambda>_ m. continue_at m pc) = Inr out \<and> exec_ok m out"
    if "n = 1 \<or> n = 2 \<or> n = 4" for va n v
    using that wf_machineD(5) [OF assms(1)] by (intro with_mem_write assms(1)) simp_all
  show ?thesis using assms(2) unfolding exec_store_def Let_def by (elim insertE emptyE) (simp_all add: st)
qed

text \<open>The one way an instruction can stop the simulator: the division the host cannot do.\<close>

definition div_overflow :: "Machine \<Rightarrow> Instruction \<Rightarrow> bool" where
  "div_overflow m i \<longleftrightarrow> opCode i = OP_DIV \<and> sint (reg m (rs i)) = - (2 ^ 31) \<and> sint (reg m (rt i)) = - 1"

lemma exec_instr_ok:
  assumes "wf_machine m" "wf_instr i"
  shows "(div_overflow m i \<and> exec_instr m i pc = Inl HostTrap) \<or> (\<exists>out. exec_instr m i pc = Inr out \<and> exec_ok m out)"
proof -
  note run = wf_running [OF assms(1)]
  note ok = exec_branch_ok [OF run assms(2), of pc] exec_muldiv_ok [OF run assms(2), of pc] exec_load_ok [OF assms, of pc]
    exec_unaligned_ok [OF assms, of pc] exec_store_ok [OF assms(1), of i pc] exec_alu_ok [OF run assms(2), of pc]
  have ex: "\<exists>out. raise m SyscallException 0 = Inr out \<and> exec_ok m out" "\<exists>out. raise m IllegalInstrException 0 = Inr out \<and> exec_ok m out"
    by (rule raise_ok [OF run]; simp)+
  show ?thesis
    using assms(2) ok ex unfolding wf_instr_def exec_instr_def Let_def div_overflow_def
    by (cases "opCode i") simp_all
qed

lemma wf_instr_Decode: "wf_instr (Decode v)"
  using Decode_fields [of v] by (simp add: wf_instr_def)

lemma OneInstruction_cases:
  assumes "wf_machine m"
  shows "(\<exists>raw m1. ReadMem m (registers m ! PCReg) 4 = Inr (Access raw m1) \<and> div_overflow m1 (Decode raw)
      \<and> OneInstruction m = Inl HostTrap)
    \<or> (\<exists>exc m'. OneInstruction m = Inr (Fault exc m') \<and> exc \<noteq> NoException \<and> wf_machine m' \<and> confined m m'
      \<and> registers m' ! PCReg = registers m ! PCReg)
    \<or> (\<exists>m'. OneInstruction m = Inr (Access () m') \<and> wf_machine m' \<and> confined m m'
      \<and> registers m' ! PCReg = registers m ! NextPCReg \<and> registers m' ! PrevPCReg = registers m ! PCReg)"
  using ReadMem_spec [OF assms disjI2 [OF disjI2 [OF refl]], of "registers m ! PCReg"]
proof (elim disjE exE conjE)
  fix exc m' assume "ReadMem m (registers m ! PCReg) 4 = Inr (Fault exc m')" "wf_machine m'" "same_map m m'"
    "mainMemory m' = mainMemory m" "registers m' ! PCReg = registers m ! PCReg"
    "exc \<in> {AddressErrorException, PageFaultException, ReadOnlyException, BusErrorException}"
  then show ?thesis by (intro disjI2 disjI1) (auto simp: OneInstruction_def confined_def)
next
  fix raw m1 assume r: "ReadMem m (registers m ! PCReg) 4 = Inr (Access raw m1)" "wf_machine m1" "same_map m m1"
    "registers m1 = registers m" "mainMemory m1 = mainMemory m"
  let ?pc = "reg m1 NextPCReg + 4"
  have c: "confined m m1" using r by (simp add: confined_def)
  note mmu = wf_machineD(5) [OF assms]
  from exec_instr_ok [OF r(2) wf_instr_Decode, of raw ?pc] show ?thesis
  proof (elim disjE exE conjE)
    assume "div_overflow m1 (Decode raw)" "exec_instr m1 (Decode raw) ?pc = Inl HostTrap"
    with r(1) show ?thesis by (intro disjI1) (simp add: OneInstruction_def Let_def)
  next
    fix out assume e: "exec_instr m1 (Decode raw) ?pc = Inr out" "exec_ok m1 out"
    show ?thesis
    proof (cases out)
      case (Trap exc m')
      with e have "exc \<noteq> NoException" "wf_machine m'" "confined m1 m'" "registers m' ! PCReg = registers m ! PCReg"
        using r(4) by (simp_all add: exec_ok_def)
      with Trap e(1) r(1) confined_trans [OF c _ mmu] show ?thesis
        by (intro disjI2 disjI1) (simp add: OneInstruction_def Let_def)
    next
      case (Continue m2 pc lr lv)
      with e have k: "running m2" "confined m1 m2" "lr < 32" "registers m2 ! PCReg = registers m ! PCReg"
        "registers m2 ! NextPCReg = registers m ! NextPCReg"
        using r(4) by (simp_all add: exec_ok_def)
      then have "unat (of_nat lr :: u32) < 32" by (simp add: unat_of_nat)
      with k(1) obtain m3 where d: "DelayedLoad m2 (of_nat lr) lv = Inr m3" "wf_machine m3" "same_map m2 m3"
        "mainMemory m3 = mainMemory m2" "registers m3 = (registers m2)[unat (registers m2 ! LoadReg) := registers m2 ! LoadValueReg,
          LoadReg := of_nat lr, LoadValueReg := lv, 0 := 0]"
        using DelayedLoad_ok [of m2 "of_nat lr" lv] unfolding running_def by blast
      let ?r = "registers m3"
      let ?m = "m3\<lparr>registers := ?r[PrevPCReg := ?r ! PCReg, PCReg := ?r ! NextPCReg, NextPCReg := pc]\<rparr>"
      have fin: "finish_instr m2 pc lr lv = Inr ?m" using d(1) by (simp add: finish_instr_def Let_def)
      have "confined m1 m3"
        using d k confined_trans [of m1 m2 m3] r(2) by (simp add: confined_def wf_machine_def)
      then have "confined m ?m" using confined_trans [OF c _ mmu] by simp
      moreover have "wf_machine ?m"
        using d(2) mmu_ok_same_map [OF same_map_registers(1)] by (simp add: wf_machine_def reg_defs nth_list_update)
      moreover have "?r ! PCReg = registers m ! PCReg" "?r ! NextPCReg = registers m ! NextPCReg" "length ?r = 40"
        using d(2) k d(5) by (simp_all add: running_def wf_machine_def reg_defs nth_list_update)
      moreover have "OneInstruction m = Inr (Access () ?m)"
        using r(1) e(1) Continue fin by (simp add: OneInstruction_def Let_def)
      ultimately show ?thesis by (intro disjI2 exI [of _ ?m]) (simp add: reg_defs nth_list_update)
    qed
  qed
qed

section \<open>Properties\<close>

text \<open>
  C23. \<open>Mult\<close>, the shift-and-add multiplication with its early exit, its carry between the two halves and its
  final negation, computes the exact 64-bit product of its operands, signed or
  unsigned, for every pair of operands, the most negative number included.
\<close>

theorem Mult_correct:
  "comb (fst (Mult a b signedArith)) (snd (Mult a b signedArith))
     = (if signedArith then sint a * sint b else uint a * uint b) mod 2 ^ 64"
  using Mult_spec [of a b signedArith] by (metis prod.collapse)

text \<open>
  C22. One instruction of a user program, whatever word it fetches and decodes: no ASSERT fails, no array is left,
  register 0 reads as 0 afterwards, page tables keep everything but use and dirty bits, and no
  byte outside the program's own frames changes. It either traps, with the program counter
  still at the instruction, or advances it to the old next program counter. The only other case is a
  signed division of the most negative number by -1, which the host cannot do.
\<close>

theorem OneInstruction_safe:
  assumes "wf_machine m"
  shows "(\<exists>raw m1. ReadMem m (registers m ! PCReg) 4 = Inr (Access raw m1) \<and> div_overflow m1 (Decode raw)
      \<and> OneInstruction m = Inl HostTrap)
    \<or> (\<exists>exc m'. OneInstruction m = Inr (Fault exc m') \<and> exc \<noteq> NoException \<and> wf_machine m' \<and> confined m m'
      \<and> registers m' ! PCReg = registers m ! PCReg)
    \<or> (\<exists>m'. OneInstruction m = Inr (Access () m') \<and> wf_machine m' \<and> confined m m'
      \<and> registers m' ! PCReg = registers m ! NextPCReg \<and> registers m' ! PrevPCReg = registers m ! PCReg)"
  using assms by (rule OneInstruction_cases)

theorem OneInstruction_safe_witness:
  "wf_machine example_machine \<and>
    ((\<exists>raw m1. ReadMem example_machine 0 4 = Inr (Access raw m1) \<and> div_overflow m1 (Decode raw)
       \<and> OneInstruction example_machine = Inl HostTrap)
     \<or> (\<exists>exc m'. OneInstruction example_machine = Inr (Fault exc m') \<and> exc \<noteq> NoException \<and> wf_machine m')
     \<or> (\<exists>m'. OneInstruction example_machine = Inr (Access () m') \<and> wf_machine m' \<and> registers m' ! 0 = 0))"
  using OneInstruction_safe [OF wf_example_machine] wf_example_machine
  by (auto simp: wf_machine_def example_machine_def reg_defs)

text \<open>
  C25. The logical right shifts of the instruction set, \<open>SRL\<close> and \<open>SRLV\<close>, are carried out on an \<open>int\<close>: the vacated bits are
  copies of the sign, so the result is the logical shift only for a non-negative
  operand or a shift by 0.
\<close>

theorem SRL_shifts_arithmetically:
  assumes "opCode i = OP_SRL" "unat (extra i) < 32" "rd i < 32"
  shows "exec_shift m i pc = Inr (Continue (set_reg m (rd i) (signed_drop_bit (unat (extra i)) (reg m (rt i)))) pc 0 0)
    \<and> (signed_drop_bit (unat (extra i)) (reg m (rt i)) = drop_bit (unat (extra i)) (reg m (rt i))
       \<longleftrightarrow> extra i = 0 \<or> 0 \<le> sint (reg m (rt i)))"
proof -
  define k t where "k = unat (extra i)" and "t = reg m (rt i)"
  have "sint t < 0 \<longleftrightarrow> bit t 31" by (simp add: sint_uint signed_take_bit_negative_iff bit_uint_iff)
  moreover have "signed_drop_bit k t = drop_bit k t \<longleftrightarrow> k = 0 \<or> \<not> bit t 31"
  proof (intro iffI)
    assume eq: "signed_drop_bit k t = drop_bit k t"
    show "k = 0 \<or> \<not> bit t 31"
    proof (rule ccontr)
      assume n: "\<not> (k = 0 \<or> \<not> bit t 31)"
      then have "bit (signed_drop_bit k t) 31 \<noteq> bit (drop_bit k t) 31"
        using assms(2) by (auto simp: bit_simps k_def dest: bit_imp_le_length)
      with eq show False by simp
    qed
  next
    assume "k = 0 \<or> \<not> bit t 31"
    moreover have "\<not> bit t (k + n)" if "\<not> k + n < 32" for n using that bit_imp_le_length [of t "k + n"] by auto
    ultimately show "signed_drop_bit k t = drop_bit k t"
      by (intro bit_word_eqI) (auto simp: bit_simps le_diff_conv less_diff_conv not_less)
  qed
  moreover have "k = 0 \<longleftrightarrow> extra i = 0" by (simp add: k_def unat_eq_0)
  ultimately show ?thesis
    using assms(1) by (auto simp: exec_shift_def continue_at_def k_def t_def not_less)
qed

theorem SRL_shifts_arithmetically_witness:
  "exec_shift (set_reg example_machine 8 0x80000000) \<lparr>opCode = OP_SRL, rs = 0, rt = 8, rd = 9, extra = 4\<rparr> 8
     \<noteq> Inr (Continue (set_reg (set_reg example_machine 8 0x80000000) 9 0x08000000) 8 0 0)"
proof -
  let ?i = "\<lparr>opCode = OP_SRL, rs = 0, rt = 8, rd = 9, extra = 4\<rparr>" and ?m = "set_reg example_machine 8 0x80000000"
  have r: "reg ?m 8 = 0x80000000" by (simp add: reg_def set_reg_def example_machine_def)
  have "signed_drop_bit 4 (0x80000000 :: u32) \<noteq> drop_bit 4 0x80000000"
    using SRL_shifts_arithmetically [of ?i ?m 8] r by (simp add: sint_uint)
  then have "signed_drop_bit 4 (0x80000000 :: u32) \<noteq> 0x08000000" by simp
  moreover have "registers (set_reg ?m 9 v) ! 9 = v" for v by (simp add: set_reg_nth example_machine_def)
  ultimately have "set_reg ?m 9 (signed_drop_bit 4 0x80000000) \<noteq> set_reg ?m 9 0x08000000" by metis
  then show ?thesis using SRL_shifts_arithmetically [of ?i ?m 8] r by simp
qed

lemma byte_masks:
  "(0xff :: u32) = mask 8" "(0xffff :: u32) = mask 16" "(0xffffff :: u32) = mask 24"
  "(0xff000000 :: u32) = push_bit 24 (mask 8)" "(0xffff0000 :: u32) = push_bit 16 (mask 16)" "(0xffffff00 :: u32) = push_bit 8 (mask 24)"
  by (simp_all add: mask_eq_exp_minus_1 push_bit_eq_mult)

lemma word_of_bytes_bit:
  assumes "n < 32"
  shows "bit (bytes_to_word [a, b, c, d]) n =
    (if n < 8 then bit a n else if n < 16 then bit b (n - 8) else if n < 24 then bit c (n - 16) else bit d (n - 24))"
  using assms by (auto simp: bytes_to_word_def bit_simps dest: bit_imp_le_length)

lemma merge_load:
  fixes a b c d e f g h :: byte
  shows "lwl_merge 0 (lwr_merge 3 old (bytes_to_word [a, b, c, d])) (bytes_to_word [a, b, c, d]) = bytes_to_word [a, b, c, d]"
    "lwl_merge 3 (lwr_merge 2 old (bytes_to_word [a, b, c, d])) (bytes_to_word [e, f, g, h]) = bytes_to_word [b, c, d, e]"
    "lwl_merge 2 (lwr_merge 1 old (bytes_to_word [a, b, c, d])) (bytes_to_word [e, f, g, h]) = bytes_to_word [c, d, e, f]"
    "lwl_merge 1 (lwr_merge 0 old (bytes_to_word [a, b, c, d])) (bytes_to_word [e, f, g, h]) = bytes_to_word [d, e, f, g]"
  by (auto simp: lwl_merge_def lwr_merge_def byte_masks bit_simps word_of_bytes_bit not_less intro!: bit_word_eqI split: if_splits)

lemma merge_store:
  fixes a b c d e f g h p q r s :: byte
  defines "v \<equiv> bytes_to_word [p, q, r, s]"
  shows "swl_merge 0 x v = v" "swr_merge 3 x v = v"
    "swr_merge 2 (bytes_to_word [a, b, c, d]) v = bytes_to_word [a, p, q, r]"
    "swr_merge 1 (bytes_to_word [a, b, c, d]) v = bytes_to_word [a, b, p, q]"
    "swr_merge 0 (bytes_to_word [a, b, c, d]) v = bytes_to_word [a, b, c, p]"
    "swl_merge 3 (bytes_to_word [e, f, g, h]) v = bytes_to_word [s, f, g, h]"
    "swl_merge 2 (bytes_to_word [e, f, g, h]) v = bytes_to_word [r, s, g, h]"
    "swl_merge 1 (bytes_to_word [e, f, g, h]) v = bytes_to_word [q, r, s, h]"
  unfolding v_def
  by (auto simp: swl_merge_def swr_merge_def byte_masks bit_simps word_of_bytes_bit not_less intro!: bit_word_eqI split: if_splits)



end
