(* ===== verification/LinkedList.thy ===== *)
theory LinkedList
  imports Prelude
begin

text \<open>
  The singly linked lists of \<open>lib/list.h\<close> and \<open>lib/list.cc\<close>, with their pointers: list elements live in a heap,
  \<open>new\<close> takes the next address, \<open>delete\<close> removes the cell, and following \<open>NULL\<close> or a deleted pointer is an
  error. The specification is the same operations on lists of values; a locale states the
  contract between the two, proved once for the pointer code and used by every other component, which
  works on the lists of values.
\<close>

section \<open>The heap of list elements\<close>

record 'a ListElement =
  nextp :: "nat option"      \<comment> \<open>\<open>next\<close>; \<open>None\<close> is \<open>NULL\<close>\<close>
  item :: 'a

record 'a heap =
  cells :: "nat \<rightharpoonup> 'a ListElement"
  brk :: nat                 \<comment> \<open>the next address \<open>new\<close> returns\<close>

definition ListElement_new :: "'a \<Rightarrow> 'a heap \<Rightarrow> nat \<times> 'a heap" where
  "ListElement_new itm h = (brk h, h\<lparr>cells := (cells h)(brk h \<mapsto> \<lparr>nextp = None, item = itm\<rparr>), brk := brk h + 1\<rparr>)"

definition deref :: "'a heap \<Rightarrow> nat option \<Rightarrow> 'a ListElement res" where
  "deref h p = (case p of None \<Rightarrow> Inl NullPointer | Some a \<Rightarrow> (case cells h a of None \<Rightarrow> Inl NullPointer | Some e \<Rightarrow> Inr e))"

definition set_next :: "'a heap \<Rightarrow> nat option \<Rightarrow> nat option \<Rightarrow> 'a heap res" where
  "set_next h p q = bind_res (deref h p) (\<lambda>e. Inr (h\<lparr>cells := (cells h)(the p \<mapsto> e\<lparr>nextp := q\<rparr>)\<rparr>))"

definition delete_elem :: "'a heap \<Rightarrow> nat option \<Rightarrow> 'a heap" where
  "delete_elem h p = h\<lparr>cells := (cells h)(the p := None)\<rparr>"

section \<open>List\<close>

record List =
  first :: "nat option"
  last_elem :: "nat option"
  numInList :: int

definition List_new :: List where
  "List_new = \<lparr>first = None, last_elem = None, numInList = 0\<rparr>"

definition IsEmpty :: "List \<Rightarrow> bool" where "IsEmpty l \<longleftrightarrow> numInList l = 0"
definition NumInList :: "List \<Rightarrow> int" where "NumInList l = numInList l"

definition Front :: "'a heap \<Rightarrow> List \<Rightarrow> 'a res" where
  "Front h l = bind_res (deref h (first l)) (\<lambda>e. Inr (item e))"

text \<open>
  The loops follow \<open>next\<close> pointers. The heap holds fewer than \<open>brk\<close> cells, so a walk of more than \<open>brk\<close> steps has
  come back to a cell it has seen and never ends: the fuel \<open>brk + 1\<close> loses no run.
\<close>

fun find_item :: "nat \<Rightarrow> 'a heap \<Rightarrow> nat option \<Rightarrow> 'a \<Rightarrow> bool res" where
  "find_item 0 h p x = Inl Diverges"
| "find_item (Suc n) h p x =
     (if p = None then Inr False
      else bind_res (deref h p) (\<lambda>e. if x = item e then Inr True else find_item n h (nextp e) x))"

definition IsInList :: "'a heap \<Rightarrow> List \<Rightarrow> 'a \<Rightarrow> bool res" where
  "IsInList h l x = find_item (brk h + 1) h (first l) x"

definition Append :: "'a heap \<Rightarrow> List \<Rightarrow> 'a \<Rightarrow> ('a heap \<times> List) res" where
  "Append h l x =
     (let (element, h) = ListElement_new x h
      in bind_res (IsInList h l x) (\<lambda>b. ASSERT (\<not> b)
         (bind_res
            (if IsEmpty l then Inr (h, l\<lparr>first := Some element, last_elem := Some element\<rparr>)
             else bind_res (set_next h (last_elem l) (Some element)) (\<lambda>h. Inr (h, l\<lparr>last_elem := Some element\<rparr>)))
            (\<lambda>(h, l). let l = l\<lparr>numInList := numInList l + 1\<rparr>
                      in bind_res (IsInList h l x) (\<lambda>b. ASSERT b (Inr (h, l)))))))"

definition Prepend :: "'a heap \<Rightarrow> List \<Rightarrow> 'a \<Rightarrow> ('a heap \<times> List) res" where
  "Prepend h l x =
     (let (element, h) = ListElement_new x h
      in bind_res (IsInList h l x) (\<lambda>b. ASSERT (\<not> b)
         (bind_res
            (if IsEmpty l then Inr (h, l\<lparr>first := Some element, last_elem := Some element\<rparr>)
             else bind_res (set_next h (Some element) (first l)) (\<lambda>h. Inr (h, l\<lparr>first := Some element\<rparr>)))
            (\<lambda>(h, l). let l = l\<lparr>numInList := numInList l + 1\<rparr>
                      in bind_res (IsInList h l x) (\<lambda>b. ASSERT b (Inr (h, l)))))))"

definition RemoveFront :: "'a heap \<Rightarrow> List \<Rightarrow> ('a \<times> 'a heap \<times> List) res" where
  "RemoveFront h l =
     ASSERT (\<not> IsEmpty l)
     (bind_res (deref h (first l)) (\<lambda>element.
      let l' = (if first l = last_elem l then l\<lparr>first := None, last_elem := None\<rparr> else l\<lparr>first := nextp element\<rparr>)
      in Inr (item element, delete_elem h (first l), l'\<lparr>numInList := numInList l' - 1\<rparr>)))"

fun remove_loop :: "nat \<Rightarrow> 'a heap \<Rightarrow> List \<Rightarrow> nat option \<Rightarrow> nat option \<Rightarrow> 'a \<Rightarrow> ('a heap \<times> List) res" where
  "remove_loop 0 h l prev ptr x = Inl Diverges"
| "remove_loop (Suc n) h l prev ptr x =
     ASSERT (ptr \<noteq> None)
     (bind_res (deref h ptr) (\<lambda>e.
      if x = item e then
        bind_res (set_next h prev (nextp e)) (\<lambda>h.
        let l = (if nextp e = None then l\<lparr>last_elem := prev\<rparr> else l)
        in Inr (delete_elem h ptr, l\<lparr>numInList := numInList l - 1\<rparr>))
      else remove_loop n h l ptr (nextp e) x))"

definition Remove :: "'a heap \<Rightarrow> List \<Rightarrow> 'a \<Rightarrow> ('a heap \<times> List) res" where
  "Remove h l x =
     bind_res (IsInList h l x) (\<lambda>b. ASSERT b
     (bind_res (deref h (first l)) (\<lambda>e.
      bind_res
        (if x = item e then
           bind_res (RemoveFront h l) (\<lambda>(removed, h, l). ASSERT (x = removed) (Inr (h, l)))
         else remove_loop (brk h + 1) h l (first l) (nextp e) x)
        (\<lambda>(h, l). bind_res (IsInList h l x) (\<lambda>b. ASSERT (\<not> b) (Inr (h, l)))))))"

text \<open>\<open>Apply\<close> calls the function on the items in order; the model returns the items it visits.\<close>

fun apply_loop :: "nat \<Rightarrow> 'a heap \<Rightarrow> nat option \<Rightarrow> 'a list res" where
  "apply_loop 0 h p = Inl Diverges"
| "apply_loop (Suc n) h p =
     (if p = None then Inr []
      else bind_res (deref h p) (\<lambda>e. bind_res (apply_loop n h (nextp e)) (\<lambda>xs. Inr (item e # xs))))"

definition Apply :: "'a heap \<Rightarrow> List \<Rightarrow> 'a list res" where
  "Apply h l = apply_loop (brk h + 1) h (first l)"

text \<open>The iterator: its only field, the current element.\<close>

definition ListIterator_new :: "List \<Rightarrow> nat option" where "ListIterator_new l = first l"
definition IsDone :: "nat option \<Rightarrow> bool" where "IsDone current \<longleftrightarrow> current = None"
definition Item :: "'a heap \<Rightarrow> nat option \<Rightarrow> 'a res" where
  "Item h current = ASSERT (\<not> IsDone current) (bind_res (deref h current) (\<lambda>e. Inr (item e)))"
definition Next :: "'a heap \<Rightarrow> nat option \<Rightarrow> nat option res" where
  "Next h current = bind_res (deref h current) (\<lambda>e. Inr (nextp e))"

fun sanity_loop :: "nat \<Rightarrow> 'a heap \<Rightarrow> List \<Rightarrow> nat option \<Rightarrow> int \<Rightarrow> int res" where
  "sanity_loop 0 h l ptr numFound = Inl Diverges"
| "sanity_loop (Suc n) h l ptr numFound =
     (if ptr = last_elem l then Inr numFound
      else ASSERT (numFound + 1 \<le> numInList l)
             (bind_res (deref h ptr) (\<lambda>e. sanity_loop n h l (nextp e) (numFound + 1))))"

definition List_SanityCheck :: "'a heap \<Rightarrow> List \<Rightarrow> unit res" where
  "List_SanityCheck h l =
     (if first l = None then ASSERT (numInList l = 0 \<and> last_elem l = None) (Inr ())
      else if first l = last_elem l then
        bind_res (deref h (last_elem l)) (\<lambda>e. ASSERT (numInList l = 1 \<and> nextp e = None) (Inr ()))
      else
        bind_res (sanity_loop (nat (numInList l) + 1) h l (first l) 1) (\<lambda>numFound.
        ASSERT (numFound = numInList l)
        (bind_res (deref h (last_elem l)) (\<lambda>e. ASSERT (nextp e = None) (Inr ())))))"

section \<open>SortedList\<close>

type_synonym 'a compare = "'a \<Rightarrow> 'a \<Rightarrow> int"

fun insert_loop :: "nat \<Rightarrow> 'a compare \<Rightarrow> 'a heap \<Rightarrow> nat option \<Rightarrow> 'a \<Rightarrow> nat \<Rightarrow> ('a heap option) res" where
  "insert_loop 0 cmp h ptr x element = Inl Diverges"
| "insert_loop (Suc n) cmp h ptr x element =
     bind_res (deref h ptr) (\<lambda>p.
     if nextp p = None then Inr None
     else bind_res (deref h (nextp p)) (\<lambda>q.
       if cmp x (item q) < 0 then
         bind_res (set_next h (Some element) (nextp p)) (\<lambda>h.
         bind_res (set_next h ptr (Some element)) (\<lambda>h. Inr (Some h)))
       else insert_loop n cmp h (nextp p) x element))"

definition Insert :: "'a compare \<Rightarrow> 'a heap \<Rightarrow> List \<Rightarrow> 'a \<Rightarrow> ('a heap \<times> List) res" where
  "Insert cmp h l x =
     (let (element, h) = ListElement_new x h;
          finish = (\<lambda>(h, l). let l = l\<lparr>numInList := numInList l + 1\<rparr>
                             in bind_res (IsInList h l x) (\<lambda>b. ASSERT b (Inr (h, l))))
      in bind_res (IsInList h l x) (\<lambda>b. ASSERT (\<not> b)
         (if IsEmpty l then finish (h, l\<lparr>first := Some element, last_elem := Some element\<rparr>)
          else bind_res (deref h (first l)) (\<lambda>f.
            if cmp x (item f) < 0 then
              bind_res (set_next h (Some element) (first l)) (\<lambda>h. finish (h, l\<lparr>first := Some element\<rparr>))
            else
              bind_res (insert_loop (brk h + 1) cmp h (first l) x element) (\<lambda>done.
              case done of
                Some h \<Rightarrow> Inr (h, l\<lparr>numInList := numInList l + 1\<rparr>)
              | None \<Rightarrow>
                  bind_res (set_next h (last_elem l) (Some element)) (\<lambda>h.
                  finish (h, l\<lparr>last_elem := Some element\<rparr>)))))))"

fun sorted_loop :: "nat \<Rightarrow> 'a compare \<Rightarrow> 'a heap \<Rightarrow> nat option \<Rightarrow> nat option \<Rightarrow> unit res" where
  "sorted_loop 0 cmp h prev ptr = Inl Diverges"
| "sorted_loop (Suc n) cmp h prev ptr =
     (if ptr = None then Inr ()
      else bind_res (deref h prev) (\<lambda>p. bind_res (deref h ptr) (\<lambda>q.
           ASSERT (cmp (item p) (item q) \<le> 0) (sorted_loop n cmp h ptr (nextp q)))))"

definition SortedList_SanityCheck :: "'a compare \<Rightarrow> 'a heap \<Rightarrow> List \<Rightarrow> unit res" where
  "SortedList_SanityCheck cmp h l =
     bind_res (List_SanityCheck h l) (\<lambda>_.
     if first l \<noteq> last_elem l then
       bind_res (deref h (first l)) (\<lambda>e. sorted_loop (brk h + 1) cmp h (first l) (nextp e))
     else Inr ())"

section \<open>The self tests\<close>

text \<open>\<open>Append\<close> is virtual: a \<open>SortedList\<close> runs the inherited test with its own \<open>Insert\<close> and \<open>SanityCheck\<close>.\<close>

fun test_add :: "('a heap \<Rightarrow> List \<Rightarrow> 'a \<Rightarrow> ('a heap \<times> List) res) \<Rightarrow> 'a list \<Rightarrow> 'a heap \<Rightarrow> List \<Rightarrow> bool \<Rightarrow> ('a heap \<times> List) res" where
  "test_add add [] h l check = Inr (h, l)"
| "test_add add (p # ps) h l check =
     bind_res (add h l p) (\<lambda>(h, l).
     bind_res (IsInList h l p) (\<lambda>b. ASSERT b (ASSERT (check \<longrightarrow> \<not> IsEmpty l) (test_add add ps h l check))))"

fun test_remove :: "'a list \<Rightarrow> 'a heap \<Rightarrow> List \<Rightarrow> ('a heap \<times> List) res" where
  "test_remove [] h l = Inr (h, l)"
| "test_remove (p # ps) h l =
     bind_res (Remove h l p) (\<lambda>(h, l). bind_res (IsInList h l p) (\<lambda>b. ASSERT (\<not> b) (test_remove ps h l)))"

definition SelfTest_with ::
  "('a heap \<Rightarrow> List \<Rightarrow> 'a \<Rightarrow> ('a heap \<times> List) res) \<Rightarrow> ('a heap \<Rightarrow> List \<Rightarrow> unit res) \<Rightarrow> 'a list \<Rightarrow> 'a heap \<Rightarrow> List \<Rightarrow> ('a heap \<times> List) res" where
  "SelfTest_with add check p h l =
     bind_res (check h l) (\<lambda>_.
     ASSERT (IsEmpty l \<and> first l = None)
     (ASSERT (IsDone (ListIterator_new l))
     (bind_res (test_add add p h l True) (\<lambda>(h, l).
      bind_res (check h l) (\<lambda>_.
      bind_res (test_remove p h l) (\<lambda>(h, l).
      ASSERT (IsEmpty l) (bind_res (check h l) (\<lambda>_. Inr (h, l)))))))))"

definition List_SelfTest :: "'a list \<Rightarrow> 'a heap \<Rightarrow> List \<Rightarrow> ('a heap \<times> List) res" where
  "List_SelfTest p h l = SelfTest_with Append List_SanityCheck p h l"

fun test_drain :: "nat \<Rightarrow> 'a heap \<Rightarrow> List \<Rightarrow> ('a list \<times> 'a heap \<times> List) res" where
  "test_drain 0 h l = Inr ([], h, l)"
| "test_drain (Suc n) h l =
     bind_res (RemoveFront h l) (\<lambda>(q, h, l).
     bind_res (IsInList h l q) (\<lambda>b. ASSERT (\<not> b)
     (bind_res (test_drain n h l) (\<lambda>(qs, h, l). Inr (q # qs, h, l)))))"

fun test_order :: "'a compare \<Rightarrow> 'a list \<Rightarrow> unit res" where
  "test_order cmp (a # b # qs) = ASSERT (cmp a b \<le> 0) (test_order cmp (b # qs))"
| "test_order cmp _ = Inr ()"

definition SortedList_SelfTest :: "'a compare \<Rightarrow> 'a list \<Rightarrow> 'a heap \<Rightarrow> List \<Rightarrow> ('a heap \<times> List) res" where
  "SortedList_SelfTest cmp p h l =
     bind_res (SelfTest_with (Insert cmp) (SortedList_SanityCheck cmp) p h l) (\<lambda>(h, l).
     bind_res (test_add (Insert cmp) p h l False) (\<lambda>(h, l).
     bind_res (SortedList_SanityCheck cmp h l) (\<lambda>_.
     bind_res (test_drain (length p) h l) (\<lambda>(q, h, l).
     ASSERT (IsEmpty l)
     (bind_res (test_order cmp q) (\<lambda>_.
      bind_res (SortedList_SanityCheck cmp h l) (\<lambda>_. Inr (h, l))))))))"

section \<open>The shape of a list in the heap\<close>

fun seg :: "'a heap \<Rightarrow> nat option \<Rightarrow> nat list \<Rightarrow> nat option \<Rightarrow> bool" where
  "seg h p [] q \<longleftrightarrow> p = q"
| "seg h p (a # as) q \<longleftrightarrow> p = Some a \<and> (\<exists>e. cells h a = Some e \<and> seg h (nextp e) as q)"

definition items :: "'a heap \<Rightarrow> nat list \<Rightarrow> 'a list" where
  "items h as = map (\<lambda>a. item (the (cells h a))) as"

definition heap_ok :: "'a heap \<Rightarrow> bool" where
  "heap_ok h \<longleftrightarrow> (\<forall>a. brk h \<le> a \<longrightarrow> cells h a = None)"

definition list_ok :: "'a heap \<Rightarrow> List \<Rightarrow> nat list \<Rightarrow> bool" where
  "list_ok h l as \<longleftrightarrow> heap_ok h \<and> seg h (first l) as None \<and> distinct as
     \<and> last_elem l = (if as = [] then None else Some (last as)) \<and> numInList l = int (length as)"

text \<open>A list represents the items of its elements; an operation leaves every cell of other lists alone.\<close>

definition rep :: "'a heap \<Rightarrow> List \<Rightarrow> 'a list \<Rightarrow> bool" where
  "rep h l xs \<longleftrightarrow> (\<exists>as. list_ok h l as \<and> items h as = xs \<and> distinct xs)"

lemma items_simps [simp]: "items h [] = []" "items h (a # as) = item (the (cells h a)) # items h as"
  "items h (as @ bs) = items h as @ items h bs" "length (items h as) = length as" "items h as = [] \<longleftrightarrow> as = []"
  by (simp_all add: items_def)

lemma seg_append: "seg h p (as @ bs) q \<longleftrightarrow> (\<exists>r. seg h p as r \<and> seg h r bs q)"
  by (induction as arbitrary: p) auto

lemma seg_frame: "\<forall>a\<in>set as. cells h' a = cells h a \<Longrightarrow> seg h' p as q = seg h p as q"
  by (induction as arbitrary: p) auto

lemma items_frame: "\<forall>a\<in>set as. cells h' a = cells h a \<Longrightarrow> items h' as = items h as"
  by (simp add: items_def)

lemma items_same: "\<forall>a\<in>set as. map_option item (cells h' a) = map_option item (cells h a) \<and> cells h a \<noteq> None \<Longrightarrow> items h' as = items h as"
  by (induction as) (auto simp: items_def)

lemma seg_cell: "seg h p as q \<Longrightarrow> a \<in> set as \<Longrightarrow> \<exists>e. cells h a = Some e"
  by (induction as arbitrary: p) auto

lemma seg_below: "heap_ok h \<Longrightarrow> seg h p as q \<Longrightarrow> set as \<subseteq> {..<brk h}"
  using seg_cell [of h p as q] unfolding heap_ok_def by (fastforce simp: not_le [symmetric])

lemma seg_length: "heap_ok h \<Longrightarrow> seg h p as q \<Longrightarrow> distinct as \<Longrightarrow> length as \<le> brk h"
  using card_mono [OF finite_lessThan seg_below] by (metis card_lessThan distinct_card)

lemma find_item_seg:
  "seg h p as None \<Longrightarrow> length as < n \<Longrightarrow> find_item n h p x = Inr (x \<in> set (items h as))"
proof (induction n arbitrary: p as)
  case (Suc n)
  then show ?case by (cases as) (auto simp: deref_def)
qed simp

lemma IsInList_ok: "list_ok h l as \<Longrightarrow> IsInList h l x = Inr (x \<in> set (items h as))"
  unfolding IsInList_def list_ok_def by (intro find_item_seg) (auto dest: seg_length simp: less_Suc_eq_le)

lemma apply_loop_seg: "seg h p as None \<Longrightarrow> length as < n \<Longrightarrow> apply_loop n h p = Inr (items h as)"
proof (induction n arbitrary: p as)
  case (Suc n)
  then show ?case by (cases as) (auto simp: deref_def)
qed simp

lemma Apply_ok: "list_ok h l as \<Longrightarrow> Apply h l = Inr (items h as)"
  unfolding Apply_def list_ok_def by (intro apply_loop_seg) (auto dest: seg_length simp: less_Suc_eq_le)

lemma IsEmpty_ok: "list_ok h l as \<Longrightarrow> IsEmpty l \<longleftrightarrow> as = []"
  by (simp add: list_ok_def IsEmpty_def)

section \<open>Allocation\<close>

lemma new_cells:
  assumes "heap_ok h"
  shows "heap_ok (snd (ListElement_new x h))" "a < brk h \<Longrightarrow> cells (snd (ListElement_new x h)) a = cells h a"
  using assms by (auto simp: ListElement_new_def heap_ok_def)

lemma list_ok_new:
  assumes "list_ok h l as"
  shows "list_ok (snd (ListElement_new x h)) l as" "items (snd (ListElement_new x h)) as = items h as"
proof -
  have f: "\<forall>a\<in>set as. cells (snd (ListElement_new x h)) a = cells h a"
    using assms seg_below [of h "first l" as None] new_cells(2) [of h] by (auto simp: list_ok_def)
  from assms new_cells(1) [of h x] show "list_ok (snd (ListElement_new x h)) l as" "items (snd (ListElement_new x h)) as = items h as"
    by (simp_all add: list_ok_def seg_frame [OF f] items_frame [OF f])
qed

lemma seg_unlink_last:
  assumes "seg h p as None" "distinct as" "as \<noteq> []"
  shows "seg (h\<lparr>cells := (cells h)(last as \<mapsto> (the (cells h (last as)))\<lparr>nextp := q\<rparr>)\<rparr>) p as q"
  using assms
proof (induction as arbitrary: p)
  case (Cons a as)
  show ?case
  proof (cases "as = []")
    case False
    with Cons have "seg (h\<lparr>cells := (cells h)(last as \<mapsto> (the (cells h (last as)))\<lparr>nextp := q\<rparr>)\<rparr>) (nextp (the (cells h a))) as q"
      by (intro Cons.IH) auto
    moreover have "a \<noteq> last as" using Cons.prems False by auto
    ultimately show ?thesis using Cons.prems False by (auto simp: fun_upd_def)
  qed (use Cons.prems in auto)
qed simp

lemma items_link: "a \<in> set as \<Longrightarrow> cells h a = Some e \<Longrightarrow> items (h\<lparr>cells := (cells h)(a \<mapsto> e\<lparr>nextp := q\<rparr>)\<rparr>) as = items h as"
  by (auto simp: items_def)

lemma items_upd_next: "cells h a = Some e \<Longrightarrow> items (h\<lparr>cells := (cells h)(a \<mapsto> e\<lparr>nextp := q\<rparr>)\<rparr>) as = items h as"
  by (auto simp: items_def)

section \<open>Each operation on the list of items\<close>

text \<open>The cells an operation may change: its own elements and the new one.\<close>

definition frame :: "nat set \<Rightarrow> 'a heap \<Rightarrow> 'a heap \<Rightarrow> bool" where
  "frame A h h' \<longleftrightarrow> (\<forall>a. a \<notin> A \<and> a < brk h \<longrightarrow> cells h' a = cells h a) \<and> brk h \<le> brk h'"

text \<open>Linking a new element at either end.\<close>

lemma link_single:
  assumes "list_ok h l []" "cells h el = Some \<lparr>nextp = None, item = x\<rparr>"
  shows "list_ok h (l\<lparr>first := Some el, last_elem := Some el, numInList := numInList l + 1\<rparr>) [el]" "items h [el] = [x]"
  using assms by (simp_all add: list_ok_def)

lemma link_last:
  assumes l: "list_ok h l as" "as \<noteq> []" and el: "cells h el = Some \<lparr>nextp = None, item = x\<rparr>" "el \<notin> set as"
  shows "\<exists>h'. set_next h (last_elem l) (Some el) = Inr h' \<and> items h' (as @ [el]) = items h as @ [x]
    \<and> list_ok h' (l\<lparr>last_elem := Some el, numInList := numInList l + 1\<rparr>) (as @ [el]) \<and> frame (set as) h h'"
proof -
  have a: "last as \<in> set as" using l(2) by simp
  with l(1) obtain e where e: "cells h (last as) = Some e" using seg_cell [of h "first l" as None] by (auto simp: list_ok_def)
  let ?h = "h\<lparr>cells := (cells h)(last as \<mapsto> e\<lparr>nextp := Some el\<rparr>)\<rparr>"
  have ne: "el \<noteq> last as" using a el(2) by auto
  have "seg ?h (first l) as (Some el)"
    using seg_unlink_last [of h "first l" as "Some el"] l e by (simp add: list_ok_def)
  moreover have "seg ?h (Some el) [el] None" using el ne by simp
  ultimately have "seg ?h (first l) (as @ [el]) None" unfolding seg_append by blast
  moreover have "heap_ok ?h" using l(1) e by (auto simp: list_ok_def heap_ok_def)
  ultimately have "list_ok ?h (l\<lparr>last_elem := Some el, numInList := numInList l + 1\<rparr>) (as @ [el])"
    using l el(2) by (simp add: list_ok_def)
  moreover have "items ?h (as @ [el]) = items h as @ [x]" using items_upd_next [OF e, of "Some el" as] el ne by simp
  moreover have "set_next h (last_elem l) (Some el) = Inr ?h" using l e by (simp add: list_ok_def set_next_def deref_def)
  moreover have "frame (set as) h ?h" using a by (auto simp: frame_def)
  ultimately show ?thesis by blast
qed

lemma link_first:
  assumes l: "list_ok h l as" "as \<noteq> []" and el: "cells h el = Some \<lparr>nextp = None, item = x\<rparr>" "el \<notin> set as"
  shows "\<exists>h'. set_next h (Some el) (first l) = Inr h' \<and> items h' (el # as) = x # items h as
    \<and> list_ok h' (l\<lparr>first := Some el, numInList := numInList l + 1\<rparr>) (el # as) \<and> frame {el} h h'"
proof -
  let ?h = "h\<lparr>cells := (cells h)(el \<mapsto> \<lparr>nextp = first l, item = x\<rparr>)\<rparr>"
  have f: "\<forall>a\<in>set as. cells ?h a = cells h a" using el(2) by auto
  have "heap_ok ?h" using l(1) el(1) by (auto simp: list_ok_def heap_ok_def)
  then have "list_ok ?h (l\<lparr>first := Some el, numInList := numInList l + 1\<rparr>) (el # as)"
    using l el(2) seg_frame [OF f] by (auto simp: list_ok_def)
  moreover have "items ?h (el # as) = x # items h as" using items_frame [OF f] by simp
  moreover have "set_next h (Some el) (first l) = Inr ?h" using el(1) by (simp add: set_next_def deref_def)
  moreover have "frame {el} h ?h" by (auto simp: frame_def)
  ultimately show ?thesis by blast
qed

text \<open>What the three insertions share: the new element, and the test that the item is not there yet.\<close>

lemma insertion_start:
  assumes l: "list_ok h l as"
  obtains h1 where "ListElement_new x h = (brk h, h1)" "list_ok h1 l as" "items h1 as = items h as"
    "cells h1 (brk h) = Some \<lparr>nextp = None, item = x\<rparr>" "brk h \<notin> set as" "IsInList h1 l x = Inr (x \<in> set (items h as))"
    "\<And>h' A. frame A h1 h' \<Longrightarrow> frame (A - {brk h}) h h'" "brk h1 = brk h + 1"
proof (rule that [of "snd (ListElement_new x h)"])
  let ?h1 = "snd (ListElement_new x h)"
  show "ListElement_new x h = (brk h, ?h1)" "cells ?h1 (brk h) = Some \<lparr>nextp = None, item = x\<rparr>" "brk ?h1 = brk h + 1"
    by (simp_all add: ListElement_new_def)
  show "list_ok ?h1 l as" "items ?h1 as = items h as" using list_ok_new [OF l] by simp_all
  then show "IsInList ?h1 l x = Inr (x \<in> set (items h as))" using IsInList_ok [of ?h1 l as] by simp
  show "brk h \<notin> set as" using l seg_below [of h "first l" as None] by (auto simp: list_ok_def)
  show "frame (A - {brk h}) h h'" if "frame A ?h1 h'" for h' A using that by (auto simp: frame_def ListElement_new_def)
qed

lemma Append_ok:
  assumes l: "list_ok h l as"
  shows "if x \<in> set (items h as) then Append h l x = Inl AssertFailed
    else \<exists>h' l'. Append h l x = Inr (h', l') \<and> list_ok h' l' (as @ [brk h]) \<and> items h' (as @ [brk h]) = items h as @ [x]
      \<and> frame (set as) h h'"
proof -
  obtain h1 where h1: "ListElement_new x h = (brk h, h1)" "list_ok h1 l as" "items h1 as = items h as"
    "cells h1 (brk h) = Some \<lparr>nextp = None, item = x\<rparr>" "brk h \<notin> set as" "IsInList h1 l x = Inr (x \<in> set (items h as))"
    "\<And>h' A. frame A h1 h' \<Longrightarrow> frame (A - {brk h}) h h'" using insertion_start [OF l] by blast
  show ?thesis
  proof (cases "as = []")
    case True
    note ok = link_single [OF h1(2) [unfolded True] h1(4)]
    have "frame (set as) h h1" using h1(7) [of "{}" h1] by (simp add: frame_def)
    then show ?thesis using True h1(1-6) ok IsInList_ok [OF ok(1), of x] IsEmpty_ok [OF l] by (auto simp: Append_def Let_def)
  next
    case False
    obtain h' where h': "set_next h1 (last_elem l) (Some (brk h)) = Inr h'" "items h' (as @ [brk h]) = items h1 as @ [x]"
      "list_ok h' (l\<lparr>last_elem := Some (brk h), numInList := numInList l + 1\<rparr>) (as @ [brk h])" "frame (set as) h1 h'"
      using link_last [OF h1(2) False h1(4,5)] by blast
    show ?thesis using False h1(1-6) h' IsInList_ok [OF h'(3), of x] IsEmpty_ok [OF l] h1(7) [OF h'(4)]
      by (auto simp: Append_def Let_def)
  qed
qed

lemma Prepend_ok:
  assumes l: "list_ok h l as"
  shows "if x \<in> set (items h as) then Prepend h l x = Inl AssertFailed
    else \<exists>h' l'. Prepend h l x = Inr (h', l') \<and> list_ok h' l' (brk h # as) \<and> items h' (brk h # as) = x # items h as
      \<and> frame (set as) h h'"
proof -
  obtain h1 where h1: "ListElement_new x h = (brk h, h1)" "list_ok h1 l as" "items h1 as = items h as"
    "cells h1 (brk h) = Some \<lparr>nextp = None, item = x\<rparr>" "brk h \<notin> set as" "IsInList h1 l x = Inr (x \<in> set (items h as))"
    "\<And>h' A. frame A h1 h' \<Longrightarrow> frame (A - {brk h}) h h'" using insertion_start [OF l] by blast
  show ?thesis
  proof (cases "as = []")
    case True
    note ok = link_single [OF h1(2) [unfolded True] h1(4)]
    have "frame (set as) h h1" using h1(7) [of "{}" h1] by (simp add: frame_def)
    then show ?thesis using True h1(1-6) ok IsInList_ok [OF ok(1), of x] IsEmpty_ok [OF l] by (auto simp: Prepend_def Let_def)
  next
    case False
    obtain h' where h': "set_next h1 (Some (brk h)) (first l) = Inr h'" "items h' (brk h # as) = x # items h1 as"
      "list_ok h' (l\<lparr>first := Some (brk h), numInList := numInList l + 1\<rparr>) (brk h # as)" "frame {brk h} h1 h'"
      using link_first [OF h1(2) False h1(4,5)] by blast
    have "frame (set as) h h'" using h1(7) [OF h'(4)] by (auto simp: frame_def)
    then show ?thesis using False h1(1-6) h' IsInList_ok [OF h'(3), of x] IsEmpty_ok [OF l]
      by (auto simp: Prepend_def Let_def)
  qed
qed

lemma delete_simps [simp]: "brk (delete_elem h p) = brk h"
  by (simp add: delete_elem_def)

lemma heap_ok_delete: "heap_ok h \<Longrightarrow> heap_ok (delete_elem h p)"
  by (simp add: heap_ok_def delete_elem_def)

lemma RemoveFront_ok:
  assumes l: "list_ok h l (a # as)"
  shows "\<exists>l'. RemoveFront h l = Inr (item (the (cells h a)), delete_elem h (Some a), l')
    \<and> list_ok (delete_elem h (Some a)) l' as \<and> items (delete_elem h (Some a)) as = items h as"
proof -
  let ?h = "delete_elem h (Some a)"
  have f: "\<forall>b\<in>set as. cells ?h b = cells h b" using l by (auto simp: list_ok_def delete_elem_def)
  obtain e where e: "cells h a = Some e" "seg h (nextp e) as None" "first l = Some a" using l by (auto simp: list_ok_def)
  have one: "first l = last_elem l \<longleftrightarrow> as = []" using l e(3) by (cases as) (auto simp: list_ok_def)
  let ?l = "if as = [] then l\<lparr>first := None, last_elem := None, numInList := numInList l - 1\<rparr>
    else l\<lparr>first := nextp e, numInList := numInList l - 1\<rparr>"
  have "list_ok ?h ?l as"
    using l e heap_ok_delete [of h "Some a"] seg_frame [OF f] by (auto simp: list_ok_def)
  moreover have "RemoveFront h l = Inr (item e, ?h, ?l)"
  proof (cases "as = []")
    case True
    with e(2) have "nextp e = None" by simp
    have "last_elem l = Some a" using one True e(3) by simp
    then show ?thesis using True e(1,3) IsEmpty_ok [OF l] by (simp add: RemoveFront_def deref_def Let_def)
  next
    case False
    with one e(1,3) show ?thesis using IsEmpty_ok [OF l] by (simp add: RemoveFront_def deref_def Let_def)
  qed
  ultimately show ?thesis using e(1) items_frame [OF f] by auto
qed

text \<open>The search of \<open>Remove\<close>: between the elements already passed and those still ahead.\<close>

lemma remove_loop_ok:
  assumes "seg h (first l) (as @ [p] @ bs) None" "distinct (as @ [p] @ bs)" "heap_ok h" "length bs < n"
    and "last_elem l = Some (last (p # bs))" "numInList l = int (length (as @ [p] @ bs))" "x \<in> set (items h bs)" "distinct (items h bs)"
    and "ptr = nextp (the (cells h p))"
  shows "\<exists>h' l' cs ds d. remove_loop n h l (Some p) ptr x = Inr (h', l') \<and> bs = cs @ d # ds \<and> item (the (cells h d)) = x
    \<and> list_ok h' l' (as @ [p] @ cs @ ds) \<and> items h' (as @ [p] @ cs @ ds) = items h (as @ [p] @ cs @ ds)
    \<and> frame (set (as @ [p] @ bs)) h h'"
  using assms
proof (induction n arbitrary: as p bs ptr)
  case (Suc n)
  obtain d ds where bs: "bs = d # ds" using Suc.prems(7) by (cases bs) auto
  obtain ep ed where e: "cells h p = Some ep" "nextp ep = Some d" "cells h d = Some ed" "seg h (nextp ed) ds None"
    using Suc.prems(1) unfolding seg_append bs by auto
  have ptr: "ptr = Some d" using Suc.prems(9) e by simp
  have pd: "p \<noteq> d" "d \<notin> set ds" "p \<notin> set ds" "p \<notin> set as" "d \<notin> set as" using Suc.prems(2) bs by auto
  show ?case
  proof (cases "x = item ed")
    case True
    let ?h = "delete_elem (h\<lparr>cells := (cells h)(p \<mapsto> ep\<lparr>nextp := nextp ed\<rparr>)\<rparr>) (Some d)"
    let ?l = "l\<lparr>last_elem := (if nextp ed = None then Some p else last_elem l), numInList := numInList l - 1\<rparr>"
    have R: "remove_loop (Suc n) h l (Some p) ptr x = Inr (?h, ?l)"
      using True e ptr by (simp add: set_next_def deref_def Let_def)
    have f: "\<forall>a\<in>set as. cells ?h a = cells h a" "\<forall>a\<in>set ds. cells ?h a = cells h a" using pd by (auto simp: delete_elem_def)
    obtain r where r: "seg h (first l) as r" "r = Some p" using Suc.prems(1) unfolding seg_append by auto
    have "cells ?h p = Some (ep\<lparr>nextp := nextp ed\<rparr>)" using pd by (simp add: delete_elem_def)
    then have "seg ?h (Some p) ([p] @ ds) None" using e(4) seg_frame [OF f(2)] by simp
    moreover have "seg ?h (first l) as (Some p)" using r seg_frame [OF f(1)] by simp
    ultimately have "seg ?h (first l) (as @ [p] @ ds) None" unfolding seg_append [of _ _ as] by blast
    moreover have "ds = [] \<longleftrightarrow> nextp ed = None" using e(4) by (cases ds) auto
    moreover have "heap_ok ?h" using Suc.prems(3) e(1) by (intro heap_ok_delete) (auto simp: heap_ok_def)
    ultimately have "list_ok ?h ?l (as @ [p] @ ds)"
      using Suc.prems(2,5,6) bs by (auto simp: list_ok_def)
    moreover have "items ?h (as @ [p] @ ds) = items h (as @ [p] @ ds)"
      using items_frame [OF f(1)] items_frame [OF f(2)] e(1) pd by (simp add: delete_elem_def)
    moreover have "frame (set (as @ [p] @ bs)) h ?h" by (auto simp: frame_def delete_elem_def bs)
    ultimately show ?thesis using R e(3) bs True by (intro exI [of _ ?h] exI [of _ ?l] exI [of _ "[]"] exI [of _ ds] exI [of _ d]) simp
  next
    case False
    have "\<exists>h' l' cs es d'. remove_loop n h l (Some d) (nextp ed) x = Inr (h', l') \<and> ds = cs @ d' # es \<and> item (the (cells h d')) = x
      \<and> list_ok h' l' ((as @ [p]) @ [d] @ cs @ es) \<and> items h' ((as @ [p]) @ [d] @ cs @ es) = items h ((as @ [p]) @ [d] @ cs @ es)
      \<and> frame (set ((as @ [p]) @ [d] @ ds)) h h'"
      using Suc.prems False e bs by (intro Suc.IH) auto
    then obtain h' l' cs es d' where I: "remove_loop n h l (Some d) (nextp ed) x = Inr (h', l')" "ds = cs @ d' # es"
      "item (the (cells h d')) = x" "list_ok h' l' ((as @ [p]) @ [d] @ cs @ es)"
      "items h' ((as @ [p]) @ [d] @ cs @ es) = items h ((as @ [p]) @ [d] @ cs @ es)" "frame (set ((as @ [p]) @ [d] @ ds)) h h'"
      by (elim exE conjE)
    have "remove_loop (Suc n) h l (Some p) ptr x = Inr (h', l')" using False e ptr I(1) by (simp add: deref_def)
    then show ?thesis using I bs
      by (intro exI [of _ h'] exI [of _ l'] exI [of _ "d # cs"] exI [of _ es] exI [of _ d']) simp
  qed
qed simp

lemma Remove_ok:
  assumes l: "list_ok h l as" and x: "x \<in> set (items h as)" and d: "distinct (items h as)"
  shows "\<exists>h' l' as'. Remove h l x = Inr (h', l') \<and> list_ok h' l' as' \<and> items h' as' = remove1 x (items h as)
    \<and> set as' \<subseteq> set as \<and> frame (set as) h h'"
proof -
  obtain a bs where as: "as = a # bs" using x by (cases as) auto
  obtain e where e: "cells h a = Some e" "first l = Some a" using l as by (auto simp: list_ok_def)
  have fin: "Remove h l x = Inr (h', l')"
    if "(if x = item e then bind_res (RemoveFront h l) (\<lambda>(removed, h, l). ASSERT (x = removed) (Inr (h, l)))
         else remove_loop (brk h + 1) h l (first l) (nextp e) x) = Inr (h', l')"
      "list_ok h' l' as'" "items h' as' = remove1 x (items h as)" for h' l' as'
    using that IsInList_ok [OF l, of x] IsInList_ok [OF that(2), of x] x d e
    by (simp add: Remove_def deref_def)
  show ?thesis
  proof (cases "x = item e")
    case True
    obtain l' where r: "RemoveFront h l = Inr (item e, delete_elem h (Some a), l')"
      "list_ok (delete_elem h (Some a)) l' bs" "items (delete_elem h (Some a)) bs = items h bs"
      using RemoveFront_ok [OF l [unfolded as]] e by auto
    have "Remove h l x = Inr (delete_elem h (Some a), l')" using True r e as by (intro fin) auto
    moreover have "frame (set as) h (delete_elem h (Some a))" by (auto simp: frame_def delete_elem_def as)
    ultimately show ?thesis using r True e as by (intro exI [of _ "delete_elem h (Some a)"] exI [of _ l'] exI [of _ bs]) auto
  next
    case False
    have "\<exists>h' l' cs ds d. remove_loop (brk h + 1) h l (Some a) (nextp e) x = Inr (h', l') \<and> bs = cs @ d # ds \<and> item (the (cells h d)) = x
      \<and> list_ok h' l' ([] @ [a] @ cs @ ds) \<and> items h' ([] @ [a] @ cs @ ds) = items h ([] @ [a] @ cs @ ds)
      \<and> frame (set ([] @ [a] @ bs)) h h'"
      using l as x d False e seg_length [of h "first l" as None] by (intro remove_loop_ok) (auto simp: list_ok_def)
    then obtain h' l' cs ds d' where r: "remove_loop (brk h + 1) h l (Some a) (nextp e) x = Inr (h', l')" "bs = cs @ d' # ds"
      "item (the (cells h d')) = x" "list_ok h' l' (a # cs @ ds)" "items h' (a # cs @ ds) = items h (a # cs @ ds)" "frame (set as) h h'"
      unfolding as append_Nil append_Cons by (elim exE conjE)
    have "x \<notin> set (items h cs)" using d as r(2,3) by auto
    then have rm: "remove1 x (items h as) = items h (a # cs @ ds)" using False e as r(2,3) by (simp add: remove1_append)
    have "Remove h l x = Inr (h', l')" using False r e rm by (intro fin [of _ _ "a # cs @ ds"]) auto
    with r rm as show ?thesis by (intro exI [of _ h'] exI [of _ l'] exI [of _ "a # cs @ ds"]) auto
  qed
qed

definition link_after :: "'a heap \<Rightarrow> nat \<Rightarrow> nat \<Rightarrow> 'a heap" where
  "link_after h p el = h\<lparr>cells := (cells h)(el \<mapsto> (the (cells h el))\<lparr>nextp := nextp (the (cells h p))\<rparr>,
     p \<mapsto> (the (cells h p))\<lparr>nextp := Some el\<rparr>)\<rparr>"

lemma link_after_seg:
  assumes "seg h q (as @ [p] @ ds) None" "distinct (as @ [p] @ ds)" "el \<notin> set (as @ [p] @ ds)" "cells h el = Some e" "heap_ok h"
  shows "seg (link_after h p el) q (as @ [p] @ [el] @ ds) None" "items (link_after h p el) bs = items h bs" "heap_ok (link_after h p el)"
    "frame (insert el (insert p A)) h (link_after h p el)" "brk (link_after h p el) = brk h"
proof -
  let ?h = "link_after h p el"
  obtain ep where p: "cells h p = Some ep" "seg h (nextp ep) ds None" "seg h q as (Some p)"
    using assms(1) unfolding seg_append by auto
  have ne: "p \<noteq> el" "p \<notin> set as" "p \<notin> set ds" using assms(2,3) by auto
  have f: "\<forall>a\<in>set as. cells ?h a = cells h a" "\<forall>a\<in>set ds. cells ?h a = cells h a" using assms(3) ne by (auto simp: link_after_def)
  have c: "cells ?h p = Some (ep\<lparr>nextp := Some el\<rparr>)" "cells ?h el = Some (e\<lparr>nextp := nextp ep\<rparr>)" using p ne assms(4) by (auto simp: link_after_def)
  have "seg ?h (Some p) ([p] @ [el] @ ds) None" using c p(2) seg_frame [OF f(2)] by simp
  moreover have "seg ?h q as (Some p)" using p(3) seg_frame [OF f(1)] by simp
  ultimately show "seg ?h q (as @ [p] @ [el] @ ds) None" unfolding seg_append [of _ _ as] by blast
  show "items ?h bs = items h bs" using p(1) assms(4) ne by (auto simp: items_def link_after_def)
  show "heap_ok ?h" using assms(5) p(1) assms(4) by (auto simp: heap_ok_def link_after_def)
qed (auto simp: frame_def link_after_def)

definition after :: "'a compare \<Rightarrow> 'a \<Rightarrow> 'a \<Rightarrow> bool" where "after cmp x y \<longleftrightarrow> \<not> cmp x y < 0"

lemma insert_loop_ok:
  fixes cmp :: "'a compare" and x :: 'a and h :: "'a heap"
  defines "P \<equiv> \<lambda>b. after cmp x (item (the (cells h b)))"
  assumes "seg h q (as @ [p] @ bs) None" "distinct (as @ [p] @ bs)" "el \<notin> set (as @ [p] @ bs)" "cells h el = Some e" "length bs < n"
  shows "insert_loop n cmp h (Some p) x el
    = Inr (if dropWhile P bs = [] then None else Some (link_after h (last (p # takeWhile P bs)) el))"
  using assms(2-)
proof (induction n arbitrary: as p bs)
  case (Suc n)
  obtain ep where p: "cells h p = Some ep" "seg h (nextp ep) bs None" using Suc.prems(1) unfolding seg_append by auto
  have pe: "p \<noteq> el" using Suc.prems(3) by auto
  show ?case
  proof (cases bs)
    case Nil
    then show ?thesis using p by (simp add: deref_def)
  next
    case (Cons b bs')
    obtain eb where b: "nextp ep = Some b" "cells h b = Some eb" using p(2) Cons by auto
    show ?thesis
    proof (cases "P b")
      case False
      then show ?thesis
        using p b pe Suc.prems(4) Cons by (simp add: P_def after_def deref_def set_next_def link_after_def)
    next
      case True
      have "insert_loop n cmp h (Some b) x el
          = Inr (if dropWhile P bs' = [] then None else Some (link_after h (last (b # takeWhile P bs')) el))"
        using Suc.prems Cons by (intro Suc.IH [of "as @ [p]"]) auto
      moreover have "insert_loop (Suc n) cmp h (Some p) x el = insert_loop n cmp h (Some b) x el"
        using True p b by (simp add: P_def after_def deref_def)
      ultimately show ?thesis using True Cons by simp
    qed
  qed
qed simp

lemma items_map_pred:
  "takeWhile P (items h bs) = items h (takeWhile (\<lambda>b. P (item (the (cells h b)))) bs)"
  "dropWhile P (items h bs) = items h (dropWhile (\<lambda>b. P (item (the (cells h b)))) bs)"
  by (simp_all add: items_def takeWhile_map dropWhile_map comp_def)

definition sorted_insert :: "'a compare \<Rightarrow> 'a \<Rightarrow> 'a list \<Rightarrow> 'a list" where
  "sorted_insert cmp x ys = takeWhile (after cmp x) ys @ x # dropWhile (after cmp x) ys"

lemma Insert_middle:
  assumes l: "list_ok h l (a # bs)" and el: "cells h el = Some \<lparr>nextp = None, item = x\<rparr>" "el \<notin> set (a # bs)"
    and p: "after cmp x (item (the (cells h a)))"
  shows "\<exists>r. insert_loop (brk h + 1) cmp h (first l) x el = Inr r \<and>
    (case r of
       None \<Rightarrow> \<forall>y\<in>set (items h (a # bs)). after cmp x y
     | Some h' \<Rightarrow> \<exists>as'. list_ok h' (l\<lparr>numInList := numInList l + 1\<rparr>) as' \<and> items h' as' = sorted_insert cmp x (items h (a # bs))
         \<and> frame (insert el (set (a # bs))) h h')"
proof -
  define P where "P = (\<lambda>b. after cmp x (item (the (cells h b))))"
  have L: "insert_loop (brk h + 1) cmp h (first l) x el
      = Inr (if dropWhile P bs = [] then None else Some (link_after h (last (a # takeWhile P bs)) el))"
    using insert_loop_ok [of h "first l" "[]" a bs el _ "brk h + 1" cmp x] l el seg_length [of h "first l" "a # bs" None]
    by (auto simp: list_ok_def P_def)
  show ?thesis
  proof (cases "dropWhile P bs = []")
    case True
    then have "\<forall>b\<in>set bs. P b" by (simp add: dropWhile_eq_Nil_conv)
    then have "\<forall>y\<in>set (items h (a # bs)). after cmp x y" using p by (auto simp: P_def items_def)
    then show ?thesis using L True by simp
  next
    case False
    define cs ds where "cs = butlast (a # takeWhile P bs)" and "ds = dropWhile P bs"
    define z where "z = last (a # takeWhile P bs)"
    have split: "a # takeWhile P bs = cs @ [z]" by (simp add: cs_def z_def)
    have "a # bs = (a # takeWhile P bs) @ ds" by (simp add: ds_def)
    then have as: "a # bs = cs @ [z] @ ds" unfolding split by simp
    have ok: "seg h (first l) (cs @ [z] @ ds) None" "distinct (cs @ [z] @ ds)" "el \<notin> set (cs @ [z] @ ds)" "heap_ok h"
      using l el(2) unfolding as by (simp_all add: list_ok_def)
    note s = link_after_seg [OF ok(1-3) el(1) ok(4)]
    have ne: "ds \<noteq> []" using False by (simp only: ds_def not_False_eq_True)
    then have "last_elem l = Some (last ds)" "numInList l = int (length (cs @ [z] @ ds))" using l unfolding as by (simp_all add: list_ok_def)
    then have "list_ok (link_after h z el) (l\<lparr>numInList := numInList l + 1\<rparr>) (cs @ [z] @ [el] @ ds)"
      using s ok ne by (simp add: list_ok_def)
    moreover have "items (link_after h z el) (cs @ [z] @ [el] @ ds) = sorted_insert cmp x (items h (a # bs))"
    proof -
      have "items h (a # takeWhile P bs) = items h (cs @ [z])" by (simp only: split)
      then have "items h (cs @ [z] @ [el] @ ds) = items h (a # takeWhile P bs) @ x # items h ds" using el(1) by simp
      also have "\<dots> = sorted_insert cmp x (items h (a # bs))"
        using p by (simp add: sorted_insert_def items_map_pred P_def ds_def)
      finally show ?thesis by (simp only: s(2))
    qed
    moreover have "frame (insert el (set (a # bs))) h (link_after h z el)"
      using s(4) [of "set (a # bs)"] as by (auto simp: frame_def)
    ultimately show ?thesis using L False by (auto simp: z_def)
  qed
qed

lemma Insert_ok:
  assumes l: "list_ok h l as"
  shows "if x \<in> set (items h as) then Insert cmp h l x = Inl AssertFailed
    else \<exists>h' l' as'. Insert cmp h l x = Inr (h', l') \<and> list_ok h' l' as' \<and> items h' as' = sorted_insert cmp x (items h as)
      \<and> frame (set as) h h'"
proof -
  obtain h1 where h1: "ListElement_new x h = (brk h, h1)" "list_ok h1 l as" "items h1 as = items h as"
    "cells h1 (brk h) = Some \<lparr>nextp = None, item = x\<rparr>" "brk h \<notin> set as" "IsInList h1 l x = Inr (x \<in> set (items h as))"
    "\<And>h' A. frame A h1 h' \<Longrightarrow> frame (A - {brk h}) h h'" using insertion_start [OF l] by blast
  show ?thesis
  proof (cases as)
    case Nil
    note ok = link_single [OF h1(2) [unfolded Nil] h1(4)]
    have "frame (set as) h h1" using h1(7) [of "{}" h1] by (simp add: frame_def)
    then show ?thesis using Nil h1(1-6) ok IsInList_ok [OF ok(1), of x] IsEmpty_ok [OF l]
      by (auto simp: Insert_def Let_def sorted_insert_def)
  next
    case (Cons a bs)
    then have ne: "as \<noteq> []" by simp
    obtain ea where a: "cells h1 a = Some ea" "first l = Some a" using h1(2) Cons by (auto simp: list_ok_def)
    show ?thesis
    proof (cases "after cmp x (item ea)")
      case False
      obtain h' where h': "set_next h1 (Some (brk h)) (first l) = Inr h'" "items h' (brk h # as) = x # items h1 as"
        "list_ok h' (l\<lparr>first := Some (brk h), numInList := numInList l + 1\<rparr>) (brk h # as)" "frame {brk h} h1 h'"
        using link_first [OF h1(2) ne h1(4,5)] by blast
      have "frame (set as) h h'" using h1(7) [OF h'(4)] by (auto simp: frame_def)
      moreover have "sorted_insert cmp x (items h as) = x # items h as"
        using False a Cons h1(3) by (simp add: sorted_insert_def flip: h1(3))
      ultimately show ?thesis using False a h1(1-6) h' IsInList_ok [OF h'(3), of x] IsEmpty_ok [OF l] ne
        by (auto simp: Insert_def Let_def deref_def after_def)
    next
      case True
      have el: "brk h \<notin> set (a # bs)" using h1(5) Cons by simp
      obtain r where r: "insert_loop (brk h1 + 1) cmp h1 (first l) x (brk h) = Inr r"
        "case r of None \<Rightarrow> \<forall>y\<in>set (items h1 (a # bs)). after cmp x y
         | Some h' \<Rightarrow> \<exists>as'. list_ok h' (l\<lparr>numInList := numInList l + 1\<rparr>) as' \<and> items h' as' = sorted_insert cmp x (items h1 (a # bs))
             \<and> frame (insert (brk h) (set (a # bs))) h1 h'"
        using Insert_middle [OF h1(2) [unfolded Cons] h1(4) el, of cmp] True a by auto
      show ?thesis
      proof (cases r)
        case (Some h')
        with r obtain as' where "list_ok h' (l\<lparr>numInList := numInList l + 1\<rparr>) as'"
          "items h' as' = sorted_insert cmp x (items h1 (a # bs))" "frame (insert (brk h) (set (a # bs))) h1 h'" by auto
        moreover from this(3) have "frame (set as) h h'" using h1(7) [of "insert (brk h) (set (a # bs))" h'] Cons by (auto simp: frame_def)
        ultimately show ?thesis using Some r(1) True a h1(1-6) IsEmpty_ok [OF l] ne Cons
          by (auto simp: Insert_def Let_def deref_def after_def)
      next
        case None
        obtain h' where h': "set_next h1 (last_elem l) (Some (brk h)) = Inr h'" "items h' (as @ [brk h]) = items h1 as @ [x]"
          "list_ok h' (l\<lparr>last_elem := Some (brk h), numInList := numInList l + 1\<rparr>) (as @ [brk h])" "frame (set as) h1 h'"
          using link_last [OF h1(2) ne h1(4,5)] by blast
        have "frame (set as) h h'" using h1(7) [OF h'(4)] by (auto simp: frame_def)
        moreover have "sorted_insert cmp x (items h as) = items h as @ [x]"
          using r(2) None Cons h1(3) by (simp add: sorted_insert_def takeWhile_eq_all_conv [THEN iffD2] dropWhile_eq_Nil_conv [THEN iffD2] flip: h1(3))
        ultimately show ?thesis using None r(1) True a h1(1-6) h' IsInList_ok [OF h'(3), of x] IsEmpty_ok [OF l] ne
          by (auto simp: Insert_def Let_def deref_def after_def)
      qed
    qed
  qed
qed

section \<open>The checks\<close>

lemma sanity_loop_ok:
  assumes "seg h p (as @ [z]) None" "distinct (as @ [z])" "last_elem l = Some z" "k + int (length as) \<le> numInList l" "length as < n"
  shows "sanity_loop n h l p k = Inr (k + int (length as))"
  using assms
proof (induction n arbitrary: p as k)
  case (Suc n)
  show ?case
  proof (cases as)
    case Nil
    then show ?thesis using Suc.prems by simp
  next
    case (Cons a as')
    obtain e where e: "p = Some a" "cells h a = Some e" "seg h (nextp e) (as' @ [z]) None" using Suc.prems(1) Cons by auto
    have "a \<noteq> z" using Suc.prems(2) Cons by auto
    moreover have "sanity_loop n h l (nextp e) (k + 1) = Inr (k + 1 + int (length as'))"
      using Suc.prems Cons e by (intro Suc.IH) auto
    ultimately show ?thesis using Suc.prems e Cons by (simp add: deref_def algebra_simps)
  qed
qed simp

lemma List_SanityCheck_ok: "list_ok h l as \<Longrightarrow> List_SanityCheck h l = Inr ()"
proof (cases as rule: rev_cases)
  case (snoc bs z)
  assume l: "list_ok h l as"
  then have z: "last_elem l = Some z" "numInList l = int (length bs) + 1" using snoc by (simp_all add: list_ok_def)
  obtain r e where e: "seg h (first l) bs r" "cells h z = Some e" "nextp e = None" "r = Some z"
    using l snoc by (auto simp: list_ok_def seg_append)
  show ?thesis
  proof (cases bs)
    case Nil
    then show ?thesis using e z by (simp add: List_SanityCheck_def deref_def)
  next
    case (Cons b bs')
    have "first l = Some b" "b \<noteq> z" using e(1) Cons l snoc by (auto simp: list_ok_def)
    moreover have "sanity_loop (nat (numInList l) + 1) h l (first l) 1 = Inr (1 + int (length bs))"
      using l snoc z by (intro sanity_loop_ok) (auto simp: list_ok_def)
    ultimately show ?thesis using z e by (simp add: List_SanityCheck_def deref_def)
  qed
qed (simp add: list_ok_def List_SanityCheck_def)

lemma sorted_loop_ok:
  assumes "seg h (Some p) (p # as) None" "length as < n" "sorted_wrt (\<lambda>x y. cmp x y \<le> 0) (items h (p # as))"
  shows "sorted_loop n cmp h (Some p) (nextp (the (cells h p))) = Inr ()"
  using assms
proof (induction n arbitrary: p as)
  case (Suc n)
  show ?case
  proof (cases as)
    case (Cons a as')
    then obtain e ea where e: "cells h p = Some e" "nextp e = Some a" "cells h a = Some ea" using Suc.prems(1) by auto
    have "sorted_loop n cmp h (Some a) (nextp (the (cells h a))) = Inr ()"
      using Suc.prems Cons by (intro Suc.IH) auto
    then show ?thesis using e Suc.prems(3) Cons by (simp add: deref_def)
  qed (use Suc.prems in auto)
qed simp

lemma SortedList_SanityCheck_ok:
  assumes l: "list_ok h l as" and s: "sorted_wrt (\<lambda>x y. cmp x y \<le> 0) (items h as)"
  shows "SortedList_SanityCheck cmp h l = Inr ()"
proof (cases as)
  case (Cons a bs)
  obtain e where e: "cells h a = Some e" "first l = Some a" using l Cons by (auto simp: list_ok_def)
  have "length bs < brk h + 1" using seg_length [of h "first l" as None] l Cons by (simp add: list_ok_def)
  then have "sorted_loop (brk h + 1) cmp h (Some a) (nextp (the (cells h a))) = Inr ()"
    using l s Cons e by (intro sorted_loop_ok) (auto simp: list_ok_def)
  then show ?thesis using e List_SanityCheck_ok [OF l] by (simp add: SortedList_SanityCheck_def deref_def)
qed (use l List_SanityCheck_ok [OF l] in \<open>simp add: SortedList_SanityCheck_def list_ok_def\<close>)

section \<open>The contract of a list of distinct items\<close>

text \<open>
  What the clients of a list rely on: an insertion puts a new item where \<open>place\<close> says and refuses an old one,
  the front can be taken off, any item can be removed, and membership is exact.
\<close>

locale item_list =
  fixes rep :: "'h \<Rightarrow> 'l \<Rightarrow> 'a list \<Rightarrow> bool"
    and place :: "'a \<Rightarrow> 'a list \<Rightarrow> 'a list"
    and add :: "'h \<Rightarrow> 'l \<Rightarrow> 'a \<Rightarrow> ('h \<times> 'l) res"
    and remove :: "'h \<Rightarrow> 'l \<Rightarrow> 'a \<Rightarrow> ('h \<times> 'l) res"
    and removeFront :: "'h \<Rightarrow> 'l \<Rightarrow> ('a \<times> 'h \<times> 'l) res"
    and isInList :: "'h \<Rightarrow> 'l \<Rightarrow> 'a \<Rightarrow> bool res"
  assumes rep_distinct: "rep h l xs \<Longrightarrow> distinct xs"
    and set_place: "set (place x xs) = insert x (set xs)"
    and add_new: "rep h l xs \<Longrightarrow> x \<notin> set xs \<Longrightarrow> \<exists>h' l'. add h l x = Inr (h', l') \<and> rep h' l' (place x xs)"
    and add_old: "rep h l xs \<Longrightarrow> x \<in> set xs \<Longrightarrow> add h l x = Inl AssertFailed"
    and remove_item: "rep h l xs \<Longrightarrow> x \<in> set xs \<Longrightarrow> \<exists>h' l'. remove h l x = Inr (h', l') \<and> rep h' l' (remove1 x xs)"
    and remove_front: "rep h l (x # xs) \<Longrightarrow> \<exists>h' l'. removeFront h l = Inr (x, h', l') \<and> rep h' l' xs"
    and remove_front_empty: "rep h l [] \<Longrightarrow> removeFront h l = Inl AssertFailed"
    and is_in_list: "rep h l xs \<Longrightarrow> isInList h l x = Inr (x \<in> set xs)"
begin

fun add_all :: "'a list \<Rightarrow> 'h \<Rightarrow> 'l \<Rightarrow> ('h \<times> 'l) res" where
  "add_all [] h l = Inr (h, l)"
| "add_all (x # xs) h l = bind_res (add h l x) (\<lambda>(h, l). add_all xs h l)"

fun take_all :: "nat \<Rightarrow> 'h \<Rightarrow> 'l \<Rightarrow> ('a list \<times> 'h \<times> 'l) res" where
  "take_all 0 h l = Inr ([], h, l)"
| "take_all (Suc n) h l =
     bind_res (removeFront h l) (\<lambda>(x, h, l). bind_res (take_all n h l) (\<lambda>(xs, h, l). Inr (x # xs, h, l)))"

lemma add_all_ok:
  assumes "rep h l ys" "distinct xs" "set xs \<inter> set ys = {}"
  shows "\<exists>h' l'. add_all xs h l = Inr (h', l') \<and> rep h' l' (fold place xs ys)"
  using assms
proof (induction xs arbitrary: h l ys)
  case (Cons x xs)
  then obtain h1 l1 where a: "add h l x = Inr (h1, l1)" "rep h1 l1 (place x ys)" using add_new [of h l ys x] by auto
  then have "\<exists>h' l'. add_all xs h1 l1 = Inr (h', l') \<and> rep h' l' (fold place xs (place x ys))"
    using Cons by (intro Cons.IH) (auto simp: set_place)
  with a show ?case by simp
qed auto

lemma take_all_ok: "rep h l xs \<Longrightarrow> \<exists>h' l'. take_all (length xs) h l = Inr (xs, h', l') \<and> rep h' l' []"
proof (induction xs arbitrary: h l)
  case (Cons x xs)
  from remove_front [OF Cons.prems] obtain h1 l1 where r: "removeFront h l = Inr (x, h1, l1)" "rep h1 l1 xs" by blast
  from Cons.IH [OF r(2)] r(1) show ?case by auto
qed auto

text \<open>What went in comes out, in the order \<open>place\<close> puts it.\<close>

lemma drain:
  assumes "rep h l []" "distinct xs"
  shows "\<exists>h1 l1 h2 l2. add_all xs h l = Inr (h1, l1) \<and> take_all (length xs) h1 l1 = Inr (fold place xs [], h2, l2) \<and> rep h2 l2 []"
proof -
  obtain h1 l1 where a: "add_all xs h l = Inr (h1, l1)" "rep h1 l1 (fold place xs [])"
    using add_all_ok [OF assms(1,2)] by auto
  have "length (fold place xs []) = length xs"
  proof -
    have "set (fold place xs ys) = set xs \<union> set ys" for ys
      by (induction xs arbitrary: ys) (auto simp: set_place)
    then show ?thesis using assms(2) rep_distinct [OF a(2)] by (metis distinct_card sup_bot_right list.set(1))
  qed
  with take_all_ok [OF a(2)] a(1) show ?thesis by auto
qed

end

lemma rep_new: "heap_ok h \<Longrightarrow> rep h List_new []"
  by (auto simp: rep_def list_ok_def List_new_def intro!: exI [of _ "[]"])

lemma rep_remove:
  assumes "rep h l xs" "x \<in> set xs"
  shows "\<exists>h' l'. Remove h l x = Inr (h', l') \<and> rep h' l' (remove1 x xs)"
  using assms Remove_ok [of h l _ x] unfolding rep_def by (metis distinct_remove1)

lemma rep_remove_front:
  assumes "rep h l (x # xs)"
  shows "\<exists>h' l'. RemoveFront h l = Inr (x, h', l') \<and> rep h' l' xs"
proof -
  from assms obtain as where as: "list_ok h l as" "items h as = x # xs" "distinct (x # xs)" by (auto simp: rep_def)
  then obtain a bs where "as = a # bs" by (cases as) auto
  with RemoveFront_ok [of h l a bs] as show ?thesis unfolding rep_def by auto
qed

lemma rep_remove_front_empty: "rep h l [] \<Longrightarrow> RemoveFront h l = Inl AssertFailed"
  by (auto simp: rep_def RemoveFront_def list_ok_def IsEmpty_def)

lemma rep_distinctD: "rep h l xs \<Longrightarrow> distinct xs"
  by (auto simp: rep_def)

lemma rep_is_in_list: "rep h l xs \<Longrightarrow> IsInList h l x = Inr (x \<in> set xs)"
  by (auto simp: rep_def IsInList_ok)

lemma set_sorted_insert: "set (sorted_insert cmp x ys) = insert x (set ys)"
  using takeWhile_dropWhile_id [of "after cmp x" ys] unfolding sorted_insert_def by (metis Un_insert_right list.simps(15) set_append)

lemma distinct_sorted_insert: "distinct ys \<Longrightarrow> x \<notin> set ys \<Longrightarrow> distinct (sorted_insert cmp x ys)"
proof -
  assume "distinct ys" "x \<notin> set ys"
  then have "distinct (takeWhile (after cmp x) ys @ dropWhile (after cmp x) ys)" "x \<notin> set (takeWhile (after cmp x) ys @ dropWhile (after cmp x) ys)"
    by simp_all
  then show ?thesis unfolding sorted_insert_def by (auto simp del: takeWhile_dropWhile_id)
qed

lemma rep_insert:
  "rep h l xs \<Longrightarrow> x \<notin> set xs \<Longrightarrow> \<exists>h' l'. Insert cmp h l x = Inr (h', l') \<and> rep h' l' (sorted_insert cmp x xs)"
  "rep h l xs \<Longrightarrow> x \<in> set xs \<Longrightarrow> Insert cmp h l x = Inl AssertFailed"
  using Insert_ok [of h l _ x cmp] distinct_sorted_insert [of xs x cmp] by (fastforce simp: rep_def)+

lemma rep_append:
  "rep h l xs \<Longrightarrow> x \<notin> set xs \<Longrightarrow> \<exists>h' l'. Append h l x = Inr (h', l') \<and> rep h' l' (xs @ [x])"
  "rep h l xs \<Longrightarrow> x \<in> set xs \<Longrightarrow> Append h l x = Inl AssertFailed"
  using Append_ok [of h l _ x] by (fastforce simp: rep_def)+

lemma rep_prepend:
  "rep h l xs \<Longrightarrow> x \<notin> set xs \<Longrightarrow> \<exists>h' l'. Prepend h l x = Inr (h', l') \<and> rep h' l' (x # xs)"
  "rep h l xs \<Longrightarrow> x \<in> set xs \<Longrightarrow> Prepend h l x = Inl AssertFailed"
  using Prepend_ok [of h l _ x] by (fastforce simp: rep_def)+

lemmas rep_laws = rep_remove rep_remove_front rep_remove_front_empty rep_is_in_list

interpretation fifo: item_list rep "\<lambda>x xs. xs @ [x]" Append Remove RemoveFront IsInList
  by unfold_locales (auto simp: rep_laws rep_append dest: rep_distinctD)

interpretation lifo: item_list rep "(#)" Prepend Remove RemoveFront IsInList
  by unfold_locales (auto simp: rep_laws rep_prepend dest: rep_distinctD)

interpretation sorted: item_list rep "sorted_insert cmp" "Insert cmp" Remove RemoveFront IsInList for cmp
  by unfold_locales (auto simp: rep_laws rep_insert set_sorted_insert dest: rep_distinctD)

section \<open>The self tests pass\<close>

lemma rep_empty: "rep h l [] \<Longrightarrow> IsEmpty l \<and> first l = None"
  by (auto simp: rep_def list_ok_def IsEmpty_def)

lemma rep_nonempty: "rep h l xs \<Longrightarrow> xs \<noteq> [] \<Longrightarrow> \<not> IsEmpty l"
  by (auto simp: rep_def list_ok_def IsEmpty_def)

lemma test_add_ok:
  assumes "item_list rep place add Remove RemoveFront IsInList" "rep h l ys" "distinct xs" "set xs \<inter> set ys = {}"
  shows "\<exists>h' l'. test_add add xs h l c = Inr (h', l') \<and> rep h' l' (fold place xs ys)"
  using assms(2-)
proof (induction xs arbitrary: h l ys)
  case (Cons x xs)
  note I = assms(1)
  obtain h1 l1 where a: "add h l x = Inr (h1, l1)" "rep h1 l1 (place x ys)"
    using item_list.add_new [OF I Cons.prems(1), of x] Cons.prems by auto
  note s = item_list.set_place [OF I]
  have "\<exists>h' l'. test_add add xs h1 l1 c = Inr (h', l') \<and> rep h' l' (fold place xs (place x ys))"
    using Cons a(2) by (intro Cons.IH) (auto simp: s)
  moreover have "place x ys \<noteq> []" using s [of x ys] by auto
  ultimately show ?case using a rep_is_in_list [OF a(2), of x] rep_nonempty [OF a(2)] s [of x ys] by auto
qed auto

lemma test_remove_ok:
  assumes "rep h l ys" "distinct xs" "set xs \<subseteq> set ys"
  shows "\<exists>h' l'. test_remove xs h l = Inr (h', l') \<and> rep h' l' (fold remove1 xs ys)"
  using assms
proof (induction xs arbitrary: h l ys)
  case (Cons x xs)
  then obtain h1 l1 where r: "Remove h l x = Inr (h1, l1)" "rep h1 l1 (remove1 x ys)" using rep_remove [of h l ys x] by auto
  have d: "distinct ys" using Cons.prems(1) by (rule rep_distinctD)
  have "\<exists>h' l'. test_remove xs h1 l1 = Inr (h', l') \<and> rep h' l' (fold remove1 xs (remove1 x ys))"
    using Cons r(2) d by (intro Cons.IH) auto
  then show ?case using r rep_is_in_list [OF r(2), of x] d by auto
qed auto

lemma test_drain_ok: "rep h l xs \<Longrightarrow> \<exists>h' l'. test_drain (length xs) h l = Inr (xs, h', l') \<and> rep h' l' []"
proof (induction xs arbitrary: h l)
  case (Cons x xs)
  from rep_remove_front [OF Cons.prems] obtain h1 l1 where r: "RemoveFront h l = Inr (x, h1, l1)" "rep h1 l1 xs" by blast
  moreover have "x \<notin> set xs" using Cons.prems by (auto simp: rep_def)
  ultimately show ?case using Cons.IH [OF r(2)] rep_is_in_list [OF r(2), of x] by auto
qed auto

lemma set_fold_remove1: "distinct ys \<Longrightarrow> set (fold remove1 xs ys) = set ys - set xs"
  by (induction xs arbitrary: ys) auto

lemma set_fold_place:
  assumes "\<And>x ys. set (place x ys) = insert x (set ys)"
  shows "set (fold place xs ys) = set xs \<union> set ys"
  by (induction xs arbitrary: ys) (auto simp: assms)

lemma SelfTest_with_ok:
  assumes I: "item_list rep place add Remove RemoveFront IsInList" and l: "rep h l []" and d: "distinct p"
    and chk: "\<And>h l ys. rep h l ys \<Longrightarrow> ys = [] \<or> ys = fold place p [] \<Longrightarrow> check h l = Inr ()"
  shows "\<exists>h' l'. SelfTest_with add check p h l = Inr (h', l') \<and> rep h' l' []"
proof -
  obtain h1 l1 where a: "test_add add p h l True = Inr (h1, l1)" "rep h1 l1 (fold place p [])"
    using test_add_ok [OF I l d, of True] by auto
  have s: "set (fold place p []) = set p" using set_fold_place [OF item_list.set_place [OF I], of p "[]"] by simp
  obtain h2 l2 where r: "test_remove p h1 l1 = Inr (h2, l2)" "rep h2 l2 (fold remove1 p (fold place p []))"
    using test_remove_ok [OF a(2) d] s by auto
  have "set (fold remove1 p (fold place p [])) = {}" using set_fold_remove1 [OF rep_distinctD [OF a(2)]] s by simp
  then have e: "rep h2 l2 []" using r(2) by simp
  show ?thesis
    using rep_empty [OF l] rep_empty [OF e] chk [OF l] chk [OF a(2)] chk [OF e] a(1) r(1) e
    by (simp add: SelfTest_with_def ListIterator_new_def IsDone_def)
qed

lemma rep_SanityCheck: "rep h l xs \<Longrightarrow> List_SanityCheck h l = Inr ()"
  by (auto simp: rep_def List_SanityCheck_ok)

text \<open>A comparison function of a \<open>SortedList\<close>: the order of a total preorder, as \<open>list.h\<close> asks for.\<close>

definition compare_ok :: "'a compare \<Rightarrow> bool" where
  "compare_ok cmp \<longleftrightarrow> (\<forall>x y. cmp x y < 0 \<longleftrightarrow> \<not> cmp y x \<le> 0) \<and> (\<forall>x y z. cmp x y \<le> 0 \<longrightarrow> cmp y z \<le> 0 \<longrightarrow> cmp x z \<le> 0)"

abbreviation in_order :: "'a compare \<Rightarrow> 'a list \<Rightarrow> bool" where
  "in_order cmp xs \<equiv> sorted_wrt (\<lambda>x y. cmp x y \<le> 0) xs"

lemma sorted_insert_in_order:
  assumes c: "compare_ok cmp" and s: "in_order cmp ys"
  shows "in_order cmp (sorted_insert cmp x ys)"
proof -
  define t d where "t = takeWhile (after cmp x) ys" and "d = dropWhile (after cmp x) ys"
  have ys: "ys = t @ d" by (simp add: t_def d_def)
  have t: "cmp y x \<le> 0" if "y \<in> set t" for y
    using that c set_takeWhileD [of y "after cmp x" ys] unfolding t_def compare_ok_def after_def by blast
  have d: "cmp x y \<le> 0" if y: "y \<in> set d" for y
  proof -
    obtain z ds where z: "d = z # ds" using y by (cases d) auto
    have "\<not> after cmp x z" using z unfolding d_def dropWhile_eq_Cons_conv by blast
    then have "cmp x z \<le> 0" by (simp add: after_def)
    moreover have "y = z \<or> cmp z y \<le> 0" using y s ys z by (auto simp: sorted_wrt_append)
    ultimately show ?thesis using c unfolding compare_ok_def by blast
  qed
  have td: "cmp y z \<le> 0" if "y \<in> set t" "z \<in> set d" for y z using that s ys by (auto simp: sorted_wrt_append)
  have "sorted_insert cmp x ys = t @ x # d" by (simp add: sorted_insert_def t_def d_def)
  moreover have "in_order cmp t" "in_order cmp d" using s unfolding ys by (simp_all add: sorted_wrt_append)
  ultimately show ?thesis using t d td by (simp add: sorted_wrt_append)
qed

lemma fold_insert_in_order: "compare_ok cmp \<Longrightarrow> in_order cmp ys \<Longrightarrow> in_order cmp (fold (sorted_insert cmp) xs ys)"
  by (induction xs arbitrary: ys) (auto intro: sorted_insert_in_order)

lemma test_order_ok: "in_order cmp qs \<Longrightarrow> test_order cmp qs = Inr ()"
  by (induction cmp qs rule: test_order.induct) auto

lemma rep_SortedList_SanityCheck: "rep h l xs \<Longrightarrow> in_order cmp xs \<Longrightarrow> SortedList_SanityCheck cmp h l = Inr ()"
  by (auto simp: rep_def SortedList_SanityCheck_ok)

lemma length_fold_sorted_insert: "length (fold (sorted_insert cmp) xs ys) = length xs + length ys"
proof (induction xs arbitrary: ys)
  case (Cons x xs)
  have "length (sorted_insert cmp x ys) = Suc (length ys)"
    unfolding sorted_insert_def by (metis add_Suc_right length_Cons length_append takeWhile_dropWhile_id)
  with Cons show ?case by simp
qed simp

section \<open>Lists of values\<close>

text \<open>
  The same operations on lists of values, which the other components are written with; \<open>refines\<close> says that a run
  on the heap ends as the specification does, in the same error or in a list that represents its result.
\<close>

definition list_Append :: "'a list \<Rightarrow> 'a \<Rightarrow> 'a list res" where
  "list_Append xs x = ASSERT (x \<notin> set xs) (Inr (xs @ [x]))"

definition list_Prepend :: "'a list \<Rightarrow> 'a \<Rightarrow> 'a list res" where
  "list_Prepend xs x = ASSERT (x \<notin> set xs) (Inr (x # xs))"

definition list_Insert :: "'a compare \<Rightarrow> 'a list \<Rightarrow> 'a \<Rightarrow> 'a list res" where
  "list_Insert cmp xs x = ASSERT (x \<notin> set xs) (Inr (sorted_insert cmp x xs))"

definition list_Remove :: "'a list \<Rightarrow> 'a \<Rightarrow> 'a list res" where
  "list_Remove xs x = ASSERT (x \<in> set xs) (Inr (remove1 x xs))"

definition list_RemoveFront :: "'a list \<Rightarrow> ('a \<times> 'a list) res" where
  "list_RemoveFront xs = ASSERT (xs \<noteq> []) (Inr (hd xs, tl xs))"

definition refines :: "('a heap \<times> List) res \<Rightarrow> 'a list res \<Rightarrow> bool" where
  "refines r s \<longleftrightarrow> (case s of Inl e \<Rightarrow> r = Inl e | Inr ys \<Rightarrow> \<exists>h l. r = Inr (h, l) \<and> rep h l ys)"

section \<open>Properties\<close>


definition empty_heap :: "'a heap" where "empty_heap = \<lparr>cells = Map.empty, brk = 0\<rparr>"

lemma heap_ok_empty: "heap_ok empty_heap"
  by (simp add: heap_ok_def empty_heap_def)


lemma List_SelfTests_ok:
  assumes "heap_ok h" "distinct p" "compare_ok cmp"
  shows "(\<exists>h' l'. List_SelfTest p h List_new = Inr (h', l') \<and> rep h' l' [])
    \<and> (\<exists>h' l'. SortedList_SelfTest cmp p h List_new = Inr (h', l') \<and> rep h' l' [])"
proof
  note e = rep_new [OF assms(1)]
  show "\<exists>h' l'. List_SelfTest p h List_new = Inr (h', l') \<and> rep h' l' []"
    unfolding List_SelfTest_def
    by (rule SelfTest_with_ok [OF fifo.item_list_axioms e assms(2)]) (rule rep_SanityCheck)
  let ?F = "fold (sorted_insert cmp) p []"
  have o: "in_order cmp ?F" using fold_insert_in_order [OF assms(3)] by simp
  obtain h1 l1 where s: "SelfTest_with (Insert cmp) (SortedList_SanityCheck cmp) p h List_new = Inr (h1, l1)" "rep h1 l1 []"
    using SelfTest_with_ok [OF sorted.item_list_axioms [of cmp] e assms(2), where check = "SortedList_SanityCheck cmp"] o
      rep_SortedList_SanityCheck [of _ _ _ cmp] by fastforce
  obtain h2 l2 where a: "test_add (Insert cmp) p h1 l1 False = Inr (h2, l2)" "rep h2 l2 ?F"
    using test_add_ok [OF sorted.item_list_axioms [of cmp] s(2) assms(2), of False] by auto
  obtain h3 l3 where d: "test_drain (length p) h2 l2 = Inr (?F, h3, l3)" "rep h3 l3 []"
    using test_drain_ok [OF a(2)] by (auto simp: length_fold_sorted_insert)
  show "\<exists>h' l'. SortedList_SelfTest cmp p h List_new = Inr (h', l') \<and> rep h' l' []"
    using s a d rep_empty [OF d(2)] test_order_ok [OF o] rep_SortedList_SanityCheck [OF a(2) o]
      rep_SortedList_SanityCheck [OF d(2), of cmp]
    by (simp add: SortedList_SelfTest_def)
qed

end
