(* ===== verification/HashTable.thy ===== *)
theory HashTable
  imports LinkedList
begin

text \<open>
  The self-expanding hash table of \<open>lib/hash.h\<close> and \<open>lib/hash.cc\<close>, with its iterator. The buckets are lists of
  items as \<open>LinkedList\<close> specifies them; \<open>getKey\<close> and the hash function are those the table was constructed with. Items
  are pointers, so two items are equal only if they are the same object.
\<close>

section \<open>The table\<close>

definition InitialBuckets :: int where "InitialBuckets = 4"
definition ResizeRatio :: int where "ResizeRatio = 3"
definition IncreaseSizeBy :: int where "IncreaseSizeBy = 4"

record ('k, 'a) HashTable =
  buckets :: "'a list list"
  numBuckets :: int
  numItems :: int
  getKey :: "'a \<Rightarrow> 'k"
  hash :: "'k \<Rightarrow> u32"

definition InitBuckets :: "('k, 'a) HashTable \<Rightarrow> int \<Rightarrow> ('k, 'a) HashTable" where
  "InitBuckets t sz = t\<lparr>numBuckets := sz, buckets := replicate (nat sz) []\<rparr>"

definition HashTable_new :: "('a \<Rightarrow> 'k) \<Rightarrow> ('k \<Rightarrow> u32) \<Rightarrow> ('k, 'a) HashTable" where
  "HashTable_new get hFunc =
     InitBuckets \<lparr>buckets = [], numBuckets = 0, numItems = 0, getKey = get, hash = hFunc\<rparr> InitialBuckets"

definition HashTable_IsEmpty :: "('k, 'a) HashTable \<Rightarrow> bool" where
  "HashTable_IsEmpty t \<longleftrightarrow> numItems t = 0"

definition HashTable_delete :: "('k, 'a) HashTable \<Rightarrow> unit res" where
  "HashTable_delete t = ASSERT (HashTable_IsEmpty t) (Inr ())"

text \<open>\<open>%\<close> of an \<open>unsigned\<close> and an \<open>int\<close> is the unsigned remainder.\<close>

definition HashValue :: "('k, 'a) HashTable \<Rightarrow> 'k \<Rightarrow> int res" where
  "HashValue t key =
     (let result = sint (hash t key mod word_of_int (numBuckets t))
      in ASSERT (0 \<le> result \<and> result < numBuckets t) (Inr result))"

definition bucket_at :: "('k, 'a) HashTable \<Rightarrow> int \<Rightarrow> 'a list res" where
  "bucket_at t b = CHECK_BOUNDS (0 \<le> b \<and> nat b < length (buckets t)) (Inr (buckets t ! nat b))"

definition set_bucket :: "('k, 'a) HashTable \<Rightarrow> int \<Rightarrow> 'a list \<Rightarrow> ('k, 'a) HashTable" where
  "set_bucket t b xs = t\<lparr>buckets := (buckets t)[nat b := xs]\<rparr>"

definition FindInBucket :: "('k, 'a) HashTable \<Rightarrow> int \<Rightarrow> 'k \<Rightarrow> 'a option res" where
  "FindInBucket t b key = bind_res (bucket_at t b) (\<lambda>xs. Inr (find (\<lambda>x. key = getKey t x) xs))"

definition Find :: "('k, 'a) HashTable \<Rightarrow> 'k \<Rightarrow> 'a option res" where
  "Find t key = bind_res (HashValue t key) (\<lambda>b. FindInBucket t b key)"

definition IsInTable :: "('k, 'a) HashTable \<Rightarrow> 'k \<Rightarrow> bool res" where
  "IsInTable t key = bind_res (Find t key) (\<lambda>r. Inr (r \<noteq> None))"

text \<open>Append an item to the bucket its key hashes to.\<close>

definition put :: "('k, 'a) HashTable \<Rightarrow> 'a \<Rightarrow> ('k, 'a) HashTable res" where
  "put t x =
     bind_res (HashValue t (getKey t x)) (\<lambda>b.
     bind_res (bucket_at t b) (\<lambda>xs.
     bind_res (list_Append xs x) (\<lambda>xs. Inr (set_bucket t b xs))))"

fun check_bucket :: "('k, 'a) HashTable \<Rightarrow> int \<Rightarrow> 'a list \<Rightarrow> unit res" where
  "check_bucket t i [] = Inr ()"
| "check_bucket t i (x # xs) =
     bind_res (HashValue t (getKey t x)) (\<lambda>b. ASSERT (i = b) (check_bucket t i xs))"

fun check_buckets :: "('k, 'a) HashTable \<Rightarrow> int \<Rightarrow> 'a list list \<Rightarrow> int \<Rightarrow> int res" where
  "check_buckets t i [] numFound = Inr numFound"
| "check_buckets t i (xs # bs) numFound =
     bind_res (check_bucket t i xs) (\<lambda>_. check_buckets t (i + 1) bs (numFound + int (length xs)))"

definition HashTable_SanityCheck :: "('k, 'a) HashTable \<Rightarrow> unit res" where
  "HashTable_SanityCheck t =
     bind_res (check_buckets t 0 (take (nat (numBuckets t)) (buckets t)) 0) (\<lambda>numFound.
     ASSERT (numItems t = numFound) (Inr ()))"

text \<open>\<open>ReHash\<close> moves the items over, bucket by bucket, each from the front.\<close>

fun move_items :: "'a list \<Rightarrow> ('k, 'a) HashTable \<Rightarrow> ('k, 'a) HashTable res" where
  "move_items [] t = Inr t"
| "move_items (x # xs) t = bind_res (put t x) (\<lambda>t. move_items xs t)"

definition ReHash :: "('k, 'a) HashTable \<Rightarrow> ('k, 'a) HashTable res" where
  "ReHash t =
     bind_res (HashTable_SanityCheck t) (\<lambda>_.
     bind_res (move_items (concat (take (nat (numBuckets t)) (buckets t))) (InitBuckets t (numBuckets t * IncreaseSizeBy))) (\<lambda>t'.
     bind_res (HashTable_SanityCheck t') (\<lambda>_. Inr t')))"

definition Insert :: "('k, 'a) HashTable \<Rightarrow> 'a \<Rightarrow> ('k, 'a) HashTable res" where
  "Insert t x =
     bind_res (IsInTable t (getKey t x)) (\<lambda>b. ASSERT (\<not> b)
     (bind_res (if ResizeRatio \<le> numItems t sdiv numBuckets t then ReHash t else Inr t) (\<lambda>t.
      bind_res (put t x) (\<lambda>t.
      let t = t\<lparr>numItems := numItems t + 1\<rparr>
      in bind_res (IsInTable t (getKey t x)) (\<lambda>b. ASSERT b (Inr t))))))"

definition Remove :: "('k, 'a) HashTable \<Rightarrow> 'k \<Rightarrow> ('a \<times> ('k, 'a) HashTable) res" where
  "Remove t key =
     bind_res (HashValue t key) (\<lambda>b.
     bind_res (FindInBucket t b key) (\<lambda>found. ASSERT (found \<noteq> None)
     (bind_res (bucket_at t b) (\<lambda>xs.
      bind_res (list_Remove xs (the found)) (\<lambda>xs.
      let t = (set_bucket t b xs)\<lparr>numItems := numItems t - 1\<rparr>
      in bind_res (IsInTable t key) (\<lambda>b. ASSERT (\<not> b) (Inr (the found, t))))))))"

definition Apply :: "('k, 'a) HashTable \<Rightarrow> 'a list" where
  "Apply t = concat (take (nat (numBuckets t)) (buckets t))"

section \<open>The iterator\<close>

function FindNextFullBucket :: "('k, 'a) HashTable \<Rightarrow> int \<Rightarrow> int res" where
  "FindNextFullBucket t b =
     (if b < numBuckets t then
        bind_res (bucket_at t b) (\<lambda>xs. if xs \<noteq> [] then Inr b else FindNextFullBucket t (b + 1))
      else Inr b)"
  by pat_completeness auto

termination by (relation "measure (\<lambda>(t, b). nat (numBuckets t - b))") auto

declare FindNextFullBucket.simps [simp del]

text \<open>Its state: the bucket, and the items of that bucket not yet passed (\<open>None\<close> when \<open>bucketIter\<close> is \<open>NULL\<close>).\<close>

record 'a HashIterator =
  bucket :: int
  bucketIter :: "'a list option"

definition open_bucket :: "('k, 'a) HashTable \<Rightarrow> int \<Rightarrow> 'a HashIterator res" where
  "open_bucket t b =
     (if b < numBuckets t then bind_res (bucket_at t b) (\<lambda>xs. Inr \<lparr>bucket = b, bucketIter = Some xs\<rparr>)
      else Inr \<lparr>bucket = b, bucketIter = None\<rparr>)"

definition HashIterator_new :: "('k, 'a) HashTable \<Rightarrow> 'a HashIterator res" where
  "HashIterator_new t = bind_res (FindNextFullBucket t 0) (open_bucket t)"

definition HashIterator_IsDone :: "('k, 'a) HashTable \<Rightarrow> 'a HashIterator \<Rightarrow> bool" where
  "HashIterator_IsDone t it \<longleftrightarrow> bucket it = numBuckets t"

definition HashIterator_Item :: "('k, 'a) HashTable \<Rightarrow> 'a HashIterator \<Rightarrow> 'a res" where
  "HashIterator_Item t it =
     ASSERT (\<not> HashIterator_IsDone t it)
     (case bucketIter it of None \<Rightarrow> Inl NullPointer | Some xs \<Rightarrow> ASSERT (xs \<noteq> []) (Inr (hd xs)))"

definition HashIterator_Next :: "('k, 'a) HashTable \<Rightarrow> 'a HashIterator \<Rightarrow> 'a HashIterator res" where
  "HashIterator_Next t it =
     (case bucketIter it of
        None \<Rightarrow> Inl NullPointer
      | Some [] \<Rightarrow> Inl NullPointer
      | Some (x # xs) \<Rightarrow>
          if xs = [] then bind_res (FindNextFullBucket t (bucket it + 1)) (open_bucket t)
          else Inr (it\<lparr>bucketIter := Some xs\<rparr>))"

section \<open>The self test\<close>

fun test_insert :: "'a list \<Rightarrow> ('k, 'a) HashTable \<Rightarrow> ('k, 'a) HashTable res" where
  "test_insert [] t = Inr t"
| "test_insert (p # ps) t =
     bind_res (Insert t p) (\<lambda>t.
     bind_res (IsInTable t (getKey t p)) (\<lambda>b. ASSERT b (ASSERT (\<not> HashTable_IsEmpty t) (test_insert ps t))))"

fun test_remove :: "'a list \<Rightarrow> ('k, 'a) HashTable \<Rightarrow> ('k, 'a) HashTable res" where
  "test_remove [] t = Inr t"
| "test_remove (p # ps) t = bind_res (Remove t (getKey t p)) (\<lambda>(x, t). ASSERT (x = p) (test_remove ps t))"

definition HashTable_SelfTest :: "'a list \<Rightarrow> ('k, 'a) HashTable \<Rightarrow> ('k, 'a) HashTable res" where
  "HashTable_SelfTest p t =
     bind_res (HashIterator_new t) (\<lambda>it.
     bind_res (HashTable_SanityCheck t) (\<lambda>_.
     ASSERT (HashTable_IsEmpty t)
     (ASSERT (HashIterator_IsDone t it)
     (bind_res (test_insert p t) (\<lambda>t.
      bind_res (test_remove p t) (\<lambda>t.
      ASSERT (HashTable_IsEmpty t) (bind_res (HashTable_SanityCheck t) (\<lambda>_. Inr t))))))))"

section \<open>The invariant and the map a table stands for\<close>

definition slot :: "('k, 'a) HashTable \<Rightarrow> 'k \<Rightarrow> nat" where
  "slot t k = nat (uint (hash t k) mod numBuckets t)"

definition contents :: "('k, 'a) HashTable \<Rightarrow> 'a set" where
  "contents t = set (concat (buckets t))"

definition shape :: "('k, 'a) HashTable \<Rightarrow> bool" where
  "shape t \<longleftrightarrow> 0 < numBuckets t \<and> numBuckets t < 2 ^ 31 \<and> length (buckets t) = nat (numBuckets t)
     \<and> (\<forall>i<length (buckets t). distinct (map (getKey t) (buckets t ! i)) \<and> (\<forall>x\<in>set (buckets t ! i). slot t (getKey t x) = i))"

definition ht_ok :: "('k, 'a) HashTable \<Rightarrow> bool" where
  "ht_ok t \<longleftrightarrow> shape t \<and> numItems t = int (length (concat (buckets t)))"

definition ht_abs :: "('k, 'a) HashTable \<Rightarrow> 'k \<rightharpoonup> 'a" where
  "ht_abs t k = find (\<lambda>x. k = getKey t x) (concat (buckets t))"

lemma slot_less: "shape t \<Longrightarrow> slot t k < length (buckets t)"
  by (simp add: shape_def slot_def nat_less_iff)

lemma contents_slot:
  assumes "shape t"
  shows "x \<in> contents t \<longleftrightarrow> x \<in> set (buckets t ! slot t (getKey t x))"
proof
  assume "x \<in> contents t"
  then obtain i where "i < length (buckets t)" "x \<in> set (buckets t ! i)" unfolding contents_def by (metis UN_E in_set_conv_nth set_concat)
  with assms show "x \<in> set (buckets t ! slot t (getKey t x))" by (auto simp: shape_def)
next
  assume "x \<in> set (buckets t ! slot t (getKey t x))"
  with slot_less [OF assms] show "x \<in> contents t" unfolding contents_def by (metis UN_I nth_mem set_concat)
qed

lemma inj_contents:
  assumes "shape t"
  shows "inj_on (getKey t) (contents t)"
proof (rule inj_onI)
  fix x y assume "x \<in> contents t" "y \<in> contents t" "getKey t x = getKey t y"
  then have "x \<in> set (buckets t ! slot t (getKey t x))" "y \<in> set (buckets t ! slot t (getKey t x))"
    using contents_slot [OF assms] by auto
  moreover have "distinct (map (getKey t) (buckets t ! slot t (getKey t x)))"
    using assms slot_less [OF assms] by (simp add: shape_def)
  ultimately show "x = y" using \<open>getKey t x = getKey t y\<close> by (auto simp: distinct_map inj_on_def)
qed

lemma find_key: "inj_on f (set xs) \<Longrightarrow> find (\<lambda>x. k = f x) xs = Some x \<longleftrightarrow> x \<in> set xs \<and> f x = k"
  by (induction xs) (auto simp: inj_on_def)

lemma ht_abs_Some: "shape t \<Longrightarrow> ht_abs t k = Some x \<longleftrightarrow> x \<in> contents t \<and> getKey t x = k"
  using inj_contents [of t] unfolding ht_abs_def contents_def by (rule find_key)

lemma HashValue_ok:
  assumes "shape t"
  shows "HashValue t k = Inr (int (slot t k))"
proof -
  have n: "0 < numBuckets t" "numBuckets t < 2 ^ 31" using assms by (simp_all add: shape_def)
  then have u: "uint (word_of_int (numBuckets t) :: u32) = numBuckets t" by (simp add: uint_word_of_int)
  have m: "uint (hash t k mod word_of_int (numBuckets t)) = uint (hash t k) mod numBuckets t" by (simp add: uint_mod u)
  have b: "0 \<le> uint (hash t k) mod numBuckets t" "uint (hash t k) mod numBuckets t < numBuckets t" using n by simp_all
  have "sint (hash t k mod word_of_int (numBuckets t)) = uint (hash t k) mod numBuckets t"
    using sint_small [of "hash t k mod word_of_int (numBuckets t)"] m order.strict_trans [OF b(2) n(2)] by simp
  then show ?thesis using b by (simp add: HashValue_def slot_def)
qed

lemma bucket_at_slot: "shape t \<Longrightarrow> bucket_at t (int (slot t k)) = Inr (buckets t ! slot t k)"
  by (simp add: bucket_at_def slot_less)

lemma FindInBucket_ok:
  assumes "shape t"
  shows "FindInBucket t (int (slot t k)) k = Inr (ht_abs t k)"
proof -
  let ?xs = "buckets t ! slot t k"
  have "inj_on (getKey t) (set ?xs)" using assms slot_less [OF assms] by (simp add: shape_def distinct_map)
  then have "find (\<lambda>x. k = getKey t x) ?xs = Some x \<longleftrightarrow> ht_abs t k = Some x" for x
    using find_key [of "getKey t" ?xs k x] ht_abs_Some [OF assms, of k x] contents_slot [OF assms, of x] by auto
  then have "find (\<lambda>x. k = getKey t x) ?xs = ht_abs t k" by (metis option.exhaust)
  then show ?thesis by (simp add: FindInBucket_def bucket_at_slot [OF assms])
qed

lemma Find_ok: "shape t \<Longrightarrow> Find t k = Inr (ht_abs t k)"
  by (simp add: Find_def HashValue_ok FindInBucket_ok)

lemma IsInTable_ok: "shape t \<Longrightarrow> IsInTable t k = Inr (ht_abs t k \<noteq> None)"
  by (simp add: IsInTable_def Find_ok)

section \<open>Insertion\<close>

lemma length_concat_update:
  "i < length bs \<Longrightarrow> length (concat (bs[i := xs])) + length (bs ! i) = length (concat bs) + length xs"
proof (induction bs arbitrary: i)
  case (Cons b bs)
  then show ?case by (cases i) auto
qed simp

lemma shape_update:
  assumes s: "shape t" and b: "distinct (map (getKey t) xs)" "\<forall>x\<in>set xs. slot t (getKey t x) = slot t k"
  shows "shape (set_bucket t (int (slot t k)) xs)"
    and "contents (set_bucket t (int (slot t k)) xs) = (contents t - set (buckets t ! slot t k)) \<union> set xs"
proof -
  let ?t = "set_bucket t (int (slot t k)) xs" and ?i = "slot t k"
  have sl: "slot ?t = slot t" by (simp add: slot_def set_bucket_def fun_eq_iff)
  have "distinct (map (getKey t) (buckets ?t ! i)) \<and> (\<forall>x\<in>set (buckets ?t ! i). slot t (getKey t x) = i)" if "i < length (buckets t)" for i
    using that s b by (cases "i = ?i") (simp_all add: shape_def set_bucket_def)
  then show sh: "shape ?t" using s sl by (simp add: shape_def set_bucket_def)
  show "contents ?t = (contents t - set (buckets t ! ?i)) \<union> set xs"
  proof (intro set_eqI)
    fix x
    have "x \<in> contents ?t \<longleftrightarrow> x \<in> set (buckets ?t ! slot t (getKey t x))"
      using contents_slot [OF sh, of x] sl by (simp add: set_bucket_def)
    also have "\<dots> \<longleftrightarrow> (if slot t (getKey t x) = ?i then x \<in> set xs else x \<in> set (buckets t ! slot t (getKey t x)))"
      using slot_less [OF s] by (simp add: set_bucket_def nth_list_update)
    also have "\<dots> \<longleftrightarrow> x \<in> (contents t - set (buckets t ! ?i)) \<union> set xs"
      using contents_slot [OF s, of x] b(2) s slot_less [OF s, of k] by (auto simp: shape_def)
    finally show "x \<in> contents ?t \<longleftrightarrow> x \<in> (contents t - set (buckets t ! ?i)) \<union> set xs" .
  qed
qed

lemma put_ok:
  assumes s: "shape t" and new: "ht_abs t (getKey t x) = None"
  shows "\<exists>t'. put t x = Inr t' \<and> shape t' \<and> contents t' = insert x (contents t) \<and> numItems t' = numItems t
    \<and> numBuckets t' = numBuckets t \<and> getKey t' = getKey t \<and> hash t' = hash t
    \<and> length (concat (buckets t')) = length (concat (buckets t)) + 1"
proof -
  let ?k = "getKey t x" and ?i = "slot t (getKey t x)"
  let ?xs = "buckets t ! ?i" and ?t = "set_bucket t (int ?i) (buckets t ! ?i @ [x])"
  have i: "?i < length (buckets t)" using slot_less [OF s] .
  have nk: "getKey t y \<noteq> ?k" if "y \<in> set ?xs" for y
  proof
    assume "getKey t y = ?k"
    then have "ht_abs t ?k = Some y" using that ht_abs_Some [OF s, of ?k y] contents_slot [OF s, of y] by simp
    with new show False by simp
  qed
  have d: "distinct (map (getKey t) (?xs @ [x]))" "\<forall>y\<in>set (?xs @ [x]). slot t (getKey t y) = slot t ?k"
  proof -
    have "distinct (map (getKey t) ?xs)" "\<forall>y\<in>set ?xs. slot t (getKey t y) = ?i" using s i by (simp_all add: shape_def)
    moreover have "?k \<notin> getKey t ` set ?xs" by (metis imageE nk)
    ultimately show "distinct (map (getKey t) (?xs @ [x]))" "\<forall>y\<in>set (?xs @ [x]). slot t (getKey t y) = slot t ?k" by simp_all
  qed
  note u = shape_update [OF s d]
  have "x \<notin> set ?xs" using nk by blast
  then have "put t x = Inr ?t" by (simp add: put_def HashValue_ok [OF s] bucket_at_slot [OF s] list_Append_def)
  moreover have "contents ?t = insert x (contents t)"
  proof -
    have "set ?xs \<subseteq> contents t" using nth_mem [OF i] by (auto simp: contents_def)
    then show ?thesis unfolding u(2) by auto
  qed
  moreover have "length (concat (buckets ?t)) = length (concat (buckets t)) + 1"
    using length_concat_update [OF i, of "?xs @ [x]"] by (simp add: set_bucket_def)
  ultimately show ?thesis using u(1) by (simp add: set_bucket_def)
qed

lemma contents_abs:
  assumes "shape t" "shape t'" "contents t' = insert x (contents t)" "getKey t' = getKey t" "ht_abs t (getKey t x) = None"
  shows "ht_abs t' = (ht_abs t)(getKey t x \<mapsto> x)"
proof
  fix k
  have "ht_abs t' k = Some y \<longleftrightarrow> ((ht_abs t)(getKey t x \<mapsto> x)) k = Some y" for y
    using ht_abs_Some [OF assms(1), of k y] ht_abs_Some [OF assms(2), of k y] ht_abs_Some [OF assms(1), of "getKey t x" y] assms(3-5)
    by auto
  then show "ht_abs t' k = ((ht_abs t)(getKey t x \<mapsto> x)) k" by (metis option.exhaust)
qed

section \<open>Rehashing\<close>

lemma check_bucket_ok:
  "(\<forall>x\<in>set xs. HashValue t (getKey t x) = Inr i) \<Longrightarrow> check_bucket t i xs = Inr ()"
  by (induction xs) auto

lemma check_buckets_ok:
  "(\<forall>j<length bs. \<forall>x\<in>set (bs ! j). HashValue t (getKey t x) = Inr (i + int j)) \<Longrightarrow>
     check_buckets t i bs n = Inr (n + int (length (concat bs)))"
proof (induction bs arbitrary: i n)
  case (Cons xs bs)
  have "\<forall>x\<in>set xs. HashValue t (getKey t x) = Inr i" using Cons.prems by force
  moreover have "check_buckets t (i + 1) bs (n + int (length xs)) = Inr (n + int (length xs) + int (length (concat bs)))"
  proof (intro Cons.IH allI impI ballI)
    fix j x assume "j < length bs" "x \<in> set (bs ! j)"
    then show "HashValue t (getKey t x) = Inr (i + 1 + int j)" using Cons.prems [rule_format, of "Suc j" x] by (simp add: algebra_simps)
  qed
  ultimately show ?case by (simp add: check_bucket_ok)
qed simp

lemma SanityCheck_ok: "ht_ok t \<Longrightarrow> HashTable_SanityCheck t = Inr ()"
  using check_buckets_ok [of "buckets t" t 0 0] HashValue_ok [of t]
  by (simp add: HashTable_SanityCheck_def ht_ok_def shape_def)

lemma move_items_ok:
  assumes "shape t" "distinct (map (getKey t) xs)" "\<forall>x\<in>set xs. ht_abs t (getKey t x) = None"
  shows "\<exists>t'. move_items xs t = Inr t' \<and> shape t' \<and> contents t' = set xs \<union> contents t \<and> numItems t' = numItems t
    \<and> numBuckets t' = numBuckets t \<and> getKey t' = getKey t \<and> hash t' = hash t
    \<and> length (concat (buckets t')) = length (concat (buckets t)) + length xs"
  using assms
proof (induction xs arbitrary: t)
  case (Cons x xs)
  then obtain t1 where p: "put t x = Inr t1" "shape t1" "contents t1 = insert x (contents t)" "numItems t1 = numItems t"
    "numBuckets t1 = numBuckets t" "getKey t1 = getKey t" "hash t1 = hash t"
    "length (concat (buckets t1)) = length (concat (buckets t)) + 1" using put_ok [of t x] by auto
  have a: "ht_abs t1 = (ht_abs t)(getKey t x \<mapsto> x)" using contents_abs [OF Cons.prems(1) p(2,3,6)] Cons.prems(3) by simp
  have "\<exists>t'. move_items xs t1 = Inr t' \<and> shape t' \<and> contents t' = set xs \<union> contents t1 \<and> numItems t' = numItems t1
    \<and> numBuckets t' = numBuckets t1 \<and> getKey t' = getKey t1 \<and> hash t' = hash t1
    \<and> length (concat (buckets t')) = length (concat (buckets t1)) + length xs"
    using Cons.prems p a by (intro Cons.IH) (auto simp: image_iff)
  then show ?case using p by auto
qed auto

lemma distinct_keys_concat:
  "(\<forall>i<length bs. distinct (map f (bs ! i)) \<and> (\<forall>x\<in>set (bs ! i). g (f x) = c + i)) \<Longrightarrow> distinct (map f (concat bs))"
proof (induction bs arbitrary: c)
  case (Cons b bs)
  have "distinct (map f (concat bs))"
  proof (rule Cons.IH [of "Suc c"], intro allI impI)
    fix i assume "i < length bs"
    then show "distinct (map f (bs ! i)) \<and> (\<forall>x\<in>set (bs ! i). g (f x) = Suc c + i)" using Cons.prems [rule_format, of "Suc i"] by simp
  qed
  moreover have "distinct (map f b)" "\<forall>x\<in>set b. g (f x) = c" using Cons.prems [rule_format, of 0] by simp_all
  moreover have "g (f y) \<noteq> c" if "y \<in> set (concat bs)" for y
  proof -
    from that obtain i where "i < length bs" "y \<in> set (bs ! i)" by (metis UN_E in_set_conv_nth set_concat)
    then show ?thesis using Cons.prems [rule_format, of "Suc i"] by simp
  qed
  ultimately show ?case by (fastforce simp: image_iff)
qed simp

lemma shape_keys_distinct: "shape t \<Longrightarrow> distinct (map (getKey t) (concat (buckets t)))"
  using distinct_keys_concat [of "buckets t" "getKey t" "slot t" 0] by (simp add: shape_def)

lemma shape_InitBuckets:
  assumes "0 < n" "n < 2 ^ 31"
  shows "shape (InitBuckets t n)" "contents (InitBuckets t n) = {}" "concat (buckets (InitBuckets t n)) = []"
    "ht_abs (InitBuckets t n) = Map.empty"
proof -
  show c: "concat (buckets (InitBuckets t n)) = []" by (simp add: InitBuckets_def)
  show "shape (InitBuckets t n)" using assms by (simp add: shape_def InitBuckets_def)
  show "contents (InitBuckets t n) = {}" "ht_abs (InitBuckets t n) = Map.empty"
    unfolding contents_def ht_abs_def fun_eq_iff c by simp_all
qed

lemma ReHash_ok:
  assumes ok: "ht_ok t" and n: "numBuckets t * 4 < 2 ^ 31"
  shows "\<exists>t'. ReHash t = Inr t' \<and> ht_ok t' \<and> ht_abs t' = ht_abs t \<and> numItems t' = numItems t \<and> getKey t' = getKey t \<and> hash t' = hash t
    \<and> numBuckets t' = 4 * numBuckets t"
proof -
  have s: "shape t" using ok by (simp add: ht_ok_def)
  then have nb: "0 < numBuckets t" "length (buckets t) = nat (numBuckets t)" by (simp_all add: shape_def)
  let ?t0 = "InitBuckets t (numBuckets t * 4)"
  note i = shape_InitBuckets [of "numBuckets t * 4" t]
  have g: "getKey ?t0 = getKey t" "hash ?t0 = hash t" "numItems ?t0 = numItems t" "numBuckets ?t0 = numBuckets t * 4"
    by (simp_all add: InitBuckets_def)
  have i0: "shape ?t0" "contents ?t0 = {}" "concat (buckets ?t0) = []" "ht_abs ?t0 = Map.empty"
    using i nb n by simp_all
  have "\<exists>t'. move_items (concat (buckets t)) ?t0 = Inr t' \<and> shape t' \<and> contents t' = set (concat (buckets t)) \<union> contents ?t0
    \<and> numItems t' = numItems ?t0 \<and> numBuckets t' = numBuckets ?t0 \<and> getKey t' = getKey ?t0 \<and> hash t' = hash ?t0
    \<and> length (concat (buckets t')) = length (concat (buckets ?t0)) + length (concat (buckets t))"
    using i0 g(1) shape_keys_distinct [OF s] by (intro move_items_ok) simp_all
  then obtain t' where m: "move_items (concat (buckets t)) ?t0 = Inr t'" "shape t'" "contents t' = contents t" "numItems t' = numItems t"
    "getKey t' = getKey t" "hash t' = hash t" "numBuckets t' = 4 * numBuckets t" "length (concat (buckets t')) = length (concat (buckets t))"
    unfolding i0(2,3) g contents_def [of t, symmetric] by (elim exE conjE) simp
  have ok': "ht_ok t'" using m ok by (simp add: ht_ok_def)
  have "ht_abs t' k = ht_abs t k" for k
    using ht_abs_Some [OF m(2), of k] ht_abs_Some [OF s, of k] m(3,5) by (metis option.exhaust)
  then show ?thesis using m ok' SanityCheck_ok [OF ok] SanityCheck_ok [OF ok'] nb
    by (simp add: ReHash_def IncreaseSizeBy_def fun_eq_iff)
qed

lemma le_quotient: "0 < b \<Longrightarrow> q \<le> n div b \<Longrightarrow> q * b \<le> n" for b n q :: int
proof -
  assume "0 < b" "q \<le> n div b"
  then have "q * b \<le> (n div b) * b" by (intro mult_right_mono) simp_all
  moreover have "(n div b) * b \<le> n" using \<open>0 < b\<close> pos_mod_sign [of b n] div_mult_mod_eq [of n b] by linarith
  ultimately show ?thesis by linarith
qed

lemma HashTable_Insert_ok:
  assumes ok: "ht_ok t" and n: "numItems t < 2 ^ 29" and new: "ht_abs t (getKey t x) = None"
  shows "\<exists>t'. Insert t x = Inr t' \<and> ht_ok t' \<and> ht_abs t' = (ht_abs t)(getKey t x \<mapsto> x) \<and> numItems t' = numItems t + 1
    \<and> getKey t' = getKey t \<and> hash t' = hash t"
proof -
  have s: "shape t" using ok by (simp add: ht_ok_def)
  then have nb: "0 < numBuckets t" by (simp add: shape_def)
  have ni: "0 \<le> numItems t" using ok by (simp add: ht_ok_def)
  let ?c = "ResizeRatio \<le> numItems t sdiv numBuckets t"
  have "\<exists>t1. (if ?c then ReHash t else Inr t) = Inr t1 \<and> ht_ok t1 \<and> ht_abs t1 = ht_abs t \<and> numItems t1 = numItems t
    \<and> getKey t1 = getKey t \<and> hash t1 = hash t"
  proof (cases ?c)
    case True
    then have "3 \<le> numItems t div numBuckets t" using ni nb by (simp add: ResizeRatio_def sdiv_nonneg)
    then have "3 * numBuckets t \<le> numItems t" using le_quotient [OF nb] by simp
    then show ?thesis using True ReHash_ok [OF ok] n by auto
  qed (use ok in auto)
  then obtain t1 where t1: "(if ?c then ReHash t else Inr t) = Inr t1" "ht_ok t1" "ht_abs t1 = ht_abs t" "numItems t1 = numItems t"
    "getKey t1 = getKey t" "hash t1 = hash t" by (elim exE conjE)
  have s1: "shape t1" using t1(2) by (simp add: ht_ok_def)
  obtain t2 where p: "put t1 x = Inr t2" "shape t2" "contents t2 = insert x (contents t1)" "numItems t2 = numItems t1"
    "getKey t2 = getKey t1" "hash t2 = hash t1" "length (concat (buckets t2)) = length (concat (buckets t1)) + 1"
    using put_ok [OF s1, of x] new t1 by auto
  let ?t = "t2\<lparr>numItems := numItems t2 + 1\<rparr>"
  have s3: "shape ?t" using p(2) by (simp add: shape_def slot_def)
  have a: "ht_abs ?t = (ht_abs t)(getKey t x \<mapsto> x)"
    using contents_abs [OF s1 p(2,3,5)] new t1 by (simp add: ht_abs_def fun_eq_iff)
  have "ht_ok ?t" using s3 p t1(2) by (simp add: ht_ok_def)
  moreover have "Insert t x = Inr ?t"
    using t1(1) p(1) new a IsInTable_ok [OF s] IsInTable_ok [OF s3] p(5) t1(5) by (simp add: Insert_def Let_def)
  ultimately show ?thesis using a p t1 by auto
qed

section \<open>Removal\<close>

lemma abs_remove:
  assumes "shape t" "shape t'" "ht_abs t k = Some x" "contents t' = contents t - {x}" "getKey t' = getKey t"
  shows "ht_abs t' = (ht_abs t)(k := None)"
proof
  fix j
  have k: "getKey t x = k" "x \<in> contents t" using ht_abs_Some [OF assms(1), of k x] assms(3) by simp_all
  have "ht_abs t' j = Some y \<longleftrightarrow> ((ht_abs t)(k := None)) j = Some y" for y
    using ht_abs_Some [OF assms(1), of j y] ht_abs_Some [OF assms(2), of j y] k assms(4,5) inj_contents [OF assms(1)]
    by (auto simp: inj_on_def)
  then show "ht_abs t' j = ((ht_abs t)(k := None)) j" by (metis option.exhaust)
qed

lemma remove1_mapped: "distinct (map f xs) \<Longrightarrow> distinct (map f (remove1 x xs))"
  by (induction xs) (auto dest: notin_set_remove1 set_remove1_subset [THEN subsetD])

lemma HashTable_Remove_ok:
  assumes ok: "ht_ok t" and x: "ht_abs t k = Some x"
  shows "\<exists>t'. Remove t k = Inr (x, t') \<and> ht_ok t' \<and> ht_abs t' = (ht_abs t)(k := None) \<and> numItems t' = numItems t - 1
    \<and> getKey t' = getKey t \<and> hash t' = hash t"
proof -
  have s: "shape t" using ok by (simp add: ht_ok_def)
  let ?i = "slot t k" and ?xs = "buckets t ! slot t k"
  let ?t1 = "set_bucket t (int ?i) (remove1 x ?xs)"
  let ?t = "?t1\<lparr>numItems := numItems t - 1\<rparr>"
  have i: "?i < length (buckets t)" using slot_less [OF s] .
  have xk: "getKey t x = k" "x \<in> contents t" using ht_abs_Some [OF s, of k x] x by simp_all
  then have xin: "x \<in> set ?xs" using contents_slot [OF s, of x] by simp
  have b: "distinct (map (getKey t) ?xs)" "\<forall>y\<in>set ?xs. slot t (getKey t y) = ?i" using s i by (simp_all add: shape_def)
  then have d: "distinct ?xs" by (simp add: distinct_map)
  have u: "shape ?t1" "contents ?t1 = (contents t - set ?xs) \<union> set (remove1 x ?xs)"
    using shape_update [OF s, of "remove1 x ?xs" k] b remove1_mapped [of "getKey t" ?xs x] notin_set_remove1 [of _ ?xs x]
    by (auto dest: set_remove1_subset [THEN subsetD])
  have c: "contents ?t1 = contents t - {x}"
  proof -
    have "set ?xs \<subseteq> contents t" using nth_mem [OF i] by (auto simp: contents_def)
    then show ?thesis unfolding u(2) set_remove1_eq [OF d] using xin by auto
  qed
  have "length (remove1 x ?xs) + 1 = length ?xs" using xin length_pos_if_in_set [OF xin] by (simp add: length_remove1)
  then have len: "length (concat (buckets ?t1)) + 1 = length (concat (buckets t))"
    using length_concat_update [OF i, of "remove1 x ?xs"] by (simp add: set_bucket_def del: length_concat)
  have a: "ht_abs ?t = (ht_abs t)(k := None)"
    using abs_remove [OF s u(1) x c] by (simp add: set_bucket_def ht_abs_def fun_eq_iff)
  have s2: "shape ?t" using u(1) by (simp add: shape_def slot_def)
  have "ht_ok ?t" using s2 ok len by (simp add: ht_ok_def)
  moreover have "Remove t k = Inr (x, ?t)"
    using IsInTable_ok [OF s2, of k] a xin
    by (simp add: Remove_def HashValue_ok [OF s] FindInBucket_ok [OF s] x bucket_at_slot [OF s] list_Remove_def Let_def)
  ultimately show ?thesis using a by (auto simp: set_bucket_def)
qed

section \<open>Results\<close>

lemma ht_ok_new: "ht_ok (HashTable_new g h)" "ht_abs (HashTable_new g h) = Map.empty" "numItems (HashTable_new g h) = 0"
  "getKey (HashTable_new g h) = g"
proof -
  note i = shape_InitBuckets [of InitialBuckets]
  have "0 < InitialBuckets" "InitialBuckets < 2 ^ 31" by (simp_all add: InitialBuckets_def)
  note i = i [OF this]
  show "ht_ok (HashTable_new g h)" 
    unfolding HashTable_new_def ht_ok_def i(3) by (simp add: i(1)) (simp add: InitBuckets_def)
  show "ht_abs (HashTable_new g h) = Map.empty" unfolding HashTable_new_def by (rule i(4))
qed (simp_all add: HashTable_new_def InitBuckets_def)

lemma ht_ok_card: "ht_ok t \<Longrightarrow> numItems t = int (card (dom (ht_abs t)))"
proof -
  assume ok: "ht_ok t"
  then have s: "shape t" by (simp add: ht_ok_def)
  have "dom (ht_abs t) = getKey t ` set (concat (buckets t))"
    using ht_abs_Some [OF s] unfolding contents_def dom_def by (auto simp: image_iff)
  then have "card (dom (ht_abs t)) = length (concat (buckets t))"
    using shape_keys_distinct [OF s] distinct_card by (metis length_map list.set_map)
  then show ?thesis using ok by (simp add: ht_ok_def)
qed

lemma ht_full: "ht_ok t \<Longrightarrow> HashTable_IsEmpty t \<longleftrightarrow> ht_abs t = Map.empty"
proof -
  assume ok: "ht_ok t"
  then have s: "shape t" by (simp add: ht_ok_def)
  have "HashTable_IsEmpty t \<longleftrightarrow> contents t = {}" using ok by (simp add: HashTable_IsEmpty_def ht_ok_def contents_def)
  also have "\<dots> \<longleftrightarrow> ht_abs t = Map.empty"
    using ht_abs_Some [OF s] by (metis (mono_tags, lifting) all_not_in_conv option.distinct(1) option.exhaust)
  finally show ?thesis .
qed

lemma Insert_present: "ht_ok t \<Longrightarrow> ht_abs t (getKey t x) \<noteq> None \<Longrightarrow> Insert t x = Inl AssertFailed"
  by (simp add: Insert_def IsInTable_ok ht_ok_def)

lemma Remove_absent: "ht_ok t \<Longrightarrow> ht_abs t k = None \<Longrightarrow> Remove t k = Inl AssertFailed"
  by (simp add: Remove_def HashValue_ok FindInBucket_ok ht_ok_def)

lemma FindNextFullBucket_empty:
  assumes "contents t = {}" "length (buckets t) = nat (numBuckets t)" "0 \<le> b" "b \<le> numBuckets t"
  shows "FindNextFullBucket t b = Inr (numBuckets t)"
  using assms
proof (induction t b rule: FindNextFullBucket.induct)
  case (1 t b)
  show ?case
  proof (cases "b < numBuckets t")
    case True
    then have l: "nat b < length (buckets t)" using 1 by simp
    then have "buckets t ! nat b = []" using 1(2) nth_mem [OF l] by (auto simp: contents_def)
    then have "bucket_at t b = Inr []" using l 1 by (simp add: bucket_at_def)
    then show ?thesis using True 1 by (subst FindNextFullBucket.simps) simp
  next
    case False
    then show ?thesis using 1 by (subst FindNextFullBucket.simps) simp
  qed
qed

lemma test_insert_ok:
  assumes "ht_ok t" "numItems t + int (length ps) \<le> 2 ^ 29" "distinct (map (getKey t) ps)" "\<forall>p\<in>set ps. ht_abs t (getKey t p) = None"
  shows "\<exists>t'. test_insert ps t = Inr t' \<and> ht_ok t' \<and> getKey t' = getKey t \<and> ht_abs t' = ht_abs t ++ map_of (map (\<lambda>p. (getKey t p, p)) ps)"
  using assms
proof (induction ps arbitrary: t)
  case (Cons p ps)
  then obtain t1 where t1: "Insert t p = Inr t1" "ht_ok t1" "ht_abs t1 = (ht_abs t)(getKey t p \<mapsto> p)" "numItems t1 = numItems t + 1"
    "getKey t1 = getKey t" using HashTable_Insert_ok [of t p] by auto
  have "\<exists>t'. test_insert ps t1 = Inr t' \<and> ht_ok t' \<and> getKey t' = getKey t1 \<and> ht_abs t' = ht_abs t1 ++ map_of (map (\<lambda>p. (getKey t1 p, p)) ps)"
    using Cons.prems t1 by (intro Cons.IH) (auto simp: image_iff)
  moreover have "(ht_abs t)(getKey t p \<mapsto> p) ++ map_of (map (\<lambda>p. (getKey t p, p)) ps)
      = ht_abs t ++ map_of (map (\<lambda>p. (getKey t p, p)) (p # ps))"
  proof -
    have "getKey t p \<notin> dom (map_of (map (\<lambda>p. (getKey t p, p)) ps))" using Cons.prems(3) by (auto simp: dom_map_of_conv_image_fst image_image)
    then show ?thesis by (simp add: map_add_upd_left)
  qed
  moreover have "IsInTable t1 (getKey t1 p) = Inr True" "\<not> HashTable_IsEmpty t1"
    using t1 IsInTable_ok [of t1] ht_full [OF t1(2)] by (simp_all add: ht_ok_def)
  ultimately show ?case using t1 by (auto simp del: map_of.simps list.map)
qed simp

lemma test_remove_table_ok:
  assumes "ht_ok t" "distinct (map (getKey t) ps)" "ht_abs t = map_of (map (\<lambda>p. (getKey t p, p)) ps)"
  shows "\<exists>t'. test_remove ps t = Inr t' \<and> ht_ok t' \<and> ht_abs t' = Map.empty"
  using assms
proof (induction ps arbitrary: t)
  case (Cons p ps)
  have "ht_abs t (getKey t p) = Some p" using Cons.prems by simp
  then obtain t1 where t1: "Remove t (getKey t p) = Inr (p, t1)" "ht_ok t1" "ht_abs t1 = (ht_abs t)(getKey t p := None)"
    "getKey t1 = getKey t" using HashTable_Remove_ok [OF Cons.prems(1)] by blast
  have "map_of (map (\<lambda>p. (getKey t p, p)) ps) (getKey t p) = None"
    using Cons.prems(2) by (auto simp: map_of_eq_None_iff image_image)
  then have "ht_abs t1 = map_of (map (\<lambda>p. (getKey t p, p)) ps)" using t1(3) Cons.prems(3) by auto
  then have "\<exists>t'. test_remove ps t1 = Inr t' \<and> ht_ok t' \<and> ht_abs t' = Map.empty"
    using Cons.prems t1 by (intro Cons.IH) auto
  then show ?case using t1 by auto
qed simp

lemma HashTable_SelfTest_ok:
  assumes "distinct (map g ps)" "length ps < 2 ^ 29"
  shows "\<exists>t. HashTable_SelfTest ps (HashTable_new g h) = Inr t \<and> HashTable_IsEmpty t"
proof -
  let ?t = "HashTable_new g h"
  note new = ht_ok_new [of g h]
  have s: "shape ?t" using new(1) by (simp add: ht_ok_def)
  obtain t1 where i: "test_insert ps ?t = Inr t1" "ht_ok t1" "getKey t1 = g" "ht_abs t1 = map_of (map (\<lambda>p. (g p, p)) ps)"
    using test_insert_ok [OF new(1), of ps] assms new by auto
  obtain t2 where r: "test_remove ps t1 = Inr t2" "ht_ok t2" "ht_abs t2 = Map.empty"
    using test_remove_table_ok [OF i(2), of ps] i assms by auto
  have "HashTable_IsEmpty ?t" "HashTable_IsEmpty t2" using ht_full new r by blast+
  moreover have "\<exists>it. HashIterator_new ?t = Inr it \<and> HashIterator_IsDone ?t it"
  proof -
    have "contents ?t = {}" using new(1) \<open>HashTable_IsEmpty ?t\<close> by (simp add: HashTable_IsEmpty_def ht_ok_def contents_def)
    then have "FindNextFullBucket ?t 0 = Inr (numBuckets ?t)" using s by (intro FindNextFullBucket_empty) (simp_all add: shape_def)
    then show ?thesis by (simp add: HashIterator_new_def open_bucket_def HashIterator_IsDone_def)
  qed
  ultimately show ?thesis using SanityCheck_ok [OF new(1)] SanityCheck_ok [OF r(2)] i(1) r(1)
    by (auto simp: HashTable_SelfTest_def)
qed

text \<open>C27. A hash table holding fewer than 2^29 items implements a finite map from keys to items, growth included:
  \<open>Find\<close> looks the key up, \<open>Insert\<close> adds the item under its key and fails exactly on a key that is present, \<open>Remove\<close>
  returns and deletes the item of a key and fails exactly on one that is absent, \<open>ReHash\<close> changes nothing, the
  invariant is kept by each of them, and it makes \<open>SanityCheck\<close> pass and \<open>numItems\<close> the number of keys.\<close>

theorem HashTable_refines_map:
  assumes "ht_ok t" "numItems t < 2 ^ 29"
  shows "Find t k = Inr (ht_abs t k)
    \<and> (if ht_abs t (getKey t x) = None
       then \<exists>t'. Insert t x = Inr t' \<and> ht_ok t' \<and> ht_abs t' = (ht_abs t)(getKey t x \<mapsto> x)
       else Insert t x = Inl AssertFailed)
    \<and> (case ht_abs t k of
         None \<Rightarrow> Remove t k = Inl AssertFailed
       | Some y \<Rightarrow> \<exists>t'. Remove t k = Inr (y, t') \<and> ht_ok t' \<and> ht_abs t' = (ht_abs t)(k := None))
    \<and> (numBuckets t * IncreaseSizeBy < 2 ^ 31 \<longrightarrow> (\<exists>t'. ReHash t = Inr t' \<and> ht_ok t' \<and> ht_abs t' = ht_abs t))
    \<and> HashTable_SanityCheck t = Inr () \<and> numItems t = int (card (dom (ht_abs t)))"
proof (intro conjI)
  show "Find t k = Inr (ht_abs t k)" by (rule Find_ok) (use assms in \<open>simp add: ht_ok_def\<close>)
  show "if ht_abs t (getKey t x) = None
       then \<exists>t'. Insert t x = Inr t' \<and> ht_ok t' \<and> ht_abs t' = (ht_abs t)(getKey t x \<mapsto> x)
       else Insert t x = Inl AssertFailed"
    using HashTable_Insert_ok [OF assms, of x] Insert_present [OF assms(1), of x] by auto
  show "case ht_abs t k of
         None \<Rightarrow> Remove t k = Inl AssertFailed
       | Some y \<Rightarrow> \<exists>t'. Remove t k = Inr (y, t') \<and> ht_ok t' \<and> ht_abs t' = (ht_abs t)(k := None)"
    using HashTable_Remove_ok [OF assms(1), of k] Remove_absent [OF assms(1), of k] by (cases "ht_abs t k") auto
  show "numBuckets t * IncreaseSizeBy < 2 ^ 31 \<longrightarrow> (\<exists>t'. ReHash t = Inr t' \<and> ht_ok t' \<and> ht_abs t' = ht_abs t)"
    using ReHash_ok [OF assms(1)] by (auto simp: IncreaseSizeBy_def)
qed (rule SanityCheck_ok [OF assms(1)], rule ht_ok_card [OF assms(1)])

theorem HashTable_refines_map_witness:
  "ht_ok (HashTable_new fst (\<lambda>_. 0) :: (int, int \<times> string) HashTable)
   \<and> numItems (HashTable_new fst (\<lambda>_. 0) :: (int, int \<times> string) HashTable) < 2 ^ 29
   \<and> Find (HashTable_new fst (\<lambda>_. 0) :: (int, int \<times> string) HashTable) 3 = Inr None"
  using HashTable_refines_map [of "HashTable_new fst (\<lambda>_. 0) :: (int, int \<times> string) HashTable" 3 "(0, [])"] ht_ok_new [of "fst :: int \<times> string \<Rightarrow> int" "\<lambda>_. 0"]
  by simp

end
