(* ===== verification/LibTest.thy ===== *)
theory LibTest
  imports Bitmap HashTable
begin

text \<open>
  The library's self test, \<open>lib/libtest.cc\<close>: \<open>LibSelfTest\<close> builds a bitmap, a list, a sorted list and a hash table and
  runs the \<open>SelfTest\<close> of each. The lists live in the heap of list elements; \<open>delete\<close> has an effect only on the hash
  table, whose destructor asserts that it is empty.
\<close>

definition IntCompare :: "int \<Rightarrow> int \<Rightarrow> int" where
  "IntCompare x y = (if x < y then -1 else if x = y then 0 else 1)"

definition HashInt :: "int \<Rightarrow> u32" where "HashInt key = word_of_int key"

text \<open>\<open>atoi\<close>: white space, a sign, then the digits up to the first other character.\<close>

definition digit_value :: "char \<Rightarrow> int option" where
  "digit_value c = (let v = of_char c - 48 :: int in if 0 \<le> v \<and> v \<le> 9 then Some v else None)"

fun atoi_digits :: "int \<Rightarrow> string \<Rightarrow> int" where
  "atoi_digits n [] = n"
| "atoi_digits n (c # cs) = (case digit_value c of None \<Rightarrow> n | Some d \<Rightarrow> atoi_digits (n * 10 + d) cs)"

definition is_space :: "char \<Rightarrow> bool" where
  "is_space c \<longleftrightarrow> (of_char c :: int) \<in> {9, 10, 11, 12, 13, 32}"

definition atoi :: "string \<Rightarrow> int" where
  "atoi s =
     (case dropWhile is_space s of
        [] \<Rightarrow> 0
      | c # cs \<Rightarrow> if c = CHR ''-'' then - atoi_digits 0 cs else if c = CHR ''+'' then atoi_digits 0 cs else atoi_digits 0 (c # cs))"

definition HashKey :: "string \<Rightarrow> int" where "HashKey str = atoi str"

definition listTestVector :: "int list" where "listTestVector = [9, 5, 7]"

definition hashTestVector :: "string list" where
  "hashTestVector = [''0'', ''1'', ''2'', ''3'', ''4'', ''5'', ''6'', ''7'', ''8'', ''9'', ''10'', ''11'', ''12'', ''13'', ''14'']"

definition LibSelfTest :: "int heap \<Rightarrow> int heap res" where
  "LibSelfTest h =
     bind_res (Bitmap_new 200) (\<lambda>map.
     let list = List_new; sortList = List_new; hashTable = HashTable_new HashKey HashInt
     in bind_res (Bitmap_SelfTest map) (\<lambda>map.
        bind_res (List_SelfTest listTestVector h list) (\<lambda>(h, list).
        bind_res (SortedList_SelfTest IntCompare listTestVector h sortList) (\<lambda>(h, sortList).
        bind_res (HashTable_SelfTest hashTestVector hashTable) (\<lambda>hashTable.
        bind_res (HashTable_delete hashTable) (\<lambda>_. Inr h))))))"

lemma compare_ok_IntCompare: "compare_ok IntCompare"
  by (auto simp: compare_ok_def IntCompare_def split: if_splits)

lemma hashTestVector_keys: "map HashKey hashTestVector = [0..14]"
  by (simp add: hashTestVector_def HashKey_def atoi_def is_space_def digit_value_def upto.simps)

text \<open>
  \<open>LibSelfTest\<close> passes: started on any heap of list elements, the self tests of the bitmap, the list, the
  sorted list and the hash table (whose fifteen items make it grow) all succeed, and so does the destructor of the table.
\<close>

theorem LibSelfTest_passes:
  assumes "heap_ok h"
  shows "\<exists>h'. LibSelfTest h = Inr h'"
proof -
  obtain b b' where b: "Bitmap_new 200 = Inr b" "Bitmap_SelfTest b = Inr b'"
    using Bitmap_SelfTest_ok [of 200] by (auto simp: BitsInWord_def BitsInByte_def)
  have d: "distinct listTestVector" by (simp add: listTestVector_def)
  note t = List_SelfTests_ok [OF _ d compare_ok_IntCompare]
  obtain h1 l1 where l: "List_SelfTest listTestVector h List_new = Inr (h1, l1)" "rep h1 l1 []" using t [OF assms] by blast
  have "heap_ok h1" using l(2) by (auto simp: rep_def list_ok_def)
  then obtain h2 l2 where s: "SortedList_SelfTest IntCompare listTestVector h1 List_new = Inr (h2, l2)" using t by blast
  have "distinct (map HashKey hashTestVector)" by (simp add: hashTestVector_keys)
  moreover have "length hashTestVector < 2 ^ 29" by (simp add: hashTestVector_def)
  ultimately obtain t where "HashTable_SelfTest hashTestVector (HashTable_new HashKey HashInt) = Inr t" "HashTable_IsEmpty t"
    using HashTable_SelfTest_ok by blast
  with b l s show ?thesis by (simp add: LibSelfTest_def HashTable_delete_def)
qed

theorem LibSelfTest_passes_witness: "\<exists>h'. LibSelfTest empty_heap = Inr h'"
  by (rule LibSelfTest_passes [OF heap_ok_empty])

end
