(* ===== verification/Interrupt.thy ===== *)
theory Interrupt
  imports Machine LinkedList "HOL-Library.Multiset"
begin

text \<open>
  The simulation of time and of hardware interrupts: \<open>machine/stats.h\<close>, \<open>machine/stats.cc\<close>, \<open>machine/interrupt.h\<close> and
  \<open>machine/interrupt.cc\<close>. The objects whose \<open>CallBack\<close> an interrupt invokes belong to the devices, and \<open>Thread::Yield\<close>
  to the threads: both are arguments of the operations here, and the locale \<open>devices\<close> states what the simulation relies
  on. The list of pending interrupts is a \<open>SortedList\<close> of freshly allocated objects, so inserting never finds the object
  in the list already.
\<close>

section \<open>Statistics\<close>

record Statistics =
  totalTicks :: int
  idleTicks :: int
  systemTicks :: int
  userTicks :: int
  numDiskReads :: int
  numDiskWrites :: int
  numConsoleCharsRead :: int
  numConsoleCharsWritten :: int
  numPageFaults :: int
  numPacketsSent :: int
  numPacketsRecvd :: int

definition Statistics_new :: Statistics where
  "Statistics_new = \<lparr>totalTicks = 0, idleTicks = 0, systemTicks = 0, userTicks = 0, numDiskReads = 0, numDiskWrites = 0,
     numConsoleCharsRead = 0, numConsoleCharsWritten = 0, numPageFaults = 0, numPacketsSent = 0, numPacketsRecvd = 0\<rparr>"

definition UserTick :: int where "UserTick = 1"
definition SystemTick :: int where "SystemTick = 10"
definition RotationTime :: int where "RotationTime = 500"
definition SeekTime :: int where "SeekTime = 500"
definition ConsoleTime :: int where "ConsoleTime = 100"
definition NetworkTime :: int where "NetworkTime = 100"
definition TimerTicks :: int where "TimerTicks = 100"

lemmas tick_defs = UserTick_def SystemTick_def RotationTime_def SeekTime_def ConsoleTime_def NetworkTime_def TimerTicks_def

section \<open>Interrupts\<close>

datatype IntStatus = IntOff | IntOn
datatype MachineStatus = IdleMode | SystemMode | UserMode
datatype IntType = TimerInt | DiskInt | ConsoleWriteInt | ConsoleReadInt | NetworkSendInt | NetworkRecvInt

record 'o PendingInterrupt =
  callOnInterrupt :: 'o
  whenDue :: int              \<comment> \<open>\<open>when\<close>\<close>
  intType :: IntType          \<comment> \<open>\<open>type\<close>\<close>

definition PendingCompare :: "'o PendingInterrupt compare" where
  "PendingCompare x y = (if whenDue x < whenDue y then -1 else if whenDue x > whenDue y then 1 else 0)"

text \<open>The interrupt hardware, with the kernel's statistics and user machine it works on.\<close>

record 'o Interrupt =
  stats :: Statistics
  machine :: "Machine option"
  level :: IntStatus
  pending :: "'o PendingInterrupt list"
  inHandler :: bool
  yieldOnReturn :: bool
  status :: MachineStatus

definition Interrupt_new :: "Machine option \<Rightarrow> 'o Interrupt" where
  "Interrupt_new m = \<lparr>stats = Statistics_new, machine = m, level = IntOff, pending = [], inHandler = False,
     yieldOnReturn = False, status = SystemMode\<rparr>"

type_synonym ('o, 'z) callback = "'o \<Rightarrow> ('o, 'z) Interrupt_scheme \<Rightarrow> ('o, 'z) Interrupt_scheme res"

definition ChangeLevel :: "IntStatus \<Rightarrow> ('o, 'z) Interrupt_scheme \<Rightarrow> ('o, 'z) Interrupt_scheme" where
  "ChangeLevel now k = k\<lparr>level := now\<rparr>"

definition Schedule :: "'o \<Rightarrow> int \<Rightarrow> IntType \<Rightarrow> ('o, 'z) Interrupt_scheme \<Rightarrow> ('o, 'z) Interrupt_scheme res" where
  "Schedule toCall fromNow type k =
     (let toOccur = \<lparr>callOnInterrupt = toCall, whenDue = totalTicks (stats k) + fromNow, intType = type\<rparr>
      in ASSERT (fromNow > 0) (Inr (k\<lparr>pending := sorted_insert PendingCompare toOccur (pending k)\<rparr>)))"

text \<open>
  The loop of \<open>CheckIfDue\<close> that invokes the handlers. Handlers only schedule interrupts for later, so it runs at most
  once for each interrupt pending at its start, which is the fuel it gets.
\<close>

fun run_due :: "('o, 'z) callback \<Rightarrow> nat \<Rightarrow> ('o, 'z) Interrupt_scheme \<Rightarrow> ('o, 'z) Interrupt_scheme res" where
  "run_due call 0 k = Inl Diverges"
| "run_due call (Suc n) k =
     bind_res (list_RemoveFront (pending k)) (\<lambda>(nxt, ps).
     bind_res (call (callOnInterrupt nxt) (k\<lparr>pending := ps\<rparr>)) (\<lambda>k.
     if pending k \<noteq> [] \<and> whenDue (hd (pending k)) \<le> totalTicks (stats k) then run_due call n k else Inr k))"

definition advance_clock :: "int \<Rightarrow> Statistics \<Rightarrow> Statistics" where
  "advance_clock t s = s\<lparr>idleTicks := idleTicks s + (t - totalTicks s), totalTicks := t\<rparr>"

definition clear_load :: "('o, 'z) Interrupt_scheme \<Rightarrow> ('o, 'z) Interrupt_scheme res" where
  "clear_load k =
     (case machine k of
        None \<Rightarrow> Inr k
      | Some m \<Rightarrow> bind_res (DelayedLoad m 0 0) (\<lambda>m. Inr (k\<lparr>machine := Some m\<rparr>)))"

definition CheckIfDue :: "('o, 'z) callback \<Rightarrow> bool \<Rightarrow> ('o, 'z) Interrupt_scheme \<Rightarrow> (bool \<times> ('o, 'z) Interrupt_scheme) res" where
  "CheckIfDue call advanceClock k =
     ASSERT (level k = IntOff)
     (case pending k of
        [] \<Rightarrow> Inr (False, k)
      | nxt # _ \<Rightarrow>
          let late = whenDue nxt > totalTicks (stats k)
          in if late \<and> \<not> advanceClock then Inr (False, k)
             else bind_res (clear_load (if late then k\<lparr>stats := advance_clock (whenDue nxt) (stats k)\<rparr> else k)) (\<lambda>k.
                  bind_res (run_due call (length (pending k)) (k\<lparr>inHandler := True\<rparr>)) (\<lambda>k.
                  Inr (True, k\<lparr>inHandler := False\<rparr>))))"

definition count_tick :: "MachineStatus \<Rightarrow> Statistics \<Rightarrow> Statistics" where
  "count_tick st s =
     (if st = SystemMode then s\<lparr>totalTicks := totalTicks s + SystemTick, systemTicks := systemTicks s + SystemTick\<rparr>
      else s\<lparr>totalTicks := totalTicks s + UserTick, userTicks := userTicks s + UserTick\<rparr>)"

text \<open>\<open>yield old\<close> is the current thread's \<open>Yield\<close> followed by \<open>status = old\<close>.\<close>

definition OneTick ::
  "('o, 'z) callback \<Rightarrow> (MachineStatus \<Rightarrow> ('o, 'z) Interrupt_scheme \<Rightarrow> ('o, 'z) Interrupt_scheme res) \<Rightarrow>
   ('o, 'z) Interrupt_scheme \<Rightarrow> ('o, 'z) Interrupt_scheme res" where
  "OneTick call yield k =
     (let oldStatus = status k
      in bind_res (CheckIfDue call False (ChangeLevel IntOff (k\<lparr>stats := count_tick (status k) (stats k)\<rparr>))) (\<lambda>(_, k).
         let k = ChangeLevel IntOn k
         in if yieldOnReturn k then yield oldStatus (k\<lparr>yieldOnReturn := False, status := SystemMode\<rparr>) else Inr k))"

definition SetLevel ::
  "(('o, 'z) Interrupt_scheme \<Rightarrow> ('o, 'z) Interrupt_scheme res) \<Rightarrow> IntStatus \<Rightarrow> ('o, 'z) Interrupt_scheme \<Rightarrow>
   ('o, 'z) Interrupt_scheme res" where
  "SetLevel tick now k =
     ASSERT (now = IntOff \<or> \<not> inHandler k)
     (let old = level k; k = ChangeLevel now k in if now = IntOn \<and> old = IntOff then tick k else Inr k)"

definition YieldOnReturn :: "('o, 'z) Interrupt_scheme \<Rightarrow> ('o, 'z) Interrupt_scheme res" where
  "YieldOnReturn k = ASSERT (inHandler k) (Inr (k\<lparr>yieldOnReturn := True\<rparr>))"

definition Idle :: "('o, 'z) callback \<Rightarrow> ('o, 'z) Interrupt_scheme \<Rightarrow> ('o, 'z) Interrupt_scheme res" where
  "Idle call k =
     bind_res (CheckIfDue call True (k\<lparr>status := IdleMode\<rparr>)) (\<lambda>(b, k).
     if b then Inr (k\<lparr>status := SystemMode\<rparr>) else Inl MachineHalted)"

section \<open>Invariants of the simulation\<close>

definition regs_ok :: "u32 list \<Rightarrow> bool" where
  "regs_ok r \<longleftrightarrow> length r = NumTotalRegs \<and> unat (r ! LoadReg) < NumGPRegs"

text \<open>
  The clock shows the sum of the three kinds of time, the pending interrupts are in order, and outside a handler all of
  them lie in the future.
\<close>

definition time_ok :: "Statistics \<Rightarrow> bool" where
  "time_ok s \<longleftrightarrow> totalTicks s = idleTicks s + systemTicks s + userTicks s \<and> 0 \<le> idleTicks s \<and> 0 \<le> systemTicks s \<and> 0 \<le> userTicks s"

abbreviation by_time :: "'o PendingInterrupt list \<Rightarrow> bool" where
  "by_time ps \<equiv> sorted_wrt (\<lambda>p q. whenDue p \<le> whenDue q) ps"

definition future :: "int \<Rightarrow> 'o PendingInterrupt list \<Rightarrow> bool" where
  "future t ps \<longleftrightarrow> (\<forall>p\<in>set ps. t < whenDue p)"

definition int_ok :: "('o, 'z) Interrupt_scheme \<Rightarrow> bool" where
  "int_ok k \<longleftrightarrow> time_ok (stats k) \<and> by_time (pending k) \<and> (\<exists>m. machine k = Some m \<and> regs_ok (registers m))"

definition quiet :: "('o, 'z) Interrupt_scheme \<Rightarrow> bool" where
  "quiet k \<longleftrightarrow> int_ok k \<and> future (totalTicks (stats k)) (pending k) \<and> \<not> inHandler k"

lemma PendingCompare_le: "PendingCompare p q \<le> 0 \<longleftrightarrow> whenDue p \<le> whenDue q"
  by (simp add: PendingCompare_def)

lemma compare_ok_PendingCompare: "compare_ok PendingCompare"
  by (auto simp: compare_ok_def PendingCompare_def split: if_splits)

lemma by_time_insert: "by_time ps \<Longrightarrow> by_time (sorted_insert PendingCompare p ps)"
  using sorted_insert_in_order [OF compare_ok_PendingCompare, of ps p] by (simp add: PendingCompare_le)

declare set_sorted_insert [simp]

lemma mset_sorted_insert: "mset (sorted_insert c x ys) = add_mset x (mset ys)"
proof -
  have "mset ys = mset (takeWhile (after c x) ys) + mset (dropWhile (after c x) ys)" by (metis mset_append takeWhile_dropWhile_id)
  then show ?thesis by (simp add: sorted_insert_def)
qed

lemma clear_load_ok:
  assumes "machine k = Some m" "regs_ok (registers m)"
  shows "\<exists>m'. clear_load k = Inr (k\<lparr>machine := Some m'\<rparr>) \<and> regs_ok (registers m')"
  using assms
  by (intro exI [of _ "m\<lparr>registers := (registers m)[unat (registers m ! 37) := registers m ! 38, 37 := 0, 38 := 0, 0 := 0]\<rparr>"])
    (simp add: clear_load_def DelayedLoad_def Let_def regs_ok_def reg_defs)

section \<open>The interface to the devices\<close>

text \<open>
  \<open>handled ps k k'\<close>: a handler invoked in \<open>k\<close>, with \<open>ps\<close> the interrupts still pending, left \<open>k'\<close>: the clock, the machine
  and the interrupt level are as they were, and the only new interrupts lie in the future.
\<close>

definition handled :: "'o PendingInterrupt list \<Rightarrow> ('o, 'z) Interrupt_scheme \<Rightarrow> ('o, 'z) Interrupt_scheme \<Rightarrow> bool" where
  "handled ps k k' \<longleftrightarrow>
     totalTicks (stats k') = totalTicks (stats k) \<and> (time_ok (stats k) \<longrightarrow> time_ok (stats k')) \<and> machine k' = machine k
     \<and> level k' = level k \<and> inHandler k' = inHandler k \<and> status k' = status k \<and> by_time (pending k')
     \<and> (\<exists>new. mset (pending k') = mset ps + new \<and> (\<forall>p\<in>#new. totalTicks (stats k) < whenDue p))"

text \<open>
  The contract of the interrupt handlers: in a state that satisfies the kernel's invariant \<open>inv\<close>, which does not look
  at the clock, the machine or the interrupt level, the handler of the first pending interrupt succeeds, keeps the
  invariant and schedules interrupts for later only.
\<close>

locale devices =
  fixes call :: "('o, 'z) callback" and inv :: "('o, 'z) Interrupt_scheme \<Rightarrow> bool"
  assumes call_ok: "\<lbrakk>inv k; pending k = p # ps; inHandler k; level k = IntOff; int_ok k\<rbrakk> \<Longrightarrow>
      \<exists>k'. call (callOnInterrupt p) (k\<lparr>pending := ps\<rparr>) = Inr k' \<and> inv k' \<and> handled ps k k'"
    and inv_frame [simp]: "inv (k\<lparr>stats := s\<rparr>) = inv k" "inv (k\<lparr>machine := m\<rparr>) = inv k" "inv (k\<lparr>level := l\<rparr>) = inv k"
      "inv (k\<lparr>inHandler := h\<rparr>) = inv k" "inv (k\<lparr>yieldOnReturn := y\<rparr>) = inv k" "inv (k\<lparr>status := st\<rparr>) = inv k"
begin

definition due :: "('o, 'z) Interrupt_scheme \<Rightarrow> nat" where
  "due k = size (filter_mset (\<lambda>p. whenDue p \<le> totalTicks (stats k)) (mset (pending k)))"

lemma due_le: "due k \<le> length (pending k)"
  unfolding due_def by (metis size_filter_mset_lesseq size_mset)

lemma due_handled:
  assumes "handled ps k k'" "pending k = p # ps" "whenDue p \<le> totalTicks (stats k)"
  shows "Suc (due k') = due k"
proof -
  obtain new where n: "mset (pending k') = mset ps + new" "\<forall>p\<in>#new. totalTicks (stats k) < whenDue p"
    using assms(1) by (auto simp: handled_def)
  have "filter_mset (\<lambda>p. whenDue p \<le> totalTicks (stats k)) new = filter_mset (\<lambda>_. False) new"
    using n(2) by (intro filter_mset_cong) auto
  then show ?thesis using assms n(1) by (simp add: due_def handled_def)
qed

lemma run_due_ok:
  assumes "inv k" "int_ok k" "inHandler k" "level k = IntOff" "pending k \<noteq> []" "whenDue (hd (pending k)) \<le> totalTicks (stats k)" "due k \<le> n"
  shows "\<exists>k'. run_due call n k = Inr k' \<and> inv k' \<and> int_ok k' \<and> future (totalTicks (stats k')) (pending k') \<and> inHandler k'
    \<and> level k' = IntOff \<and> status k' = status k \<and> totalTicks (stats k') = totalTicks (stats k) \<and> machine k' = machine k"
  using assms
proof (induction n arbitrary: k)
  case 0
  then have "0 < due k" by (cases "pending k") (simp_all add: due_def)
  then show ?case using 0 by simp
next
  case (Suc n)
  then obtain p ps where p: "pending k = p # ps" "whenDue p \<le> totalTicks (stats k)" by (cases "pending k") auto
  obtain k1 where k1: "call (callOnInterrupt p) (k\<lparr>pending := ps\<rparr>) = Inr k1" "inv k1" "handled ps k k1"
    using call_ok [OF Suc.prems(1) p(1) Suc.prems(3,4,2)] by blast
  have i: "int_ok k1" "inHandler k1" "level k1 = IntOff" "status k1 = status k" "totalTicks (stats k1) = totalTicks (stats k)" "machine k1 = machine k"
    using k1(3) Suc.prems by (auto simp: handled_def int_ok_def)
  show ?case
  proof (cases "pending k1 \<noteq> [] \<and> whenDue (hd (pending k1)) \<le> totalTicks (stats k1)")
    case True
    have "due k1 \<le> n" using due_handled [OF k1(3) p] Suc.prems(7) by simp
    then show ?thesis using Suc.IH [of k1] True k1 i p by (auto simp: list_RemoveFront_def)
  next
    case False
    have "future (totalTicks (stats k1)) (pending k1)"
      using False i(1) by (cases "pending k1") (auto simp: future_def int_ok_def)
    then show ?thesis using False k1 i p by (auto simp: list_RemoveFront_def)
  qed
qed

lemma CheckIfDue_ok:
  assumes "inv k" "int_ok k" "\<not> inHandler k" "level k = IntOff"
  shows "\<exists>b k'. CheckIfDue call adv k = Inr (b, k') \<and> inv k' \<and> quiet k' \<and> level k' = IntOff \<and> status k' = status k
    \<and> (adv \<longrightarrow> b = (pending k \<noteq> [])) \<and> totalTicks (stats k) \<le> totalTicks (stats k')
    \<and> (b \<longrightarrow> (\<exists>p. pending k \<noteq> [] \<and> p = hd (pending k) \<and> totalTicks (stats k') = max (totalTicks (stats k)) (whenDue p)))"
proof (cases "pending k = [] \<or> whenDue (hd (pending k)) > totalTicks (stats k) \<and> \<not> adv")
  case True
  then have "CheckIfDue call adv k = Inr (False, k)" using assms(4) by (cases "pending k") (auto simp: CheckIfDue_def)
  moreover have "quiet k" using True assms by (cases "pending k") (auto simp: quiet_def future_def int_ok_def)
  ultimately show ?thesis using assms True by auto
next
  case False
  then obtain p ps where p: "pending k = p # ps" by (cases "pending k") auto
  define k0 where "k0 = (if whenDue p > totalTicks (stats k) then k\<lparr>stats := advance_clock (whenDue p) (stats k)\<rparr> else k)"
  have k0: "inv k0" "int_ok k0" "pending k0 = p # ps" "totalTicks (stats k0) = max (totalTicks (stats k)) (whenDue p)" "level k0 = IntOff" "status k0 = status k"
    using assms p by (auto simp: k0_def int_ok_def time_ok_def advance_clock_def)
  obtain m where m: "clear_load k0 = Inr (k0\<lparr>machine := Some m\<rparr>)" "regs_ok (registers m)"
    using clear_load_ok [of k0] k0(2) by (auto simp: int_ok_def)
  let ?k1 = "k0\<lparr>machine := Some m, inHandler := True\<rparr>"
  have "\<exists>k'. run_due call (length (p # ps)) ?k1 = Inr k' \<and> inv k' \<and> int_ok k' \<and> future (totalTicks (stats k')) (pending k') \<and> inHandler k'
    \<and> level k' = IntOff \<and> status k' = status ?k1 \<and> totalTicks (stats k') = totalTicks (stats ?k1) \<and> machine k' = machine ?k1"
  proof (rule run_due_ok)
    show "due ?k1 \<le> length (p # ps)" using k0(3) due_le [of ?k1] by simp
  qed (use k0 m in \<open>simp_all add: int_ok_def\<close>)
  then obtain k' where k': "run_due call (length (p # ps)) ?k1 = Inr k'" "inv k'" "int_ok k'" "future (totalTicks (stats k')) (pending k')"
    "level k' = IntOff" "status k' = status k" "totalTicks (stats k') = totalTicks (stats k0)" using k0(6) by auto
  have "CheckIfDue call adv k = Inr (True, k'\<lparr>inHandler := False\<rparr>)"
    using False p assms(4) m(1) k'(1) k0(3) by (auto simp: CheckIfDue_def Let_def k0_def [symmetric] simp del: run_due.simps)
  moreover have "quiet (k'\<lparr>inHandler := False\<rparr>)" using k' by (simp add: quiet_def int_ok_def)
  ultimately show ?thesis using k' k0 p by auto
qed

lemma time_ok_tick: "time_ok s \<Longrightarrow> time_ok (count_tick st s)"
  by (auto simp: time_ok_def count_tick_def tick_defs)

lemma Idle_ok:
  assumes "inv k" "quiet k" "level k = IntOff"
  shows "if pending k = [] then Idle call k = Inl MachineHalted
     else \<exists>k'. Idle call k = Inr k' \<and> inv k' \<and> quiet k' \<and> level k' = IntOff \<and> status k' = SystemMode
        \<and> totalTicks (stats k') = whenDue (hd (pending k))"
proof -
  let ?k = "k\<lparr>status := IdleMode\<rparr>"
  have i: "inv ?k" "int_ok ?k" "\<not> inHandler ?k" "level ?k = IntOff" using assms by (simp_all add: quiet_def int_ok_def)
  obtain b k' where c: "CheckIfDue call True ?k = Inr (b, k')" "inv k'" "quiet k'" "level k' = IntOff" "b = (pending k \<noteq> [])"
    "b \<longrightarrow> totalTicks (stats k') = max (totalTicks (stats k)) (whenDue (hd (pending k)))"
    using CheckIfDue_ok [OF i, of True] by auto
  show ?thesis
  proof (cases "pending k = []")
    case False
    then have "totalTicks (stats k) < whenDue (hd (pending k))" using assms(2) by (simp add: quiet_def future_def)
    then show ?thesis using c False by (auto simp: Idle_def quiet_def int_ok_def)
  qed (use c in \<open>simp add: Idle_def\<close>)
qed

end

end
