(* ===== verification/DiskDevice.thy ===== *)
theory DiskDevice
  imports Interrupt SectorDisk
begin

text \<open>
  The simulated disk, \<open>machine/disk.h\<close> and \<open>machine/disk.cc\<close>: the UNIX file that holds the sectors behind a magic number,
  the geometry of seek and rotation that determines when the interrupt of a request comes, and the requests. A UNIX file
  is the list of its bytes; \<open>Read\<close> of \<open>lib/sysdep.cc\<close> asserts that all bytes asked for were there, and writing past the
  end fills the gap with zeroes.
\<close>

section \<open>The UNIX file\<close>

definition file_read :: "byte list \<Rightarrow> int \<Rightarrow> int \<Rightarrow> byte list res" where
  "file_read f offset nBytes =
     ASSERT (0 \<le> offset) (ASSERT (nat offset + nat nBytes \<le> length f) (Inr (take (nat nBytes) (drop (nat offset) f))))"

definition file_write :: "byte list \<Rightarrow> int \<Rightarrow> byte list \<Rightarrow> byte list res" where
  "file_write f offset bs =
     ASSERT (0 \<le> offset) (Inr (overwrite (f @ replicate (nat offset - length f) 0) (nat offset) bs))"

definition MagicNumber :: int where "MagicNumber = 0x456789ab"
definition MagicSize :: int where "MagicSize = 4"
definition DiskSize :: int where "DiskSize = MagicSize + NumSectors * SectorSize"

section \<open>The device\<close>

record Disk =
  unixFile :: "byte list"          \<comment> \<open>\<open>fileno\<close>, \<open>diskname\<close>\<close>
  active :: bool
  lastSector :: int
  bufferInit :: int

definition Disk_new :: "byte list option \<Rightarrow> Disk res" where
  "Disk_new hostFile =
     (case hostFile of
        Some f \<Rightarrow>
          bind_res (file_read f 0 MagicSize) (\<lambda>magicNum. ASSERT (bytes_to_int magicNum = MagicNumber)
          (Inr \<lparr>unixFile = f, active = False, lastSector = 0, bufferInit = 0\<rparr>))
      | None \<Rightarrow>
          bind_res (file_write [] 0 (int_to_bytes MagicNumber)) (\<lambda>f.
          bind_res (file_write f (DiskSize - 4) (int_to_bytes 0)) (\<lambda>f.
          Inr \<lparr>unixFile = f, active = False, lastSector = 0, bufferInit = 0\<rparr>)))"

text \<open>\<open>TimeToSeek\<close> returns the seek time and, through its pointer argument, the rotation.\<close>

definition TimeToSeek :: "int \<Rightarrow> Disk \<Rightarrow> int \<Rightarrow> int \<times> int" where
  "TimeToSeek ticks d newSector =
     (let newTrack = newSector sdiv SectorsPerTrack;
          oldTrack = lastSector d sdiv SectorsPerTrack;
          seek = \<bar>newTrack - oldTrack\<bar> * SeekTime;
          over = (ticks + seek) smod RotationTime
      in (seek, if over > 0 then RotationTime - over else 0))"

definition ModuloDiff :: "int \<Rightarrow> int \<Rightarrow> int" where
  "ModuloDiff target position =
     (let toOffset = target smod SectorsPerTrack; fromOffset = position smod SectorsPerTrack
      in ((toOffset - fromOffset) + SectorsPerTrack) smod SectorsPerTrack)"

definition ComputeLatency :: "int \<Rightarrow> Disk \<Rightarrow> int \<Rightarrow> bool \<Rightarrow> int" where
  "ComputeLatency ticks d newSector writing =
     (let (seek, rotation) = TimeToSeek ticks d newSector;
          timeAfter = ticks + seek + rotation
      in if \<not> writing \<and> seek = 0
            \<and> (timeAfter - bufferInit d) sdiv RotationTime > ModuloDiff newSector (bufferInit d sdiv RotationTime)
         then RotationTime
         else seek + (rotation + ModuloDiff newSector (timeAfter sdiv RotationTime) * RotationTime) + RotationTime)"

definition UpdateLast :: "int \<Rightarrow> Disk \<Rightarrow> int \<Rightarrow> Disk" where
  "UpdateLast ticks d newSector =
     (let (seek, rotate) = TimeToSeek ticks d newSector
      in d\<lparr>bufferInit := (if seek \<noteq> 0 then ticks + seek + rotate else bufferInit d), lastSector := newSector\<rparr>)"

text \<open>The two requests, by the disk object \<open>this\<close>; they return once the interrupt is scheduled.\<close>

definition ReadRequest ::
  "'o \<Rightarrow> int \<Rightarrow> Disk \<Rightarrow> ('o, 'z) Interrupt_scheme \<Rightarrow> (byte list \<times> Disk \<times> ('o, 'z) Interrupt_scheme) res" where
  "ReadRequest this sectorNumber d k =
     (let ticks = ComputeLatency (totalTicks (stats k)) d sectorNumber False
      in ASSERT (\<not> active d) (ASSERT (sectorNumber \<ge> 0 \<and> sectorNumber < NumSectors)
         (bind_res (file_read (unixFile d) (SectorSize * sectorNumber + MagicSize) SectorSize) (\<lambda>data.
          bind_res (Schedule this ticks DiskInt (k\<lparr>stats := (stats k)\<lparr>numDiskReads := numDiskReads (stats k) + 1\<rparr>\<rparr>)) (\<lambda>k.
          Inr (data, UpdateLast (totalTicks (stats k)) (d\<lparr>active := True\<rparr>) sectorNumber, k))))))"

definition WriteRequest ::
  "'o \<Rightarrow> int \<Rightarrow> byte list \<Rightarrow> Disk \<Rightarrow> ('o, 'z) Interrupt_scheme \<Rightarrow> (Disk \<times> ('o, 'z) Interrupt_scheme) res" where
  "WriteRequest this sectorNumber data d k =
     (let ticks = ComputeLatency (totalTicks (stats k)) d sectorNumber True
      in ASSERT (\<not> active d) (ASSERT (sectorNumber \<ge> 0 \<and> sectorNumber < NumSectors)
         (bind_res (file_write (unixFile d) (SectorSize * sectorNumber + MagicSize) data) (\<lambda>f.
          bind_res (Schedule this ticks DiskInt (k\<lparr>stats := (stats k)\<lparr>numDiskWrites := numDiskWrites (stats k) + 1\<rparr>\<rparr>)) (\<lambda>k.
          Inr (UpdateLast (totalTicks (stats k)) (d\<lparr>unixFile := f, active := True\<rparr>) sectorNumber, k))))))"

section \<open>Geometry\<close>

lemma ModuloDiff_ok:
  assumes "0 \<le> a" "0 \<le> b"
  shows "ModuloDiff a b = (a - b) mod 32"
proof -
  have "0 \<le> a mod 32 - b mod 32 + 32" using assms pos_mod_bound [of 32 b] pos_mod_sign [of 32 a] by linarith
  then have "ModuloDiff a b = (a mod 32 - b mod 32 + 32) mod 32"
    using assms by (simp add: ModuloDiff_def SectorsPerTrack_def smod_nonneg Let_def)
  then show ?thesis by (simp add: mod_diff_eq)
qed

definition seek_time :: "Disk \<Rightarrow> int \<Rightarrow> int" where
  "seek_time d n = \<bar>n div 32 - lastSector d div 32\<bar> * 500"

definition round_up :: "int \<Rightarrow> int" where
  "round_up t = (t + 499) div 500 * 500"

lemma round_up_bounds: "t \<le> round_up t" "round_up t < t + 500" "round_up t mod 500 = 0"
  using div_mult_mod_eq [of "t + 499" 500] pos_mod_bound [of 500 "t + 499"] pos_mod_sign [of 500 "t + 499"]
  by (simp_all add: round_up_def)

lemma round_up_eq: "round_up t = t + (if t mod 500 > 0 then 500 - t mod 500 else 0)"
proof -
  define q r where "q = t div 500" and "r = t mod 500"
  have t: "t = 500 * q + r" and r: "0 \<le> r" "r < 500" using div_mult_mod_eq [of t 500] by (simp_all add: q_def r_def)
  have "(t + 499) div 500 = q + (if r > 0 then 1 else 0)"
  proof (rule int_div_pos_eq [of _ _ _ "if r > 0 then r - 1 else 499"])
    show "t + 499 = 500 * (q + (if r > 0 then 1 else 0)) + (if r > 0 then r - 1 else 499)" using t r by simp
  qed (use r in auto)
  then show ?thesis using t r by (simp add: round_up_def r_def [symmetric])
qed

lemma TimeToSeek_ok:
  assumes "0 \<le> t" "0 \<le> n" "0 \<le> lastSector d"
  shows "TimeToSeek t d n = (seek_time d n, round_up (t + seek_time d n) - (t + seek_time d n))"
proof -
  let ?s = "t + seek_time d n"
  have s: "0 \<le> ?s" using assms by (simp add: seek_time_def)
  have "round_up ?s - ?s = (if ?s mod 500 > 0 then 500 - ?s mod 500 else 0)" using round_up_eq [of ?s] by simp
  then show ?thesis using assms s by (simp add: TimeToSeek_def SectorsPerTrack_def tick_defs sdiv_nonneg smod_nonneg seek_time_def Let_def)
qed

lemma ComputeLatency_ok:
  assumes "0 \<le> t" "0 \<le> n" "0 \<le> lastSector d" "0 \<le> bufferInit d"
  defines "b \<equiv> round_up (t + seek_time d n)"
  shows "ComputeLatency t d n w = 500 \<or> ComputeLatency t d n w = b + (n - b div 500) mod 32 * 500 + 500 - t"
    and "w \<or> seek_time d n \<noteq> 0 \<Longrightarrow> ComputeLatency t d n w = b + (n - b div 500) mod 32 * 500 + 500 - t"
proof -
  have "0 \<le> t + seek_time d n" using assms(1) by (simp add: seek_time_def)
  then have b: "0 \<le> b" using round_up_bounds(1) [of "t + seek_time d n"] unfolding b_def by linarith
  then show "ComputeLatency t d n w = 500 \<or> ComputeLatency t d n w = b + (n - b div 500) mod 32 * 500 + 500 - t"
    "w \<or> seek_time d n \<noteq> 0 \<Longrightarrow> ComputeLatency t d n w = b + (n - b div 500) mod 32 * 500 + 500 - t"
    using assms(1-4) unfolding ComputeLatency_def TimeToSeek_ok [OF assms(1-3)] b_def [symmetric]
    by (auto simp: Let_def RotationTime_def sdiv_nonneg ModuloDiff_ok)
qed


lemma ComputeLatency_pos: "0 \<le> t \<Longrightarrow> 0 \<le> n \<Longrightarrow> 0 \<le> lastSector d \<Longrightarrow> 0 \<le> bufferInit d \<Longrightarrow> 500 \<le> ComputeLatency t d n w"
proof -
  assume a: "0 \<le> t" "0 \<le> n" "0 \<le> lastSector d" "0 \<le> bufferInit d"
  have "0 \<le> seek_time d n" by (simp add: seek_time_def)
  moreover have "0 \<le> (n - round_up (t + seek_time d n) div 500) mod 32" by simp
  ultimately show ?thesis using ComputeLatency_ok(1) [OF a, of w] round_up_bounds(1) [of "t + seek_time d n"] by linarith
qed

lemma seek_time_bounds: "valid_sector n \<Longrightarrow> valid_sector (lastSector d) \<Longrightarrow> 0 \<le> seek_time d n \<and> seek_time d n \<le> 31 * 500"
proof -
  assume "valid_sector n" "valid_sector (lastSector d)"
  then have "0 \<le> n div 32" "n div 32 \<le> 31" "0 \<le> lastSector d div 32" "lastSector d div 32 \<le> 31"
    using zdiv_mono1 [of n 1023 32] zdiv_mono1 [of "lastSector d" 1023 32] by (simp_all add: valid_sector_def pos_imp_zdiv_nonneg_iff)
  then have "\<bar>n div 32 - lastSector d div 32\<bar> \<le> 31" by (simp add: abs_le_iff)
  then show ?thesis by (simp add: seek_time_def)
qed

lemma mod_window:
  fixes q n m :: int
  assumes "q' = q + (n - q) mod 32"
  shows "q' mod 32 = n mod 32" "q \<le> p \<Longrightarrow> p < q' \<Longrightarrow> p mod 32 \<noteq> n mod 32"
proof -
  have "q' mod 32 = (q + (n - q)) mod 32" unfolding assms by (rule mod_add_right_eq)
  then show "q' mod 32 = n mod 32" by simp
  assume p: "q \<le> p" "p < q'"
  show "p mod 32 \<noteq> n mod 32"
  proof
    assume "p mod 32 = n mod 32"
    then have "(p - q) mod 32 = (n - q) mod 32" by (rule mod_diff_cong) simp
    moreover have "0 \<le> p - q" "p - q < (n - q) mod 32" using p assms by simp_all
    moreover have "(n - q) mod 32 < 32" by simp
    ultimately have "p - q = (n - q) mod 32" by (metis mod_pos_pos_trivial order.strict_trans)
    then show False using \<open>p - q < (n - q) mod 32\<close> by simp
  qed
qed

section \<open>Requests on the sector store\<close>

definition disk_of :: "Disk \<Rightarrow> disk" where
  "disk_of d n = (if valid_sector n then take 128 (drop (nat (128 * n + 4)) (unixFile d)) else [])"

definition disk_ok :: "Disk \<Rightarrow> bool" where
  "disk_ok d \<longleftrightarrow> int (length (unixFile d)) = DiskSize \<and> valid_sector (lastSector d) \<and> 0 \<le> bufferInit d"

lemma file_read_sector:
  "disk_ok d \<Longrightarrow> valid_sector n \<Longrightarrow> file_read (unixFile d) (SectorSize * n + MagicSize) SectorSize = Inr (disk_of d n)"
  by (simp add: file_read_def disk_of_def disk_ok_def valid_sector_def DiskSize_def MagicSize_def nat_le_iff)

lemma UpdateLast_ok:
  assumes "disk_ok d" "valid_sector n" "0 \<le> t"
  shows "disk_ok (UpdateLast t d n)" "unixFile (UpdateLast t d n) = unixFile d" "active (UpdateLast t d n) = active d"
proof -
  have n: "0 \<le> n" "0 \<le> lastSector d" using assms by (simp_all add: disk_ok_def valid_sector_def)
  have "0 \<le> seek_time d n" by (simp add: seek_time_def)
  then have "0 \<le> round_up (t + seek_time d n)" using round_up_bounds(1) [of "t + seek_time d n"] assms(3) by linarith
  then show "disk_ok (UpdateLast t d n)" "unixFile (UpdateLast t d n) = unixFile d" "active (UpdateLast t d n) = active d"
    using assms by (simp_all add: UpdateLast_def TimeToSeek_ok [OF assms(3) n] disk_ok_def)
qed

lemma disk_of_cong: "unixFile d' = unixFile d \<Longrightarrow> disk_of d' = disk_of d"
  by (simp add: disk_of_def fun_eq_iff)

lemma ReadRequest_ok:
  assumes d: "disk_ok d" "\<not> active d" "valid_sector n" and t: "0 \<le> totalTicks (stats k)"
  defines "L \<equiv> ComputeLatency (totalTicks (stats k)) d n False"
  shows "\<exists>d'. ReadRequest this n d k = Inr (disk_of d n, d', k\<lparr>stats := (stats k)\<lparr>numDiskReads := numDiskReads (stats k) + 1\<rparr>,
      pending := sorted_insert PendingCompare \<lparr>callOnInterrupt = this, whenDue = totalTicks (stats k) + L, intType = DiskInt\<rparr> (pending k)\<rparr>)
    \<and> active d' \<and> disk_ok d' \<and> disk_of d' = disk_of d \<and> 0 < L"
proof -
  have "disk_ok (d\<lparr>active := True\<rparr>)" using d(1) by (simp add: disk_ok_def)
  note u = UpdateLast_ok [OF this d(3) t]
  have L: "500 \<le> L" unfolding L_def using d t by (intro ComputeLatency_pos) (simp_all add: disk_ok_def valid_sector_def)
  show ?thesis
    using d L u file_read_sector [OF d(1,3)] disk_of_cong [of "UpdateLast (totalTicks (stats k)) (d\<lparr>active := True\<rparr>) n" d]
    by (simp add: ReadRequest_def Let_def L_def [symmetric] Schedule_def valid_sector_def)
qed

lemma sector_disjoint:
  assumes "valid_sector n" "valid_sector m" "m \<noteq> n"
  shows "nat (128 * m + 4) + 128 \<le> nat (128 * n + 4) \<or> nat (128 * n + 4) + 128 \<le> nat (128 * m + 4)"
  using assms by (auto simp: valid_sector_def)

lemma take_drop_overwrite_other:
  assumes "off + length ys \<le> length xs" "m + c \<le> off \<or> off + length ys \<le> m" "m + c \<le> length xs"
  shows "take c (drop m (overwrite xs off ys)) = take c (drop m xs)"
  using assms by (intro nth_equalityI) (auto simp: nth_overwrite)

lemma file_write_sector:
  assumes "disk_ok d" "valid_sector n" "length bs = 128"
  shows "\<exists>f. file_write (unixFile d) (SectorSize * n + MagicSize) bs = Inr f \<and> length f = length (unixFile d)
    \<and> disk_of (d\<lparr>unixFile := f, active := a\<rparr>) = (disk_of d)(n := bs)"
proof -
  let ?o = "nat (128 * n + 4)"
  let ?f = "overwrite (unixFile d) ?o bs"
  have l: "length (unixFile d) = 131076" using assms(1) by (simp add: disk_ok_def DiskSize_def MagicSize_def)
  have o: "?o + 128 \<le> length (unixFile d)" using assms(2) l by (simp add: valid_sector_def nat_le_iff)
  have w: "file_write (unixFile d) (SectorSize * n + MagicSize) bs = Inr ?f"
    using o assms(2) by (simp add: file_write_def valid_sector_def MagicSize_def)
  have "disk_of (d\<lparr>unixFile := ?f, active := a\<rparr>) m = ((disk_of d)(n := bs)) m" for m
  proof (cases "m = n \<or> \<not> valid_sector m")
    case True
    then show ?thesis using assms o by (auto simp: disk_of_def overwrite_def)
  next
    case False
    then have "valid_sector m" "m \<noteq> n" by auto
    moreover have "nat (128 * m + 4) + 128 \<le> length (unixFile d)" using l \<open>valid_sector m\<close> by (simp add: valid_sector_def nat_le_iff)
    ultimately show ?thesis
      using sector_disjoint [OF assms(2) \<open>valid_sector m\<close>] o assms(3)
        take_drop_overwrite_other [of ?o bs "unixFile d" "nat (128 * m + 4)" 128] by (simp add: disk_of_def)
  qed
  then show ?thesis using w o assms(3) by auto
qed

lemma WriteRequest_ok:
  assumes d: "disk_ok d" "\<not> active d" "valid_sector n" "length bs = 128" and t: "0 \<le> totalTicks (stats k)"
  defines "L \<equiv> ComputeLatency (totalTicks (stats k)) d n True"
  shows "\<exists>d'. WriteRequest this n bs d k = Inr (d', k\<lparr>stats := (stats k)\<lparr>numDiskWrites := numDiskWrites (stats k) + 1\<rparr>,
      pending := sorted_insert PendingCompare \<lparr>callOnInterrupt = this, whenDue = totalTicks (stats k) + L, intType = DiskInt\<rparr> (pending k)\<rparr>)
    \<and> active d' \<and> disk_ok d' \<and> disk_of d' = (disk_of d)(n := bs) \<and> 0 < L"
proof -
  obtain f where f: "file_write (unixFile d) (SectorSize * n + MagicSize) bs = Inr f" "length f = length (unixFile d)"
    "disk_of (d\<lparr>unixFile := f, active := True\<rparr>) = (disk_of d)(n := bs)"
    using file_write_sector [OF d(1,3,4), of True] by blast
  have "disk_ok (d\<lparr>unixFile := f, active := True\<rparr>)" using d(1) f(2) by (simp add: disk_ok_def)
  note u = UpdateLast_ok [OF this d(3) t]
  have L: "500 \<le> L" unfolding L_def using d t by (intro ComputeLatency_pos) (simp_all add: disk_ok_def valid_sector_def)
  show ?thesis
    using d L u f(1) disk_of_cong [OF u(2)] f(3)
    by (simp add: WriteRequest_def Let_def L_def [symmetric] Schedule_def valid_sector_def)
qed

lemma Disk_new_ok:
  "\<exists>d. Disk_new None = Inr d \<and> disk_ok d \<and> \<not> active d \<and> Disk_new (Some (unixFile d)) = Inr d"
proof -
  let ?f = "int_to_bytes MagicNumber @ replicate 131068 0 @ int_to_bytes 0"
  have "file_write (int_to_bytes MagicNumber) (DiskSize - 4) (int_to_bytes 0) = Inr ?f"
    by (simp add: file_write_def DiskSize_def MagicSize_def overwrite_def)
  then have "Disk_new None = Inr \<lparr>unixFile = ?f, active = False, lastSector = 0, bufferInit = 0\<rparr>"
    by (simp add: Disk_new_def file_write_def [of "[]"] overwrite_def)
  moreover have "bytes_to_int (int_to_bytes MagicNumber) = MagicNumber"
    by (rule bytes_to_int_to_bytes) (simp add: in_int_def MagicNumber_def)
  ultimately show ?thesis
    by (simp add: Disk_new_def disk_ok_def valid_sector_def DiskSize_def MagicSize_def file_read_def)
qed

section \<open>Properties\<close>



end
