(* ===== verification/Threads.thy ===== *)
theory Threads
  imports DiskDevice
begin

text \<open>
  Threads and what runs them: \<open>threads/thread.cc\<close>, \<open>threads/scheduler.cc\<close>, \<open>threads/synch.cc\<close> (semaphores, locks and
  condition variables), \<open>threads/alarm.cc\<close>, \<open>machine/timer.cc\<close> and \<open>filesys/synchdisk.cc\<close>, on top of the interrupt
  simulation and the disk device.

  \<open>Scheduler::Run\<close> leaves a routine in the middle, on the stack of the old thread, and resumes another one. A thread
  therefore carries what it has still to execute: \<open>todo\<close>, the rest of the kernel routines that are suspended inside
  \<open>Run\<close> or \<open>OneTick\<close>, and \<open>prog\<close>, the kernel calls its procedure makes. \<open>step\<close> executes the current thread up to the next
  point at which a context switch or an interrupt can happen; between two such points interrupts are disabled or do not
  occur, as simulated time only advances when interrupts are enabled. A thread is named by its PID.
\<close>

section \<open>The kernel's state\<close>

datatype ThreadStatus = JUST_CREATED | RUNNING | READY | BLOCKED

datatype lock = UserLock nat | DiskLock

text \<open>Semaphores: a program's own, that of a lock, that of one \<open>Condition::Wait\<close> call, and that of the \<open>SynchDisk\<close>.\<close>

datatype semid = UserSem nat | LockSem lock | CondSem nat | DiskSem

text \<open>The kernel calls of a thread's procedure, and the routines in progress they turn into.\<close>

datatype kop =
    CallP semid
  | LoopP semid IntStatus          \<comment> \<open>\<open>P\<close> at its \<open>while\<close>, with \<open>oldLevel\<close>\<close>
  | CallV semid
  | CallAcquire lock
  | TakeLock lock                  \<comment> \<open>\<open>lockHolder = kernel->currentThread\<close>\<close>
  | CallRelease lock
  | CallWait nat lock
  | CallSignal nat lock
  | CallBroadcast nat lock
  | CallYield
  | CallFork "kop list"
  | CallFinish
  | SetSpace "nat \<times> u32"          \<comment> \<open>\<open>space = ...\<close>: its page table and number of pages\<close>
  | CallReadSector int
  | CallWriteSector int "byte list"
  | ReqRead int
  | ReqWrite int "byte list"

datatype frame =
    RunTail                        \<comment> \<open>\<open>Scheduler::Run\<close> after \<open>SWITCH\<close>\<close>
  | SetLevelTo IntStatus           \<comment> \<open>the final \<open>SetLevel(oldLevel)\<close> of \<open>Yield\<close>\<close>
  | YieldNow                       \<comment> \<open>\<open>OneTick\<close> before its \<open>Yield\<close>\<close>
  | SetStatusTo MachineStatus      \<comment> \<open>\<open>OneTick\<close> after its \<open>Yield\<close>\<close>
  | SleepLoop bool                 \<comment> \<open>the \<open>while\<close> of \<open>Sleep\<close>\<close>
  | BeginThread                    \<comment> \<open>\<open>ThreadRoot\<close> before the thread's procedure\<close>

record Thread =
  threadStatus :: ThreadStatus
  space :: "(nat \<times> u32) option"
  userRegisters :: "u32 list"
  todo :: "frame list"
  prog :: "kop list"
  data :: "byte list"              \<comment> \<open>the buffer of its last \<open>ReadSector\<close>\<close>

record Semaphore =
  semValue :: int                  \<comment> \<open>\<open>value\<close>\<close>
  queue :: "nat list"

datatype device = TimerDev | DiskDev

record Kernel = "device Interrupt" +
  threads :: "nat \<rightharpoonup> Thread"
  threadNum :: nat
  currentThread :: nat
  readyList :: "nat list"
  toBeDestroyed :: "nat option"
  finishedThread :: "nat list"
  sems :: "semid \<Rightarrow> Semaphore"
  lockHolder :: "lock \<Rightarrow> nat option"
  waitQueue :: "nat \<Rightarrow> semid list"
  waiters :: nat                   \<comment> \<open>how many semaphores \<open>Wait\<close> has allocated\<close>
  disk :: Disk
  randomize :: bool                \<comment> \<open>of the \<open>Timer\<close>\<close>
  timerDisable :: bool             \<comment> \<open>\<open>disable\<close>\<close>
  random :: "nat \<Rightarrow> u32"           \<comment> \<open>what \<open>RandomNumber\<close> returns\<close>
  randoms :: nat                   \<comment> \<open>how often it was called\<close>
  timeSlice :: int                 \<comment> \<open>of the \<open>Alarm\<close>\<close>
  timeCount :: int

definition put_thread :: "nat \<Rightarrow> (Thread \<Rightarrow> Thread) \<Rightarrow> Kernel \<Rightarrow> Kernel" where
  "put_thread t f k = k\<lparr>threads := (threads k)(t := map_option f (threads k t))\<rparr>"

definition put_sem :: "semid \<Rightarrow> (Semaphore \<Rightarrow> Semaphore) \<Rightarrow> Kernel \<Rightarrow> Kernel" where
  "put_sem s f k = k\<lparr>sems := (sems k)(s := f (sems k s))\<rparr>"

text \<open>Suspend the current thread inside a routine; have it call other routines next.\<close>

definition push :: "frame list \<Rightarrow> Kernel \<Rightarrow> Kernel" where
  "push fs k = put_thread (currentThread k) (\<lambda>th. th\<lparr>todo := fs @ todo th\<rparr>) k"

definition calls :: "kop list \<Rightarrow> Kernel \<Rightarrow> Kernel" where
  "calls os k = put_thread (currentThread k) (\<lambda>th. th\<lparr>prog := os @ prog th\<rparr>) k"

section \<open>The scheduler\<close>

definition ReadyToRun :: "nat \<Rightarrow> Kernel \<Rightarrow> Kernel res" where
  "ReadyToRun thread k =
     ASSERT (level k = IntOff)
     (bind_res (list_Append (readyList k) thread) (\<lambda>r.
      Inr ((put_thread thread (\<lambda>th. th\<lparr>threadStatus := READY\<rparr>) k)\<lparr>readyList := r\<rparr>)))"

definition FindNextToRun :: "Kernel \<Rightarrow> (nat option \<times> Kernel) res" where
  "FindNextToRun k =
     ASSERT (level k = IntOff)
     (if readyList k = [] then Inr (None, k)
      else bind_res (list_RemoveFront (readyList k)) (\<lambda>(t, r). Inr (Some t, k\<lparr>readyList := r\<rparr>)))"

definition CheckToBeDestroyed :: "Kernel \<Rightarrow> Kernel res" where
  "CheckToBeDestroyed k =
     (case toBeDestroyed k of
        None \<Rightarrow> Inr k
      | Some t \<Rightarrow> ASSERT (t \<noteq> currentThread k) (Inr (k\<lparr>threads := (threads k)(t := None), toBeDestroyed := None\<rparr>)))"

definition SaveUserState :: "Machine \<Rightarrow> Thread \<Rightarrow> Thread" where
  "SaveUserState m th = th\<lparr>userRegisters := map (\<lambda>i. registers m ! i) [0..<NumTotalRegs]\<rparr>"

definition RestoreUserState :: "Thread \<Rightarrow> Machine \<Rightarrow> Machine" where
  "RestoreUserState th m = m\<lparr>registers := map (\<lambda>i. userRegisters th ! i) [0..<NumTotalRegs]\<rparr>"

text \<open>\<open>AddrSpace::RestoreState\<close>; \<open>AddrSpace::SaveState\<close> is empty.\<close>

definition RestoreState :: "nat \<times> u32 \<Rightarrow> Machine \<Rightarrow> Machine" where
  "RestoreState sp m = m\<lparr>pageTable := Some (fst sp), pageTableSize := snd sp\<rparr>"

definition save_user :: "nat \<Rightarrow> Kernel \<Rightarrow> Kernel res" where
  "save_user t k =
     (case threads k t of
        None \<Rightarrow> Inl NullPointer
      | Some th \<Rightarrow>
          (case space th of
             None \<Rightarrow> Inr k
           | Some sp \<Rightarrow> (case machine k of None \<Rightarrow> Inl NullPointer | Some m \<Rightarrow> Inr (put_thread t (SaveUserState m) k))))"

definition restore_user :: "nat \<Rightarrow> Kernel \<Rightarrow> Kernel res" where
  "restore_user t k =
     (case threads k t of
        None \<Rightarrow> Inl NullPointer
      | Some th \<Rightarrow>
          (case space th of
             None \<Rightarrow> Inr k
           | Some sp \<Rightarrow>
               (case machine k of
                  None \<Rightarrow> Inl NullPointer
                | Some m \<Rightarrow> Inr (k\<lparr>machine := Some (RestoreState sp (RestoreUserState th m))\<rparr>))))"

text \<open>\<open>Run\<close> up to \<open>SWITCH\<close>, and after it.\<close>

definition Run :: "nat \<Rightarrow> bool \<Rightarrow> Kernel \<Rightarrow> Kernel res" where
  "Run nextThread finishing k =
     (let oldThread = currentThread k
      in ASSERT (level k = IntOff)
         (bind_res (if finishing then ASSERT (toBeDestroyed k = None) (Inr (k\<lparr>toBeDestroyed := Some oldThread\<rparr>)) else Inr k) (\<lambda>k.
          bind_res (save_user oldThread k) (\<lambda>k.
          Inr (put_thread nextThread (\<lambda>th. th\<lparr>threadStatus := RUNNING\<rparr>) ((push [RunTail] k)\<lparr>currentThread := nextThread\<rparr>))))))"

definition Run_tail :: "Kernel \<Rightarrow> Kernel res" where
  "Run_tail k =
     ASSERT (level k = IntOff) (bind_res (CheckToBeDestroyed k) (\<lambda>k. restore_user (currentThread k) k))"

section \<open>Interrupt handlers\<close>

text \<open>\<open>V\<close>, given what enabling interrupts does; a handler must not enable them.\<close>

definition V :: "(Kernel \<Rightarrow> Kernel res) \<Rightarrow> semid \<Rightarrow> Kernel \<Rightarrow> Kernel res" where
  "V tick s k =
     (let oldLevel = level k
      in bind_res (SetLevel tick IntOff k) (\<lambda>k.
         bind_res (if queue (sems k s) \<noteq> [] then
                     bind_res (list_RemoveFront (queue (sems k s))) (\<lambda>(t, q). ReadyToRun t (put_sem s (\<lambda>m. m\<lparr>queue := q\<rparr>) k))
                   else Inr k) (\<lambda>k.
         SetLevel tick oldLevel (put_sem s (\<lambda>m. m\<lparr>semValue := semValue m + 1\<rparr>) k))))"

definition no_tick :: "Kernel \<Rightarrow> Kernel res" where
  "no_tick k = Inl AssertFailed"

definition SetInterrupt :: "Kernel \<Rightarrow> Kernel res" where
  "SetInterrupt k =
     (if \<not> timerDisable k then
        if randomize k then
          Schedule TimerDev (1 + uint (random k (randoms k)) mod (TimerTicks * 2)) TimerInt (k\<lparr>randoms := randoms k + 1\<rparr>)
        else Schedule TimerDev TimerTicks TimerInt k
      else Inr k)"

definition Alarm_CallBack :: "Kernel \<Rightarrow> Kernel res" where
  "Alarm_CallBack k =
     (let k = k\<lparr>timeCount := timeCount k + 1\<rparr>
      in if status k \<noteq> IdleMode then
           if timeSlice k = 0 then Inl HostTrap
           else if (timeCount k * TimerTicks) smod timeSlice k = 0 then YieldOnReturn k else Inr k
         else Inr k)"

definition Timer_CallBack :: "Kernel \<Rightarrow> Kernel res" where
  "Timer_CallBack k = bind_res (Alarm_CallBack k) SetInterrupt"

definition SynchDisk_CallBack :: "Kernel \<Rightarrow> Kernel res" where
  "SynchDisk_CallBack k = V no_tick DiskSem k"

definition Disk_CallBack :: "Kernel \<Rightarrow> Kernel res" where
  "Disk_CallBack k = SynchDisk_CallBack (k\<lparr>disk := (disk k)\<lparr>active := False\<rparr>\<rparr>)"

fun CallBack :: "device \<Rightarrow> Kernel \<Rightarrow> Kernel res" where
  "CallBack TimerDev k = Timer_CallBack k"
| "CallBack DiskDev k = Disk_CallBack k"

text \<open>Enabling interrupts from a thread.\<close>

definition yield_later :: "MachineStatus \<Rightarrow> Kernel \<Rightarrow> Kernel res" where
  "yield_later oldStatus k = Inr (push [YieldNow, SetStatusTo oldStatus] k)"

definition tick :: "Kernel \<Rightarrow> Kernel res" where
  "tick k = OneTick CallBack yield_later k"

section \<open>Threads\<close>

definition Yield :: "Kernel \<Rightarrow> Kernel res" where
  "Yield k =
     (let oldLevel = level k
      in bind_res (SetLevel tick IntOff k) (\<lambda>k.
         bind_res (FindNextToRun k) (\<lambda>(nextThread, k).
         case nextThread of
           None \<Rightarrow> SetLevel tick oldLevel k
         | Some t \<Rightarrow> bind_res (ReadyToRun (currentThread k) k) (\<lambda>k. Run t False (push [SetLevelTo oldLevel] k)))))"

definition Sleep :: "bool \<Rightarrow> Kernel \<Rightarrow> Kernel res" where
  "Sleep finishing k =
     ASSERT (level k = IntOff)
     (Inr (push [SleepLoop finishing] (put_thread (currentThread k) (\<lambda>th. th\<lparr>threadStatus := BLOCKED\<rparr>) k)))"

definition Sleep_loop :: "bool \<Rightarrow> Kernel \<Rightarrow> Kernel res" where
  "Sleep_loop finishing k =
     bind_res (FindNextToRun k) (\<lambda>(nextThread, k).
     case nextThread of
       None \<Rightarrow> Idle CallBack (push [SleepLoop finishing] k)
     | Some t \<Rightarrow> Run t finishing k)"

text \<open>\<open>new Thread\<close> and \<open>Fork\<close>; the stack is set up to run \<open>Begin\<close>, the procedure and \<open>Finish\<close>.\<close>

definition Thread_new :: "Kernel \<Rightarrow> nat \<times> Kernel" where
  "Thread_new k =
     (threadNum k,
      k\<lparr>threads := (threads k)(threadNum k \<mapsto>
           \<lparr>threadStatus = JUST_CREATED, space = None, userRegisters = [], todo = [], prog = [], data = []\<rparr>),
        threadNum := threadNum k + 1\<rparr>)"

definition StackAllocate :: "kop list \<Rightarrow> Thread \<Rightarrow> Thread" where
  "StackAllocate func th = th\<lparr>todo := [BeginThread], prog := func\<rparr>"

definition Fork :: "nat \<Rightarrow> kop list \<Rightarrow> Kernel \<Rightarrow> Kernel res" where
  "Fork t func k =
     (let k = put_thread t (StackAllocate func) k; oldLevel = level k
      in bind_res (SetLevel tick IntOff k) (\<lambda>k.
         bind_res (ReadyToRun t k) (\<lambda>k. SetLevel tick oldLevel k)))"

definition Begin :: "Kernel \<Rightarrow> Kernel res" where
  "Begin k = bind_res (CheckToBeDestroyed k) (\<lambda>k. SetLevel tick IntOn k)"

definition Finish :: "Kernel \<Rightarrow> Kernel res" where
  "Finish k =
     bind_res (SetLevel tick IntOff k) (\<lambda>k.
     bind_res (list_Append (finishedThread k) (currentThread k)) (\<lambda>f. Sleep True (k\<lparr>finishedThread := f\<rparr>)))"

section \<open>Synchronization\<close>

definition P :: "semid \<Rightarrow> Kernel \<Rightarrow> Kernel res" where
  "P s k = (let oldLevel = level k in bind_res (SetLevel tick IntOff k) (\<lambda>k. Inr (calls [LoopP s oldLevel] k)))"

definition P_loop :: "semid \<Rightarrow> IntStatus \<Rightarrow> Kernel \<Rightarrow> Kernel res" where
  "P_loop s oldLevel k =
     (if semValue (sems k s) = 0 then
        bind_res (list_Append (queue (sems k s)) (currentThread k)) (\<lambda>q.
        Sleep False (calls [LoopP s oldLevel] (put_sem s (\<lambda>m. m\<lparr>queue := q\<rparr>) k)))
      else SetLevel tick oldLevel (put_sem s (\<lambda>m. m\<lparr>semValue := semValue m - 1\<rparr>) k))"

definition IsHeldByCurrentThread :: "lock \<Rightarrow> Kernel \<Rightarrow> bool" where
  "IsHeldByCurrentThread l k \<longleftrightarrow> lockHolder k l = Some (currentThread k)"

definition Acquire :: "lock \<Rightarrow> Kernel \<Rightarrow> Kernel res" where
  "Acquire l k = Inr (calls [CallP (LockSem l), TakeLock l] k)"

definition Take_lock :: "lock \<Rightarrow> Kernel \<Rightarrow> Kernel res" where
  "Take_lock l k = Inr (k\<lparr>lockHolder := (lockHolder k)(l := Some (currentThread k))\<rparr>)"

definition Release :: "lock \<Rightarrow> Kernel \<Rightarrow> Kernel res" where
  "Release l k =
     ASSERT (IsHeldByCurrentThread l k) (V tick (LockSem l) (k\<lparr>lockHolder := (lockHolder k)(l := None)\<rparr>))"

definition Wait :: "nat \<Rightarrow> lock \<Rightarrow> Kernel \<Rightarrow> Kernel res" where
  "Wait c l k =
     ASSERT (IsHeldByCurrentThread l k)
     (let waiter = CondSem (waiters k); k = put_sem waiter (\<lambda>_. \<lparr>semValue = 0, queue = []\<rparr>) (k\<lparr>waiters := waiters k + 1\<rparr>)
      in bind_res (list_Append (waitQueue k c) waiter) (\<lambda>q.
         Inr (calls [CallRelease l, CallP waiter, CallAcquire l] (k\<lparr>waitQueue := (waitQueue k)(c := q)\<rparr>))))"

definition Signal :: "nat \<Rightarrow> lock \<Rightarrow> Kernel \<Rightarrow> Kernel res" where
  "Signal c l k =
     ASSERT (IsHeldByCurrentThread l k)
     (if waitQueue k c \<noteq> [] then
        bind_res (list_RemoveFront (waitQueue k c)) (\<lambda>(waiter, q). V tick waiter (k\<lparr>waitQueue := (waitQueue k)(c := q)\<rparr>))
      else Inr k)"

definition Broadcast :: "nat \<Rightarrow> lock \<Rightarrow> Kernel \<Rightarrow> Kernel res" where
  "Broadcast c l k = (if waitQueue k c \<noteq> [] then Signal c l (calls [CallBroadcast c l] k) else Inr k)"

section \<open>The synchronous disk\<close>

definition SynchDisk_ReadSector :: "int \<Rightarrow> Kernel \<Rightarrow> Kernel res" where
  "SynchDisk_ReadSector sectorNumber k =
     Inr (calls [CallAcquire DiskLock, ReqRead sectorNumber, CallP DiskSem, CallRelease DiskLock] k)"

definition SynchDisk_WriteSector :: "int \<Rightarrow> byte list \<Rightarrow> Kernel \<Rightarrow> Kernel res" where
  "SynchDisk_WriteSector sectorNumber bs k =
     Inr (calls [CallAcquire DiskLock, ReqWrite sectorNumber bs, CallP DiskSem, CallRelease DiskLock] k)"

definition request_read :: "int \<Rightarrow> Kernel \<Rightarrow> Kernel res" where
  "request_read n k =
     bind_res (ReadRequest DiskDev n (disk k) k) (\<lambda>(bs, d, k).
     Inr (put_thread (currentThread k) (\<lambda>th. th\<lparr>data := bs\<rparr>) (k\<lparr>disk := d\<rparr>)))"

definition request_write :: "int \<Rightarrow> byte list \<Rightarrow> Kernel \<Rightarrow> Kernel res" where
  "request_write n bs k = bind_res (WriteRequest DiskDev n bs (disk k) k) (\<lambda>(d, k). Inr (k\<lparr>disk := d\<rparr>))"

section \<open>Execution\<close>

fun run_frame :: "frame \<Rightarrow> Kernel \<Rightarrow> Kernel res" where
  "run_frame RunTail k = Run_tail k"
| "run_frame (SetLevelTo l) k = SetLevel tick l k"
| "run_frame YieldNow k = Yield k"
| "run_frame (SetStatusTo st) k = Inr (k\<lparr>status := st\<rparr>)"
| "run_frame (SleepLoop finishing) k = Sleep_loop finishing k"
| "run_frame BeginThread k = Begin k"

fun run_op :: "kop \<Rightarrow> Kernel \<Rightarrow> Kernel res" where
  "run_op (CallP s) k = P s k"
| "run_op (LoopP s oldLevel) k = P_loop s oldLevel k"
| "run_op (CallV s) k = V tick s k"
| "run_op (CallAcquire l) k = Acquire l k"
| "run_op (TakeLock l) k = Take_lock l k"
| "run_op (CallRelease l) k = Release l k"
| "run_op (CallWait c l) k = Wait c l k"
| "run_op (CallSignal c l) k = Signal c l k"
| "run_op (CallBroadcast c l) k = Broadcast c l k"
| "run_op CallYield k = Yield k"
| "run_op (CallFork func) k = (let (t, k) = Thread_new k in Fork t func k)"
| "run_op CallFinish k = Finish k"
| "run_op (SetSpace sp) k = Inr (put_thread (currentThread k) (\<lambda>th. th\<lparr>space := Some sp\<rparr>) k)"
| "run_op (CallReadSector n) k = SynchDisk_ReadSector n k"
| "run_op (CallWriteSector n bs) k = SynchDisk_WriteSector n bs k"
| "run_op (ReqRead n) k = request_read n k"
| "run_op (ReqWrite n bs) k = request_write n bs k"

definition step :: "Kernel \<Rightarrow> Kernel res" where
  "step k =
     (case threads k (currentThread k) of
        None \<Rightarrow> Inl NullPointer
      | Some th \<Rightarrow>
          (case todo th of
             f # fs \<Rightarrow> run_frame f (put_thread (currentThread k) (\<lambda>th. th\<lparr>todo := fs\<rparr>) k)
           | [] \<Rightarrow>
               (case prog th of
                  op # os \<Rightarrow> run_op op (put_thread (currentThread k) (\<lambda>th. th\<lparr>prog := os\<rparr>) k)
                | [] \<Rightarrow> run_op CallFinish k)))"

text \<open>
  \<open>Kernel::Initialize\<close>, as far as threads and disk go: the main thread, which will make the calls \<open>main\<close>, the timer, the
  machine, the \<open>SynchDisk\<close> on the UNIX file \<open>hostFile\<close>, and semaphores of the program with initial values \<open>vals\<close>.
\<close>

definition Kernel_new :: "Machine \<Rightarrow> bool \<Rightarrow> int \<Rightarrow> (nat \<Rightarrow> u32) \<Rightarrow> Disk \<Rightarrow> (nat \<Rightarrow> int) \<Rightarrow> kop list \<Rightarrow> Kernel" where
  "Kernel_new m randomSlice quantum rand d vals main =
     \<lparr>stats = Statistics_new, machine = Some m, level = IntOff, pending = [], inHandler = False, yieldOnReturn = False,
      status = SystemMode,
      threads = [0 \<mapsto> \<lparr>threadStatus = RUNNING, space = None, userRegisters = [], todo = [], prog = main, data = []\<rparr>],
      threadNum = 1, currentThread = 0, readyList = [], toBeDestroyed = None, finishedThread = [],
      sems = (\<lambda>s. \<lparr>semValue = (case s of UserSem n \<Rightarrow> vals n | LockSem _ \<Rightarrow> 1 | _ \<Rightarrow> 0), queue = []\<rparr>),
      lockHolder = (\<lambda>_. None), waitQueue = (\<lambda>_. []), waiters = 0, disk = d, randomize = randomSlice,
      timerDisable = False, random = rand, randoms = 0, timeSlice = quantum, timeCount = 0\<rparr>"

definition Kernel_Initialize ::
  "Machine \<Rightarrow> bool \<Rightarrow> int \<Rightarrow> (nat \<Rightarrow> u32) \<Rightarrow> byte list option \<Rightarrow> (nat \<Rightarrow> int) \<Rightarrow> kop list \<Rightarrow> Kernel res" where
  "Kernel_Initialize m randomSlice quantum rand hostFile vals main =
     bind_res (Disk_new hostFile) (\<lambda>d.
     bind_res (SetInterrupt (Kernel_new m randomSlice quantum rand d vals main)) (SetLevel tick IntOn))"

fun steps :: "nat \<Rightarrow> Kernel \<Rightarrow> Kernel res" where
  "steps 0 k = Inr k"
| "steps (Suc n) k = bind_res (step k) (steps n)"

end
