(* ===== verification/ThreadsInv.thy ===== *)
theory ThreadsInv
  imports Threads
begin

text \<open>
  The invariant of the kernel with any number of threads, and that every step keeps it: which queue a thread is on, what
  it has still to do, the values of the semaphores, who holds a lock, and what the disk is doing.
\<close>

section \<open>What a thread may have to do\<close>

fun client :: "kop \<Rightarrow> bool" where
  "client (CallP (UserSem s)) = True"
| "client (CallV (UserSem s)) = True"
| "client (CallAcquire (UserLock l)) = True"
| "client (CallRelease (UserLock l)) = True"
| "client (CallWait c (UserLock l)) = True"
| "client (CallSignal c (UserLock l)) = True"
| "client (CallBroadcast c (UserLock l)) = True"
| "client CallYield = True"
| "client (CallFork os) = (\<forall>op\<in>set os. client op)"
| "client CallFinish = True"
| "client (SetSpace sp) = True"
| "client (CallReadSector n) = True"
| "client (CallWriteSector n bs) = (length bs = 128)"
| "client _ = False"

abbreviation clients :: "kop list \<Rightarrow> bool" where
  "clients os \<equiv> \<forall>op\<in>set os. client op"

definition disk_tail :: "kop list \<Rightarrow> bool" where
  "disk_tail os \<longleftrightarrow> (\<exists>r. os = CallP DiskSem # CallRelease DiskLock # r \<and> clients r)"

fun after_take :: "lock \<Rightarrow> kop list \<Rightarrow> bool" where
  "after_take (UserLock l) os = clients os"
| "after_take DiskLock (ReqRead n # r) = disk_tail r"
| "after_take DiskLock (ReqWrite n bs # r) = (length bs = 128 \<and> disk_tail r)"
| "after_take DiskLock _ = False"

fun after_P :: "nat \<Rightarrow> semid \<Rightarrow> kop list \<Rightarrow> bool" where
  "after_P w (UserSem s) os = clients os"
| "after_P w (LockSem l) os = (\<exists>r. os = TakeLock l # r \<and> after_take l r)"
| "after_P w (CondSem n) os = (n < w \<and> (\<exists>l r. os = CallAcquire (UserLock l) # r \<and> clients r))"
| "after_P w DiskSem os = (\<exists>r. os = CallRelease DiskLock # r \<and> clients r)"

fun prog_ok :: "nat \<Rightarrow> kop list \<Rightarrow> bool" where
  "prog_ok w [] = True"
| "prog_ok w (CallP s # r) = after_P w s r"
| "prog_ok w (LoopP s old # r) = (old = IntOn \<and> after_P w s r)"
| "prog_ok w (CallAcquire l # r) = after_take l r"
| "prog_ok w (TakeLock l # r) = after_take l r"
| "prog_ok w (ReqRead n # r) = disk_tail r"
| "prog_ok w (ReqWrite n bs # r) = (length bs = 128 \<and> disk_tail r)"
| "prog_ok w (CallRelease l # r) =
     (clients r \<or> (\<exists>m n q. l = UserLock m \<and> n < w \<and> r = CallP (CondSem n) # CallAcquire l # q \<and> clients q))"
| "prog_ok w (op # r) = (client op \<and> clients r)"

definition looping :: "kop list \<Rightarrow> bool" where
  "looping os \<longleftrightarrow> (\<exists>s old r. os = LoopP s old # r)"

definition on_frames :: "frame list \<Rightarrow> bool" where
  "on_frames fs \<longleftrightarrow> (\<forall>f\<in>set fs. f = YieldNow \<or> (\<exists>st. f = SetStatusTo st))"

definition suspended :: "frame list \<Rightarrow> kop list \<Rightarrow> bool" where
  "suspended fs os \<longleftrightarrow> fs = [BeginThread] \<and> \<not> looping os \<or> fs = [RunTail] \<and> looping os
     \<or> (\<exists>gs. fs = RunTail # SetLevelTo IntOn # gs \<and> on_frames gs \<and> \<not> looping os)"

definition running :: "frame list \<Rightarrow> kop list \<Rightarrow> bool" where
  "running fs os \<longleftrightarrow> suspended fs os \<or> fs = [] \<and> looping os \<or> on_frames fs \<and> \<not> looping os
     \<or> (\<exists>gs. fs = SetLevelTo IntOn # gs \<and> on_frames gs \<and> \<not> looping os)"

text \<open>The interrupt level in force when a thread is about to do these.\<close>

definition level_of :: "frame list \<Rightarrow> kop list \<Rightarrow> IntStatus" where
  "level_of fs os =
     (case fs of
        [] \<Rightarrow> if looping os then IntOff else IntOn
      | YieldNow # _ \<Rightarrow> IntOn
      | SetStatusTo _ # _ \<Rightarrow> IntOn
      | _ \<Rightarrow> IntOff)"

fun critical :: "kop list \<Rightarrow> bool" where
  "critical (ReqRead n # r) = True"
| "critical (ReqWrite n bs # r) = True"
| "critical (CallP DiskSem # r) = True"
| "critical (LoopP DiskSem old # r) = True"
| "critical (CallRelease DiskLock # r) = True"
| "critical _ = False"

fun awaiting :: "kop list \<Rightarrow> bool" where
  "awaiting (CallP DiskSem # r) = True"
| "awaiting (LoopP DiskSem old # r) = True"
| "awaiting _ = False"

text \<open>The first call is neither the loop of \<open>P\<close>, nor a lock about to be taken, nor a use of the disk.\<close>

fun plain :: "kop list \<Rightarrow> bool" where
  "plain (LoopP s old # r) = False"
| "plain (TakeLock l # r) = False"
| "plain os = (\<not> critical os)"

lemma plain_clients: "clients os \<Longrightarrow> plain os"
proof (cases os)
  case (Cons op r)
  moreover assume "clients os"
  ultimately show ?thesis by (cases op; cases "case op of CallP s \<Rightarrow> s | _ \<Rightarrow> DiskSem"; cases "case op of CallRelease l \<Rightarrow> l | _ \<Rightarrow> DiskLock") auto
qed simp

lemma plainD: "plain os \<Longrightarrow> \<not> looping os" "plain os \<Longrightarrow> \<not> critical os" "plain os \<Longrightarrow> \<not> awaiting os" "plain os \<Longrightarrow> os \<noteq> TakeLock l # r"
  "plain os \<Longrightarrow> os \<noteq> LoopP s old # r"
  by (cases os rule: plain.cases; auto simp: looping_def elim: awaiting.elims)+

section \<open>The invariant\<close>

definition thread_ok :: "Kernel \<Rightarrow> nat \<Rightarrow> Thread \<Rightarrow> bool" where
  "thread_ok k t th \<longleftrightarrow>
     prog_ok (waiters k) (prog th)
     \<and> (RunTail \<in> set (todo th) \<longrightarrow> space th \<noteq> None \<longrightarrow> regs_ok (userRegisters th))
     \<and> threadStatus th \<noteq> JUST_CREATED
     \<and> (threadStatus th = RUNNING \<longrightarrow> t = currentThread k \<and> running (todo th) (prog th))
     \<and> (threadStatus th = READY \<longrightarrow> t \<in> set (readyList k)
          \<and> (if t = currentThread k then todo th = [SleepLoop False] \<and> looping (prog th) else suspended (todo th) (prog th)))
     \<and> (threadStatus th = BLOCKED \<longrightarrow>
          (if toBeDestroyed k = Some t \<or> t = currentThread k \<and> todo th = [SleepLoop True] then plain (prog th)
           else todo th = (if t = currentThread k then [SleepLoop False] else [RunTail])
             \<and> (\<exists>s r. prog th = LoopP s IntOn # r \<and> t \<in> set (queue (sems k s)))))"

definition queues_ok :: "Kernel \<Rightarrow> bool" where
  "queues_ok k \<longleftrightarrow>
     distinct (readyList k)
     \<and> (\<forall>t\<in>set (readyList k). \<exists>th. threads k t = Some th \<and> threadStatus th = READY)
     \<and> (\<forall>s. distinct (queue (sems k s))
         \<and> (\<forall>t\<in>set (queue (sems k s)). \<exists>th r. threads k t = Some th \<and> threadStatus th = BLOCKED \<and> prog th = LoopP s IntOn # r))"

definition threads_ok :: "Kernel \<Rightarrow> bool" where
  "threads_ok k \<longleftrightarrow>
     (\<forall>t th. threads k t = Some th \<longrightarrow> thread_ok k t th \<and> t < threadNum k)
     \<and> (\<exists>th. threads k (currentThread k) = Some th)
     \<and> (\<forall>d. toBeDestroyed k = Some d \<longrightarrow>
          d \<noteq> currentThread k \<and> (\<exists>th. threads k d = Some th \<and> threadStatus th = BLOCKED)
          \<and> (\<exists>th. threads k (currentThread k) = Some th \<and> threadStatus th = RUNNING \<and> suspended (todo th) (prog th)))
     \<and> distinct (finishedThread k)
     \<and> (\<forall>t\<in>set (finishedThread k). t < threadNum k
          \<and> (\<forall>th. threads k t = Some th \<longrightarrow> threadStatus th = BLOCKED \<and> \<not> looping (prog th)))"

definition takers :: "Kernel \<Rightarrow> semid \<Rightarrow> nat set" where
  "takers k s = {t. \<exists>th r. threads k t = Some th \<and> threadStatus th \<noteq> BLOCKED \<and> prog th = LoopP s IntOn # r}"

definition sems_ok :: "Kernel \<Rightarrow> bool" where
  "sems_ok k \<longleftrightarrow>
     (\<forall>s. 0 \<le> semValue (sems k s) \<and> (queue (sems k s) \<noteq> [] \<longrightarrow> semValue (sems k s) \<le> int (card (takers k s))))
     \<and> (\<forall>c. distinct (waitQueue k c) \<and> (\<forall>s\<in>set (waitQueue k c). \<exists>n<waiters k. s = CondSem n))"

definition progs :: "Kernel \<Rightarrow> nat \<rightharpoonup> kop list" where
  "progs k t = map_option prog (threads k t)"

definition granted :: "Kernel \<Rightarrow> lock \<Rightarrow> nat set" where
  "granted k l = {t. \<exists>r. progs k t = Some (TakeLock l # r)}"

definition locks_ok :: "Kernel \<Rightarrow> bool" where
  "locks_ok k \<longleftrightarrow>
     (\<forall>l. semValue (sems k (LockSem l)) = 1 \<and> lockHolder k l = None \<and> granted k l = {}
        \<or> semValue (sems k (LockSem l)) = 0 \<and> lockHolder k l = None \<and> (\<exists>t. granted k l = {t})
        \<or> semValue (sems k (LockSem l)) = 0 \<and> lockHolder k l \<noteq> None \<and> granted k l = {})"

definition disk_ints :: "device PendingInterrupt list \<Rightarrow> nat" where
  "disk_ints ps = size (filter_mset (\<lambda>p. callOnInterrupt p = DiskDev) (mset ps))"

definition disk_users :: "Kernel \<Rightarrow> nat set" where
  "disk_users k = {t. \<exists>os. progs k t = Some os \<and> critical os}"

definition disk_waiters :: "Kernel \<Rightarrow> nat set" where
  "disk_waiters k = {t. \<exists>os. progs k t = Some os \<and> awaiting os}"

definition disk_inv :: "Kernel \<Rightarrow> bool" where
  "disk_inv k \<longleftrightarrow>
     disk_ok (disk k)
     \<and> (\<forall>t. t \<in> disk_users k \<longleftrightarrow> lockHolder k DiskLock = Some t)
     \<and> (if disk_waiters k \<noteq> {}
        then active (disk k) \<and> disk_ints (pending k) = 1 \<and> semValue (sems k DiskSem) = 0
          \<or> \<not> active (disk k) \<and> disk_ints (pending k) = 0 \<and> semValue (sems k DiskSem) = 1
        else \<not> active (disk k) \<and> disk_ints (pending k) = 0 \<and> semValue (sems k DiskSem) = 0)"

definition kinv :: "Kernel \<Rightarrow> bool" where
  "kinv k \<longleftrightarrow> threads_ok k \<and> queues_ok k \<and> sems_ok k \<and> locks_ok k \<and> disk_inv k \<and> timeSlice k \<noteq> 0"

definition kernel_ok :: "Kernel \<Rightarrow> bool" where
  "kernel_ok k \<longleftrightarrow> kinv k \<and> quiet k
     \<and> (\<exists>th. threads k (currentThread k) = Some th \<and> level k = level_of (todo th) (prog th))"

lemmas inv_defs = threads_ok_def thread_ok_def queues_ok_def sems_ok_def takers_def locks_ok_def granted_def progs_def disk_users_def disk_waiters_def disk_inv_def

lemma inv_cong:
  assumes "threads k' = threads k" "threadNum k' = threadNum k" "currentThread k' = currentThread k" "readyList k' = readyList k"
    "toBeDestroyed k' = toBeDestroyed k" "finishedThread k' = finishedThread k" "sems k' = sems k" "lockHolder k' = lockHolder k"
    "waitQueue k' = waitQueue k" "waiters k' = waiters k" "disk k' = disk k" "disk_ints (pending k') = disk_ints (pending k)"
    "timeSlice k' = timeSlice k"
  shows "kinv k' = kinv k"
  unfolding kinv_def inv_defs assms by (rule refl)

lemma inv_frames [simp]:
  "kinv (k\<lparr>stats := s\<rparr>) = kinv k" "kinv (k\<lparr>machine := m\<rparr>) = kinv k" "kinv (k\<lparr>level := l\<rparr>) = kinv k"
  "kinv (k\<lparr>inHandler := h\<rparr>) = kinv k" "kinv (k\<lparr>yieldOnReturn := y\<rparr>) = kinv k" "kinv (k\<lparr>status := st\<rparr>) = kinv k"
  "kinv (k\<lparr>randoms := r\<rparr>) = kinv k" "kinv (k\<lparr>timeCount := c\<rparr>) = kinv k"
  by (rule inv_cong; simp)+


lemma threads_ok_cong:
  assumes "threads k' = threads k" "threadNum k' = threadNum k" "currentThread k' = currentThread k" "readyList k' = readyList k"
    "toBeDestroyed k' = toBeDestroyed k" "finishedThread k' = finishedThread k" "\<And>s. queue (sems k' s) = queue (sems k s)"
    "waiters k' = waiters k"
  shows "threads_ok k' = threads_ok k"
  unfolding threads_ok_def thread_ok_def assms by (rule refl)

lemma queues_ok_cong:
  assumes "threads k' = threads k" "readyList k' = readyList k" "\<And>s. queue (sems k' s) = queue (sems k s)"
  shows "queues_ok k' = queues_ok k"
  unfolding queues_ok_def assms by (rule refl)

section \<open>Waking a thread\<close>

definition wake :: "semid \<Rightarrow> Kernel \<Rightarrow> Kernel" where
  "wake s k =
     (case queue (sems k s) of
        [] \<Rightarrow> put_sem s (\<lambda>m. m\<lparr>semValue := semValue m + 1\<rparr>) k
      | t # q \<Rightarrow> put_sem s (\<lambda>m. m\<lparr>queue := q, semValue := semValue m + 1\<rparr>)
          ((put_thread t (\<lambda>th. th\<lparr>threadStatus := READY\<rparr>) k)\<lparr>readyList := readyList k @ [t]\<rparr>))"

lemma SetLevel_off [simp]: "SetLevel tk IntOff k = Inr (k\<lparr>level := IntOff\<rparr>)"
  by (simp add: SetLevel_def ChangeLevel_def)

lemma queue_blocked:
  assumes "queues_ok k" "t \<in> set (queue (sems k s))"
  obtains th r where "threads k t = Some th" "threadStatus th = BLOCKED" "prog th = LoopP s IntOn # r" "t \<notin> set (readyList k)"
  using assms unfolding queues_ok_def by (metis ThreadStatus.distinct(11) option.inject)

lemma V_eq:
  assumes "queues_ok k"
  shows "V tk s k = SetLevel tk (level k) (wake s (k\<lparr>level := IntOff\<rparr>))"
proof (cases "queue (sems k s)")
  case Nil
  then show ?thesis by (simp add: V_def wake_def put_sem_def Let_def)
next
  case (Cons t q)
  then obtain th where "t \<notin> set (readyList k)" "threads k t = Some th" using queue_blocked [OF assms, of t s] by auto
  then show ?thesis using Cons
    by (simp add: V_def wake_def put_sem_def put_thread_def ReadyToRun_def list_Append_def list_RemoveFront_def Let_def)
qed

lemma wake_fields [simp]:
  "stats (wake s k) = stats k" "machine (wake s k) = machine k" "level (wake s k) = level k" "pending (wake s k) = pending k"
  "inHandler (wake s k) = inHandler k" "yieldOnReturn (wake s k) = yieldOnReturn k" "status (wake s k) = status k"
  "currentThread (wake s k) = currentThread k" "threadNum (wake s k) = threadNum k" "toBeDestroyed (wake s k) = toBeDestroyed k"
  "finishedThread (wake s k) = finishedThread k" "lockHolder (wake s k) = lockHolder k" "waitQueue (wake s k) = waitQueue k"
  "waiters (wake s k) = waiters k" "disk (wake s k) = disk k" "timeSlice (wake s k) = timeSlice k"
  "semValue (sems (wake s k) s') = semValue (sems k s') + (if s' = s then 1 else 0)"
  "queue (sems (wake s k) s') = (if s' = s then tl (queue (sems k s)) else queue (sems k s'))"
  by (simp_all add: wake_def put_sem_def put_thread_def split: list.splits)

lemma wake_threads:
  "threads (wake s k) t = (if queue (sems k s) \<noteq> [] \<and> t = hd (queue (sems k s)) then map_option (\<lambda>th. th\<lparr>threadStatus := READY\<rparr>) (threads k t) else threads k t)"
  "readyList (wake s k) = (if queue (sems k s) = [] then readyList k else readyList k @ [hd (queue (sems k s))])"
  by (simp_all add: wake_def put_sem_def put_thread_def split: list.splits)

lemma wake_prog: "threads (wake s k) t = Some th' \<Longrightarrow> \<exists>th. threads k t = Some th \<and> prog th' = prog th \<and> todo th' = todo th"
  "threads k t = Some th \<Longrightarrow> \<exists>th'. threads (wake s k) t = Some th' \<and> prog th' = prog th \<and> todo th' = todo th"
  by (auto simp: wake_threads split: if_splits)

lemma queues_wake:
  assumes q: "queues_ok k"
  shows "queues_ok (wake s k)"
proof (cases "queue (sems k s)")
  case Nil
  then have "threads (wake s k) = threads k" by (simp add: fun_eq_iff wake_threads)
  with Nil show ?thesis using q unfolding queues_ok_def wake_threads(2) by (simp add: wake_threads)
next
  case (Cons t q')
  then obtain th r where th: "threads k t = Some th" "threadStatus th = BLOCKED" "prog th = LoopP s IntOn # r" "t \<notin> set (readyList k)"
    using queue_blocked [OF q, of t s] by auto
  have d: "t \<notin> set q'" "distinct q'" using q Cons unfolding queues_ok_def by (metis distinct.simps(2))+
  have o: "t \<notin> set (queue (sems k s'))" if "s' \<noteq> s" for s'
  proof
    assume "t \<in> set (queue (sems k s'))"
    then obtain th' r' where "threads k t = Some th'" "prog th' = LoopP s' IntOn # r'" using queue_blocked [OF q] by metis
    with th that show False by simp
  qed
  show ?thesis unfolding queues_ok_def
  proof (intro conjI allI ballI)
    show "distinct (readyList (wake s k))" using q th Cons by (simp add: queues_ok_def wake_threads)
    show "\<exists>th. threads (wake s k) u = Some th \<and> threadStatus th = READY" if "u \<in> set (readyList (wake s k))" for u
      using that q th Cons by (auto simp: queues_ok_def wake_threads)
    show "distinct (queue (sems (wake s k) s'))" for s' using q d Cons by (simp add: queues_ok_def)
    show "\<exists>th r. threads (wake s k) u = Some th \<and> threadStatus th = BLOCKED \<and> prog th = LoopP s' IntOn # r"
      if u: "u \<in> set (queue (sems (wake s k) s'))" for s' u
    proof -
      have "u \<noteq> t" "u \<in> set (queue (sems k s'))" using u o [of s'] d Cons by (auto split: if_splits)
      then show ?thesis using q Cons unfolding queues_ok_def wake_threads by auto
    qed
  qed
qed

lemma threads_wake:
  assumes i: "threads_ok k" and q: "queues_ok k"
  shows "threads_ok (wake s k)"
proof (cases "queue (sems k s)")
  case Nil
  then have "threads (wake s k) = threads k" "readyList (wake s k) = readyList k" "queue (sems (wake s k) s') = queue (sems k s')" for s'
    by (simp_all add: fun_eq_iff wake_threads)
  then show ?thesis using i threads_ok_cong [of "wake s k" k] by simp
next
  case (Cons t q')
  then obtain th r where th: "threads k t = Some th" "threadStatus th = BLOCKED" "prog th = LoopP s IntOn # r" "t \<notin> set (readyList k)"
    using queue_blocked [OF q, of t s] by auto
  have t: "thread_ok k t th" "t < threadNum k" using i th(1) unfolding threads_ok_def by blast+
  have lp: "looping (prog th)" using th(3) by (simp add: looping_def)
  then have td: "todo th = (if t = currentThread k then [SleepLoop False] else [RunTail])" "toBeDestroyed k \<noteq> Some t"
    using t(1) th(2) unfolding thread_ok_def by (auto split: if_splits dest: plainD)
  have ok: "thread_ok (wake s k) u th'" if u: "threads (wake s k) u = Some th'" for u th'
  proof (cases "u = t")
    case True
    then have "th' = th\<lparr>threadStatus := READY\<rparr>" using u th Cons by (simp add: wake_threads)
    then show ?thesis using t(1) td lp True Cons unfolding thread_ok_def by (simp add: wake_threads suspended_def)
  next
    case False
    then have u': "threads k u = Some th'" using u by (simp add: wake_threads Cons split: if_splits)
    then have "thread_ok k u th'" using i unfolding threads_ok_def by blast
    moreover have "u \<in> set (queue (sems (wake s k) s')) \<longleftrightarrow> u \<in> set (queue (sems k s'))" for s' using False Cons by simp
    ultimately show ?thesis using False Cons unfolding thread_ok_def by (cases "threadStatus th'") (auto simp: wake_threads)
  qed
  have cur: "\<exists>th. threads (wake s k) (currentThread k) = Some th" using i unfolding threads_ok_def wake_threads by auto
  show ?thesis
    unfolding threads_ok_def
  proof (intro conjI allI impI ballI)
    show "u < threadNum (wake s k)" if "threads (wake s k) u = Some th'" for u th'
      using that i wake_prog(1) unfolding threads_ok_def by fastforce
    fix d assume d: "toBeDestroyed (wake s k) = Some d"
    then have dt: "d \<noteq> t" using td by simp
    have d': "d \<noteq> currentThread k" "\<exists>th. threads k d = Some th \<and> threadStatus th = BLOCKED"
      "\<exists>th. threads k (currentThread k) = Some th \<and> threadStatus th = RUNNING \<and> suspended (todo th) (prog th)"
      using d i unfolding threads_ok_def by auto
    show "d \<noteq> currentThread (wake s k)" using d' by simp
    show "\<exists>th. threads (wake s k) d = Some th \<and> threadStatus th = BLOCKED" using d' dt Cons by (simp add: wake_threads)
    have "currentThread k \<noteq> t" using d' th by auto
    then show "\<exists>th. threads (wake s k) (currentThread (wake s k)) = Some th \<and> threadStatus th = RUNNING \<and> suspended (todo th) (prog th)"
      using d' Cons by (simp add: wake_threads)
  next
    fix u assume u: "u \<in> set (finishedThread (wake s k))"
    then show "u < threadNum (wake s k)" using i by (simp add: threads_ok_def)
    fix th' assume th': "threads (wake s k) u = Some th'"
    have "u \<noteq> t" using u i th(1) lp unfolding threads_ok_def by auto
    then show "threadStatus th' = BLOCKED" "\<not> looping (prog th')" using th' u i Cons unfolding threads_ok_def by (auto simp: wake_threads)
  qed (use i cur ok in \<open>auto simp: threads_ok_def\<close>)
qed

lemma progs_wake [simp]: "progs (wake s k) = progs k"
  by (auto simp: fun_eq_iff progs_def wake_threads option.map_comp comp_def)

lemma thread_okD: "threads_ok k \<Longrightarrow> threads k t = Some th \<Longrightarrow> thread_ok k t th \<and> t < threadNum k"
  unfolding threads_ok_def by blast

lemma finite_takers [simp]: "threads_ok k \<Longrightarrow> finite (takers k s)"
  by (rule finite_subset [of _ "{..<threadNum k}"]) (auto simp: takers_def dest: thread_okD)

lemma takers_wake:
  assumes q: "queues_ok k"
  shows "takers (wake s k) s' = (if s' = s \<and> queue (sems k s) \<noteq> [] then insert (hd (queue (sems k s))) (takers k s) else takers k s')"
    and "queue (sems k s) \<noteq> [] \<Longrightarrow> hd (queue (sems k s)) \<notin> takers k s"
proof -
  show n: "hd (queue (sems k s)) \<notin> takers k s" if c: "queue (sems k s) \<noteq> []"
  proof -
    obtain th where "threads k (hd (queue (sems k s))) = Some th" "threadStatus th = BLOCKED"
      using queue_blocked [OF q hd_in_set [OF c]] by metis
    then show ?thesis by (simp add: takers_def)
  qed
  show "takers (wake s k) s' = (if s' = s \<and> queue (sems k s) \<noteq> [] then insert (hd (queue (sems k s))) (takers k s) else takers k s')"
  proof (cases "queue (sems k s) = []")
    case True
    then have "threads (wake s k) = threads k" by (simp add: fun_eq_iff wake_threads)
    then show ?thesis using True by (simp add: takers_def)
  next
    case False
    obtain th r where "threads k (hd (queue (sems k s))) = Some th" "threadStatus th = BLOCKED" "prog th = LoopP s IntOn # r"
      using queue_blocked [OF q hd_in_set [OF False]] by metis
    note hd = this
    show ?thesis
    proof (rule set_eqI)
      fix u
      show "u \<in> takers (wake s k) s' \<longleftrightarrow> u \<in> (if s' = s \<and> queue (sems k s) \<noteq> [] then insert (hd (queue (sems k s))) (takers k s) else takers k s')"
        using False hd by (cases "u = hd (queue (sems k s))") (simp_all add: takers_def wake_threads)
    qed
  qed
qed

lemma sems_wake:
  assumes i: "sems_ok k" and t: "threads_ok k" and q: "queues_ok k"
  shows "sems_ok (wake s k)"
  unfolding sems_ok_def
proof (intro conjI allI impI)
  fix s'
  show "0 \<le> semValue (sems (wake s k) s')" using i by (simp add: sems_ok_def)
  assume "queue (sems (wake s k) s') \<noteq> []"
  then have n: "queue (sems k s') \<noteq> []" by (auto split: if_splits)
  then have "semValue (sems k s') \<le> int (card (takers k s'))" using i by (simp add: sems_ok_def)
  moreover have "s' = s \<Longrightarrow> card (takers (wake s k) s) = card (takers k s) + 1"
    using n takers_wake [OF q, of s] t by simp
  ultimately show "semValue (sems (wake s k) s') \<le> int (card (takers (wake s k) s'))"
    using n takers_wake(1) [OF q, of s s'] by (cases "s' = s") auto
qed (use i in \<open>auto simp: sems_ok_def\<close>)

lemma progs_cong:
  assumes "progs k' = progs k"
  shows "granted k' = granted k" "disk_users k' = disk_users k" "disk_waiters k' = disk_waiters k"
  unfolding granted_def disk_users_def disk_waiters_def assms by simp_all

lemma locks_ok_cong:
  assumes "granted k' = granted k" "lockHolder k' = lockHolder k" "\<And>l. semValue (sems k' (LockSem l)) = semValue (sems k (LockSem l))"
  shows "locks_ok k' = locks_ok k"
  unfolding locks_ok_def assms by (rule refl)

lemma disk_inv_cong:
  assumes "disk_users k' = disk_users k" "disk_waiters k' = disk_waiters k" "lockHolder k' = lockHolder k" "semValue (sems k' DiskSem) = semValue (sems k DiskSem)"
    "disk k' = disk k" "disk_ints (pending k') = disk_ints (pending k)"
  shows "disk_inv k' = disk_inv k"
  unfolding disk_inv_def assms by (rule refl)

lemma locks_wake:
  assumes "locks_ok k" "\<forall>l. s \<noteq> LockSem l"
  shows "locks_ok (wake s k)"
  using assms(1) by (subst locks_ok_cong [of _ k]) (use assms(2) progs_cong [OF progs_wake] in auto)

lemma disk_wake:
  assumes "disk_inv k" "s \<noteq> DiskSem"
  shows "disk_inv (wake s k)"
  using assms disk_inv_cong [of "wake s k" k] progs_cong [OF progs_wake] by simp

lemma inv_wake:
  assumes "kinv k" "s \<noteq> DiskSem" "\<forall>l. s \<noteq> LockSem l"
  shows "kinv (wake s k)"
  using assms by (simp add: kinv_def threads_wake queues_wake sems_wake locks_wake disk_wake)

section \<open>Interrupt handlers\<close>

lemma disk_ints_Cons [simp]: "disk_ints (p # ps) = disk_ints ps + (if callOnInterrupt p = DiskDev then 1 else 0)"
  by (simp add: disk_ints_def)

lemma disk_ints_insert [simp]:
  "disk_ints (sorted_insert c p ps) = disk_ints ps + (if callOnInterrupt p = DiskDev then 1 else 0)"
  by (simp add: disk_ints_def mset_sorted_insert)

lemma SetInterrupt_ok:
  assumes "by_time (pending k)"
  shows "\<exists>r ps. SetInterrupt k = Inr (k\<lparr>randoms := r, pending := ps\<rparr>) \<and> by_time ps \<and> disk_ints ps = disk_ints (pending k)
    \<and> (\<exists>new. mset ps = mset (pending k) + new \<and> (\<forall>p\<in>#new. totalTicks (stats k) < whenDue p))"
proof (cases "timerDisable k")
  case True
  have "k\<lparr>randoms := randoms k, pending := pending k\<rparr> = k" by (cases k) simp
  with True show ?thesis using assms
    by (intro exI [of _ "randoms k"] exI [of _ "pending k"] conjI exI [of _ "{#}"]) (simp_all add: SetInterrupt_def)
next
  case False
  let ?n = "if randomize k then 1 + uint (random k (randoms k)) mod 200 else 100"
  let ?p = "\<lparr>callOnInterrupt = TimerDev, whenDue = totalTicks (stats k) + ?n, intType = TimerInt\<rparr>"
  have n: "0 < ?n" by (simp add: add_pos_nonneg)
  have "SetInterrupt k = Inr (k\<lparr>randoms := randoms k + (if randomize k then 1 else 0), pending := sorted_insert PendingCompare ?p (pending k)\<rparr>)"
  proof (cases "randomize k")
    case True
    then show ?thesis using n False by (simp add: SetInterrupt_def Schedule_def tick_defs)
  next
    case r: False
    have "k\<lparr>randoms := randoms k\<rparr> = k" by (cases k) simp
    then show ?thesis using n False r by (simp add: SetInterrupt_def Schedule_def tick_defs)
  qed
  then show ?thesis using n assms
    by (intro exI [of _ "randoms k + (if randomize k then 1 else 0)"] exI [of _ "sorted_insert PendingCompare ?p (pending k)"])
      (auto simp: by_time_insert mset_sorted_insert intro!: exI [of _ "{#?p#}"])
qed

text \<open>What no handler changes: which thread is current, and what it has still to do.\<close>

definition pinned :: "nat \<Rightarrow> frame list \<Rightarrow> kop list \<Rightarrow> Kernel \<Rightarrow> bool" where
  "pinned c fs os k \<longleftrightarrow> currentThread k = c \<and> (\<exists>th. threads k c = Some th \<and> todo th = fs \<and> prog th = os)"

lemma pinned_cong: "threads k' = threads k \<Longrightarrow> currentThread k' = currentThread k \<Longrightarrow> pinned c fs os k' = pinned c fs os k"
  by (simp add: pinned_def)

lemma pinned_wake: "pinned c fs os k \<Longrightarrow> pinned c fs os (wake s k)"
  using wake_prog(2) unfolding pinned_def by fastforce

lemma Timer_CallBack_ok:
  assumes "kinv (k\<lparr>pending := ps\<rparr>)" "inHandler k" "by_time ps"
  shows "\<exists>k'. CallBack TimerDev (k\<lparr>pending := ps\<rparr>) = Inr k' \<and> kinv k' \<and> handled ps k k' \<and> threads k' = threads k \<and> currentThread k' = currentThread k"
proof -
  let ?k0 = "k\<lparr>pending := ps, timeCount := timeCount k + 1\<rparr>"
  have ts: "timeSlice k \<noteq> 0" using assms(1) by (simp add: kinv_def)
  obtain y where a: "Alarm_CallBack (k\<lparr>pending := ps\<rparr>) = Inr (?k0\<lparr>yieldOnReturn := y\<rparr>)"
  proof (cases "status k \<noteq> IdleMode \<and> ((timeCount k + 1) * TimerTicks) smod timeSlice k = 0")
    case True
    then show ?thesis using that [of True] ts assms(2) by (simp add: Alarm_CallBack_def YieldOnReturn_def Let_def)
  next
    case False
    have "?k0\<lparr>yieldOnReturn := yieldOnReturn k\<rparr> = ?k0" by (cases k) simp
    moreover have "Alarm_CallBack (k\<lparr>pending := ps\<rparr>) = Inr ?k0" using False ts by (auto simp: Alarm_CallBack_def Let_def)
    ultimately show ?thesis using that [of "yieldOnReturn k"] by simp
  qed
  obtain r qs where q: "SetInterrupt (?k0\<lparr>yieldOnReturn := y\<rparr>) = Inr (?k0\<lparr>yieldOnReturn := y, randoms := r, pending := qs\<rparr>)"
    "by_time qs" "disk_ints qs = disk_ints ps" "\<exists>new. mset qs = mset ps + new \<and> (\<forall>p\<in>#new. totalTicks (stats k) < whenDue p)"
    using SetInterrupt_ok [of "?k0\<lparr>yieldOnReturn := y\<rparr>"] assms(3) by auto
  let ?k' = "?k0\<lparr>yieldOnReturn := y, randoms := r, pending := qs\<rparr>"
  have "kinv ?k' = kinv (k\<lparr>pending := ps\<rparr>)" using q(3) by (intro inv_cong) simp_all
  moreover have "handled ps k ?k'" using q by (simp add: handled_def)
  ultimately show ?thesis using a q(1) assms(1) by (simp add: Timer_CallBack_def)
qed

lemma Disk_CallBack_ok:
  assumes "kinv k" "pending k = p # ps" "callOnInterrupt p = DiskDev" "level k = IntOff" "by_time (pending k)"
  defines "k0 \<equiv> k\<lparr>pending := ps, disk := (disk k)\<lparr>active := False\<rparr>, level := IntOff\<rparr>"
  shows "CallBack DiskDev (k\<lparr>pending := ps\<rparr>) = Inr ((wake DiskSem k0)\<lparr>level := IntOff\<rparr>) \<and> kinv (wake DiskSem k0) \<and> handled ps k ((wake DiskSem k0)\<lparr>level := IntOff\<rparr>)"
proof -
  have c: "threads_ok k0 = threads_ok k" "queues_ok k0 = queues_ok k" "sems_ok k0 = sems_ok k" "locks_ok k0 = locks_ok k"
    unfolding k0_def by (rule threads_ok_cong, simp_all) (rule queues_ok_cong, simp_all, simp add: sems_ok_def takers_def,
      rule locks_ok_cong, simp_all add: granted_def progs_def fun_eq_iff)
  have "disk_inv k" using assms(1) by (simp add: kinv_def)
  then have d: "disk_ok (disk k)" "disk_waiters k \<noteq> {}" "disk_ints ps = 0" "semValue (sems k DiskSem) = 0"
    "\<forall>t. t \<in> disk_users k \<longleftrightarrow> lockHolder k DiskLock = Some t"
    using assms(2,3) unfolding disk_inv_def by (auto split: if_splits)
  have p: "progs k0 = progs k" by (simp add: progs_def fun_eq_iff k0_def)
  have "disk_inv (wake DiskSem k0)"
    unfolding disk_inv_def progs_cong [OF progs_wake] progs_cong [OF p] using d by (simp add: k0_def disk_ok_def)
  moreover have "locks_ok (wake DiskSem k0)" using assms(1) c(4) by (intro locks_wake) (simp_all add: kinv_def)
  moreover have "timeSlice k0 = timeSlice k" by (simp add: k0_def)
  ultimately have "kinv (wake DiskSem k0)" using assms(1) c unfolding kinv_def by (simp add: threads_wake queues_wake sems_wake)
  moreover have "handled ps k ((wake DiskSem k0)\<lparr>level := IntOff\<rparr>)"
    using assms(2,4,5) by (auto simp: handled_def k0_def intro: exI [of _ "{#}"])
  moreover have "CallBack DiskDev (k\<lparr>pending := ps\<rparr>) = Inr ((wake DiskSem k0)\<lparr>level := IntOff\<rparr>)"
  proof -
    let ?k = "k\<lparr>pending := ps, disk := (disk k)\<lparr>active := False\<rparr>\<rparr>"
    have "queues_ok ?k = queues_ok k" by (rule queues_ok_cong) simp_all
    then have "V no_tick DiskSem ?k = SetLevel no_tick IntOff (wake DiskSem (?k\<lparr>level := IntOff\<rparr>))"
      using V_eq [of ?k no_tick DiskSem] assms(1,4) by (simp add: kinv_def)
    then show ?thesis by (simp add: Disk_CallBack_def SynchDisk_CallBack_def k0_def)
  qed
  ultimately show ?thesis by simp
qed

interpretation kernel: devices CallBack "\<lambda>k. kinv k \<and> pinned c fs os k" for c fs os
proof (unfold_locales, goal_cases)
  case (1 k p ps)
  then have i: "kinv k" "pinned c fs os k" "by_time (p # ps)" by (simp_all add: int_ok_def)
  show ?case
  proof (cases "callOnInterrupt p")
    case TimerDev
    have "kinv (k\<lparr>pending := ps\<rparr>)" using i(1) 1(2) TimerDev by (subst inv_cong [of _ k]) simp_all
    then obtain k' where k': "CallBack TimerDev (k\<lparr>pending := ps\<rparr>) = Inr k'" "kinv k'" "handled ps k k'" "threads k' = threads k"
      "currentThread k' = currentThread k" using Timer_CallBack_ok [OF _ 1(3)] i(3) by (metis sorted_wrt.simps(2))
    then have "pinned c fs os k'" using i(2) by (simp add: pinned_def)
    with k' TimerDev show ?thesis by auto
  next
    case DiskDev
    let ?k0 = "k\<lparr>pending := ps, disk := (disk k)\<lparr>active := False\<rparr>, level := IntOff\<rparr>"
    have "pinned c fs os (wake DiskSem ?k0)" using i(2) by (intro pinned_wake) (simp add: pinned_def)
    then show ?thesis using Disk_CallBack_ok [OF i(1) 1(2) DiskDev 1(4)] i(3) 1(2) DiskDev by (simp add: pinned_def)
  qed
qed (simp_all add: pinned_def)

section \<open>Changing what the running thread has to do\<close>

lemma put_current: "threads k c = Some th \<Longrightarrow> put_thread c f k = k\<lparr>threads := (threads k)(c \<mapsto> f th)\<rparr>"
  by (simp add: put_thread_def)

lemma current_running:
  assumes "threads_ok k" "pinned c fs os k" "\<forall>b. fs \<noteq> [SleepLoop b]"
  obtains th where "threads k c = Some th" "todo th = fs" "prog th = os" "threadStatus th = RUNNING" "c = currentThread k"
    "thread_ok k c th"
proof -
  obtain th where th: "threads k c = Some th" "todo th = fs" "prog th = os" "c = currentThread k"
    using assms(2) unfolding pinned_def by blast
  have t: "thread_ok k c th" using thread_okD [OF assms(1) th(1)] by simp
  have "toBeDestroyed k \<noteq> Some c" using assms(1) th(4) unfolding threads_ok_def by blast
  moreover have "todo th \<noteq> [SleepLoop True]" "todo th \<noteq> [SleepLoop False]" using th(2) assms(3) by simp_all
  ultimately have "threadStatus th = RUNNING" using t th(4) unfolding thread_ok_def by (cases "threadStatus th") simp_all
  with th t that show ?thesis by blast
qed

lemma not_destroying:
  assumes "threads_ok k" "pinned c fs os k" "\<not> suspended fs os"
  shows "toBeDestroyed k = None"
proof (rule ccontr)
  assume "toBeDestroyed k \<noteq> None"
  then obtain th where "threads k (currentThread k) = Some th" "suspended (todo th) (prog th)" using assms(1) unfolding threads_ok_def by blast
  with assms(2,3) show False by (simp add: pinned_def)
qed

lemma on_frames_not_suspended: "on_frames fs \<Longrightarrow> \<not> suspended fs os"
  by (auto simp: suspended_def on_frames_def)

lemma on_frames_not_asleep: "on_frames fs \<Longrightarrow> fs \<noteq> [SleepLoop b]"
  by (auto simp: on_frames_def)

lemma threads_upd:
  assumes i: "threads_ok k" and th: "threads k (currentThread k) = Some th" "threadStatus th = RUNNING"
    and d: "toBeDestroyed k = None" and th': "thread_ok k (currentThread k) th'" "threadStatus th' = RUNNING"
  shows "threads_ok (k\<lparr>threads := (threads k)(currentThread k \<mapsto> th')\<rparr>)"
proof -
  let ?k = "k\<lparr>threads := (threads k)(currentThread k \<mapsto> th')\<rparr>"
  have e: "thread_ok ?k t x = thread_ok k t x" for t x by (simp add: thread_ok_def)
  have "currentThread k \<notin> set (finishedThread k)" using i th unfolding threads_ok_def by auto
  then show ?thesis using i th th' d thread_okD [OF i th(1)] unfolding threads_ok_def e by auto
qed

lemma queues_upd:
  assumes i: "queues_ok k" and th: "threads k c = Some th" "threadStatus th = RUNNING"
  shows "queues_ok (k\<lparr>threads := (threads k)(c \<mapsto> th')\<rparr>)"
proof -
  have "c \<notin> set (readyList k)" using i th unfolding queues_ok_def by auto
  moreover have "c \<notin> set (queue (sems k s))" for s using i th unfolding queues_ok_def by fastforce
  ultimately show ?thesis using i unfolding queues_ok_def by (auto simp: fun_upd_apply)
qed

lemma progs_upd [simp]: "progs (k\<lparr>threads := (threads k)(c \<mapsto> th')\<rparr>) = (progs k)(c \<mapsto> prog th')"
  by (simp add: progs_def fun_eq_iff)

lemma takers_upd:
  assumes "threads k c = Some th" "threadStatus th = RUNNING" "threadStatus th' = RUNNING"
  shows "takers (k\<lparr>threads := (threads k)(c \<mapsto> th')\<rparr>) s =
    (if \<exists>r. prog th' = LoopP s IntOn # r then insert c (takers k s) else takers k s - {c})"
  using assms by (auto simp: takers_def)

lemma sems_upd:
  assumes i: "sems_ok k" and th: "threads k c = Some th" "threadStatus th = RUNNING" "threadStatus th' = RUNNING"
    and p: "prog th' = prog th \<or> \<not> looping (prog th)" and f: "\<And>s. finite (takers k s)"
  shows "sems_ok (k\<lparr>threads := (threads k)(c \<mapsto> th')\<rparr>)"
proof -
  have c: "takers k s \<subseteq> takers (k\<lparr>threads := (threads k)(c \<mapsto> th')\<rparr>) s" for s
    using th p unfolding takers_upd [OF th] by (auto simp: takers_def looping_def)
  have "finite (takers (k\<lparr>threads := (threads k)(c \<mapsto> th')\<rparr>) s)" for s using f unfolding takers_upd [OF th] by simp
  then have m: "int (card (takers k s)) \<le> int (card (takers (k\<lparr>threads := (threads k)(c \<mapsto> th')\<rparr>) s))" for s
    using c by (simp add: card_mono)
  show ?thesis unfolding sems_ok_def
  proof (intro conjI allI impI)
    fix s assume "queue (sems (k\<lparr>threads := (threads k)(c \<mapsto> th')\<rparr>) s) \<noteq> []"
    then show "semValue (sems (k\<lparr>threads := (threads k)(c \<mapsto> th')\<rparr>) s) \<le> int (card (takers (k\<lparr>threads := (threads k)(c \<mapsto> th')\<rparr>) s))"
      using i order.trans [OF _ m [of s]] by (auto simp: sems_ok_def)
  qed (use i in \<open>auto simp: sems_ok_def\<close>)
qed

lemma inv_upd:
  assumes i: "kinv k" and th: "threads k (currentThread k) = Some th" "threadStatus th = RUNNING"
    and d: "toBeDestroyed k = None" and th': "thread_ok k (currentThread k) th'" "threadStatus th' = RUNNING"
    and p: "prog th' = prog th \<or> plain (prog th) \<and> plain (prog th')"
  shows "kinv (k\<lparr>threads := (threads k)(currentThread k \<mapsto> th')\<rparr>)"
proof -
  let ?k = "k\<lparr>threads := (threads k)(currentThread k \<mapsto> th')\<rparr>"
  have "progs ?k t = Some (TakeLock l # r) \<longleftrightarrow> progs k t = Some (TakeLock l # r)" for t l r
    using p th(1) by (auto simp: progs_def dest: plainD)
  then have "granted ?k l = granted k l" for l unfolding granted_def by presburger
  then have l: "locks_ok ?k = locks_ok k" by (simp add: locks_ok_def)
  have "t \<in> disk_users ?k \<longleftrightarrow> t \<in> disk_users k" "t \<in> disk_waiters ?k \<longleftrightarrow> t \<in> disk_waiters k" for t
    using p th(1) by (auto simp: disk_users_def disk_waiters_def progs_def dest: plainD)
  then have "disk_users ?k = disk_users k" "disk_waiters ?k = disk_waiters k" by blast+
  then have "disk_inv ?k = disk_inv k" by (simp add: disk_inv_def)
  moreover have s: "sems_ok ?k"
    using i p by (intro sems_upd [OF _ th th'(2)]) (auto simp: kinv_def dest: plainD)
  ultimately show ?thesis
    using i l threads_upd [OF _ th d th'] queues_upd [OF _ th] s by (simp add: kinv_def)
qed

section \<open>Enabling interrupts\<close>

lemma level_of_on: "on_frames fs \<Longrightarrow> \<not> looping os \<Longrightarrow> level_of fs os = IntOn"
  by (cases fs) (auto simp: level_of_def on_frames_def)

lemma on_frames_Cons [simp]: "on_frames (f # fs) \<longleftrightarrow> (f = YieldNow \<or> (\<exists>st. f = SetStatusTo st)) \<and> on_frames fs"
  by (auto simp: on_frames_def)

lemma on_frames_no_tail: "on_frames fs \<Longrightarrow> RunTail \<notin> set fs"
  by (auto simp: on_frames_def)

lemma pinned_running:
  assumes "pinned c fs os k" "threads k c = Some th"
  shows "currentThread k = c" "todo th = fs" "prog th = os"
  using assms by (auto simp: pinned_def)

lemma push_ok:
  assumes i: "kinv k" and p: "pinned c fs os k" and f: "on_frames fs" "\<not> looping os" "on_frames gs"
  shows "kinv (push gs k)" "pinned c (gs @ fs) os (push gs k)"
proof -
  have t: "threads_ok k" using i by (simp add: kinv_def)
  obtain th where th: "threads k c = Some th" "todo th = fs" "prog th = os" "threadStatus th = RUNNING" "c = currentThread k" "thread_ok k c th"
    using current_running [OF t p] on_frames_not_asleep [OF f(1)] by metis
  have d: "toBeDestroyed k = None" by (rule not_destroying [OF t p on_frames_not_suspended [OF f(1)]])
  have e: "push gs k = k\<lparr>threads := (threads k)(c \<mapsto> th\<lparr>todo := gs @ fs\<rparr>)\<rparr>" using th by (simp add: push_def put_current)
  have gf: "on_frames (gs @ fs)" using f by (auto simp: on_frames_def)
  have "thread_ok k c (th\<lparr>todo := gs @ fs\<rparr>)"
    using th(2-6) f(2) gf on_frames_no_tail [OF gf] by (simp add: thread_ok_def running_def)
  then show "kinv (push gs k)" unfolding e using inv_upd [OF i, of th "th\<lparr>todo := gs @ fs\<rparr>"] th d by simp
  show "pinned c (gs @ fs) os (push gs k)" unfolding e using th p by (simp add: pinned_def)
qed

lemma push_fields [simp]:
  "stats (push gs k) = stats k" "machine (push gs k) = machine k" "level (push gs k) = level k" "pending (push gs k) = pending k"
  "inHandler (push gs k) = inHandler k" "currentThread (push gs k) = currentThread k" "status (push gs k) = status k"
  by (simp_all add: push_def put_thread_def)

lemma quiet_push [simp]: "quiet (push gs k) = quiet k"
  by (simp add: quiet_def int_ok_def)

lemma kernel_okI: "kinv k \<Longrightarrow> quiet k \<Longrightarrow> pinned c fs os k \<Longrightarrow> level k = level_of fs os \<Longrightarrow> kernel_ok k"
  by (auto simp: kernel_ok_def pinned_def)

lemma quiet_update [simp]:
  "quiet (k\<lparr>status := st\<rparr>) = quiet k" "quiet (k\<lparr>yieldOnReturn := y\<rparr>) = quiet k" "quiet (k\<lparr>level := l\<rparr>) = quiet k"
  by (simp_all add: quiet_def int_ok_def)

lemma pinned_update [simp]:
  "pinned c fs os (k\<lparr>status := st\<rparr>) = pinned c fs os k" "pinned c fs os (k\<lparr>yieldOnReturn := y\<rparr>) = pinned c fs os k"
  "pinned c fs os (k\<lparr>level := l\<rparr>) = pinned c fs os k" "pinned c fs os (k\<lparr>stats := s\<rparr>) = pinned c fs os k"
  by (simp_all add: pinned_def)

lemma SetLevel_on_ok:
  assumes i: "kinv k" "quiet k" "level k = IntOff" and p: "pinned c fs os k" and f: "on_frames fs" "\<not> looping os"
  shows "\<exists>k'. SetLevel tick IntOn k = Inr k' \<and> kernel_ok k' \<and> totalTicks (stats k) < totalTicks (stats k')"
proof -
  let ?k0 = "k\<lparr>stats := count_tick (status k) (stats k), level := IntOff\<rparr>"
  have ii: "int_ok ?k0" "\<not> inHandler ?k0" "level ?k0 = IntOff" "kinv ?k0 \<and> pinned c fs os ?k0"
    using i p kernel.time_ok_tick [of "stats k"] by (auto simp: quiet_def int_ok_def)
  obtain b k1 where k1: "CheckIfDue CallBack False ?k0 = Inr (b, k1)" "kinv k1" "pinned c fs os k1" "quiet k1" "level k1 = IntOff"
    "totalTicks (stats ?k0) \<le> totalTicks (stats k1)"
    using kernel.CheckIfDue_ok [OF ii(4,1,2,3), of False] by blast
  have t: "totalTicks (stats k) < totalTicks (stats k1)" using k1(6) by (simp add: count_tick_def tick_defs split: if_splits)
  let ?k2 = "k1\<lparr>level := IntOn\<rparr>"
  let ?k3 = "?k2\<lparr>yieldOnReturn := False, status := SystemMode\<rparr>"
  have e: "SetLevel tick IntOn k = (if yieldOnReturn k1 then Inr (push [YieldNow, SetStatusTo (status k)] ?k3) else Inr ?k2)"
    using i k1(1) by (simp add: SetLevel_def quiet_def ChangeLevel_def tick_def OneTick_def Let_def yield_later_def)
  have "kernel_ok ?k2" using k1 f by (intro kernel_okI [of _ c fs os]) (simp_all add: level_of_on)
  moreover have "kinv (push [YieldNow, SetStatusTo (status k)] ?k3)" "pinned c ([YieldNow, SetStatusTo (status k)] @ fs) os (push [YieldNow, SetStatusTo (status k)] ?k3)"
    using push_ok [of ?k3 c fs os "[YieldNow, SetStatusTo (status k)]"] k1 f by (simp_all add: on_frames_def)
  then have "kernel_ok (push [YieldNow, SetStatusTo (status k)] ?k3)"
    using k1 f by (intro kernel_okI [of _ c "[YieldNow, SetStatusTo (status k)] @ fs" os]) (simp_all add: level_of_def)
  ultimately show ?thesis using e t by auto
qed

section \<open>Context switches\<close>

text \<open>What a switch leaves alone.\<close>

definition same_rest :: "Kernel \<Rightarrow> Kernel \<Rightarrow> bool" where
  "same_rest k k' \<longleftrightarrow> threadNum k' = threadNum k \<and> finishedThread k' = finishedThread k \<and> sems k' = sems k \<and> lockHolder k' = lockHolder k
     \<and> waitQueue k' = waitQueue k \<and> waiters k' = waiters k \<and> disk k' = disk k \<and> pending k' = pending k \<and> timeSlice k' = timeSlice k"

definition same_clock :: "Kernel \<Rightarrow> Kernel \<Rightarrow> bool" where
  "same_clock k k' \<longleftrightarrow> stats k' = stats k \<and> machine k' = machine k \<and> pending k' = pending k \<and> inHandler k' = inHandler k"

lemma same_clock_quiet: "same_clock k k' \<Longrightarrow> quiet k' = quiet k"
  by (simp add: same_clock_def quiet_def int_ok_def)

lemma kinv_switch:
  assumes "kinv k" "same_rest k k'" "progs k' = progs k" "takers k' = takers k" "threads_ok k'" "queues_ok k'"
  shows "kinv k'"
proof -
  have "sems_ok k'" using assms(1,2,4) by (simp add: kinv_def sems_ok_def same_rest_def)
  moreover have "locks_ok k'" using assms(1,2) progs_cong(1) [OF assms(3)] locks_ok_cong [of k' k] by (simp add: kinv_def same_rest_def)
  moreover have "disk_inv k'" using assms(1,2) progs_cong(2,3) [OF assms(3)] disk_inv_cong [of k' k] by (simp add: kinv_def same_rest_def)
  ultimately show ?thesis using assms by (simp add: kinv_def same_rest_def)
qed

lemma bystander:
  assumes "thread_ok k u th" "u \<noteq> currentThread k" "u \<noteq> currentThread k'" "toBeDestroyed k \<noteq> Some u" "toBeDestroyed k' \<noteq> Some u"
    "u \<in> set (readyList k) \<longrightarrow> u \<in> set (readyList k')" "\<forall>s. u \<in> set (queue (sems k s)) \<longrightarrow> u \<in> set (queue (sems k' s))"
    "waiters k' = waiters k"
  shows "thread_ok k' u th"
  using assms unfolding thread_ok_def by (cases "threadStatus th") auto

definition saved :: "Machine \<Rightarrow> Thread \<Rightarrow> Thread" where
  "saved m th = (if space th = None then th else SaveUserState m th)"

lemma saved_fields [simp]:
  "todo (saved m th) = todo th" "prog (saved m th) = prog th" "threadStatus (saved m th) = threadStatus th" "space (saved m th) = space th"
  by (simp_all add: saved_def SaveUserState_def)

lemma saved_regs: "regs_ok (registers m) \<Longrightarrow> space th \<noteq> None \<Longrightarrow> regs_ok (userRegisters (saved m th))"
  by (auto simp: saved_def SaveUserState_def regs_ok_def reg_defs)

lemma Run_ok:
  assumes "level k = IntOff" "fin \<longrightarrow> toBeDestroyed k = None" "threads k c = Some th" "currentThread k = c" "machine k = Some m"
  obtains k' where "Run t fin k = Inr k'" "same_rest k k'" "same_clock k k'" "level k' = IntOff" "currentThread k' = t"
    "readyList k' = readyList k" "toBeDestroyed k' = (if fin then Some c else toBeDestroyed k)"
    "threads k' = (\<lambda>u. (if u = t then map_option (\<lambda>th. th\<lparr>threadStatus := RUNNING\<rparr>) else id)
       (if u = c then Some ((saved m th)\<lparr>todo := RunTail # todo th\<rparr>) else threads k u))"
proof -
  define k1 where "k1 = (if fin then k\<lparr>toBeDestroyed := Some c\<rparr> else k)"
  define k2 where "k2 = (if space th = None then k1 else put_thread c (SaveUserState m) k1)"
  let ?k3 = "put_thread t (\<lambda>th. th\<lparr>threadStatus := RUNNING\<rparr>) ((push [RunTail] k2)\<lparr>currentThread := t\<rparr>)"
  have "save_user c k1 = Inr k2" using assms by (auto simp: save_user_def k1_def k2_def split: option.split)
  moreover have "(if fin then ASSERT (toBeDestroyed k = None) (Inr (k\<lparr>toBeDestroyed := Some c\<rparr>)) else Inr k) = Inr k1"
    using assms(2) by (simp add: k1_def)
  ultimately have "Run t fin k = Inr ?k3" using assms(1,4) by (simp add: Run_def Let_def)
  moreover have "threads k2 c = Some (saved m th)" "currentThread k2 = c" "\<And>u. u \<noteq> c \<Longrightarrow> threads k2 u = threads k u"
    using assms by (simp_all add: saved_def put_thread_def k1_def k2_def)
  then have "threads ?k3 = (\<lambda>u. (if u = t then map_option (\<lambda>th. th\<lparr>threadStatus := RUNNING\<rparr>) else id)
       (if u = c then Some ((saved m th)\<lparr>todo := RunTail # todo th\<rparr>) else threads k u))"
    by (auto simp: fun_eq_iff push_def put_thread_def)
  moreover have "same_rest k ?k3" "same_clock k ?k3" "level ?k3 = IntOff" "currentThread ?k3 = t"
    "readyList ?k3 = readyList k" "toBeDestroyed ?k3 = (if fin then Some c else toBeDestroyed k)"
    using assms(1) by (simp_all add: same_rest_def same_clock_def push_def put_thread_def k1_def k2_def)
  ultimately show ?thesis using that by blast
qed

lemma takers_eqI:
  assumes "\<And>u. (\<exists>th. threads k u = Some th \<and> threadStatus th \<noteq> BLOCKED) = (\<exists>th. threads k' u = Some th \<and> threadStatus th \<noteq> BLOCKED)" "progs k' = progs k"
  shows "takers k' = takers k"
proof -
  have "takers k s = {u. (\<exists>th. threads k u = Some th \<and> threadStatus th \<noteq> BLOCKED) \<and> (\<exists>r. progs k u = Some (LoopP s IntOn # r))}" for k s
    by (auto simp: takers_def progs_def)
  then show ?thesis using assms by (simp add: fun_eq_iff)
qed

lemma ready_next:
  assumes "threads_ok k" "queues_ok k" "t \<in> set (readyList k)" "t \<noteq> currentThread k"
  obtains th where "threads k t = Some th" "threadStatus th = READY" "suspended (todo th) (prog th)" "thread_ok k t th"
proof -
  obtain th where th: "threads k t = Some th" "threadStatus th = READY" using assms(2,3) unfolding queues_ok_def by blast
  then have "thread_ok k t th" using thread_okD [OF assms(1)] by blast
  with th that show ?thesis using assms(4) by (simp add: thread_ok_def)
qed

lemma suspended_running: "suspended fs os \<Longrightarrow> running fs os"
  by (simp add: running_def)

lemma suspended_level: "suspended fs os \<Longrightarrow> level_of fs os = IntOff"
  by (auto simp: suspended_def level_of_def)

lemma Yield_ok:
  assumes i: "kinv k" "quiet k" and p: "pinned c fs os k" and f: "on_frames fs" "\<not> looping os" and l: "level k = IntOn"
  shows "\<exists>k'. Yield k = Inr k' \<and> kernel_ok k'"
proof (cases "readyList k")
  case Nil
  have "kinv (k\<lparr>level := IntOff\<rparr>)" "quiet (k\<lparr>level := IntOff\<rparr>)" "pinned c fs os (k\<lparr>level := IntOff\<rparr>)" using i p by simp_all
  then obtain k' where "SetLevel tick IntOn (k\<lparr>level := IntOff\<rparr>) = Inr k'" "kernel_ok k'" using SetLevel_on_ok [OF _ _ _ _ f] by fastforce
  then show ?thesis using Nil l by (simp add: Yield_def FindNextToRun_def Let_def)
next
  case (Cons t rest)
  have t: "threads_ok k" and q: "queues_ok k" using i by (simp_all add: kinv_def)
  obtain th where th: "threads k c = Some th" "todo th = fs" "prog th = os" "threadStatus th = RUNNING" "c = currentThread k" "thread_ok k c th"
    using current_running [OF t p] on_frames_not_asleep [OF f(1)] by metis
  have d: "toBeDestroyed k = None" by (rule not_destroying [OF t p on_frames_not_suspended [OF f(1)]])
  have cr: "c \<notin> set (readyList k)" "c \<noteq> t" "distinct (t # rest)" using q th Cons unfolding queues_ok_def by auto
  obtain tt where tt: "threads k t = Some tt" "threadStatus tt = READY" "suspended (todo tt) (prog tt)" "thread_ok k t tt"
    using ready_next [OF t q, of t] cr th(5) Cons by auto
  obtain m where m: "machine k = Some m" "regs_ok (registers m)" using i(2) by (auto simp: quiet_def int_ok_def)
  let ?k1 = "(put_thread c (\<lambda>th. th\<lparr>threadStatus := READY\<rparr>) (k\<lparr>level := IntOff, readyList := rest\<rparr>))\<lparr>readyList := rest @ [c]\<rparr>"
  let ?k2 = "push [SetLevelTo IntOn] ?k1"
  let ?th = "th\<lparr>threadStatus := READY, todo := SetLevelTo IntOn # fs\<rparr>"
  have k2: "threads ?k2 = (threads k)(c \<mapsto> ?th)" using th by (simp add: push_def put_thread_def fun_eq_iff)
  have e: "Yield k = Run t False ?k2"
    using l Cons cr th(5) by (simp add: Yield_def FindNextToRun_def list_RemoveFront_def ReadyToRun_def list_Append_def put_thread_def Let_def)
  have sm: "same_rest k ?k2" "same_clock k ?k2" "toBeDestroyed ?k2 = None" "readyList ?k2 = rest @ [c]"
    using d by (simp_all add: same_rest_def same_clock_def push_def put_thread_def)
  obtain k' where k': "Run t False ?k2 = Inr k'" "same_rest ?k2 k'" "same_clock ?k2 k'" "level k' = IntOff" "currentThread k' = t"
    "readyList k' = readyList ?k2" "toBeDestroyed k' = (if False then Some c else toBeDestroyed ?k2)"
    "threads k' = (\<lambda>u. (if u = t then map_option (\<lambda>th. th\<lparr>threadStatus := RUNNING\<rparr>) else id)
       (if u = c then Some ((saved m ?th)\<lparr>todo := RunTail # todo ?th\<rparr>) else threads ?k2 u))"
    using Run_ok [of ?k2 False c ?th m t] k2 th(5) m(1) by (auto simp: put_thread_def)
  have s: "same_rest k k'" "same_clock k k'" using sm k'(2,3) by (simp_all add: same_rest_def same_clock_def)
  let ?thc = "(saved m ?th)\<lparr>todo := RunTail # SetLevelTo IntOn # fs\<rparr>" and ?tht = "tt\<lparr>threadStatus := RUNNING\<rparr>"
  have th': "threads k' = (threads k)(c \<mapsto> ?thc, t \<mapsto> ?tht)" using k'(8) k2 cr tt by (auto simp: fun_eq_iff)
  have rl: "readyList k' = rest @ [c]" "toBeDestroyed k' = None" using k'(6,7) sm by simp_all
  have sem: "sems k' = sems k" "waiters k' = waiters k" "threadNum k' = threadNum k" "finishedThread k' = finishedThread k"
    using s(1) by (simp_all add: same_rest_def)
  have "thread_ok k' u x" if u: "threads k' u = Some x" for u x
  proof -
    consider "u = c" | "u = t" | "u \<noteq> c" "u \<noteq> t" by blast
    then show ?thesis
    proof cases
      case 1
      then have x: "x = ?thc" using u th' cr by simp
      have "prog_ok (waiters k) os" using th(3,6) by (simp add: thread_ok_def)
      then show ?thesis using 1 rl k'(5) cr f th(3) saved_regs [OF m(2), of ?th] unfolding x thread_ok_def sem by (auto simp: suspended_def)
    next
      case 2
      then have x: "x = ?tht" using u th' by simp
      show ?thesis using 2 k'(5) tt unfolding x thread_ok_def sem by (auto simp: suspended_running)
    next
      case 3
      then have "threads k u = Some x" using u th' by simp
      then have "thread_ok k u x" using thread_okD [OF t] by blast
      then show ?thesis by (rule bystander) (use 3 th(5) k'(5) d rl sem Cons in auto)
    qed
  qed
  moreover have "u < threadNum k" if "threads k' u = Some x" for u x
    using that thread_okD [OF t] th(1) tt(1) unfolding th' by (auto split: if_splits)
  moreover have "c \<notin> set (finishedThread k)" "t \<notin> set (finishedThread k)" using t th tt unfolding threads_ok_def by auto
  ultimately have T: "threads_ok k'" using t rl k'(5) unfolding threads_ok_def sem by (auto simp: th')
  have Q: "queues_ok k'"
    unfolding queues_ok_def rl(1) sem
  proof (intro conjI ballI allI)
    show "distinct (rest @ [c])" using cr Cons by simp
    show "\<exists>x. threads k' u = Some x \<and> threadStatus x = READY" if "u \<in> set (rest @ [c])" for u
      using that q cr Cons unfolding queues_ok_def th' by auto
    show "distinct (queue (sems k s))" for s using q by (simp add: queues_ok_def)
    show "\<exists>x r. threads k' u = Some x \<and> threadStatus x = BLOCKED \<and> prog x = LoopP s IntOn # r" if u: "u \<in> set (queue (sems k s))" for u s
    proof -
      obtain x r where "threads k u = Some x" "threadStatus x = BLOCKED" "prog x = LoopP s IntOn # r" using queue_blocked [OF q u] by metis
      then show ?thesis using th(1,4) tt(1,2) unfolding th' by auto
    qed
  qed
  have pr: "progs k' = progs k" using th(1,3) tt(1) by (auto simp: progs_def th' fun_eq_iff)
  have tk: "takers k' = takers k" by (rule takers_eqI [OF _ pr]) (use th tt in \<open>auto simp: th'\<close>)
  have "kinv k'" by (rule kinv_switch [OF i(1) s(1) pr tk T Q])
  moreover have "quiet k'" using i(2) same_clock_quiet [OF s(2)] by simp
  moreover have "pinned t (todo tt) (prog tt) k'" using k'(5) by (simp add: pinned_def th')
  ultimately have "kernel_ok k'" using k'(4) suspended_level [OF tt(3)] kernel_okI [of k' t "todo tt" "prog tt"] by simp
  then show ?thesis using e k'(1) by simp
qed

lemma Sleep_loop_switch:
  assumes i: "kinv k" "quiet k" and th: "threads k c = Some th" "todo th = [SleepLoop b]" "c = currentThread k" and l: "level k = IntOff"
    and r: "readyList k = t # rest"
  shows "\<exists>k'. Run t b (put_thread c (\<lambda>th. th\<lparr>todo := []\<rparr>) (k\<lparr>readyList := rest\<rparr>)) = Inr k' \<and> kernel_ok k'"
proof -
  have t: "threads_ok k" and q: "queues_ok k" using i by (simp_all add: kinv_def)
  have ok: "thread_ok k c th" using thread_okD [OF t th(1)] by simp
  have d: "toBeDestroyed k = None"
    by (rule not_destroying [OF t, of c "[SleepLoop b]" "prog th"]) (use th in \<open>simp_all add: pinned_def suspended_def\<close>)
  have st: "threadStatus th \<noteq> RUNNING" using ok th(2) by (auto simp: thread_ok_def running_def suspended_def on_frames_def)
  have tr: "t \<in> set (readyList k)" "distinct (t # rest)" using q r by (auto simp: queues_ok_def)
  obtain tt where tt: "threads k t = Some tt" "threadStatus tt = READY" using q tr unfolding queues_ok_def by blast
  have tok: "thread_ok k t tt" using thread_okD [OF t tt(1)] by simp
  obtain m where m: "machine k = Some m" "regs_ok (registers m)" using i(2) by (auto simp: quiet_def int_ok_def)
  define k2 where "k2 = put_thread c (\<lambda>th. th\<lparr>todo := []\<rparr>) (k\<lparr>readyList := rest\<rparr>)"
  let ?th = "th\<lparr>todo := []\<rparr>"
  have k2: "threads k2 = (threads k)(c \<mapsto> ?th)" "level k2 = IntOff" "currentThread k2 = c" "machine k2 = Some m"
    "toBeDestroyed k2 = None" "readyList k2 = rest" using th l m d by (simp_all add: k2_def put_thread_def fun_eq_iff)
  have tb: "b \<longrightarrow> toBeDestroyed k2 = None" "threads k2 c = Some ?th" using k2 by simp_all
  obtain k' where k': "Run t b k2 = Inr k'" "same_rest k2 k'" "same_clock k2 k'" "level k' = IntOff" "currentThread k' = t"
    "readyList k' = readyList k2" "toBeDestroyed k' = (if b then Some c else toBeDestroyed k2)"
    "threads k' = (\<lambda>u. (if u = t then map_option (\<lambda>th. th\<lparr>threadStatus := RUNNING\<rparr>) else id)
       (if u = c then Some ((saved m ?th)\<lparr>todo := RunTail # todo ?th\<rparr>) else threads k2 u))"
    using Run_ok [OF k2(2) tb k2(3,4), of t] by blast
  have s: "same_rest k k'" "same_clock k k'" using k'(2,3) by (simp_all add: same_rest_def same_clock_def put_thread_def k2_def)
  have sem: "sems k' = sems k" "waiters k' = waiters k" "threadNum k' = threadNum k" "finishedThread k' = finishedThread k"
    using s(1) by (simp_all add: same_rest_def)
  have rl: "readyList k' = rest" "toBeDestroyed k' = (if b then Some c else None)" using k'(6,7) k2 by simp_all
  let ?thc = "(saved m ?th)\<lparr>todo := [RunTail]\<rparr>"
  define tn where "tn = (if t = c then ?thc else tt)"
  have th': "threads k' = (threads k)(c \<mapsto> ?thc, t \<mapsto> tn\<lparr>threadStatus := RUNNING\<rparr>)"
    using k'(8) k2 tt by (auto simp: fun_eq_iff tn_def)
  have b: "b \<Longrightarrow> t \<noteq> c \<and> threadStatus th = BLOCKED \<and> plain (prog th)" "\<not> b \<Longrightarrow> looping (prog th)"
    "threadStatus th = BLOCKED \<Longrightarrow> t \<noteq> c" "\<not> b \<Longrightarrow> threadStatus th = BLOCKED \<Longrightarrow> \<exists>s r. prog th = LoopP s IntOn # r \<and> c \<in> set (queue (sems k s))"
    using ok th tt st d unfolding thread_ok_def by (cases "threadStatus th"; auto simp: looping_def dest: plainD)+
  have tn: "suspended (todo tn) (prog tn)" "prog tn = prog tt" "prog_ok (waiters k) (prog tn)"
    "RunTail \<in> set (todo tn) \<longrightarrow> space tn \<noteq> None \<longrightarrow> regs_ok (userRegisters tn)"
    using tok tt th b saved_regs [OF m(2), of ?th] by (auto simp: tn_def thread_ok_def suspended_def)
  have "thread_ok k' u x" if u: "threads k' u = Some x" for u x
  proof -
    consider "u = t" | "u = c" "u \<noteq> t" | "u \<noteq> c" "u \<noteq> t" by blast
    then show ?thesis
    proof cases
      case 1
      then have x: "x = tn\<lparr>threadStatus := RUNNING\<rparr>" using u th' by simp
      show ?thesis using 1 k'(5) tn unfolding x thread_ok_def sem by (auto simp: suspended_running)
    next
      case 2
      then have x: "x = ?thc" using u th' by simp
      show ?thesis using 2 rl k'(5) ok th b d r saved_regs [OF m(2), of ?th] st
        unfolding x thread_ok_def sem by (cases "threadStatus th"; cases b; auto simp: suspended_def)
    next
      case 3
      then have "threads k u = Some x" using u th' by simp
      then have "thread_ok k u x" using thread_okD [OF t] by blast
      then show ?thesis by (rule bystander) (use 3 th(3) k'(5) d rl sem r in auto)
    qed
  qed
  moreover have "u < threadNum k" if "threads k' u = Some x" for u x
    using that thread_okD [OF t] th(1) tt(1) unfolding th' by (auto split: if_splits)
  moreover have "t \<notin> set (finishedThread k)" using t tt unfolding threads_ok_def by auto
  moreover have "threadStatus ?thc = threadStatus th" "prog ?thc = prog th" by simp_all
  ultimately have T: "threads_ok k'" using t rl k'(5) b tn th(1) unfolding threads_ok_def sem by (auto simp: th')
  have Q: "queues_ok k'"
    unfolding queues_ok_def rl(1) sem
  proof (intro conjI ballI allI)
    show "distinct rest" using tr by simp
    show "\<exists>x. threads k' u = Some x \<and> threadStatus x = READY" if "u \<in> set rest" for u
      using that q tr r th(1) unfolding queues_ok_def th' by auto
    show "distinct (queue (sems k s))" for s using q by (simp add: queues_ok_def)
    show "\<exists>x r. threads k' u = Some x \<and> threadStatus x = BLOCKED \<and> prog x = LoopP s IntOn # r" if u: "u \<in> set (queue (sems k s))" for u s
    proof -
      obtain x r where "threads k u = Some x" "threadStatus x = BLOCKED" "prog x = LoopP s IntOn # r" using queue_blocked [OF q u] by metis
      then show ?thesis using th(1) tt(1,2) unfolding th' by auto
    qed
  qed
  have pr: "progs k' = progs k" using th(1) tt(1) tn(2) by (auto simp: progs_def th' fun_eq_iff)
  have tk: "takers k' = takers k" by (rule takers_eqI [OF _ pr]) (use th tt b in \<open>auto simp: th' tn_def\<close>)
  have "kinv k'" by (rule kinv_switch [OF i(1) s(1) pr tk T Q])
  moreover have "quiet k'" using i(2) same_clock_quiet [OF s(2)] by simp
  moreover have "pinned t (todo tn) (prog tn) k'" using k'(5) by (simp add: pinned_def th')
  ultimately have "kernel_ok k'" using k'(4) suspended_level [OF tn(1)] kernel_okI [of k' t "todo tn" "prog tn"] by simp
  then show ?thesis using k'(1) by (simp add: k2_def)
qed

end
