(* ===== verification/ThreadsCorrect.thy ===== *)
theory ThreadsCorrect
  imports ThreadsInv
begin

text \<open>
  Every step of the kernel keeps its invariant, and what follows from it: no thread is lost, locks exclude each other, a
  semaphore never loses a wake-up, the disk is never asked for two things at once, and the synchronous disk implements
  the sector store the file system is built on.
\<close>

section \<open>The suspended routines\<close>

abbreviation pop_frame :: "nat \<Rightarrow> frame list \<Rightarrow> Kernel \<Rightarrow> Kernel" where
  "pop_frame c fs k \<equiv> put_thread c (\<lambda>th. th\<lparr>todo := fs\<rparr>) k"

lemma kernel_okE:
  assumes "kernel_ok k" "threads k (currentThread k) = Some th"
  shows "kinv k" "quiet k" "threads_ok k" "queues_ok k" "level k = level_of (todo th) (prog th)" "thread_ok k (currentThread k) th"
    "pinned (currentThread k) (todo th) (prog th) k"
  using assms thread_okD [of k "currentThread k" th] by (auto simp: kernel_ok_def kinv_def pinned_def)

lemma put_thread_fields [simp]:
  "stats (put_thread c f k) = stats k" "machine (put_thread c f k) = machine k" "level (put_thread c f k) = level k"
  "pending (put_thread c f k) = pending k" "inHandler (put_thread c f k) = inHandler k" "currentThread (put_thread c f k) = currentThread k"
  "readyList (put_thread c f k) = readyList k" "toBeDestroyed (put_thread c f k) = toBeDestroyed k" "sems (put_thread c f k) = sems k"
  "lockHolder (put_thread c f k) = lockHolder k" "waiters (put_thread c f k) = waiters k" "waitQueue (put_thread c f k) = waitQueue k"
  "finishedThread (put_thread c f k) = finishedThread k" "threadNum (put_thread c f k) = threadNum k" "disk (put_thread c f k) = disk k"
  "timeSlice (put_thread c f k) = timeSlice k" "status (put_thread c f k) = status k"
  by (simp_all add: put_thread_def)

lemma quiet_put_thread [simp]: "quiet (put_thread c f k) = quiet k"
  by (simp add: quiet_def int_ok_def)

lemma Sleep_loop_idle:
  assumes th: "threads k (currentThread k) = Some th" "todo th = [SleepLoop b]" and l: "level k = IntOff" and r: "readyList k = []"
  shows "Sleep_loop b (pop_frame (currentThread k) [] k) = Idle CallBack k"
proof -
  let ?c = "currentThread k"
  have "th\<lparr>todo := [SleepLoop b]\<rparr> = th" using th(2) by (cases th) simp
  then have "push [SleepLoop b] (pop_frame ?c [] k) = k\<lparr>threads := (threads k)(?c \<mapsto> th)\<rparr>"
    using th(1) by (simp add: push_def put_thread_def)
  also have "\<dots> = k" using th(1) by (cases k) (simp add: fun_upd_idem)
  finally show ?thesis using r l by (simp add: Sleep_loop_def FindNextToRun_def)
qed

lemma Sleep_loop_ok:
  assumes ok: "kernel_ok k" and th: "threads k (currentThread k) = Some th" "todo th = [SleepLoop b]"
  shows "if readyList k = [] \<and> pending k = [] then Sleep_loop b (pop_frame (currentThread k) [] k) = Inl MachineHalted
     else \<exists>k'. Sleep_loop b (pop_frame (currentThread k) [] k) = Inr k' \<and> kernel_ok k'"
proof -
  let ?c = "currentThread k"
  note k = kernel_okE [OF ok th(1)]
  have l: "level k = IntOff" using k(5) th(2) by (simp add: level_of_def)
  show ?thesis
  proof (cases "readyList k")
    case Nil
    have e: "Sleep_loop b (pop_frame ?c [] k) = Idle CallBack k" by (rule Sleep_loop_idle [OF th l Nil])
    show ?thesis
    proof (cases "pending k = []")
      case True
      then show ?thesis using kernel.Idle_ok [of k ?c "[SleepLoop b]" "prog th"] k l Nil e th(2) by simp
    next
      case False
      then obtain k' where "Idle CallBack k = Inr k'" "kinv k'" "pinned ?c [SleepLoop b] (prog th) k'" "quiet k'" "level k' = IntOff"
        using kernel.Idle_ok [of k ?c "[SleepLoop b]" "prog th"] k l th(2) by auto
      then show ?thesis using e False kernel_okI [of k' ?c "[SleepLoop b]" "prog th"] by (simp add: level_of_def)
    qed
  next
    case (Cons t rest)
    have "(pop_frame ?c [] k)\<lparr>readyList := rest\<rparr> = pop_frame ?c [] (k\<lparr>readyList := rest\<rparr>)" by (cases k) (simp add: put_thread_def)
    then have e: "Sleep_loop b (pop_frame ?c [] k) = Run t b (pop_frame ?c [] (k\<lparr>readyList := rest\<rparr>))"
      using Cons l by (simp add: Sleep_loop_def FindNextToRun_def list_RemoveFront_def)
    then show ?thesis using Sleep_loop_switch [OF k(1,2) th refl l Cons] Cons by simp
  qed
qed

lemma pop_frame_ok:
  assumes "kinv k" "threads k (currentThread k) = Some th" "threadStatus th = RUNNING" "toBeDestroyed k = None" "running fs (prog th)"
    "RunTail \<notin> set fs \<or> space th = None"
  shows "kinv (pop_frame (currentThread k) fs k)" "pinned (currentThread k) fs (prog th) (pop_frame (currentThread k) fs k)"
proof -
  have "thread_ok k (currentThread k) th" using thread_okD assms(1,2) by (simp add: kinv_def)
  then have "thread_ok k (currentThread k) (th\<lparr>todo := fs\<rparr>)" using assms(3,5,6) by (auto simp: thread_ok_def)
  then show "kinv (pop_frame (currentThread k) fs k)" using inv_upd [OF assms(1-4), of "th\<lparr>todo := fs\<rparr>"] assms(2,3) by (simp add: put_current)
  show "pinned (currentThread k) fs (prog th) (pop_frame (currentThread k) fs k)" using assms(2) by (simp add: pinned_def put_current)
qed

text \<open>The last thread to finish is deleted by the next one to run.\<close>

lemma destroy_ok:
  assumes i: "kinv k" and th: "threads k (currentThread k) = Some th" "threadStatus th = RUNNING"
    and fs: "running fs (prog th)" "RunTail \<notin> set fs \<or> space th = None"
  shows "\<exists>k'. CheckToBeDestroyed (pop_frame (currentThread k) fs k) = Inr k' \<and> kinv k' \<and> toBeDestroyed k' = None
    \<and> currentThread k' = currentThread k \<and> threads k' (currentThread k) = Some (th\<lparr>todo := fs\<rparr>) \<and> level k' = level k \<and> same_clock k k'"
proof (cases "toBeDestroyed k")
  case None
  then show ?thesis using pop_frame_ok(1) [OF i th None fs] th(1)
    by (simp add: CheckToBeDestroyed_def same_clock_def) (simp add: put_thread_def)
next
  case (Some d)
  let ?c = "currentThread k"
  let ?k = "(pop_frame ?c fs k)\<lparr>threads := (threads (pop_frame ?c fs k))(d := None), toBeDestroyed := None\<rparr>"
  have t: "threads_ok k" and q: "queues_ok k" using i by (simp_all add: kinv_def)
  obtain td where d: "d \<noteq> ?c" "threads k d = Some td" "threadStatus td = BLOCKED" using t Some unfolding threads_ok_def by blast
  have dok: "thread_ok k d td" using thread_okD [OF t d(2)] by simp
  then have pl: "plain (prog td)" using Some d(3) by (simp add: thread_ok_def)
  then have nl: "\<not> looping (prog td)" by (rule plainD)
  have th': "threads ?k = (threads k)(?c \<mapsto> th\<lparr>todo := fs\<rparr>, d := None)" using th(1) by (simp add: put_thread_def)
  have cok: "thread_ok k ?c th" using thread_okD [OF t th(1)] by simp
  have "thread_ok ?k u x" if u: "threads ?k u = Some x" for u x
  proof (cases "u = ?c")
    case True
    then have "x = th\<lparr>todo := fs\<rparr>" using u th' d(1) by (simp split: if_splits)
    then show ?thesis using True cok th(2) fs by (auto simp: thread_ok_def)
  next
    case False
    then have "threads k u = Some x" "u \<noteq> d" using u th' by (auto split: if_splits)
    then show ?thesis using thread_okD [OF t, of u x] False Some by (auto intro: bystander [of k])
  qed
  moreover have "u < threadNum k" if "threads ?k u = Some x" for u x
    using that thread_okD [OF t] th(1) unfolding th' by (auto split: if_splits)
  moreover have "?c \<notin> set (finishedThread k)" using t th unfolding threads_ok_def by auto
  ultimately have T: "threads_ok ?k" using t d(1) unfolding threads_ok_def th' by auto
  have Q: "queues_ok ?k"
    unfolding queues_ok_def
  proof (intro conjI ballI allI)
    show "\<exists>x. threads ?k u = Some x \<and> threadStatus x = READY" if u: "u \<in> set (readyList ?k)" for u
      using u q d th unfolding queues_ok_def th' by auto
    show "\<exists>x r. threads ?k u = Some x \<and> threadStatus x = BLOCKED \<and> prog x = LoopP s IntOn # r" if u: "u \<in> set (queue (sems ?k s))" for u s
    proof -
      have "u \<in> set (queue (sems k s))" using u by simp
      then obtain x r where "threads k u = Some x" "threadStatus x = BLOCKED" "prog x = LoopP s IntOn # r"
        using queue_blocked [OF q] by metis
      then show ?thesis using th d nl unfolding th' by (auto simp: looping_def)
    qed
  qed (use q in \<open>auto simp: queues_ok_def\<close>)
  have tk: "takers ?k = takers k" using th d unfolding takers_def th' by (auto simp: fun_eq_iff)
  have ck: "CheckToBeDestroyed (pop_frame ?c fs k) = Inr ?k" using Some d(1) by (simp add: CheckToBeDestroyed_def)
  have pr: "progs ?k = (progs k)(d := None)" using th(1) by (auto simp: progs_def th' fun_eq_iff)
  have "granted ?k = granted k" "disk_users ?k = disk_users k" "disk_waiters ?k = disk_waiters k"
    unfolding granted_def disk_users_def disk_waiters_def pr using pl d(2) by (auto simp: fun_eq_iff progs_def dest: plainD)
  note same = this
  have "locks_ok ?k" "disk_inv ?k"
    using i same locks_ok_cong [of ?k k] disk_inv_cong [of ?k k] by (simp_all add: kinv_def)
  moreover have "sems_ok ?k" using i tk by (simp add: kinv_def sems_ok_def)
  ultimately have "kinv ?k" using i T Q by (simp add: kinv_def)
  then show ?thesis using ck d(1) by (simp add: th' same_clock_def)
qed


lemma restore_ok:
  assumes "threads k c = Some th" "quiet k" "space th \<noteq> None \<longrightarrow> regs_ok (userRegisters th)"
  shows "\<exists>m. restore_user c k = Inr (k\<lparr>machine := Some m\<rparr>) \<and> quiet (k\<lparr>machine := Some m\<rparr>)"
proof -
  obtain m where m: "machine k = Some m" "regs_ok (registers m)" using assms(2) by (auto simp: quiet_def int_ok_def)
  show ?thesis
  proof (cases "space th")
    case None
    have "k\<lparr>machine := Some m\<rparr> = k" using m(1) by (cases k) simp
    with None show ?thesis using assms by (intro exI [of _ m]) (simp add: restore_user_def)
  next
    case (Some sp)
    have "regs_ok (registers (RestoreState sp (RestoreUserState th m)))"
      using assms(3) Some by (simp add: RestoreState_def RestoreUserState_def regs_ok_def reg_defs)
    then show ?thesis using assms(1,2) Some m by (auto simp: restore_user_def quiet_def int_ok_def)
  qed
qed

lemma frame_ok:
  assumes ok: "kernel_ok k" and th: "threads k (currentThread k) = Some th" "todo th = f # fs"
  shows "if (\<exists>b. f = SleepLoop b) \<and> readyList k = [] \<and> pending k = []
     then run_frame f (pop_frame (currentThread k) fs k) = Inl MachineHalted
     else \<exists>k'. run_frame f (pop_frame (currentThread k) fs k) = Inr k' \<and> kernel_ok k'"
proof (cases "\<exists>b. f = SleepLoop b")
  case True
  then obtain b where b: "f = SleepLoop b" by blast
  note k = kernel_okE [OF ok th(1)]
  have "threadStatus th \<noteq> RUNNING" using k(6) th(2) b by (auto simp: thread_ok_def running_def suspended_def on_frames_def)
  moreover have "toBeDestroyed k \<noteq> Some (currentThread k)" using k(3) unfolding threads_ok_def by blast
  ultimately have "fs = []" using k(6) th(2) unfolding thread_ok_def by (cases "threadStatus th") (simp_all split: if_splits)
  then show ?thesis using Sleep_loop_ok [OF ok th(1), of b] th(2) b by simp
next
  case False
  let ?c = "currentThread k"
  note k = kernel_okE [OF ok th(1)]
  obtain th' where "threads k ?c = Some th'" "threadStatus th' = RUNNING"
    using current_running [OF k(3,7)] False th(2) by (metis list.inject)
  then have st: "threadStatus th = RUNNING" using th(1) by simp
  then have run: "running (f # fs) (prog th)" using k(6) th(2) by (simp add: thread_ok_def)
  have q: "quiet k'" if "same_clock k k'" for k' using k(2) same_clock_quiet [OF that] by simp
  have "\<exists>k'. run_frame f (pop_frame ?c fs k) = Inr k' \<and> kernel_ok k'"
  proof (cases "suspended (f # fs) (prog th)")
    case True
    then have f: "f = BeginThread \<and> fs = [] \<and> \<not> looping (prog th) \<or> f = RunTail \<and> fs = [] \<and> looping (prog th)
      \<or> f = RunTail \<and> (\<exists>gs. fs = SetLevelTo IntOn # gs \<and> on_frames gs \<and> \<not> looping (prog th))" by (auto simp: suspended_def)
    then have fs: "running fs (prog th)" "RunTail \<notin> set fs \<or> space th = None" by (auto simp: running_def on_frames_def)
    obtain k1 where k1: "CheckToBeDestroyed (pop_frame ?c fs k) = Inr k1" "kinv k1" "toBeDestroyed k1 = None" "currentThread k1 = ?c"
      "threads k1 ?c = Some (th\<lparr>todo := fs\<rparr>)" "level k1 = level k" "same_clock k k1"
      using destroy_ok [OF k(1) th(1) st fs] by blast
    have p: "pinned ?c fs (prog th) k1" using k1 by (simp add: pinned_def)
    have l: "level k = IntOff" using k(5) th(2) f by (auto simp: level_of_def)
    show ?thesis
    proof (cases "f = BeginThread")
      case True
      then have "fs = []" "\<not> looping (prog th)" using f by auto
      then obtain k' where "SetLevel tick IntOn k1 = Inr k'" "kernel_ok k'"
        using SetLevel_on_ok [OF k1(2) q [OF k1(7)] _ p] k1(6) l by (auto simp: on_frames_def)
      then show ?thesis using True k1(1) by (simp add: Begin_def)
    next
      case F: False
      then have "RunTail \<in> set (todo th)" using f th(2) by auto
      then have "space th \<noteq> None \<longrightarrow> regs_ok (userRegisters th)" using k(6) by (simp add: thread_ok_def)
      then obtain m where m: "restore_user ?c k1 = Inr (k1\<lparr>machine := Some m\<rparr>)" "quiet (k1\<lparr>machine := Some m\<rparr>)"
        using restore_ok [OF k1(5) q [OF k1(7)]] by auto
      have "level_of fs (prog th) = IntOff" using f F by (auto simp: level_of_def)
      then have "kernel_ok (k1\<lparr>machine := Some m\<rparr>)"
        using k1 m p l kernel_okI [of "k1\<lparr>machine := Some m\<rparr>" ?c fs "prog th"] by (simp add: pinned_def)
      then show ?thesis using f F k1 m l by (auto simp: Run_tail_def)
    qed
  next
    case ns: False
    have d: "toBeDestroyed k = None" using not_destroying [OF k(3,7)] ns th(2) by simp
    have f: "f = SetLevelTo IntOn \<and> on_frames fs \<or> f = YieldNow \<and> on_frames fs \<or> (\<exists>st. f = SetStatusTo st) \<and> on_frames fs"
      and nl: "\<not> looping (prog th)" using run ns by (auto simp: running_def)
    then have fs: "on_frames fs" by blast
    have r: "running fs (prog th)" "RunTail \<notin> set fs \<or> space th = None" using fs nl by (auto simp: running_def on_frames_def)
    note p = pop_frame_ok [OF k(1) th(1) st d r]
    let ?k = "pop_frame ?c fs k"
    have qk: "quiet ?k" using k(2) by simp
    consider "f = SetLevelTo IntOn" | "f = YieldNow" | st where "f = SetStatusTo st" using f by blast
    then show ?thesis
    proof cases
      case 1
      then have "level ?k = IntOff" using k(5) th(2) by (simp add: level_of_def)
      then show ?thesis using 1 SetLevel_on_ok [OF p(1) qk _ p(2) fs nl] by auto
    next
      case 2
      then have "level ?k = IntOn" using k(5) th(2) by (simp add: level_of_def)
      then show ?thesis using 2 Yield_ok [OF p(1) qk p(2) fs nl] by auto
    next
      case 3
      then have "level ?k = IntOn" using k(5) th(2) by (simp add: level_of_def)
      then show ?thesis using 3 p qk level_of_on [OF fs nl] kernel_okI [of "?k\<lparr>status := st\<rparr>" ?c fs "prog th" for st] by simp
    qed
  qed
  then show ?thesis using False by simp
qed


section \<open>The kernel calls\<close>

abbreviation set_prog :: "nat \<Rightarrow> kop list \<Rightarrow> Kernel \<Rightarrow> Kernel" where
  "set_prog c os k \<equiv> put_thread c (\<lambda>th. th\<lparr>prog := os\<rparr>) k"

definition at_call :: "Kernel \<Rightarrow> Thread \<Rightarrow> bool" where
  "at_call k th \<longleftrightarrow> kernel_ok k \<and> threads k (currentThread k) = Some th \<and> todo th = []"

lemma at_callD:
  assumes "at_call k th"
  shows "kinv k" "quiet k" "threads k (currentThread k) = Some th" "todo th = []" "threadStatus th = RUNNING"
    "toBeDestroyed k = None" "thread_ok k (currentThread k) th" "level k = (if looping (prog th) then IntOff else IntOn)"
    "prog_ok (waiters k) (prog th)" "threads_ok k" "queues_ok k"
proof -
  have a: "kernel_ok k" "threads k (currentThread k) = Some th" "todo th = []" using assms by (simp_all add: at_call_def)
  note k = kernel_okE [OF a(1,2)]
  show "kinv k" "quiet k" "threads k (currentThread k) = Some th" "todo th = []" "thread_ok k (currentThread k) th" "threads_ok k" "queues_ok k"
    using a k by simp_all
  show "level k = (if looping (prog th) then IntOff else IntOn)" using k(5) a(3) by (simp add: level_of_def)
  show "prog_ok (waiters k) (prog th)" using k(6) by (simp add: thread_ok_def)
  have "pinned (currentThread k) [] (prog th) k" using a by (simp add: pinned_def)
  then show "toBeDestroyed k = None" using not_destroying [OF k(3)] by (simp add: suspended_def)
  obtain th' where "threads k (currentThread k) = Some th'" "threadStatus th' = RUNNING"
    using current_running [OF k(3) \<open>pinned (currentThread k) [] (prog th) k\<close>] by (metis list.distinct(1))
  then show "threadStatus th = RUNNING" using a(2) by simp
qed

text \<open>The running thread goes on to something else, with the locks and the disk as they were.\<close>

lemma inv_goto:
  assumes i: "kinv k" and th: "threads k (currentThread k) = Some th" "threadStatus th = RUNNING"
    and d: "toBeDestroyed k = None" and th': "thread_ok k (currentThread k) th'" "threadStatus th' = RUNNING"
    and p: "\<not> looping (prog th)" "\<And>l r. prog th \<noteq> TakeLock l # r" "\<And>l r. prog th' \<noteq> TakeLock l # r"
      "critical (prog th') = critical (prog th)" "awaiting (prog th') = awaiting (prog th)"
  shows "kinv (k\<lparr>threads := (threads k)(currentThread k \<mapsto> th')\<rparr>)"
proof -
  let ?k = "k\<lparr>threads := (threads k)(currentThread k \<mapsto> th')\<rparr>"
  have pr: "progs k (currentThread k) = Some (prog th)" using th by (simp add: progs_def)
  have "t \<in> granted ?k l \<longleftrightarrow> t \<in> granted k l" for t l using p(2,3) pr by (simp add: granted_def)
  moreover have "t \<in> disk_users ?k \<longleftrightarrow> t \<in> disk_users k" "t \<in> disk_waiters ?k \<longleftrightarrow> t \<in> disk_waiters k" for t
    using p(4,5) pr by (simp_all add: disk_users_def disk_waiters_def)
  ultimately have same: "granted ?k = granted k" "disk_users ?k = disk_users k" "disk_waiters ?k = disk_waiters k" by blast+
  have "locks_ok ?k" "disk_inv ?k" using i same locks_ok_cong [of ?k k] disk_inv_cong [of ?k k] by (simp_all add: kinv_def)
  moreover have "sems_ok ?k" using i p(1) by (intro sems_upd [OF _ th th'(2)]) (auto simp: kinv_def)
  ultimately show ?thesis using i threads_upd [OF _ th d th'] queues_upd [OF _ th] by (simp add: kinv_def)
qed

lemma thread_ok_goto:
  assumes "at_call k th" "prog_ok (waiters k) os"
  shows "thread_ok k (currentThread k) (th\<lparr>prog := os\<rparr>)"
  using at_callD [OF assms(1)] assms(2) by (auto simp: thread_ok_def running_def on_frames_def)

lemma goto_ok:
  assumes a: "at_call k th" "prog_ok (waiters k) os"
    and p: "\<not> looping (prog th)" "\<And>l r. prog th \<noteq> TakeLock l # r" "\<And>l r. os \<noteq> TakeLock l # r"
      "critical os = critical (prog th)" "awaiting os = awaiting (prog th)"
  shows "kinv (set_prog (currentThread k) os k)" "pinned (currentThread k) [] os (set_prog (currentThread k) os k)"
  using at_callD [OF a(1)] inv_goto [OF _ _ _ _ thread_ok_goto [OF a] _ p(1,2)] p by (simp_all add: put_current pinned_def)

lemma goto_plain:
  assumes a: "at_call k th" "prog_ok (waiters k) os" "plain (prog th)" "plain os"
  shows "kinv (set_prog (currentThread k) os k)" "pinned (currentThread k) [] os (set_prog (currentThread k) os k)" "\<not> looping os"
  using goto_ok [OF a(1,2)] plainD [OF a(3)] plainD [OF a(4)] by auto

lemma calls_set_prog [simp]: "currentThread k = c \<Longrightarrow> calls os' (set_prog c os k) = set_prog c (os' @ os) k"
  by (auto simp: calls_def put_thread_def option.map_comp comp_def intro!: arg_cong [of _ _ "\<lambda>f. k\<lparr>threads := (threads k)(c := map_option f (threads k c))\<rparr>"])

lemma level_set_prog: "(put_thread c f k)\<lparr>level := l\<rparr> = put_thread c f (k\<lparr>level := l\<rparr>)"
  by (cases k) (simp add: put_thread_def)

lemma clients_prog_ok: "clients os \<Longrightarrow> prog_ok w os"
proof (cases os)
  case (Cons op r)
  moreover assume "clients os"
  ultimately show ?thesis
    by (cases op; cases "case op of CallP s \<Rightarrow> s | _ \<Rightarrow> DiskSem"; cases "case op of CallAcquire l \<Rightarrow> l | _ \<Rightarrow> DiskLock") auto
qed simp

lemma stay_ok:
  assumes "kinv k" "quiet k" "pinned c [] os k" "level k = IntOn" "\<not> looping os"
  shows "kernel_ok k"
  using assms kernel_okI [of k c "[]" os] by (simp add: level_of_def)

lemma on_frames_Nil [simp]: "on_frames []"
  by (simp add: on_frames_def)

abbreviation run_call :: "kop \<Rightarrow> kop list \<Rightarrow> Kernel \<Rightarrow> Kernel res" where
  "run_call op os k \<equiv> run_op op (set_prog (currentThread k) os k)"

abbreviation succeeds :: "Kernel res \<Rightarrow> bool" where
  "succeeds r \<equiv> \<exists>k'. r = Inr k' \<and> kernel_ok k'"

text \<open>Calls that only call other routines.\<close>

lemma call_expands:
  assumes a: "at_call k th" "prog th = op # os" and r: "run_call op os k = Inr (set_prog (currentThread k) os' k)"
    and p: "plain (op # os)" "prog_ok (waiters k) os'" "plain os'"
  shows "succeeds (run_call op os k)"
proof -
  note k = at_callD [OF a(1)]
  have "\<not> looping (prog th)" using plainD(1) [OF p(1)] a(2) by simp
  then have "kernel_ok (set_prog (currentThread k) os' k)"
    using goto_plain [OF a(1) p(2) _ p(3)] p(1) a(2) k by (intro stay_ok [of _ "currentThread k" os']) auto
  then show ?thesis using r by blast
qed

lemma Acquire_ok:
  assumes "at_call k th" "prog th = CallAcquire l # os"
  shows "succeeds (run_call (CallAcquire l) os k)"
proof (rule call_expands [OF assms])
  show "run_call (CallAcquire l) os k = Inr (set_prog (currentThread k) (CallP (LockSem l) # TakeLock l # os) k)" by (simp add: Acquire_def)
qed (use at_callD(9) [OF assms(1)] assms(2) in auto)

lemma sector_calls_ok:
  assumes "at_call k th" "prog th = op # os" "op = CallReadSector n \<or> op = CallWriteSector n bs"
  shows "succeeds (run_call op os k)"
proof -
  have "client op \<and> clients os" using at_callD(9) [OF assms(1)] assms(2,3) by auto
  then show ?thesis using assms(3)
  proof (elim disjE)
    assume o: "op = CallReadSector n" "client op \<and> clients os"
    show ?thesis
    proof (rule call_expands [OF assms(1,2)])
      show "run_call op os k = Inr (set_prog (currentThread k) (CallAcquire DiskLock # ReqRead n # CallP DiskSem # CallRelease DiskLock # os) k)"
        using o by (simp add: SynchDisk_ReadSector_def)
    qed (use o in \<open>auto simp: disk_tail_def\<close>)
  next
    assume o: "op = CallWriteSector n bs" "client op \<and> clients os"
    show ?thesis
    proof (rule call_expands [OF assms(1,2)])
      show "run_call op os k = Inr (set_prog (currentThread k) (CallAcquire DiskLock # ReqWrite n bs # CallP DiskSem # CallRelease DiskLock # os) k)"
        using o by (simp add: SynchDisk_WriteSector_def)
    qed (use o in \<open>auto simp: disk_tail_def\<close>)
  qed
qed

lemma P_ok:
  assumes a: "at_call k th" "prog th = CallP s # os"
  shows "succeeds (run_call (CallP s) os k)"
proof -
  let ?c = "currentThread k" and ?os = "LoopP s IntOn # os"
  note k = at_callD [OF a(1)]
  have p: "prog_ok (waiters k) ?os" using k(9) a(2) by simp
  have "critical ?os = critical (prog th)" "awaiting ?os = awaiting (prog th)" using a(2) by (cases s; simp)+
  then have g: "kinv (set_prog ?c ?os k)" "pinned ?c [] ?os (set_prog ?c ?os k)"
    using goto_ok [OF a(1) p] a(2) by (auto simp: looping_def)
  have "run_call (CallP s) os k = Inr (set_prog ?c ?os (k\<lparr>level := IntOff\<rparr>))"
    using k(8) a(2) by (simp add: P_def Let_def looping_def level_set_prog)
  moreover have "kernel_ok (set_prog ?c ?os (k\<lparr>level := IntOff\<rparr>))"
    using g k(2) kernel_okI [of "set_prog ?c ?os (k\<lparr>level := IntOff\<rparr>)" ?c "[]" ?os] by (simp add: level_set_prog [symmetric] level_of_def looping_def)
  ultimately show ?thesis by blast
qed

text \<open>Calls that end by enabling interrupts.\<close>

lemma enable_ok:
  assumes "kinv k" "quiet k" "level k = IntOff" "pinned c [] os k" "\<not> looping os"
  shows "succeeds (SetLevel tick IntOn k)"
  using SetLevel_on_ok [OF assms(1-4) on_frames_Nil assms(5)] by blast

lemma wake_quiet [simp]: "quiet (wake s k) = quiet k"
  by (simp add: quiet_def int_ok_def)

lemma V_ok:
  assumes "kinv (wake s k)" "queues_ok k" "quiet k" "level k = IntOn" "pinned c [] os k" "\<not> looping os"
  shows "succeeds (V tick s k)"
proof -
  have e: "wake s (k\<lparr>level := IntOff\<rparr>) = (wake s k)\<lparr>level := IntOff\<rparr>"
    by (cases k) (simp add: wake_def put_sem_def put_thread_def split: list.split)
  show ?thesis unfolding V_eq [OF assms(2)] assms(4) e
    by (rule enable_ok [of _ c os]) (use assms pinned_wake in auto)
qed

lemma call_V_ok:
  assumes a: "at_call k th" "prog th = CallV s # os"
  shows "succeeds (run_call (CallV s) os k)"
proof -
  note k = at_callD [OF a(1)]
  obtain n where s: "s = UserSem n" "clients os" using k(9) a(2) by (cases s) auto
  note g = goto_plain [OF a(1) clients_prog_ok [OF s(2)] _ plain_clients [OF s(2)]]
  have "kinv (wake s (set_prog (currentThread k) os k))" using g(1) a(2) s by (intro inv_wake) auto
  then show ?thesis using g a(2) s k(2,8) V_ok [of s "set_prog (currentThread k) os k" "currentThread k" os]
    by (simp add: kinv_def looping_def)
qed

lemma call_Yield_ok:
  assumes a: "at_call k th" "prog th = CallYield # os"
  shows "succeeds (run_call CallYield os k)"
proof -
  note k = at_callD [OF a(1)]
  have os: "clients os" using k(9) a(2) by simp
  note g = goto_plain [OF a(1) clients_prog_ok [OF os] _ plain_clients [OF os]]
  show ?thesis using Yield_ok [of "set_prog (currentThread k) os k" "currentThread k" "[]" os] g a(2) k(2,8)
    by (simp add: looping_def)
qed

lemma SetSpace_ok:
  assumes a: "at_call k th" "prog th = SetSpace sp # os"
  shows "succeeds (run_call (SetSpace sp) os k)"
proof -
  let ?c = "currentThread k"
  note k = at_callD [OF a(1)]
  have os: "clients os" using k(9) a(2) by simp
  let ?th = "th\<lparr>prog := os, space := Some sp\<rparr>"
  let ?k = "k\<lparr>threads := (threads k)(?c \<mapsto> ?th)\<rparr>"
  have "thread_ok k ?c ?th" using k(4-8) clients_prog_ok [OF os] plain_clients [OF os] plainD(1) [of os]
    by (simp add: thread_ok_def running_def)
  then have "kinv ?k" using inv_upd [OF k(1,3,5,6), of ?th] plain_clients [OF os] a(2) k(5) by simp
  moreover have "run_call (SetSpace sp) os k = Inr ?k" using k(3) by (simp add: put_thread_def)
  moreover have "pinned ?c [] os ?k" using k(4) by (simp add: pinned_def)
  moreover have "quiet ?k" using k(2) by (simp add: quiet_def int_ok_def)
  ultimately show ?thesis using stay_ok [of ?k ?c os] k(8) a(2) plainD(1) [OF plain_clients [OF os]] by (simp add: looping_def)
qed

section \<open>Waiting on a semaphore\<close>

lemma current_not_queued: "at_call k th \<Longrightarrow> currentThread k \<notin> set (queue (sems k s)) \<and> currentThread k \<notin> set (readyList k)"
proof -
  assume "at_call k th"
  note k = at_callD [OF this]
  have "currentThread k \<notin> set (queue (sems k s))"
  proof
    assume "currentThread k \<in> set (queue (sems k s))"
    then show False using queue_blocked [OF k(11)] k(3,5) by (metis ThreadStatus.distinct(9) option.inject)
  qed
  moreover have "currentThread k \<notin> set (readyList k)" using k(3,5,11) by (auto simp: queues_ok_def)
  ultimately show ?thesis by simp
qed

lemma threads_sleep:
  assumes a: "at_call k th" and p: "todo th' = [SleepLoop b]" "threadStatus th' = BLOCKED" "prog_ok (waiters k) (prog th')"
    "if b then plain (prog th') else \<exists>s r. prog th' = LoopP s IntOn # r \<and> currentThread k \<in> set (queue (sems k' s))"
    and k': "threads k' = (threads k)(currentThread k \<mapsto> th')" "currentThread k' = currentThread k" "readyList k' = readyList k"
      "toBeDestroyed k' = None" "threadNum k' = threadNum k" "waiters k' = waiters k"
      "\<forall>s t. t \<in> set (queue (sems k s)) \<longrightarrow> t \<in> set (queue (sems k' s))"
      "finishedThread k' = finishedThread k \<or> b \<and> finishedThread k' = finishedThread k @ [currentThread k]"
  shows "threads_ok k'"
proof -
  let ?c = "currentThread k"
  note k = at_callD [OF a]
  have "thread_ok k' u x" if u: "threads k' u = Some x" for u x
  proof (cases "u = ?c")
    case True
    then have "x = th'" using u k'(1) by simp
    then show ?thesis using True p k' by (auto simp: thread_ok_def split: if_splits)
  next
    case False
    then have "threads k u = Some x" using u k'(1) by simp
    then have "thread_ok k u x" using thread_okD [OF k(10)] by blast
    then show ?thesis by (rule bystander) (use False k' k(6) in auto)
  qed
  moreover have "u < threadNum k" if "threads k' u = Some x" for u x
    using that thread_okD [OF k(10)] k(3) unfolding k'(1) by (auto split: if_splits)
  moreover have nf: "?c \<notin> set (finishedThread k)" using k(3,5,10) unfolding threads_ok_def by auto
  moreover have "distinct (finishedThread k')" using nf k(10) k'(8) by (auto simp: threads_ok_def)
  moreover have "\<forall>t\<in>set (finishedThread k'). t < threadNum k \<and> (\<forall>x. threads k' t = Some x \<longrightarrow> threadStatus x = BLOCKED \<and> \<not> looping (prog x))"
  proof
    fix t assume t: "t \<in> set (finishedThread k')"
    show "t < threadNum k \<and> (\<forall>x. threads k' t = Some x \<longrightarrow> threadStatus x = BLOCKED \<and> \<not> looping (prog x))"
    proof (cases "t = ?c")
      case True
      then have b using t nf k'(8) by auto
      then show ?thesis using True k'(1) p(2,4) thread_okD [OF k(10,3)] plainD(1) [of "prog th'"] by simp
    next
      case False
      then have "t \<in> set (finishedThread k)" using t k'(8) by auto
      then show ?thesis using False k(10) k'(1) unfolding threads_ok_def by simp
    qed
  qed
  ultimately show ?thesis using k' unfolding threads_ok_def by auto
qed

lemma queues_sleep:
  assumes a: "at_call k th"
    and k': "threads k' = (threads k)(currentThread k \<mapsto> th')" "readyList k' = readyList k"
      "\<And>s. queue (sems k' s) = queue (sems k s) \<or> queue (sems k' s) = queue (sems k s) @ [currentThread k] \<and>
         threadStatus th' = BLOCKED \<and> (\<exists>r. prog th' = LoopP s IntOn # r)"
  shows "queues_ok k'"
  unfolding queues_ok_def
proof (intro conjI ballI allI)
  note k = at_callD [OF a]
  note n = current_not_queued [OF a]
  show "distinct (readyList k')" using k(11) k'(2) by (simp add: queues_ok_def)
  show "\<exists>x. threads k' u = Some x \<and> threadStatus x = READY" if "u \<in> set (readyList k')" for u
    using that k(11) n k' by (auto simp: queues_ok_def)
  show "distinct (queue (sems k' s))" for s using k(11) n [of s] k'(3) [of s] by (auto simp: queues_ok_def)
  show "\<exists>x r. threads k' u = Some x \<and> threadStatus x = BLOCKED \<and> prog x = LoopP s IntOn # r" if u: "u \<in> set (queue (sems k' s))" for u s
  proof (cases "u = currentThread k")
    case True
    then show ?thesis using u n [of s] k'(3) [of s] k'(1) by auto
  next
    case False
    then have "u \<in> set (queue (sems k s))" using u k'(3) [of s] by auto
    then show ?thesis using False k(11) k'(1) unfolding queues_ok_def by simp
  qed
qed

lemma block_ok:
  assumes a: "at_call k th" "prog th = LoopP s old # os" and v: "semValue (sems k s) = 0"
  shows "succeeds (run_call (LoopP s old) os k)"
proof -
  let ?c = "currentThread k"
  note k = at_callD [OF a(1)]
  have old: "old = IntOn" and l: "level k = IntOff" using k(8,9) a(2) by (simp_all add: looping_def)
  note n = current_not_queued [OF a(1)]
  let ?th = "th\<lparr>prog := LoopP s IntOn # os, threadStatus := BLOCKED, todo := [SleepLoop False]\<rparr>"
  define k' where "k' = k\<lparr>sems := (sems k)(s := (sems k s)\<lparr>queue := queue (sems k s) @ [?c]\<rparr>), threads := (threads k)(?c \<mapsto> ?th)\<rparr>"
  have e: "run_call (LoopP s old) os k = Inr k'"
    using v n [of s] k(3,4) l old
    by (cases k) (simp add: k'_def P_loop_def list_Append_def Sleep_def push_def calls_def put_sem_def put_thread_def)
  have f: "threads k' = (threads k)(?c \<mapsto> ?th)" "currentThread k' = ?c" "toBeDestroyed k' = None" using k(6) by (simp_all add: k'_def)
  have pr: "progs k' = progs k" using k(3) a(2) old by (auto simp: progs_def f fun_eq_iff)
  have T: "threads_ok k'" by (rule threads_sleep [OF a(1), of ?th False]) (use f k(9) a(2) old in \<open>auto simp: k'_def\<close>)
  have Q: "queues_ok k'" by (rule queues_sleep [OF a(1) f(1)]) (auto simp: k'_def)
  have tk: "s' \<noteq> s \<Longrightarrow> takers k' s' = takers k s'" for s' using k(3) a(2) old by (auto simp: takers_def f)
  have "sems_ok k'"
    unfolding sems_ok_def
  proof (intro conjI allI impI)
    fix s' assume q: "queue (sems k' s') \<noteq> []"
    show "semValue (sems k' s') \<le> int (card (takers k' s'))"
    proof (cases "s' = s")
      case True
      then show ?thesis using v by (simp add: k'_def)
    next
      case False
      then show ?thesis using q k(1) tk [OF False] by (simp add: k'_def kinv_def sems_ok_def)
    qed
  qed (use k(1) in \<open>auto simp: k'_def kinv_def sems_ok_def\<close>)
  moreover have "locks_ok k'" "disk_inv k'"
    using k(1) progs_cong [OF pr] locks_ok_cong [of k' k] disk_inv_cong [of k' k] by (simp_all add: kinv_def k'_def)
  ultimately have "kinv k'" using k(1) T Q by (simp add: kinv_def k'_def)
  moreover have "quiet k'" using k(2) by (simp add: k'_def quiet_def int_ok_def)
  moreover have "pinned ?c [SleepLoop False] (LoopP s IntOn # os) k'" by (simp add: pinned_def f)
  ultimately have "kernel_ok k'" using kernel_okI [of k'] l by (simp add: level_of_def k'_def)
  then show ?thesis using e by blast
qed

lemma after_P_next: "after_P w s os \<Longrightarrow> prog_ok w os \<and> \<not> looping os"
proof (cases s)
  case (UserSem n)
  moreover assume "after_P w s os"
  ultimately show ?thesis using clients_prog_ok plain_clients plainD(1) by auto
qed (auto simp: looping_def)

lemma awaiting_critical: "awaiting os \<Longrightarrow> critical os"
  by (cases os rule: awaiting.cases) auto

lemma disk_holder:
  assumes "disk_inv k" "progs k t = Some os" "critical os"
  shows "lockHolder k DiskLock = Some t" "disk_users k = {t}" "disk_waiters k = (if awaiting os then {t} else {})"
proof -
  have u: "u \<in> disk_users k \<longleftrightarrow> lockHolder k DiskLock = Some u" for u using assms(1) by (simp add: disk_inv_def)
  have "t \<in> disk_users k" using assms(2,3) by (simp add: disk_users_def)
  then show h: "lockHolder k DiskLock = Some t" using u by simp
  then show s: "disk_users k = {t}" using u by auto
  have "disk_waiters k \<subseteq> disk_users k" using awaiting_critical by (auto simp: disk_users_def disk_waiters_def)
  then show "disk_waiters k = (if awaiting os then {t} else {})" using s assms(2) by (auto simp: disk_waiters_def)
qed

lemma take_ok:
  assumes a: "at_call k th" "prog th = LoopP s old # os" and v: "semValue (sems k s) \<noteq> 0"
  shows "succeeds (run_call (LoopP s old) os k)"
proof -
  let ?c = "currentThread k"
  note k = at_callD [OF a(1)]
  have old: "old = IntOn" and l: "level k = IntOff" and ap: "after_P (waiters k) s os" using k(8,9) a(2) by (simp_all add: looping_def)
  note os = after_P_next [OF ap]
  have v1: "0 < semValue (sems k s)" using v k(1) by (metis kinv_def sems_ok_def order_le_neq_trans)
  let ?th = "th\<lparr>prog := os\<rparr>"
  let ?k1 = "k\<lparr>threads := (threads k)(?c \<mapsto> ?th)\<rparr>"
  define k' where "k' = k\<lparr>threads := (threads k)(?c \<mapsto> ?th), sems := (sems k)(s := (sems k s)\<lparr>semValue := semValue (sems k s) - 1\<rparr>)\<rparr>"
  have e: "run_call (LoopP s old) os k = SetLevel tick IntOn k'"
    using v k(3) old by (simp add: k'_def P_loop_def put_sem_def put_thread_def)
  have q: "queue (sems k' s') = queue (sems k s')" for s' by (simp add: k'_def)
  have T: "threads_ok k'"
    using threads_upd [OF k(10,3,5,6) thread_ok_goto [OF a(1)]] os k(5) threads_ok_cong [of k' ?k1] by (simp add: k'_def)
  have Q: "queues_ok k'" using queues_upd [OF k(11,3,5)] queues_ok_cong [of k' ?k1] by (simp add: k'_def)
  have pr: "progs k' = (progs k)(?c \<mapsto> os)" by (simp add: progs_def k'_def fun_eq_iff)
  have pc: "progs k ?c = Some (LoopP s IntOn # os)" using k(3) a(2) old by (simp add: progs_def)
  have ct: "?c \<in> takers k s" using k(3,5) a(2) old by (simp add: takers_def)
  have tk: "takers k' s' = takers k s' - (if s' = s then {?c} else {})" for s'
  proof -
    have "takers k' s' = takers ?k1 s'" by (simp add: takers_def k'_def)
    also have "\<dots> = takers k s' - {?c}" using takers_upd [OF k(3,5), of ?th s'] k(5) os by (auto simp: looping_def)
    also have "\<dots> = takers k s' - (if s' = s then {?c} else {})" using k(3) a(2) by (auto simp: takers_def)
    finally show ?thesis .
  qed
  have "sems_ok k'"
    unfolding sems_ok_def
  proof (intro conjI allI impI)
    show "0 \<le> semValue (sems k' s')" for s' using k(1) v1 by (simp add: k'_def kinv_def sems_ok_def)
    fix s' assume "queue (sems k' s') \<noteq> []"
    then have "semValue (sems k s') \<le> int (card (takers k s'))" using q k(1) by (simp add: kinv_def sems_ok_def)
    moreover have "s' = s \<Longrightarrow> int (card (takers k' s')) = int (card (takers k s')) - 1"
      using tk [of s] card.remove [OF finite_takers [OF k(10)] ct] by simp
    ultimately show "semValue (sems k' s') \<le> int (card (takers k' s'))" using tk [of s'] by (cases "s' = s") (simp_all add: k'_def)
  qed (use k(1) in \<open>auto simp: k'_def kinv_def sems_ok_def\<close>)
  moreover have "locks_ok k' \<and> disk_inv k'"
  proof (cases s)
    case (LockSem l)
    then obtain r where r: "os = TakeLock l # r" using ap by auto
    have lk: "semValue (sems k s) = 1 \<and> lockHolder k l = None \<and> granted k l = {}"
      using k(1) v1 LockSem unfolding kinv_def locks_ok_def by (metis less_irrefl)
    have gr: "granted k' l' = (if l' = l then {?c} else granted k l')" for l'
      using lk pc r by (auto simp: granted_def pr)
    have "locks_ok k'" using k(1) lk gr LockSem by (auto simp: kinv_def locks_ok_def k'_def)
    moreover have "disk_users k' = disk_users k" "disk_waiters k' = disk_waiters k"
      using pc r LockSem by (auto simp: disk_users_def disk_waiters_def pr)
    then have "disk_inv k'" using k(1) LockSem disk_inv_cong [of k' k] by (simp add: kinv_def k'_def)
    ultimately show ?thesis by simp
  next
    case DiskSem
    then obtain r where r: "os = CallRelease DiskLock # r" using ap by auto
    have d: "disk_inv k" using k(1) by (simp add: kinv_def)
    have cr: "critical (LoopP s IntOn # os)" "awaiting (LoopP s IntOn # os)" using DiskSem by simp_all
    note h = disk_holder [OF d pc cr(1)]
    have "disk_users k' = {?c}" "disk_waiters k' = {}"
      using h r cr pc by (auto simp: disk_users_def disk_waiters_def pr)
    moreover have "\<not> active (disk k) \<and> disk_ints (pending k) = 0 \<and> semValue (sems k DiskSem) = 1"
      using d h(3) cr(2) v1 DiskSem by (auto simp: disk_inv_def)
    ultimately have "disk_inv k'" using d h DiskSem by (auto simp: disk_inv_def k'_def)
    moreover have "granted k' l = granted k l" for l using pc r by (auto simp: granted_def pr)
    then have "locks_ok k'" using k(1) DiskSem locks_ok_cong [of k' k] by (auto simp: kinv_def k'_def)
    ultimately show ?thesis by simp
  next
    case (UserSem n)
    then have pl: "plain os" using ap plain_clients by simp
    have "granted k' l = granted k l" "disk_users k' = disk_users k" "disk_waiters k' = disk_waiters k" for l
      using pc pl UserSem by (auto simp: granted_def disk_users_def disk_waiters_def pr dest: plainD)
    then show ?thesis using k(1) UserSem locks_ok_cong [of k' k] disk_inv_cong [of k' k] by (auto simp: kinv_def k'_def fun_eq_iff)
  next
    case (CondSem n)
    then have pl: "plain os" using ap by auto
    have "granted k' l = granted k l" "disk_users k' = disk_users k" "disk_waiters k' = disk_waiters k" for l
      using pc pl CondSem by (auto simp: granted_def disk_users_def disk_waiters_def pr dest: plainD)
    then show ?thesis using k(1) CondSem locks_ok_cong [of k' k] disk_inv_cong [of k' k] by (auto simp: kinv_def k'_def fun_eq_iff)
  qed
  ultimately have "kinv k'" using k(1) T Q by (simp add: kinv_def k'_def)
  then show ?thesis unfolding e
    by (rule enable_ok [of _ ?c os]) (use k(2,4) l os in \<open>simp_all add: k'_def quiet_def int_ok_def pinned_def\<close>)
qed

section \<open>Locks\<close>

lemma after_take_next: "after_take l os \<Longrightarrow> prog_ok w os \<and> \<not> looping os \<and> \<not> awaiting os \<and> (\<forall>l' r. os \<noteq> TakeLock l' # r) \<and> (critical os \<longleftrightarrow> l = DiskLock)"
proof (cases l)
  case (UserLock n)
  moreover assume "after_take l os"
  ultimately have "clients os" by simp
  then show ?thesis using UserLock clients_prog_ok plain_clients [of os] plainD [of os] by auto
next
  case DiskLock
  moreover assume "after_take l os"
  ultimately show ?thesis by (cases os rule: critical.cases) (auto simp: looping_def)
qed

lemma same_progs_but:
  assumes "progs k c = Some os" "progs k' = (progs k)(c \<mapsto> os')"
  shows "granted k' l = granted k l - {c} \<union> (if \<exists>r. os' = TakeLock l # r then {c} else {})"
    and "disk_users k' = disk_users k - {c} \<union> (if critical os' then {c} else {})"
    and "disk_waiters k' = disk_waiters k - {c} \<union> (if awaiting os' then {c} else {})"
  using assms by (auto simp: granted_def disk_users_def disk_waiters_def)

lemma not_in_by_prog:
  assumes "progs k c = Some os"
  shows "c \<in> granted k l \<longleftrightarrow> (\<exists>r. os = TakeLock l # r)" "c \<in> disk_users k \<longleftrightarrow> critical os" "c \<in> disk_waiters k \<longleftrightarrow> awaiting os"
  using assms by (auto simp: granted_def disk_users_def disk_waiters_def)

lemma disk_inv_holder:
  assumes "disk_inv k" "disk_waiters k' = disk_waiters k" "disk k' = disk k" "pending k' = pending k"
    "semValue (sems k' DiskSem) = semValue (sems k DiskSem)" "\<And>t. t \<in> disk_users k' \<longleftrightarrow> lockHolder k' DiskLock = Some t"
  shows "disk_inv k'"
  using assms(1,6) unfolding disk_inv_def assms(2-5) by blast

lemma Take_lock_ok:
  assumes a: "at_call k th" "prog th = TakeLock l # os"
  shows "succeeds (run_call (TakeLock l) os k)"
proof -
  let ?c = "currentThread k"
  note k = at_callD [OF a(1)]
  have ap: "after_take l os" using k(9) a(2) by simp
  note os = after_take_next [OF ap, of "waiters k"]
  let ?k1 = "k\<lparr>threads := (threads k)(?c \<mapsto> th\<lparr>prog := os\<rparr>)\<rparr>"
  define k' where "k' = k\<lparr>threads := (threads k)(?c \<mapsto> th\<lparr>prog := os\<rparr>), lockHolder := (lockHolder k)(l := Some ?c)\<rparr>"
  have e: "run_call (TakeLock l) os k = Inr k'" using k(3) by (simp add: k'_def Take_lock_def put_thread_def)
  have T: "threads_ok k'"
    using threads_upd [OF k(10,3,5,6) thread_ok_goto [OF a(1)]] os k(5) threads_ok_cong [of k' ?k1] by (simp add: k'_def)
  have Q: "queues_ok k'" using queues_upd [OF k(11,3,5)] queues_ok_cong [of k' ?k1] by (simp add: k'_def)
  have "sems_ok ?k1" using k(1,5) a(2) by (intro sems_upd [OF _ k(3,5)]) (auto simp: kinv_def looping_def)
  then have S: "sems_ok k'" by (simp add: sems_ok_def takers_def k'_def)
  have pc: "progs k ?c = Some (TakeLock l # os)" using k(3) a(2) by (simp add: progs_def)
  have pr: "progs k' = (progs k)(?c \<mapsto> os)" by (simp add: progs_def k'_def fun_eq_iff)
  note sp = same_progs_but [OF pc pr] and np = not_in_by_prog [OF pc]
  have "?c \<in> granted k l" using np by simp
  then have g: "semValue (sems k (LockSem l)) = 0 \<and> lockHolder k l = None \<and> granted k l = {?c}"
    using k(1) unfolding kinv_def locks_ok_def by (metis empty_iff singletonD)
  have "granted k' l' = (if l' = l then {} else granted k l')" for l' using sp(1) [of l'] np(1) [of l'] g os by auto
  then have L: "locks_ok k'" using k(1) g by (auto simp: kinv_def locks_ok_def k'_def)
  have d: "disk_inv k" using k(1) by (simp add: kinv_def)
  have w: "disk_waiters k' = disk_waiters k" using sp(3) np(3) os by auto
  have "disk_users k' = (if l = DiskLock then {?c} else disk_users k)"
  proof (cases "l = DiskLock")
    case True
    then have "disk_users k = {}" using d g by (auto simp: disk_inv_def)
    then show ?thesis using sp(2) os True by simp
  next
    case False
    then show ?thesis using sp(2) np(2) os by auto
  qed
  then have "disk_inv k'" using d by (intro disk_inv_holder [OF d w]) (auto simp: k'_def disk_inv_def)
  then have "kinv k'" using T Q S L k(1) by (simp add: kinv_def k'_def)
  moreover have "quiet k'" using k(2) by (simp add: k'_def quiet_def int_ok_def)
  moreover have "pinned ?c [] os k'" using k(4) by (simp add: pinned_def k'_def)
  moreover have "level k' = IntOn" using k(8) a(2) by (simp add: k'_def looping_def)
  ultimately show ?thesis using e stay_ok os by blast
qed

lemma Release_ok:
  assumes a: "at_call k th" "prog th = CallRelease l # os"
  shows "if lockHolder k l = Some (currentThread k) then succeeds (run_call (CallRelease l) os k)
     else run_call (CallRelease l) os k = Inl AssertFailed"
proof (cases "lockHolder k l = Some (currentThread k)")
  case False
  then show ?thesis by (simp add: Release_def IsHeldByCurrentThread_def)
next
  case True
  let ?c = "currentThread k"
  note k = at_callD [OF a(1)]
  have os: "prog_ok (waiters k) os" "plain os" using k(9) a(2) clients_prog_ok plain_clients by auto
  let ?k1 = "k\<lparr>threads := (threads k)(?c \<mapsto> th\<lparr>prog := os\<rparr>)\<rparr>"
  define k' where "k' = k\<lparr>threads := (threads k)(?c \<mapsto> th\<lparr>prog := os\<rparr>), lockHolder := (lockHolder k)(l := None)\<rparr>"
  have T: "threads_ok k'"
    using threads_upd [OF k(10,3,5,6) thread_ok_goto [OF a(1)]] os k(5) threads_ok_cong [of k' ?k1] by (simp add: k'_def)
  have Q: "queues_ok k'" using queues_upd [OF k(11,3,5)] queues_ok_cong [of k' ?k1] by (simp add: k'_def)
  have "sems_ok ?k1" using k(1,5) a(2) by (intro sems_upd [OF _ k(3,5)]) (auto simp: kinv_def looping_def)
  then have S: "sems_ok k'" by (simp add: sems_ok_def takers_def k'_def)
  have pc: "progs k ?c = Some (CallRelease l # os)" using k(3) a(2) by (simp add: progs_def)
  have pr: "progs k' = (progs k)(?c \<mapsto> os)" by (simp add: progs_def k'_def fun_eq_iff)
  note sp = same_progs_but [OF pc pr] and np = not_in_by_prog [OF pc]
  have g: "semValue (sems k (LockSem l)) = 0 \<and> granted k l = {}" using k(1) True unfolding kinv_def locks_ok_def by (metis option.distinct(1))
  have gr: "granted k' = granted k" using sp(1) np(1) plainD(4) [OF os(2)] by (auto simp: fun_eq_iff)
  let ?w = "wake (LockSem l) k'"
  have "locks_ok ?w" using k(1) g gr progs_cong(1) [OF progs_wake, of "LockSem l" k'] by (auto simp: kinv_def locks_ok_def k'_def)
  moreover have "disk_inv ?w"
  proof -
    have d: "disk_inv k" using k(1) by (simp add: kinv_def)
    have w: "disk_waiters k' = disk_waiters k" using sp(3) np(3) plainD(3) [OF os(2)] by auto
    have u: "disk_users k' = disk_users k - {?c}" using sp(2) plainD(2) [OF os(2)] by simp
    have "?c \<notin> disk_users k" if "l \<noteq> DiskLock" using np(2) that by (cases l) auto
    moreover have "disk_users k - {?c} = {}" if "l = DiskLock" using d True that by (auto simp: disk_inv_def)
    ultimately have "disk_inv k'" using d u by (intro disk_inv_holder [OF d w]) (auto simp: k'_def disk_inv_def)
    then show ?thesis by (rule disk_wake) simp
  qed
  ultimately have "kinv ?w" using T Q S k(1) by (simp add: kinv_def threads_wake queues_wake sems_wake) (simp add: k'_def)
  then have "succeeds (V tick (LockSem l) k')"
    by (rule V_ok [of _ _ ?c os]) (use Q k(2,4,8) a(2) plainD(1) [OF os(2)] in \<open>simp_all add: k'_def quiet_def int_ok_def pinned_def looping_def\<close>)
  moreover have "run_call (CallRelease l) os k = V tick (LockSem l) k'"
    using True k(3) by (simp add: Release_def IsHeldByCurrentThread_def k'_def put_thread_def)
  ultimately show ?thesis using True by simp
qed

section \<open>Condition variables\<close>

lemma prog_ok_mono: "prog_ok w os \<Longrightarrow> w \<le> w' \<Longrightarrow> prog_ok w' os"
proof -
  have m: "after_P w s r \<Longrightarrow> w \<le> w' \<Longrightarrow> after_P w' s r" for s r by (cases s) auto
  show "prog_ok w os \<Longrightarrow> w \<le> w' \<Longrightarrow> prog_ok w' os" by (cases "(w, os)" rule: prog_ok.cases) (auto intro: m order.strict_trans2)
qed

lemma thread_ok_more_waiters:
  assumes "thread_ok k t th" "waiters k \<le> w"
  shows "thread_ok (k\<lparr>waiters := w\<rparr>) t th"
  using assms prog_ok_mono [of "waiters k" "prog th" w] by (auto simp: thread_ok_def)

lemma more_waiters:
  assumes i: "kinv k"
  shows "kinv (put_sem (CondSem (waiters k)) (\<lambda>_. \<lparr>semValue = 0, queue = []\<rparr>) (k\<lparr>waiters := waiters k + 1\<rparr>))"
proof -
  let ?s = "CondSem (waiters k)"
  let ?k1 = "k\<lparr>waiters := waiters k + 1\<rparr>"
  let ?k = "put_sem ?s (\<lambda>_. \<lparr>semValue = 0, queue = []\<rparr>) ?k1"
  have t: "threads_ok k" "queues_ok k" using i by (simp_all add: kinv_def)
  have "queue (sems k ?s) = []"
  proof (rule ccontr)
    assume "queue (sems k ?s) \<noteq> []"
    then have "hd (queue (sems k ?s)) \<in> set (queue (sems k ?s))" by simp
    then obtain th r where th: "threads k (hd (queue (sems k ?s))) = Some th" "prog th = LoopP ?s IntOn # r"
      using queue_blocked [OF t(2)] by metis
    have "thread_ok k (hd (queue (sems k ?s))) th" using thread_okD [OF t(1) th(1)] by simp
    then show False using th(2) by (simp add: thread_ok_def)
  qed
  then have q: "queue (sems ?k s) = queue (sems k s)" for s by (simp add: put_sem_def)
  have "threads_ok ?k1" using t(1) thread_ok_more_waiters [of k] unfolding threads_ok_def by simp
  then have T: "threads_ok ?k" using q threads_ok_cong [of ?k ?k1] by (simp add: put_sem_def)
  have Q: "queues_ok ?k" using t(2) q queues_ok_cong [of ?k k] by (simp add: put_sem_def)
  have "takers ?k = takers k" by (simp add: takers_def fun_eq_iff put_sem_def)
  moreover have "\<forall>s. 0 \<le> semValue (sems ?k s)" using i by (simp add: kinv_def sems_ok_def put_sem_def)
  moreover have "\<forall>c. distinct (waitQueue ?k c) \<and> (\<forall>s\<in>set (waitQueue ?k c). \<exists>n<waiters ?k. s = CondSem n)"
  proof -
    have w: "\<forall>s\<in>set (waitQueue k c). \<exists>n<waiters k. s = CondSem n" "distinct (waitQueue k c)" for c
      using i by (auto simp: kinv_def sems_ok_def)
    have "\<exists>n<Suc (waiters k). s = CondSem n" if "s \<in> set (waitQueue k c)" for c s using w(1) [of c] that less_SucI by metis
    then show ?thesis using w(2) by (simp add: put_sem_def)
  qed
  moreover have "queue (sems k s) \<noteq> [] \<longrightarrow> semValue (sems ?k s) \<le> int (card (takers k s))" for s
    using i by (simp add: kinv_def sems_ok_def put_sem_def)
  ultimately have "sems_ok ?k" unfolding sems_ok_def q by metis
  moreover have "progs ?k = progs k" by (simp add: progs_def fun_eq_iff put_sem_def)
  then have "locks_ok ?k" "disk_inv ?k"
    using i progs_cong [of ?k k] locks_ok_cong [of ?k k] disk_inv_cong [of ?k k] by (simp_all add: kinv_def put_sem_def)
  ultimately show ?thesis using T Q i by (simp add: kinv_def put_sem_def)
qed

lemma kinv_waitQueue:
  assumes "kinv k" "distinct q" "\<forall>s\<in>set q. \<exists>n<waiters k. s = CondSem n"
  shows "kinv (k\<lparr>waitQueue := (waitQueue k)(c := q)\<rparr>)"
proof -
  let ?k = "k\<lparr>waitQueue := (waitQueue k)(c := q)\<rparr>"
  have "progs ?k = progs k" by (simp add: progs_def fun_eq_iff)
  then have "locks_ok ?k" "disk_inv ?k"
    using assms(1) progs_cong [of ?k k] locks_ok_cong [of ?k k] disk_inv_cong [of ?k k] by (simp_all add: kinv_def)
  moreover have "takers ?k = takers k" by (simp add: takers_def fun_eq_iff)
  then have "sems_ok ?k" using assms unfolding kinv_def sems_ok_def by simp
  moreover have "threads_ok ?k = threads_ok k" "queues_ok ?k = queues_ok k" by (rule threads_ok_cong queues_ok_cong; simp)+
  ultimately show ?thesis using assms(1) by (simp add: kinv_def)
qed

lemma Wait_ok:
  assumes a: "at_call k th" "prog th = CallWait c l # os"
  shows "if lockHolder k l = Some (currentThread k) then succeeds (run_call (CallWait c l) os k)
     else run_call (CallWait c l) os k = Inl AssertFailed"
proof (cases "lockHolder k l = Some (currentThread k)")
  case False
  then show ?thesis by (simp add: Wait_def IsHeldByCurrentThread_def)
next
  case True
  let ?c = "currentThread k" and ?n = "waiters k"
  note k = at_callD [OF a(1)]
  obtain u where l: "l = UserLock u" "clients os" using k(9) a(2) by (cases l) auto
  let ?os = "CallRelease l # CallP (CondSem ?n) # CallAcquire l # os"
  let ?k1 = "put_sem (CondSem ?n) (\<lambda>_. \<lparr>semValue = 0, queue = []\<rparr>) (k\<lparr>waiters := ?n + 1\<rparr>)"
  let ?k2 = "?k1\<lparr>waitQueue := (waitQueue ?k1)(c := waitQueue k c @ [CondSem ?n])\<rparr>"
  have w: "distinct (waitQueue k c)" "\<forall>s\<in>set (waitQueue k c). \<exists>n<?n. s = CondSem n" using k(1) by (auto simp: kinv_def sems_ok_def)
  have i: "kinv ?k2" using w by (intro kinv_waitQueue more_waiters [OF k(1)]) (auto simp: put_sem_def)
  let ?k3 = "set_prog ?c ?os ?k2"
  have at2: "at_call ?k2 th"
    using i k(2-4,8) a(2) kernel_okI [of ?k2 ?c "[]" "prog th"] by (simp add: at_call_def pinned_def put_sem_def quiet_def int_ok_def level_of_def)
  have g: "kinv ?k3" "pinned ?c [] ?os ?k3" "\<not> looping ?os"
    using goto_plain [OF at2, of ?os] l a(2) by (simp_all add: put_sem_def)
  have "run_call (CallWait c l) os k = Inr ?k3"
    using True w k(3) by (cases k) (auto simp: Wait_def IsHeldByCurrentThread_def Let_def list_Append_def calls_def put_sem_def put_thread_def)
  moreover have "kernel_ok ?k3"
    using g k(2,8) a(2) by (intro stay_ok [OF g(1) _ g(2)]) (simp_all add: put_sem_def quiet_def int_ok_def looping_def)
  ultimately show ?thesis using True by simp
qed

lemma Signal_ok:
  assumes i: "kinv k" "quiet k" "level k = IntOn" "pinned (currentThread k) [] os k" "\<not> looping os"
  shows "if lockHolder k l = Some (currentThread k) then succeeds (Signal c l k) else Signal c l k = Inl AssertFailed"
proof (cases "lockHolder k l = Some (currentThread k)")
  case True
  show ?thesis
  proof (cases "waitQueue k c")
    case Nil
    then show ?thesis using True i stay_ok by (auto simp: Signal_def IsHeldByCurrentThread_def)
  next
    case (Cons s q)
    have w: "distinct (s # q)" "\<forall>s\<in>set (s # q). \<exists>n<waiters k. s = CondSem n"
      using i(1) Cons unfolding kinv_def sems_ok_def by metis+
    then obtain n where s: "s = CondSem n" by auto
    let ?k = "k\<lparr>waitQueue := (waitQueue k)(c := q)\<rparr>"
    have "kinv ?k" using w by (intro kinv_waitQueue [OF i(1)]) auto
    then have "kinv (wake s ?k)" using s by (intro inv_wake) auto
    then have "succeeds (V tick s ?k)"
      by (rule V_ok [of _ _ "currentThread k" os]) (use \<open>kinv ?k\<close> i in \<open>simp_all add: kinv_def quiet_def int_ok_def pinned_def\<close>)
    then show ?thesis using True Cons by (simp add: Signal_def IsHeldByCurrentThread_def list_RemoveFront_def)
  qed
qed (simp add: Signal_def IsHeldByCurrentThread_def)

lemma call_Signal_ok:
  assumes a: "at_call k th" "prog th = CallSignal c l # os"
  shows "if lockHolder k l = Some (currentThread k) then succeeds (run_call (CallSignal c l) os k)
     else run_call (CallSignal c l) os k = Inl AssertFailed"
proof -
  note k = at_callD [OF a(1)]
  have os: "clients os" using k(9) a(2) by simp
  note g = goto_plain [OF a(1) clients_prog_ok [OF os] _ plain_clients [OF os]]
  show ?thesis using Signal_ok [of "set_prog (currentThread k) os k" os l c] g a(2) k(2,8) by (simp add: looping_def)
qed

lemma Broadcast_ok:
  assumes a: "at_call k th" "prog th = CallBroadcast c l # os"
  shows "if waitQueue k c = [] \<or> lockHolder k l = Some (currentThread k) then succeeds (run_call (CallBroadcast c l) os k)
     else run_call (CallBroadcast c l) os k = Inl AssertFailed"
proof -
  let ?c = "currentThread k"
  note k = at_callD [OF a(1)]
  have os: "clients os" "client (CallBroadcast c l)" using k(9) a(2) by auto
  show ?thesis
  proof (cases "waitQueue k c = []")
    case True
    note g = goto_plain [OF a(1) clients_prog_ok [OF os(1)] _ plain_clients [OF os(1)]]
    have "kernel_ok (set_prog ?c os k)" using g a(2) k(2,8) by (intro stay_ok [of _ ?c os]) (simp_all add: looping_def)
    then show ?thesis using True by (simp add: Broadcast_def)
  next
    case False
    let ?os = "CallBroadcast c l # os"
    have p: "prog_ok (waiters k) ?os" "plain ?os" using os by simp_all
    note g = goto_plain [OF a(1) p(1) _ p(2)]
    show ?thesis using False Signal_ok [of "set_prog ?c ?os k" ?os l c] g a(2) k(2,8)
      by (simp add: Broadcast_def looping_def)
  qed
qed
section \<open>Fork and Finish\<close>

lemma thread_ok_ready:
  assumes "thread_ok k t th" "set (readyList k) \<subseteq> set r"
  shows "thread_ok (k\<lparr>threads := ts, threadNum := n, readyList := r\<rparr>) t th"
  using assms unfolding thread_ok_def by (cases "threadStatus th") auto

abbreviation forked :: "kop list \<Rightarrow> Thread" where
  "forked func \<equiv> \<lparr>threadStatus = READY, space = None, userRegisters = [], todo = [BeginThread], prog = func, data = []\<rparr>"

lemma fork_inv:
  assumes i: "kinv k" and f: "clients func"
  defines "n \<equiv> threadNum k"
  shows "kinv (k\<lparr>threads := (threads k)(n \<mapsto> forked func), threadNum := n + 1, readyList := readyList k @ [n]\<rparr>)" (is "kinv ?k")
    and "threads k n = None" "n \<notin> set (readyList k)"
proof -
  have t: "threads_ok k" "queues_ok k" using i by (simp_all add: kinv_def)
  show n: "threads k n = None" using thread_okD [OF t(1), of n] by (cases "threads k n") (auto simp: n_def)
  then show r: "n \<notin> set (readyList k)" using t(2) by (auto simp: queues_ok_def)
  have q: "n \<notin> set (queue (sems k s))" for s using t(2) n unfolding queues_ok_def by fastforce
  have p: "plain func" "prog_ok w func" for w using f plain_clients clients_prog_ok by auto
  obtain c where c: "threads k (currentThread k) = Some c" using t(1) unfolding threads_ok_def by blast
  have nc: "n \<noteq> currentThread k" "toBeDestroyed k \<noteq> Some n" using c n t(1) unfolding threads_ok_def by auto
  have "thread_ok ?k u x \<and> u < n + 1" if u: "threads ?k u = Some x" for u x
  proof (cases "u = n")
    case True
    then have "x = forked func" using u by simp
    then show ?thesis using True p nc plainD(1) [OF p(1)] by (simp add: thread_ok_def suspended_def)
  next
    case False
    then have "thread_ok k u x" "u < n" using u thread_okD [OF t(1), of u x] by (simp_all add: n_def)
    then show ?thesis by (intro conjI thread_ok_ready) auto
  qed
  then have "threads_ok ?k" using t(1) n nc unfolding threads_ok_def by (auto simp: n_def)
  moreover have "queues_ok ?k" using t(2) n r q unfolding queues_ok_def by (auto simp: fun_upd_apply)
  moreover have "takers ?k = takers k" using n plainD(5) [OF p(1)] by (auto simp: takers_def fun_eq_iff)
  then have "sems_ok ?k" using i by (simp add: kinv_def sems_ok_def)
  moreover have "progs ?k = (progs k)(n \<mapsto> func)" "progs k n = None" using n by (auto simp: progs_def fun_eq_iff)
  then have "granted ?k = granted k" "disk_users ?k = disk_users k" "disk_waiters ?k = disk_waiters k"
    using plainD [OF p(1)] by (auto simp: granted_def disk_users_def disk_waiters_def fun_eq_iff)
  then have "locks_ok ?k" "disk_inv ?k" using i locks_ok_cong [of ?k k] disk_inv_cong [of ?k k] by (simp_all add: kinv_def)
  ultimately show "kinv ?k" using i by (simp add: kinv_def)
qed

lemma Fork_ok:
  assumes a: "at_call k th" "prog th = CallFork func # os"
  shows "succeeds (run_call (CallFork func) os k)"
proof -
  let ?c = "currentThread k" and ?n = "threadNum k"
  note k = at_callD [OF a(1)]
  have os: "clients os" "clients func" using k(9) a(2) by simp_all
  note g = goto_plain [OF a(1) clients_prog_ok [OF os(1)] _ plain_clients [OF os(1)]]
  let ?k0 = "set_prog ?c os k"
  have i0: "kinv ?k0" "pinned ?c [] os ?k0" "\<not> looping os" using g a(2) by simp_all
  let ?k = "?k0\<lparr>threads := (threads ?k0)(?n \<mapsto> forked func), threadNum := ?n + 1, readyList := readyList k @ [?n]\<rparr>"
  note i = fork_inv [OF i0(1) os(2)]
  have nc: "?n \<noteq> ?c" using i(2) k(3) by (auto simp: put_thread_def)
  have "run_call (CallFork func) os k = SetLevel tick IntOn (?k\<lparr>level := IntOff\<rparr>)"
    using i(3) k(3,8) a(2) nc
    by (cases k) (simp add: Thread_new_def Fork_def StackAllocate_def ReadyToRun_def list_Append_def put_thread_def Let_def looping_def)
  moreover have "succeeds (SetLevel tick IntOn (?k\<lparr>level := IntOff\<rparr>))"
    by (rule enable_ok [of _ ?c os]) (use i(1) i0 k(2) nc in \<open>auto simp: quiet_def int_ok_def pinned_def put_thread_def\<close>)
  ultimately show ?thesis by simp
qed

lemma finish_ok:
  assumes a: "at_call k th" and p: "plain (prog th)"
  shows "succeeds (Finish k)"
proof -
  let ?c = "currentThread k"
  note k = at_callD [OF a]
  let ?th = "th\<lparr>threadStatus := BLOCKED, todo := [SleepLoop True]\<rparr>"
  define k' where "k' = k\<lparr>level := IntOff, threads := (threads k)(?c \<mapsto> ?th), finishedThread := finishedThread k @ [?c]\<rparr>"
  have "?c \<notin> set (finishedThread k)" using k(3,5,10) unfolding threads_ok_def by auto
  then have e: "Finish k = Inr k'"
    using k(3,4) by (cases k) (simp add: Finish_def list_Append_def Sleep_def push_def put_thread_def k'_def)
  have f: "threads k' = (threads k)(?c \<mapsto> ?th)" "currentThread k' = ?c" "toBeDestroyed k' = None" using k(6) by (simp_all add: k'_def)
  have T: "threads_ok k'" by (rule threads_sleep [OF a, of ?th True]) (use f k(9) p in \<open>auto simp: k'_def\<close>)
  have Q: "queues_ok k'" by (rule queues_sleep [OF a f(1)]) (auto simp: k'_def)
  have pr: "progs k' = progs k" using k(3) by (auto simp: progs_def f fun_eq_iff)
  have "takers k' = takers k" using k(3) plainD(5) [OF p] by (auto simp: takers_def f fun_eq_iff)
  then have "sems_ok k'" using k(1) by (simp add: kinv_def sems_ok_def k'_def)
  moreover have "locks_ok k'" "disk_inv k'"
    using k(1) progs_cong [OF pr] locks_ok_cong [of k' k] disk_inv_cong [of k' k] by (simp_all add: kinv_def k'_def)
  ultimately have "kinv k'" using k(1) T Q by (simp add: kinv_def k'_def)
  moreover have "quiet k'" using k(2) by (simp add: k'_def quiet_def int_ok_def)
  moreover have "pinned ?c [SleepLoop True] (prog th) k'" by (simp add: pinned_def f)
  ultimately have "kernel_ok k'" using kernel_okI [of k'] by (simp add: level_of_def k'_def)
  then show ?thesis using e by blast
qed

lemma Finish_ok:
  assumes a: "at_call k th" "prog th = CallFinish # os"
  shows "succeeds (run_call CallFinish os k)"
proof -
  let ?c = "currentThread k"
  note k = at_callD [OF a(1)]
  have os: "clients os" using k(9) a(2) by simp
  note g = goto_plain [OF a(1) clients_prog_ok [OF os] _ plain_clients [OF os]]
  have "kernel_ok (set_prog ?c os k)" using g a(2) k(2,8) by (intro stay_ok [of _ ?c os]) (simp_all add: looping_def)
  then have "at_call (set_prog ?c os k) (th\<lparr>prog := os\<rparr>)" using k(3,4) by (simp add: at_call_def put_thread_def)
  then show ?thesis using finish_ok [of "set_prog ?c os k" "th\<lparr>prog := os\<rparr>"] plain_clients [OF os] by simp
qed

section \<open>Disk requests\<close>

lemma request_ok:
  assumes a: "at_call k th" "prog th = op # os" "op = ReqRead n \<or> op = ReqWrite n bs"
    and th': "prog th' = os" "todo th' = []" "threadStatus th' = RUNNING" "space th' = space th" "userRegisters th' = userRegisters th"
    and d: "active d" "disk_ok d" and p: "callOnInterrupt p = DiskDev" "totalTicks (stats k) < whenDue p"
    and s: "totalTicks s = totalTicks (stats k)" "time_ok s"
  shows "kernel_ok (k\<lparr>stats := s, pending := sorted_insert PendingCompare p (pending k), disk := d,
    threads := (threads k)(currentThread k \<mapsto> th')\<rparr>)" (is "kernel_ok ?k")
proof -
  let ?c = "currentThread k"
  note k = at_callD [OF a(1)]
  obtain r where r: "os = CallP DiskSem # CallRelease DiskLock # r" "clients r" using k(9) a(2,3) by (auto simp: disk_tail_def)
  let ?k1 = "k\<lparr>threads := (threads k)(?c \<mapsto> th')\<rparr>"
  have "thread_ok k ?c th'" using k(7) th' r by (auto simp: thread_ok_def running_def looping_def)
  then have "threads_ok ?k1" using threads_upd [OF k(10,3,5,6)] th'(3) by simp
  then have T: "threads_ok ?k" using threads_ok_cong [of ?k ?k1] by simp
  have Q: "queues_ok ?k" using queues_upd [OF k(11,3,5)] queues_ok_cong [of ?k ?k1] by simp
  have "sems_ok ?k1" using k(1,5) a(2,3) th'(3) by (intro sems_upd [OF _ k(3,5)]) (auto simp: kinv_def looping_def)
  then have S: "sems_ok ?k" by (simp add: sems_ok_def takers_def)
  have pc: "progs k ?c = Some (op # os)" using k(3) a(2) by (simp add: progs_def)
  have pr: "progs ?k = (progs k)(?c \<mapsto> os)" using th'(1) by (simp add: progs_def fun_eq_iff)
  note sp = same_progs_but [OF pc pr] and np = not_in_by_prog [OF pc]
  have di: "disk_inv k" using k(1) by (simp add: kinv_def)
  have cr: "critical (op # os)" "\<not> awaiting (op # os)" using a(3) by auto
  note h = disk_holder [OF di pc cr(1)]
  have "granted ?k = granted k" using sp(1) np(1) r a(3) by (auto simp: fun_eq_iff)
  then have L: "locks_ok ?k" using k(1) locks_ok_cong [of ?k k] by (simp add: kinv_def)
  have "disk_users ?k = {?c}" "disk_waiters ?k = {?c}" using sp(2,3) h r cr by auto
  moreover have "disk_ints (pending k) = 0" "semValue (sems k DiskSem) = 0" using di h(3) cr(2) by (simp_all add: disk_inv_def)
  ultimately have "disk_inv ?k" using d p(1) h(1) by (auto simp: disk_inv_def)
  then have "kinv ?k" using T Q S L k(1) by (simp add: kinv_def)
  moreover have "quiet ?k" using k(2) s p(2) by (auto simp: quiet_def int_ok_def by_time_insert future_def)
  moreover have "pinned ?c [] os ?k" using th' by (simp add: pinned_def)
  moreover have "level ?k = IntOn" using k(8) a(2,3) by (auto simp: looping_def)
  moreover have "\<not> looping os" using r by (simp add: looping_def)
  ultimately show ?thesis using stay_ok by blast
qed

lemma request_idle:
  assumes a: "at_call k th" "prog th = op # os" "op = ReqRead n \<or> op = ReqWrite n bs"
  shows "disk_ok (disk k)" "\<not> active (disk k)" "0 \<le> totalTicks (stats k)" "time_ok (stats k)"
proof -
  note k = at_callD [OF a(1)]
  have d: "disk_inv k" using k(1) by (simp add: kinv_def)
  have "progs k (currentThread k) = Some (op # os)" using k(3) a(2) by (simp add: progs_def)
  then have "disk_waiters k = {}" using disk_holder(3) [OF d] a(3) by fastforce
  then show "disk_ok (disk k)" "\<not> active (disk k)" using d by (auto simp: disk_inv_def)
  show "time_ok (stats k)" using k(2) by (simp add: quiet_def int_ok_def)
  then show "0 \<le> totalTicks (stats k)" by (simp add: time_ok_def)
qed

lemma read_request_ok:
  assumes a: "at_call k th" "prog th = ReqRead n # os"
  shows "if valid_sector n then \<exists>k'. run_call (ReqRead n) os k = Inr k' \<and> kernel_ok k'
        \<and> threads k' (currentThread k) = Some (th\<lparr>prog := os, data := disk_of (disk k) n\<rparr>) \<and> disk_of (disk k') = disk_of (disk k)
     else run_call (ReqRead n) os k = Inl AssertFailed"
proof (cases "valid_sector n")
  case True
  note k = at_callD [OF a(1)] and d = request_idle [OF a, of n "[]", simplified]
  let ?c = "currentThread k" and ?th = "th\<lparr>prog := os, data := disk_of (disk k) n\<rparr>"
  let ?L = "ComputeLatency (totalTicks (stats k)) (disk k) n False"
  let ?p = "\<lparr>callOnInterrupt = DiskDev, whenDue = totalTicks (stats k) + ?L, intType = DiskInt\<rparr>"
  let ?s = "(stats k)\<lparr>numDiskReads := numDiskReads (stats k) + 1\<rparr>"
  obtain d' where d': "ReadRequest DiskDev n (disk k) (set_prog ?c os k) = Inr (disk_of (disk k) n, d',
      (set_prog ?c os k)\<lparr>stats := ?s, pending := sorted_insert PendingCompare ?p (pending k)\<rparr>)"
    "active d'" "disk_ok d'" "disk_of d' = disk_of (disk k)" "0 < ?L"
    using ReadRequest_ok [OF d(1,2) True, of "set_prog ?c os k" DiskDev] d(3) by auto
  let ?k = "k\<lparr>stats := ?s, pending := sorted_insert PendingCompare ?p (pending k), disk := d', threads := (threads k)(?c \<mapsto> ?th)\<rparr>"
  have "run_call (ReqRead n) os k = Inr ?k" using d'(1) k(3) by (cases k) (simp add: request_read_def put_thread_def)
  moreover have "kernel_ok ?k"
    by (rule request_ok [OF a, of n "[]"]) (use k(4,5) d' d(4) in \<open>auto simp: time_ok_def\<close>)
  ultimately show ?thesis using True d'(4) by simp
next
  case False
  then show ?thesis by (cases "active (disk k)") (auto simp: request_read_def ReadRequest_def valid_sector_def Let_def)
qed

lemma write_request_ok:
  assumes a: "at_call k th" "prog th = ReqWrite n bs # os"
  shows "if valid_sector n then \<exists>k'. run_call (ReqWrite n bs) os k = Inr k' \<and> kernel_ok k' \<and> disk_of (disk k') = (disk_of (disk k))(n := bs)
     else run_call (ReqWrite n bs) os k = Inl AssertFailed"
proof (cases "valid_sector n")
  case True
  note k = at_callD [OF a(1)] and d = request_idle [OF a, of n bs, simplified]
  have l: "length bs = 128" using k(9) a(2) by simp
  let ?c = "currentThread k" and ?th = "th\<lparr>prog := os\<rparr>"
  let ?L = "ComputeLatency (totalTicks (stats k)) (disk k) n True"
  let ?p = "\<lparr>callOnInterrupt = DiskDev, whenDue = totalTicks (stats k) + ?L, intType = DiskInt\<rparr>"
  let ?s = "(stats k)\<lparr>numDiskWrites := numDiskWrites (stats k) + 1\<rparr>"
  obtain d' where d': "WriteRequest DiskDev n bs (disk k) (set_prog ?c os k) = Inr (d',
      (set_prog ?c os k)\<lparr>stats := ?s, pending := sorted_insert PendingCompare ?p (pending k)\<rparr>)"
    "active d'" "disk_ok d'" "disk_of d' = (disk_of (disk k))(n := bs)" "0 < ?L"
    using WriteRequest_ok [OF d(1,2) True l, of "set_prog ?c os k" DiskDev] d(3) by auto
  let ?k = "k\<lparr>stats := ?s, pending := sorted_insert PendingCompare ?p (pending k), disk := d', threads := (threads k)(?c \<mapsto> ?th)\<rparr>"
  have "run_call (ReqWrite n bs) os k = Inr ?k" using d'(1) k(3) by (cases k) (simp add: request_write_def put_thread_def)
  moreover have "kernel_ok ?k"
    by (rule request_ok [OF a, of n bs]) (use k(4,5) d' d(4) in \<open>auto simp: time_ok_def\<close>)
  ultimately show ?thesis using True d'(4) by simp
next
  case False
  then show ?thesis by (cases "active (disk k)") (auto simp: request_write_def WriteRequest_def valid_sector_def Let_def)
qed

section \<open>Every step\<close>

text \<open>The two ways in which a step ends the simulation: nothing is left to do, or the thread breaks a rule of an interface.\<close>

definition halted :: "Kernel \<Rightarrow> bool" where
  "halted k \<longleftrightarrow> readyList k = [] \<and> pending k = []
     \<and> (\<exists>th b. threads k (currentThread k) = Some th \<and> todo th = [SleepLoop b])"

fun misused :: "kop \<Rightarrow> Kernel \<Rightarrow> bool" where
  "misused (CallRelease l) k = (lockHolder k l \<noteq> Some (currentThread k))"
| "misused (CallWait c l) k = (lockHolder k l \<noteq> Some (currentThread k))"
| "misused (CallSignal c l) k = (lockHolder k l \<noteq> Some (currentThread k))"
| "misused (CallBroadcast c l) k = (waitQueue k c \<noteq> [] \<and> lockHolder k l \<noteq> Some (currentThread k))"
| "misused (ReqRead n) k = (\<not> valid_sector n)"
| "misused (ReqWrite n bs) k = (\<not> valid_sector n)"
| "misused _ k = False"

definition misuse :: "Kernel \<Rightarrow> bool" where
  "misuse k \<longleftrightarrow> (\<exists>th op os. threads k (currentThread k) = Some th \<and> todo th = [] \<and> prog th = op # os \<and> misused op k)"

lemma call_ok:
  assumes a: "at_call k th" "prog th = op # os"
  shows "if misused op k then run_call op os k = Inl AssertFailed else succeeds (run_call op os k)"
proof (cases op)
  case (LoopP s old)
  then show ?thesis using a block_ok [of k th s old os] take_ok [of k th s old os] by (cases "semValue (sems k s) = 0") simp_all
next
  case (CallReadSector n)
  then show ?thesis using sector_calls_ok [OF a, of n] by simp
next
  case (CallWriteSector n bs)
  then show ?thesis using sector_calls_ok [OF a, of n bs] by simp
next
  case (CallRelease l)
  then show ?thesis using Release_ok [of k th l os] a by (auto split: if_splits)
next
  case (CallWait c l)
  then show ?thesis using Wait_ok [of k th c l os] a by (auto split: if_splits)
next
  case (CallSignal c l)
  then show ?thesis using call_Signal_ok [of k th c l os] a by (auto split: if_splits)
next
  case (CallBroadcast c l)
  then show ?thesis using Broadcast_ok [of k th c l os] a by (auto split: if_splits)
next
  case (ReqRead n)
  then show ?thesis using read_request_ok [of k th n os] a by (auto split: if_splits)
next
  case (ReqWrite n bs)
  then show ?thesis using write_request_ok [of k th n bs os] a by (auto split: if_splits)
qed (use a P_ok [of k th _ os] call_V_ok [of k th _ os] Acquire_ok [of k th _ os] Take_lock_ok [of k th _ os] call_Yield_ok [of k th os]
  Fork_ok [of k th _ os] Finish_ok [of k th os] SetSpace_ok [of k th _ os] in simp_all)

theorem step_ok:
  assumes ok: "kernel_ok k"
  shows "if halted k then step k = Inl MachineHalted else if misuse k then step k = Inl AssertFailed
    else \<exists>k'. step k = Inr k' \<and> kernel_ok k'"
proof -
  obtain th where th: "threads k (currentThread k) = Some th" using ok by (auto simp: kernel_ok_def)
  show ?thesis
  proof (cases "todo th")
    case (Cons f fs)
    have "threadStatus th \<noteq> RUNNING" "toBeDestroyed k \<noteq> Some (currentThread k)" if "f = SleepLoop b" for b
      using kernel_okE(3,6) [OF ok th] that Cons by (auto simp: thread_ok_def threads_ok_def running_def suspended_def on_frames_def)
    then have "f = SleepLoop b \<Longrightarrow> fs = []" for b
      using kernel_okE(6) [OF ok th] Cons unfolding thread_ok_def by (cases "threadStatus th") (simp_all split: if_splits)
    then have "halted k \<longleftrightarrow> (\<exists>b. f = SleepLoop b) \<and> readyList k = [] \<and> pending k = []" using th Cons by (auto simp: halted_def)
    moreover have "\<not> misuse k" using th Cons by (simp add: misuse_def)
    ultimately show ?thesis using frame_ok [OF ok th Cons] th Cons by (auto simp: step_def)
  next
    case Nil
    then have a: "at_call k th" using ok th by (simp add: at_call_def)
    have "\<not> halted k" using Nil th by (simp add: halted_def)
    then show ?thesis
    proof (cases "prog th")
      case N: Nil
      then show ?thesis using finish_ok [OF a] \<open>\<not> halted k\<close> th Nil by (simp add: step_def misuse_def)
    next
      case (Cons op os)
      then have "misuse k \<longleftrightarrow> misused op k" using th Nil by (simp add: misuse_def)
      then show ?thesis using call_ok [OF a Cons] \<open>\<not> halted k\<close> th Nil Cons by (auto simp: step_def)
    qed
  qed
qed

end
