(* ===== verification/ThreadsRun.thy ===== *)
theory ThreadsRun
  imports ThreadsCorrect
begin

text \<open>
  The kernel from \<open>Kernel::Initialize\<close> on: its reachable states, what a step changes, and what holds of every run of
  threads that only use the interfaces of \<open>synch.h\<close>, \<open>thread.h\<close> and \<open>synchdisk.h\<close>.
\<close>

section \<open>What most of the kernel leaves alone\<close>

definition timer_on :: "Kernel \<Rightarrow> bool" where
  "timer_on k \<longleftrightarrow> \<not> timerDisable k \<and> TimerDev \<in> callOnInterrupt ` set (pending k)"

text \<open>The locks, the contents of the disk, the timer and the read buffers of all threads but thread \<open>n\<close>.\<close>

definition alike :: "nat \<Rightarrow> Kernel \<Rightarrow> Kernel \<Rightarrow> bool" where
  "alike n k k' \<longleftrightarrow> lockHolder k' = lockHolder k \<and> unixFile (disk k') = unixFile (disk k)
     \<and> timerDisable k' = timerDisable k \<and> (timer_on k \<longrightarrow> timer_on k')
     \<and> (\<forall>t th'. threads k' t = Some th' \<longrightarrow> t \<noteq> n \<longrightarrow> (\<exists>th. threads k t = Some th \<and> data th' = data th))"

lemma alike_refl [simp]: "alike n k k"
  by (simp add: alike_def)

lemma alike_trans [trans]: "alike n k k1 \<Longrightarrow> alike n k1 k2 \<Longrightarrow> alike n k k2"
  unfolding alike_def by metis

lemma alike_data:
  assumes "alike n k k'" "threads k t = Some th" "threads k' t = Some th'" "t \<noteq> n"
  shows "unixFile (disk k') = unixFile (disk k) \<and> data th' = data th"
  using assms unfolding alike_def by (metis option.inject)

lemma alike_fields:
  assumes "lockHolder k' = lockHolder k" "disk k' = disk k" "timerDisable k' = timerDisable k" "pending k' = pending k" "threads k' = threads k"
  shows "alike n k k'"
  using assms by (simp add: alike_def timer_on_def)

lemma alike_put_thread:
  assumes "\<And>th. data (f th) = data th"
  shows "alike n k (put_thread t f k)"
  using assms by (auto simp: alike_def timer_on_def put_thread_def split: if_splits)

named_theorems alike_intros

lemma alike_updates [alike_intros]:
  "alike n k (k\<lparr>stats := s\<rparr>)" "alike n k (k\<lparr>machine := m\<rparr>)" "alike n k (k\<lparr>level := l\<rparr>)" "alike n k (k\<lparr>inHandler := h\<rparr>)"
  "alike n k (k\<lparr>yieldOnReturn := y\<rparr>)" "alike n k (k\<lparr>status := st\<rparr>)" "alike n k (k\<lparr>readyList := r\<rparr>)" "alike n k (k\<lparr>currentThread := c\<rparr>)"
  "alike n k (k\<lparr>toBeDestroyed := d\<rparr>)" "alike n k (k\<lparr>finishedThread := f\<rparr>)" "alike n k (k\<lparr>waitQueue := q\<rparr>)" "alike n k (k\<lparr>waiters := w\<rparr>)"
  "alike n k (k\<lparr>randoms := z\<rparr>)" "alike n k (k\<lparr>timeCount := tc\<rparr>)" "alike n k (put_sem x g k)" "alike n k (push fs k)" "alike n k (calls os k)"
  by (auto simp: put_sem_def push_def calls_def intro!: alike_fields alike_put_thread)

lemma alike_delete: "alike n k (k\<lparr>threads := (threads k)(t := None)\<rparr>)"
  by (auto simp: alike_def timer_on_def split: if_splits)

lemma ReadyToRun_alike: "ReadyToRun t k = Inr k' \<Longrightarrow> alike n k k'"
proof -
  assume "ReadyToRun t k = Inr k'"
  then obtain r where "k' = (put_thread t (\<lambda>th. th\<lparr>threadStatus := READY\<rparr>) k)\<lparr>readyList := r\<rparr>"
    by (auto simp: ReadyToRun_def res_simps)
  then show ?thesis using alike_trans [OF alike_put_thread alike_updates(7)] by simp
qed

lemma FindNextToRun_alike: "FindNextToRun k = Inr (t, k') \<Longrightarrow> alike n k k'"
  by (auto simp: FindNextToRun_def res_simps intro: alike_intros split: if_splits)

lemma CheckToBeDestroyed_alike: "CheckToBeDestroyed k = Inr k' \<Longrightarrow> alike n k k'"
  by (auto simp: CheckToBeDestroyed_def res_simps intro: alike_trans [OF alike_delete alike_updates(9)] split: option.splits)

lemma save_user_alike: "save_user t k = Inr k' \<Longrightarrow> alike n k k'"
  by (auto simp: save_user_def intro: alike_put_thread simp: SaveUserState_def split: option.splits)

lemma restore_user_alike: "restore_user t k = Inr k' \<Longrightarrow> alike n k k'"
  by (auto simp: restore_user_def intro: alike_intros split: option.splits)

lemma Run_alike:
  assumes "Run t fin k = Inr k'"
  shows "alike n k k'"
proof -
  obtain k1 k2 where k: "k1 = k \<or> k1 = k\<lparr>toBeDestroyed := Some (currentThread k)\<rparr>" "save_user (currentThread k) k1 = Inr k2"
    "k' = put_thread t (\<lambda>th. th\<lparr>threadStatus := RUNNING\<rparr>) ((push [RunTail] k2)\<lparr>currentThread := t\<rparr>)"
    using assms by (auto simp: Run_def Let_def res_simps split: if_splits)
  have "alike n k k1" using k(1) alike_intros by auto
  also have "alike n k1 k2" using k(2) by (rule save_user_alike)
  also have "alike n k2 (push [RunTail] k2)" by (rule alike_intros)
  also have "alike n (push [RunTail] k2) ((push [RunTail] k2)\<lparr>currentThread := t\<rparr>)" by (rule alike_intros)
  also have "alike n ((push [RunTail] k2)\<lparr>currentThread := t\<rparr>) k'" unfolding k(3) by (rule alike_put_thread) simp
  finally show ?thesis .
qed

section \<open>Interrupts\<close>

lemma SetLevel_alike_of:
  assumes "SetLevel tk l k = Inr k'" "\<And>k k'. tk k = Inr k' \<Longrightarrow> alike n k k'"
  shows "alike n k k'"
  using assms(1) by (auto simp: SetLevel_def ChangeLevel_def Let_def res_simps intro: alike_intros alike_trans [OF alike_updates(3) assms(2)] split: if_splits)

lemma V_alike:
  assumes "V tk s k = Inr k'" "\<And>k k'. tk k = Inr k' \<Longrightarrow> alike n k k'"
  shows "alike n k k'"
proof -
  have sl: "SetLevel tk l k1 = Inr k2 \<Longrightarrow> alike n k1 k2" for l k1 k2
    using SetLevel_alike_of assms(2) by blast
  obtain k1 k2 where k: "SetLevel tk IntOff k = Inr k1"
    "k2 = k1 \<or> (\<exists>t q. ReadyToRun t (put_sem s (\<lambda>m. m\<lparr>queue := q\<rparr>) k1) = Inr k2)"
    "SetLevel tk (level k) (put_sem s (\<lambda>m. m\<lparr>semValue := semValue m + 1\<rparr>) k2) = Inr k'"
    using assms(1) by (auto simp: V_def Let_def res_simps split: if_splits prod.splits)
  have "alike n k k1" using k(1) by (rule sl)
  also have "alike n k1 k2" using k(2) by (auto intro: alike_trans [OF alike_updates(15) ReadyToRun_alike])
  also have "alike n k2 (put_sem s (\<lambda>m. m\<lparr>semValue := semValue m + 1\<rparr>) k2)" by (rule alike_intros)
  also have "alike n (put_sem s (\<lambda>m. m\<lparr>semValue := semValue m + 1\<rparr>) k2) k'" using k(3) by (rule sl)
  finally show ?thesis .
qed

text \<open>A handler; the interrupt of the timer is scheduled again.\<close>

lemma SetInterrupt_alike:
  assumes "SetInterrupt k = Inr k'"
  shows "alike n k k'" "\<not> timerDisable k \<Longrightarrow> timer_on k'"
  using assms by (auto simp: SetInterrupt_def Schedule_def res_simps Let_def alike_def timer_on_def split: if_splits)

lemma CallBack_alike:
  assumes "CallBack (callOnInterrupt p) (k\<lparr>pending := ps\<rparr>) = Inr k'" "pending k = p # ps"
  shows "alike n k k'"
proof (cases "callOnInterrupt p")
  case TimerDev
  obtain k1 where k1: "Alarm_CallBack (k\<lparr>pending := ps\<rparr>) = Inr k1" "SetInterrupt k1 = Inr k'"
    using assms(1) TimerDev by (auto simp: Timer_CallBack_def bind_res_eq_Inr)
  have "lockHolder k1 = lockHolder k" "disk k1 = disk k" "timerDisable k1 = timerDisable k" "threads k1 = threads k"
    using k1(1) by (auto simp: Alarm_CallBack_def YieldOnReturn_def Let_def res_simps split: if_splits)
  then show ?thesis using SetInterrupt_alike(1) [OF k1(2), of n] SetInterrupt_alike(2) [OF k1(2)] by (auto simp: alike_def timer_on_def)
next
  case DiskDev
  let ?k = "k\<lparr>pending := ps, disk := (disk k)\<lparr>active := False\<rparr>\<rparr>"
  have "alike n k ?k" using assms(2) DiskDev by (auto simp: alike_def timer_on_def)
  also have "V no_tick DiskSem ?k = Inr k'" using assms(1) DiskDev by (simp add: Disk_CallBack_def SynchDisk_CallBack_def)
  then have "alike n ?k k'" by (rule V_alike) (simp add: no_tick_def)
  finally show ?thesis .
qed

lemma run_due_alike: "run_due CallBack m k = Inr k' \<Longrightarrow> alike n k k'"
proof (induction m arbitrary: k)
  case (Suc m)
  obtain p ps where p: "pending k = p # ps" using Suc.prems by (cases "pending k") (simp_all add: list_RemoveFront_def)
  then obtain k1 where "CallBack (callOnInterrupt p) (k\<lparr>pending := ps\<rparr>) = Inr k1"
    "(if pending k1 \<noteq> [] \<and> whenDue (hd (pending k1)) \<le> totalTicks (stats k1) then run_due CallBack m k1 else Inr k1) = Inr k'"
    using Suc.prems by (auto simp: list_RemoveFront_def bind_res_eq_Inr simp del: CallBack.simps)
  then have k: "CallBack (callOnInterrupt p) (k\<lparr>pending := ps\<rparr>) = Inr k1" "k' = k1 \<or> run_due CallBack m k1 = Inr k'"
    by (simp_all split: if_splits)
  from k(2) have "alike n k1 k'" using Suc.IH by auto
  with CallBack_alike [OF k(1) p, of n] show ?case by (rule alike_trans)
qed simp

lemma clear_load_alike: "clear_load k = Inr k' \<Longrightarrow> alike n k k'"
  by (auto simp: clear_load_def res_simps intro: alike_intros split: option.splits)

lemma CheckIfDue_alike:
  assumes "CheckIfDue CallBack adv k = Inr (b, k')"
  shows "alike n k k'"
proof -
  consider "k' = k" | k0 k1 k2 where "k0 = k \<or> (\<exists>s. k0 = k\<lparr>stats := s\<rparr>)" "clear_load k0 = Inr k1"
    "run_due CallBack (length (pending k1)) (k1\<lparr>inHandler := True\<rparr>) = Inr k2" "k' = k2\<lparr>inHandler := False\<rparr>"
    using assms by (auto simp: CheckIfDue_def Let_def res_simps split: list.splits if_splits)
  then show ?thesis
  proof cases
    case 2
    have "alike n k k0" using 2(1) alike_intros by auto
    also have "alike n k0 k1" using 2(2) by (rule clear_load_alike)
    also have "alike n k1 (k1\<lparr>inHandler := True\<rparr>)" by (rule alike_intros)
    also have "alike n (k1\<lparr>inHandler := True\<rparr>) k2" using 2(3) by (rule run_due_alike)
    also have "alike n k2 k'" unfolding 2(4) by (rule alike_intros)
    finally show ?thesis .
  qed simp
qed

lemma tick_alike:
  assumes "tick k = Inr k'"
  shows "alike n k k'"
proof -
  let ?k = "(k\<lparr>stats := count_tick (status k) (stats k)\<rparr>)\<lparr>level := IntOff\<rparr>"
  obtain b k1 where k1: "CheckIfDue CallBack False ?k = Inr (b, k1)"
    and k': "k' = k1\<lparr>level := IntOn\<rparr> \<or> k' = push [YieldNow, SetStatusTo (status k)] (k1\<lparr>level := IntOn, yieldOnReturn := False, status := SystemMode\<rparr>)"
    using assms by (auto simp: tick_def OneTick_def ChangeLevel_def Let_def res_simps yield_later_def split: if_splits)
  have "alike n k ?k" by (rule alike_fields) simp_all
  also have "alike n ?k k1" using k1 by (rule CheckIfDue_alike)
  also have "alike n k1 k'" using k' by (auto intro: alike_intros alike_trans [OF alike_fields alike_updates(16)])
  finally show ?thesis .
qed

lemma SetLevel_alike: "SetLevel tick l k = Inr k' \<Longrightarrow> alike n k k'"
  using SetLevel_alike_of tick_alike by blast

lemma Idle_alike:
  assumes "Idle CallBack k = Inr k'"
  shows "alike n k k'"
proof -
  obtain k1 where k1: "CheckIfDue CallBack True (k\<lparr>status := IdleMode\<rparr>) = Inr (True, k1)" "k' = k1\<lparr>status := SystemMode\<rparr>"
    using assms by (auto simp: Idle_def res_simps split: if_splits prod.splits)
  have "alike n k (k\<lparr>status := IdleMode\<rparr>)" by (rule alike_intros)
  also have "alike n (k\<lparr>status := IdleMode\<rparr>) k1" using k1(1) by (rule CheckIfDue_alike)
  also have "alike n k1 k'" unfolding k1(2) by (rule alike_intros)
  finally show ?thesis .
qed

section \<open>Threads\<close>

lemma Yield_alike:
  assumes "Yield k = Inr k'"
  shows "alike n k k'"
proof -
  obtain t k1 where k1: "FindNextToRun (k\<lparr>level := IntOff\<rparr>) = Inr (t, k1)"
    "SetLevel tick (level k) k1 = Inr k' \<or> (\<exists>u k2. ReadyToRun (currentThread k1) k1 = Inr k2 \<and> Run u False (push [SetLevelTo (level k)] k2) = Inr k')"
    using assms by (auto simp: Yield_def Let_def res_simps split: option.splits) blast+
  have "alike n k (k\<lparr>level := IntOff\<rparr>)" by (rule alike_intros)
  also have "alike n (k\<lparr>level := IntOff\<rparr>) k1" using k1(1) by (rule FindNextToRun_alike)
  also have "alike n k1 k'"
    using k1(2) SetLevel_alike ReadyToRun_alike Run_alike alike_trans alike_updates(16) by metis
  finally show ?thesis .
qed

lemma Sleep_alike: "Sleep b k = Inr k' \<Longrightarrow> alike n k k'"
  by (auto simp: Sleep_def res_simps intro: alike_trans [OF alike_put_thread alike_updates(16)])

lemma Sleep_loop_alike:
  assumes "Sleep_loop b k = Inr k'"
  shows "alike n k k'"
proof -
  obtain t k1 where k1: "FindNextToRun k = Inr (t, k1)"
    "Idle CallBack (push [SleepLoop b] k1) = Inr k' \<or> (\<exists>u. Run u b k1 = Inr k')"
    using assms by (auto simp: Sleep_loop_def res_simps split: option.splits)
  have "alike n k k1" using k1(1) by (rule FindNextToRun_alike)
  also have "alike n k1 k'" using k1(2) Idle_alike Run_alike alike_trans alike_updates(16) by metis
  finally show ?thesis .
qed

lemma run_frame_alike:
  assumes "run_frame f k = Inr k'"
  shows "alike n k k'"
proof (cases f)
  case RunTail
  then obtain k1 where "CheckToBeDestroyed k = Inr k1" "restore_user (currentThread k1) k1 = Inr k'"
    using assms by (auto simp: Run_tail_def res_simps)
  then show ?thesis using CheckToBeDestroyed_alike restore_user_alike alike_trans by metis
next
  case BeginThread
  then obtain k1 where "CheckToBeDestroyed k = Inr k1" "SetLevel tick IntOn k1 = Inr k'" using assms by (auto simp: Begin_def res_simps)
  then show ?thesis using CheckToBeDestroyed_alike SetLevel_alike alike_trans by metis
qed (use assms SetLevel_alike Yield_alike Sleep_loop_alike alike_updates in auto)

text \<open>A new thread gets the next number, and nothing else.\<close>

lemma Fork_alike:
  assumes "run_op (CallFork func) k = Inr k'"
  shows "alike (threadNum k) k k'"
proof -
  let ?n = "threadNum k"
  let ?k1 = "snd (Thread_new k)"
  let ?k2 = "put_thread ?n (StackAllocate func) ?k1"
  obtain k3 where k: "ReadyToRun ?n (?k2\<lparr>level := IntOff\<rparr>) = Inr k3" "SetLevel tick (level ?k2) k3 = Inr k'"
    using assms by (auto simp: Thread_new_def Fork_def Let_def res_simps)
  have "alike ?n k ?k1" by (simp add: Thread_new_def alike_def timer_on_def)
  also have "alike ?n ?k1 ?k2" by (rule alike_put_thread) (simp add: StackAllocate_def)
  also have "alike ?n ?k2 (?k2\<lparr>level := IntOff\<rparr>)" by (rule alike_intros)
  also have "alike ?n (?k2\<lparr>level := IntOff\<rparr>) k3" using k(1) by (rule ReadyToRun_alike)
  also have "alike ?n k3 k'" using k(2) by (rule SetLevel_alike)
  finally show ?thesis .
qed

lemma V_tick_alike: "V tick s k = Inr k' \<Longrightarrow> alike n k k'"
  using V_alike tick_alike by blast

lemma P_loop_alike:
  assumes "P_loop s old k = Inr k'"
  shows "alike n k k'"
proof -
  consider q where "Sleep False (calls [LoopP s old] (put_sem s (\<lambda>m. m\<lparr>queue := q\<rparr>) k)) = Inr k'"
    | "SetLevel tick old (put_sem s (\<lambda>m. m\<lparr>semValue := semValue m - 1\<rparr>) k) = Inr k'"
    using assms by (auto simp: P_loop_def res_simps split: if_splits)
  then show ?thesis using Sleep_alike SetLevel_alike alike_trans alike_updates(15,17) by cases metis+
qed

lemma Signal_alike: "Signal c l k = Inr k' \<Longrightarrow> alike n k k'"
  by (auto simp: Signal_def res_simps intro: alike_trans [OF alike_updates(11) V_tick_alike] split: if_splits)

lemma run_op_alike:
  assumes "run_op op k = Inr k'"
    and "\<forall>l. op \<noteq> TakeLock l \<and> op \<noteq> CallRelease l" "\<forall>s bs. op \<noteq> ReqRead s \<and> op \<noteq> ReqWrite s bs"
  shows "alike (threadNum k) k k'"
proof (cases op)
  case (CallP s)
  then show ?thesis using assms(1) alike_trans [OF alike_updates(3) alike_updates(17)] by (auto simp: P_def Let_def)
next
  case (CallWait c l)
  then show ?thesis using assms(1)
    by (auto simp: Wait_def Let_def res_simps intro!: alike_trans [OF alike_fields alike_updates(17)] simp: put_sem_def)
next
  case (CallBroadcast c l)
  then show ?thesis using assms(1) by (auto simp: Broadcast_def intro: alike_trans [OF alike_updates(17) Signal_alike] split: if_splits)
next
  case CallFinish
  then obtain f where "Sleep True (k\<lparr>level := IntOff, finishedThread := f\<rparr>) = Inr k'" using assms(1) by (auto simp: Finish_def res_simps)
  then show ?thesis using Sleep_alike alike_trans [OF alike_fields [of "k\<lparr>level := IntOff, finishedThread := f\<rparr>" k]] by simp
next
  case (SetSpace sp)
  then show ?thesis using assms(1) by (auto intro: alike_put_thread)
next
  case (CallFork func)
  then show ?thesis using assms(1) Fork_alike by blast
qed (use assms P_loop_alike V_tick_alike Yield_alike Signal_alike alike_updates(17)
  in \<open>auto simp: Acquire_def SynchDisk_ReadSector_def SynchDisk_WriteSector_def\<close>)

section \<open>Reachable states\<close>

definition bootable :: "Machine \<Rightarrow> int \<Rightarrow> byte list option \<Rightarrow> (nat \<Rightarrow> int) \<Rightarrow> kop list \<Rightarrow> bool" where
  "bootable m quantum hostFile vals main \<longleftrightarrow>
     regs_ok (registers m) \<and> quantum \<noteq> 0 \<and> (\<forall>s. 0 \<le> vals s) \<and> clients main
     \<and> (\<forall>f. hostFile = Some f \<longrightarrow> int (length f) = DiskSize \<and> bytes_to_int (take 4 f) = MagicNumber)"

inductive reachable :: "Kernel \<Rightarrow> bool" where
  boot: "reachable k"
    if "bootable m quantum hostFile vals main" "Kernel_Initialize m randomSlice quantum rand hostFile vals main = Inr k"
| further: "reachable k'" if "reachable k" "step k = Inr k'"

lemma Disk_new_bootable:
  assumes "bootable m quantum hostFile vals main"
  shows "\<exists>d. Disk_new hostFile = Inr d \<and> disk_ok d \<and> \<not> active d"
proof (cases hostFile)
  case None
  then show ?thesis using Disk_new_ok by auto
next
  case (Some f)
  then have "int (length f) = DiskSize" "bytes_to_int (take 4 f) = MagicNumber" using assms by (simp_all add: bootable_def)
  then show ?thesis using Some by (simp add: Disk_new_def file_read_def MagicSize_def DiskSize_def disk_ok_def valid_sector_def)
qed

lemma Kernel_Initialize_ok:
  assumes b: "bootable m quantum hostFile vals main"
  shows "\<exists>k. Kernel_Initialize m randomSlice quantum rand hostFile vals main = Inr k \<and> kernel_ok k \<and> timer_on k"
proof -
  have h: "regs_ok (registers m)" "quantum \<noteq> 0" "\<forall>s. 0 \<le> vals s" "clients main" using b by (simp_all add: bootable_def)
  obtain d where d: "Disk_new hostFile = Inr d" "disk_ok d" "\<not> active d" using Disk_new_bootable [OF b] by blast
  let ?k0 = "Kernel_new m randomSlice quantum rand d vals main"
  obtain r ps where s: "SetInterrupt ?k0 = Inr (?k0\<lparr>randoms := r, pending := ps\<rparr>)" "by_time ps" "disk_ints ps = disk_ints (pending ?k0)"
    "\<exists>new. mset ps = mset (pending ?k0) + new \<and> (\<forall>p\<in>#new. totalTicks (stats ?k0) < whenDue p)"
    using SetInterrupt_ok [of ?k0] by (auto simp: Kernel_new_def)
  let ?k1 = "?k0\<lparr>randoms := r, pending := ps\<rparr>"
  note pl = plain_clients [OF h(4)] and po = clients_prog_ok [OF h(4)]
  have p0: "progs ?k0 = [0 \<mapsto> main]" by (simp add: progs_def Kernel_new_def fun_eq_iff)
  have T: "threads_ok ?k0" using po plainD(1) [OF pl] by (simp add: threads_ok_def thread_ok_def Kernel_new_def running_def)
  have Q: "queues_ok ?k0" by (simp add: queues_ok_def Kernel_new_def)
  have S: "sems_ok ?k0" using h(3) by (simp add: sems_ok_def Kernel_new_def split: semid.splits)
  have "granted ?k0 l = {}" "disk_users ?k0 = {}" "disk_waiters ?k0 = {}" for l
    using plainD [OF pl] by (auto simp: granted_def disk_users_def disk_waiters_def p0 split: if_splits)
  then have "locks_ok ?k0" "disk_inv ?k0" using d(2,3) by (simp_all add: locks_ok_def disk_inv_def disk_ints_def Kernel_new_def)
  then have "kinv ?k0" using T Q S h(2) by (simp add: kinv_def Kernel_new_def)
  then have i: "kinv ?k1" using s(3) by (subst inv_cong [of _ ?k0]) simp_all
  have "future 0 ps" using s(4) by (auto simp: future_def Kernel_new_def Statistics_new_def simp flip: set_mset_mset)
  then have q: "quiet ?k1" using s(2) h(1) by (simp add: quiet_def int_ok_def Kernel_new_def time_ok_def Statistics_new_def)
  have "pinned 0 [] main ?k1" by (simp add: pinned_def Kernel_new_def)
  then obtain k where k: "SetLevel tick IntOn ?k1 = Inr k" "kernel_ok k"
    using enable_ok [OF i q _ _ plainD(1) [OF pl], of 0] by (auto simp: Kernel_new_def)
  have "timer_on ?k1" using SetInterrupt_alike(2) [OF s(1)] by (simp add: Kernel_new_def)
  then have "timer_on k" using SetLevel_alike [OF k(1), of 0] by (simp add: alike_def)
  then show ?thesis using k s(1) d(1) by (simp add: Kernel_Initialize_def)
qed

text \<open>The call the current thread is about to make.\<close>

definition next_call :: "Kernel \<Rightarrow> kop option" where
  "next_call k =
     (case threads k (currentThread k) of
        None \<Rightarrow> None
      | Some th \<Rightarrow> (case (todo th, prog th) of ([], op # os) \<Rightarrow> Some op | _ \<Rightarrow> None))"

lemma next_callE:
  assumes "next_call k = Some op"
  obtains th os where "threads k (currentThread k) = Some th" "todo th = []" "prog th = op # os" "step k = run_call op os k"
  using assms by (auto simp: next_call_def step_def split: option.splits list.splits)

lemma step_alike:
  assumes "step k = Inr k'"
    and "\<And>l. next_call k \<noteq> Some (TakeLock l)" "\<And>l. next_call k \<noteq> Some (CallRelease l)"
      "\<And>n. next_call k \<noteq> Some (ReqRead n)" "\<And>n bs. next_call k \<noteq> Some (ReqWrite n bs)"
  shows "alike (threadNum k) k k'"
proof -
  obtain th where th: "threads k (currentThread k) = Some th" using assms(1) by (auto simp: step_def split: option.splits)
  show ?thesis
  proof (cases "todo th")
    case (Cons f fs)
    let ?k = "pop_frame (currentThread k) fs k"
    have "alike (threadNum k) k ?k" by (rule alike_put_thread) simp
    also have "alike (threadNum k) ?k k'" using assms(1) th Cons by (intro run_frame_alike) (simp add: step_def)
    finally show ?thesis .
  next
    case todo: Nil
    show ?thesis
    proof (cases "prog th")
      case Nil
      then have "run_op CallFinish k = Inr k'" using assms(1) th todo by (simp add: step_def)
      then show ?thesis by (rule run_op_alike) simp_all
    next
      case (Cons op os)
      let ?k = "set_prog (currentThread k) os k"
      have n: "next_call k = Some op" using th todo Cons by (simp add: next_call_def)
      have "alike (threadNum k) k ?k" by (rule alike_put_thread) simp
      also have "run_op op ?k = Inr k'" using assms(1) th todo Cons by (simp add: step_def)
      then have "alike (threadNum ?k) ?k k'" by (rule run_op_alike) (use n assms(2-5) in auto)
      then have "alike (threadNum k) ?k k'" by simp
      finally show ?thesis .
    qed
  qed
qed

section \<open>Locks and disk\<close>

lemma step_TakeLock:
  assumes "step k = Inr k'" "next_call k = Some (TakeLock l)"
  shows "lockHolder k' = (lockHolder k)(l := Some (currentThread k))"
    "alike (threadNum k) k (k'\<lparr>lockHolder := lockHolder k\<rparr>)"
proof -
  obtain th os where "threads k (currentThread k) = Some th" "step k = run_call (TakeLock l) os k" using assms(2) by (rule next_callE)
  then show "lockHolder k' = (lockHolder k)(l := Some (currentThread k))" "alike (threadNum k) k (k'\<lparr>lockHolder := lockHolder k\<rparr>)"
    using assms(1) by (auto simp: Take_lock_def alike_def timer_on_def put_thread_def split: if_splits)
qed

lemma step_Release:
  assumes "step k = Inr k'" "next_call k = Some (CallRelease l)"
  shows "lockHolder k l = Some (currentThread k)" "alike (threadNum k) (k\<lparr>lockHolder := (lockHolder k)(l := None)\<rparr>) k'"
proof -
  obtain th os where th: "threads k (currentThread k) = Some th" "step k = run_call (CallRelease l) os k" using assms(2) by (rule next_callE)
  let ?k = "set_prog (currentThread k) os k"
  have r: "IsHeldByCurrentThread l ?k" "V tick (LockSem l) (?k\<lparr>lockHolder := (lockHolder k)(l := None)\<rparr>) = Inr k'"
    using assms(1) th(2) by (simp_all add: Release_def res_simps)
  then show "lockHolder k l = Some (currentThread k)" by (simp add: IsHeldByCurrentThread_def)
  have "alike (threadNum k) (k\<lparr>lockHolder := (lockHolder k)(l := None)\<rparr>) (?k\<lparr>lockHolder := (lockHolder k)(l := None)\<rparr>)"
    by (auto simp: alike_def timer_on_def put_thread_def split: if_splits)
  also have "alike (threadNum k) (?k\<lparr>lockHolder := (lockHolder k)(l := None)\<rparr>) k'" using r(2) by (rule V_tick_alike)
  finally show "alike (threadNum k) (k\<lparr>lockHolder := (lockHolder k)(l := None)\<rparr>) k'" .
qed

lemma step_request:
  assumes "step k = Inr k'" "next_call k = Some op" "op = ReqRead n \<or> op = ReqWrite n bs"
  shows "lockHolder k' = lockHolder k" "timer_on k \<longrightarrow> timer_on k'"
    "\<forall>t th'. threads k' t = Some th' \<longrightarrow> t \<noteq> currentThread k \<longrightarrow> threads k t = Some th'"
proof -
  obtain th os where th: "threads k (currentThread k) = Some th" "step k = run_call op os k" using assms(2) by (rule next_callE)
  then have "run_call op os k = Inr k'" using assms(1) by simp
  then show "lockHolder k' = lockHolder k" "timer_on k \<longrightarrow> timer_on k'"
    "\<forall>t th'. threads k' t = Some th' \<longrightarrow> t \<noteq> currentThread k \<longrightarrow> threads k t = Some th'"
    using assms(3) by (auto simp: request_read_def request_write_def ReadRequest_def WriteRequest_def Schedule_def res_simps Let_def timer_on_def put_thread_def)
qed

lemma step_timer_on:
  assumes "step k = Inr k'" "timer_on k"
  shows "timer_on k'"
proof (cases "\<exists>l. next_call k = Some (TakeLock l) \<or> next_call k = Some (CallRelease l)")
  case True
  then show ?thesis using assms step_TakeLock(2) step_Release(2) by (auto simp: alike_def timer_on_def)
next
  case False
  then show ?thesis
  proof (cases "\<exists>op n bs. next_call k = Some op \<and> (op = ReqRead n \<or> op = ReqWrite n bs)")
    case True
    then show ?thesis using assms step_request(2) by blast
  next
    case n: False
    then have "alike (threadNum k) k k'" using False by (intro step_alike [OF assms(1)]) blast+
    then show ?thesis using assms(2) by (simp add: alike_def)
  qed
qed

lemma reachable_ok: "reachable k \<Longrightarrow> kernel_ok k \<and> timer_on k"
proof (induction rule: reachable.induct)
  case (boot m quantum hostFile vals main randomSlice rand k)
  then show ?case using Kernel_Initialize_ok [OF boot(1), of randomSlice rand] by auto
next
  case (further k k')
  then show ?case using step_ok [of k] step_timer_on [of k k'] by (auto split: if_splits)
qed

lemma reachable_kinv:
  assumes "reachable k"
  shows "kinv k" "threads_ok k" "queues_ok k" "sems_ok k" "locks_ok k" "disk_inv k" "quiet k"
  using reachable_ok [OF assms] by (simp_all add: kernel_ok_def kinv_def)

lemma not_halted: "timer_on k \<Longrightarrow> \<not> halted k"
  by (auto simp: timer_on_def halted_def)

lemma Disk_new_None: "\<exists>f. Disk_new None = Inr \<lparr>unixFile = f, active = False, lastSector = 0, bufferInit = 0\<rparr>"
  using Disk_new_ok by (auto simp: Disk_new_def res_simps)

lemmas boot_simps = Kernel_Initialize_def SetInterrupt_def Kernel_new_def Schedule_def SetLevel_def ChangeLevel_def tick_def OneTick_def
  CheckIfDue_def sorted_insert_def count_tick_def Statistics_new_def Let_def tick_defs

lemma count_distinct: "distinct xs \<Longrightarrow> count_list xs x = (if x \<in> set xs then 1 else 0)"
  by (induction xs) auto

section \<open>Properties of every run\<close>

lemma example_bootable: "clients main \<Longrightarrow> bootable example_machine 100 None (\<lambda>_. 0) main"
  by (simp add: bootable_def regs_ok_def example_machine_def reg_defs)

lemma example_run:
  assumes "clients main"
  obtains k where "Kernel_Initialize example_machine False 100 (\<lambda>_. 0) None (\<lambda>_. 0) main = Inr k" "reachable k"
  using Kernel_Initialize_ok [OF example_bootable [OF assms], of False "\<lambda>_. 0"] boot [OF example_bootable [OF assms], of False "\<lambda>_. 0"] by auto



text \<open>
  C7. Mutual exclusion: at most one thread holds a lock or has been admitted to take it, a step takes a lock only for the
  current thread, which was admitted, and only when the lock is free; and a step ends a holding only when the holder
  itself releases the lock.
\<close>

theorem lock_mutual_exclusion:
  assumes "reachable k"
  shows "(\<forall>l t. t \<in> granted k l \<longrightarrow> granted k l = {t} \<and> lockHolder k l = None)
    \<and> (\<forall>l t k'. step k = Inr k' \<and> lockHolder k l \<noteq> Some t \<and> lockHolder k' l = Some t \<longrightarrow>
         lockHolder k l = None \<and> t = currentThread k \<and> t \<in> granted k l)
    \<and> (\<forall>l t k'. step k = Inr k' \<and> lockHolder k l = Some t \<and> lockHolder k' l \<noteq> Some t \<longrightarrow>
         lockHolder k' l = None \<and> t = currentThread k \<and> next_call k = Some (CallRelease l))"
proof -
  have g: "t \<in> granted k l \<Longrightarrow> granted k l = {t} \<and> lockHolder k l = None" for l t
    using reachable_kinv(5) [OF assms] unfolding locks_ok_def by (metis empty_iff singletonD)
  have h: "lockHolder k' l = lockHolder k l \<or> lockHolder k l = None \<and> lockHolder k' l = Some (currentThread k) \<and> currentThread k \<in> granted k l
    \<or> lockHolder k l = Some (currentThread k) \<and> lockHolder k' l = None \<and> next_call k = Some (CallRelease l)" if s: "step k = Inr k'" for k' l
  proof (cases "\<exists>m. next_call k = Some (TakeLock m)")
    case True
    then obtain m where m: "next_call k = Some (TakeLock m)" by blast
    then have "currentThread k \<in> granted k m" by (rule next_callE) (simp add: granted_def progs_def)
    then show ?thesis using step_TakeLock(1) [OF s m] g by auto
  next
    case nt: False
    show ?thesis
    proof (cases "\<exists>m. next_call k = Some (CallRelease m)")
      case True
      then obtain m where m: "next_call k = Some (CallRelease m)" by blast
      then show ?thesis using step_Release [OF s m] by (auto simp: alike_def)
    next
      case nr: False
      show ?thesis
      proof (cases "\<exists>op n bs. next_call k = Some op \<and> (op = ReqRead n \<or> op = ReqWrite n bs)")
        case True
        then show ?thesis using step_request(1) [OF s] by auto
      next
        case False
        then have "alike (threadNum k) k k'" using nt nr by (intro step_alike [OF s]) blast+
        then show ?thesis by (simp add: alike_def)
      qed
    qed
  qed
  show ?thesis
  proof (intro conjI allI impI)
    fix l t k'
    assume a: "step k = Inr k' \<and> lockHolder k l \<noteq> Some t \<and> lockHolder k' l = Some t"
    show "lockHolder k l = None" "t = currentThread k" "t \<in> granted k l" using a h [of k' l] by auto
  next
    fix l t k'
    assume a: "step k = Inr k' \<and> lockHolder k l = Some t \<and> lockHolder k' l \<noteq> Some t"
    show "lockHolder k' l = None" "t = currentThread k" "next_call k = Some (CallRelease l)" using a h [of k' l] by auto
  qed (use g in auto)
qed

theorem lock_mutual_exclusion_witness:
  "\<exists>k. Kernel_Initialize example_machine False 100 (\<lambda>_. 0) None (\<lambda>_. 0) [CallAcquire (UserLock 0), CallRelease (UserLock 0)] = Inr k
    \<and> (\<forall>l t. t \<in> granted k l \<longrightarrow> granted k l = {t} \<and> lockHolder k l = None)"
proof -
  obtain k where "Kernel_Initialize example_machine False 100 (\<lambda>_. 0) None (\<lambda>_. 0) [CallAcquire (UserLock 0), CallRelease (UserLock 0)] = Inr k"
    "reachable k" by (rule example_run [of "[CallAcquire (UserLock 0), CallRelease (UserLock 0)]"]) auto
  then show ?thesis using lock_mutual_exclusion by blast
qed

text \<open>
  C9. No wake-up is lost: a thread that waits in the queue of a semaphore is blocked in \<open>P\<close> of that semaphore and in no
  other queue, and as long as the value is positive there are at least as many threads awake in \<open>P\<close> of that semaphore,
  each of which tests the value again when it runs. Every blocked thread that has not finished waits in the queue of a
  semaphore, and every ready thread is on the ready list, once.
\<close>

theorem no_lost_wakeup:
  assumes "reachable k" "threads k t = Some th"
  shows "(\<forall>s. t \<in> set (queue (sems k s)) \<longrightarrow>
        threadStatus th = BLOCKED \<and> (\<forall>s'. t \<in> set (queue (sems k s')) \<longrightarrow> s' = s) \<and> semValue (sems k s) \<le> int (card (takers k s)))
    \<and> (threadStatus th = BLOCKED \<longrightarrow> toBeDestroyed k \<noteq> Some t \<longrightarrow> todo th \<noteq> [SleepLoop True] \<longrightarrow>
        (\<exists>s. t \<in> set (queue (sems k s))))
    \<and> (threadStatus th = READY \<longleftrightarrow> count_list (readyList k) t = 1)
    \<and> (threadStatus th = RUNNING \<longrightarrow> t = currentThread k)"
proof (intro conjI allI impI)
  note i = reachable_kinv [OF assms(1)] and t = thread_okD [OF reachable_kinv(2) [OF assms(1)] assms(2)]
  show "threadStatus th = BLOCKED" if "t \<in> set (queue (sems k s))" for s
    using queue_blocked [OF i(3) that] assms(2) by (metis option.inject)
  show "s' = s" if "t \<in> set (queue (sems k s))" "t \<in> set (queue (sems k s'))" for s s'
    using queue_blocked [OF i(3) that(1)] queue_blocked [OF i(3) that(2)] by (metis kop.inject(2) list.inject option.inject)
  show "semValue (sems k s) \<le> int (card (takers k s))" if "t \<in> set (queue (sems k s))" for s
    using i(4) that unfolding sems_ok_def by (metis empty_iff empty_set)
  show "\<exists>s. t \<in> set (queue (sems k s))"
    if "threadStatus th = BLOCKED" "toBeDestroyed k \<noteq> Some t" "todo th \<noteq> [SleepLoop True]"
    using t that unfolding thread_ok_def by (auto split: if_splits)
  show "threadStatus th = READY \<longleftrightarrow> count_list (readyList k) t = 1"
    using t i(3) assms(2) unfolding thread_ok_def queues_ok_def by (auto simp: count_distinct)
  show "t = currentThread k" if "threadStatus th = RUNNING" using t that by (simp add: thread_ok_def)
qed

theorem no_lost_wakeup_witness:
  "\<exists>k th. Kernel_Initialize example_machine False 100 (\<lambda>_. 0) None (\<lambda>_. 0) [CallP (UserSem 0)] = Inr k \<and> threads k 0 = Some th
    \<and> (threadStatus th = READY \<longleftrightarrow> count_list (readyList k) 0 = 1)"
proof -
  obtain k where k: "Kernel_Initialize example_machine False 100 (\<lambda>_. 0) None (\<lambda>_. 0) [CallP (UserSem 0)] = Inr k" "reachable k"
    by (rule example_run [of "[CallP (UserSem 0)]"]) auto
  moreover obtain f where "Disk_new None = Inr \<lparr>unixFile = f, active = False, lastSector = 0, bufferInit = 0\<rparr>"
    using Disk_new_None by blast
  then have "threads k 0 = Some \<lparr>threadStatus = RUNNING, space = None, userRegisters = [], todo = [], prog = [CallP (UserSem 0)], data = []\<rparr>"
    using k(1) by (auto simp: boot_simps)
  ultimately show ?thesis using no_lost_wakeup [of k 0] by blast
qed

text \<open>
  C6. The synchronous disk implements the sector store: in every run, whatever the interleaving of the threads and the
  interrupts, each step leaves the contents of all sectors alone, or is the request inside \<open>SynchDisk::ReadSector\<close> and
  fills the buffer of its thread with what \<open>ReadSector\<close> of the store returns, or is the request inside
  \<open>SynchDisk::WriteSector\<close> and changes the contents as \<open>WriteSector\<close> of the store does; it fails exactly when that
  operation fails. No other step changes the buffer of any thread.
\<close>

theorem SynchDisk_refines_sectors:
  assumes "reachable k"
  shows "case next_call k of
      Some (ReqRead n) \<Rightarrow>
        (case ReadSector (disk_of (disk k)) n of
           Inl e \<Rightarrow> step k = Inl e
         | Inr bs \<Rightarrow> \<exists>k' th. step k = Inr k' \<and> disk_of (disk k') = disk_of (disk k) \<and> threads k' (currentThread k) = Some th \<and> data th = bs
             \<and> length bs = 128)
    | Some (ReqWrite n bs) \<Rightarrow>
        (case WriteSector (disk_of (disk k)) n bs of
           Inl e \<Rightarrow> step k = Inl e
         | Inr d \<Rightarrow> \<exists>k'. step k = Inr k' \<and> disk_of (disk k') = d)
    | _ \<Rightarrow> (\<forall>k' t th th'. step k = Inr k' \<and> threads k t = Some th \<and> threads k' t = Some th' \<longrightarrow>
             disk_of (disk k') = disk_of (disk k) \<and> data th' = data th)"
proof -
  have ok: "kernel_ok k" using reachable_ok [OF assms] by simp
  note i = reachable_kinv [OF assms]
  have d: "length (unixFile (disk k)) = 131076" using i(6) by (simp add: disk_inv_def disk_ok_def DiskSize_def MagicSize_def)
  have fresh: "threads k t = Some th \<Longrightarrow> t \<noteq> threadNum k" for t th using thread_okD [OF i(2), of t th] by auto
  have other: "disk_of (disk k') = disk_of (disk k) \<and> data th' = data th"
    if s: "step k = Inr k'" "threads k t = Some th" "threads k' t = Some th'"
      and n: "\<And>n. next_call k \<noteq> Some (ReqRead n)" "\<And>n bs. next_call k \<noteq> Some (ReqWrite n bs)" for k' t th th'
  proof -
    have "unixFile (disk k') = unixFile (disk k) \<and> data th' = data th"
    proof (cases "\<exists>l. next_call k = Some (TakeLock l) \<or> next_call k = Some (CallRelease l)")
      case True
      then show ?thesis
      proof (elim exE disjE)
        fix l assume "next_call k = Some (TakeLock l)"
        then show ?thesis using alike_data [OF step_TakeLock(2) [OF s(1)] s(2) _ fresh [OF s(2)]] s(3) by simp
      next
        fix l assume "next_call k = Some (CallRelease l)"
        then show ?thesis using alike_data [OF step_Release(2) [OF s(1)] _ s(3) fresh [OF s(2)]] s(2) by simp
      qed
    next
      case False
      then have "alike (threadNum k) k k'" using n by (intro step_alike [OF s(1)]) blast+
      then show ?thesis using alike_data s(2,3) fresh [OF s(2)] by blast
    qed
    then show ?thesis using disk_of_cong [of "disk k'" "disk k"] by simp
  qed
  have stutter: "\<forall>k' t th th'. step k = Inr k' \<and> threads k t = Some th \<and> threads k' t = Some th' \<longrightarrow>
      disk_of (disk k') = disk_of (disk k) \<and> data th' = data th"
    if "\<forall>n. next_call k \<noteq> Some (ReqRead n)" "\<forall>n bs. next_call k \<noteq> Some (ReqWrite n bs)"
    using other that by blast
  show ?thesis
  proof (cases "next_call k")
    case None
    then show ?thesis using stutter by simp
  next
    case (Some op)
    then obtain th os where th: "threads k (currentThread k) = Some th" "todo th = []" "prog th = op # os" "step k = run_call op os k"
      by (rule next_callE)
    have a: "at_call k th" using ok th by (simp add: at_call_def)
    consider n where "op = ReqRead n" | n bs where "op = ReqWrite n bs" | "\<forall>n. op \<noteq> ReqRead n" "\<forall>n bs. op \<noteq> ReqWrite n bs" by blast
    then show ?thesis
    proof cases
      case (1 n)
      have "valid_sector n \<Longrightarrow> length (disk_of (disk k) n) = 128" using d by (auto simp: disk_of_def valid_sector_def nat_le_iff)
      then show ?thesis using read_request_ok [OF a, of n os] th 1 Some
        by (cases "valid_sector n") (auto simp: ReadSector_valid ReadSector_invalid)
    next
      case (2 n bs)
      then show ?thesis using write_request_ok [OF a, of n bs os] th Some
        by (cases "valid_sector n") (auto simp: WriteSector_valid WriteSector_def valid_sector_def ASSERT_def)
    next
      case 3
      then show ?thesis using stutter Some by (cases op) simp_all
    qed
  qed
qed

theorem SynchDisk_refines_sectors_witness:
  "\<exists>k. reachable k \<and> Kernel_Initialize example_machine False 100 (\<lambda>_. 0) None (\<lambda>_. 0) [CallReadSector 5] = Inr k
    \<and> next_call k = Some (CallReadSector 5) \<and> (\<forall>k' th th'. step k = Inr k' \<and> threads k 0 = Some th \<and> threads k' 0 = Some th' \<longrightarrow> disk_of (disk k') = disk_of (disk k))"
proof -
  obtain k where k: "Kernel_Initialize example_machine False 100 (\<lambda>_. 0) None (\<lambda>_. 0) [CallReadSector 5] = Inr k" "reachable k"
    by (rule example_run [of "[CallReadSector 5]"]) auto
  moreover obtain f where "Disk_new None = Inr \<lparr>unixFile = f, active = False, lastSector = 0, bufferInit = 0\<rparr>"
    using Disk_new_None by blast
  then have "next_call k = Some (CallReadSector 5)" using k(1) by (auto simp: boot_simps next_call_def)
  ultimately show ?thesis using SynchDisk_refines_sectors [OF k(2)] by auto
qed

section \<open>The disk wakes its waiter\<close>

definition disk_due :: "int \<Rightarrow> Kernel \<Rightarrow> bool" where
  "disk_due T k \<longleftrightarrow> (\<exists>p\<in>set (pending k). callOnInterrupt p = DiskDev \<and> whenDue p = T)"

definition disk_wait :: "nat \<Rightarrow> int \<Rightarrow> Kernel \<Rightarrow> bool" where
  "disk_wait w T k \<longleftrightarrow>
     (if active (disk k) then readyList k = [] \<and> queue (sems k DiskSem) = [w] \<and> disk_due T k else readyList k = [w])"

lemma Timer_frame:
  "CallBack TimerDev k = Inr k' \<Longrightarrow> readyList k' = readyList k \<and> sems k' = sems k \<and> disk k' = disk k"
  by (auto simp: Timer_CallBack_def Alarm_CallBack_def SetInterrupt_def Schedule_def YieldOnReturn_def Let_def res_simps split: if_splits)

lemma disk_wait_timer:
  assumes "disk_wait w T k" "pending k = p # ps" "callOnInterrupt p = TimerDev" "CallBack TimerDev (k\<lparr>pending := ps\<rparr>) = Inr k'" "handled ps k k'"
  shows "disk_wait w T k'"
proof -
  obtain new where n: "mset (pending k') = mset ps + new" using assms(5) by (auto simp: handled_def)
  have "set (pending k') = set_mset (mset (pending k'))" by simp
  also have "\<dots> = set ps \<union> set_mset new" unfolding n by simp
  finally have "set ps \<subseteq> set (pending k')" by simp
  then have "disk_due T k \<Longrightarrow> disk_due T k'" using assms(2,3) by (auto simp: disk_due_def)
  then show ?thesis using Timer_frame [OF assms(4)] assms(1) by (auto simp: disk_wait_def)
qed

interpretation disk_waiting: devices CallBack "\<lambda>k. (kinv k \<and> pinned c fs os k) \<and> disk_wait w T k" for c fs os w T
proof (unfold_locales, goal_cases)
  case (1 k p ps)
  then obtain k' where k': "CallBack (callOnInterrupt p) (k\<lparr>pending := ps\<rparr>) = Inr k'" "kinv k' \<and> pinned c fs os k'" "handled ps k k'"
    using kernel.call_ok [of k c fs os p ps] by blast
  have i: "kinv k" "disk_wait w T k" "by_time (pending k)" using 1 by (simp_all add: int_ok_def)
  have "disk_wait w T k'"
  proof (cases "callOnInterrupt p")
    case TimerDev
    then show ?thesis using disk_wait_timer [OF i(2) 1(2)] k' by simp
  next
    case DiskDev
    have "active (disk k)" using i(1) 1(2) DiskDev unfolding kinv_def disk_inv_def by (auto split: if_splits)
    then have "readyList k = []" "queue (sems k DiskSem) = [w]" using i(2) by (simp_all add: disk_wait_def)
    then show ?thesis using Disk_CallBack_ok [OF i(1) 1(2) DiskDev 1(4) i(3)] k'(1) DiskDev by (auto simp: disk_wait_def wake_threads)
  qed
  then show ?case using k' by auto
qed (simp_all add: pinned_def disk_wait_def disk_due_def)

lemma idle_until_disk:
  assumes "kernel_ok k" "threads k (currentThread k) = Some th" "todo th = [SleepLoop b]" "disk_wait w T k" "totalTicks (stats k) \<le> T"
  shows "\<exists>n\<le>nat (T - totalTicks (stats k)). \<exists>k'. steps n k = Inr k' \<and> readyList k' = [w] \<and> \<not> active (disk k') \<and> totalTicks (stats k') \<le> T"
  using assms
proof (induction "nat (T - totalTicks (stats k))" arbitrary: k th rule: less_induct)
  case less
  note k = kernel_okE [OF less.prems(1,2)]
  show ?case
  proof (cases "active (disk k)")
    case False
    then show ?thesis using less.prems(4,5) by (intro exI [of _ 0]) (simp add: disk_wait_def)
  next
    case True
    then have r: "readyList k = []" and d: "disk_due T k" using less.prems(4) by (simp_all add: disk_wait_def)
    have l: "level k = IntOff" using k(5) less.prems(3) by (simp add: level_of_def)
    have s: "step k = Idle CallBack k"
      using Sleep_loop_idle [OF less.prems(2,3) l r] less.prems(2,3) by (simp add: step_def)
    have p: "pending k \<noteq> []" using d by (auto simp: disk_due_def)
    then obtain k' where k': "Idle CallBack k = Inr k'" "kinv k'" "pinned (currentThread k) [SleepLoop b] (prog th) k'" "disk_wait w T k'"
      "quiet k'" "level k' = IntOff" "totalTicks (stats k') = whenDue (hd (pending k))"
      using disk_waiting.Idle_ok [of k "currentThread k" "[SleepLoop b]" "prog th" w T] k less.prems(3,4) l by auto
    have now: "totalTicks (stats k) < whenDue (hd (pending k))" using k(2) p by (simp add: quiet_def future_def)
    have T: "whenDue (hd (pending k)) \<le> T" using d k(2) p by (cases "pending k") (auto simp: disk_due_def quiet_def int_ok_def)
    have ok: "kernel_ok k'" using kernel_okI [OF k'(2,5,3)] k'(6) by (simp add: level_of_def)
    obtain th' where th': "threads k' (currentThread k') = Some th'" "todo th' = [SleepLoop b]" using k'(3) by (auto simp: pinned_def)
    obtain n k'' where n: "n \<le> nat (T - totalTicks (stats k'))" "steps n k' = Inr k''" "readyList k'' = [w]" "\<not> active (disk k'')" "totalTicks (stats k'') \<le> T"
      using less.hyps [OF _ ok th' k'(4)] k'(7) now T by auto
    have "Suc n \<le> nat (T - totalTicks (stats k))" using n(1) k'(7) now T by linarith
    moreover have "steps (Suc n) k = Inr k''" using s k'(1) n(2) by simp
    ultimately show ?thesis using n(3-5) by blast
  qed
qed

lemma singleton_list: "set xs = {w} \<Longrightarrow> distinct xs \<Longrightarrow> xs = [w]"
  by (cases xs rule: remdups_adj.cases) auto

lemma pending_disk: "disk_ints ps = 1 \<Longrightarrow> \<exists>p\<in>set ps. callOnInterrupt p = DiskDev"
proof (induction ps)
  case Nil
  then show ?case by (simp add: disk_ints_def)
qed (auto split: if_splits)

lemma disk_waiter:
  assumes i: "kinv k" and w: "w \<in> set (queue (sems k DiskSem))"
  shows "active (disk k)" "queue (sems k DiskSem) = [w]" "\<exists>p\<in>set (pending k). callOnInterrupt p = DiskDev"
proof -
  have t: "threads_ok k" "queues_ok k" "sems_ok k" "disk_inv k" using i by (simp_all add: kinv_def)
  have q: "progs k u = Some (LoopP DiskSem IntOn # r) \<Longrightarrow> u = w" for u r
  proof -
    obtain th r' where "threads k w = Some th" "prog th = LoopP DiskSem IntOn # r'" using queue_blocked [OF t(2) w] by metis
    then have "disk_users k = {w}" using disk_holder(2) [OF t(4), of w] by (simp add: progs_def)
    moreover assume "progs k u = Some (LoopP DiskSem IntOn # r)"
    then have "disk_users k = {u}" using disk_holder(2) [OF t(4), of u] by simp
    ultimately show "u = w" by simp
  qed
  have b: "u = w" if u: "u \<in> set (queue (sems k DiskSem))" for u
    proof -
    obtain x r where "threads k u = Some x" "prog x = LoopP DiskSem IntOn # r" using queue_blocked [OF t(2) u] by metis
    then show ?thesis using q [of u r] by (simp add: progs_def)
  qed
  have "set (queue (sems k DiskSem)) = {w}" using b w by blast
  moreover have "distinct (queue (sems k DiskSem))" using t(2) by (simp add: queues_ok_def)
  ultimately show qw: "queue (sems k DiskSem) = [w]" by (rule singleton_list)
  obtain th r where th: "threads k w = Some th" "threadStatus th = BLOCKED" "prog th = LoopP DiskSem IntOn # r" using queue_blocked [OF t(2) w] by metis
  have "takers k DiskSem = {}"
  proof (rule ccontr)
    assume "takers k DiskSem \<noteq> {}"
    then obtain u x r' where u: "threads k u = Some x" "threadStatus x \<noteq> BLOCKED" "prog x = LoopP DiskSem IntOn # r'" by (auto simp: takers_def)
    then have "u = w" using q [of u r'] by (simp add: progs_def)
    then show False using u th by simp
  qed
  moreover have "semValue (sems k DiskSem) \<le> int (card (takers k DiskSem))" using t(3) qw by (simp add: sems_ok_def)
  ultimately have "semValue (sems k DiskSem) \<le> 0" by simp
  moreover have "w \<in> disk_waiters k" using th by (simp add: disk_waiters_def progs_def)
  ultimately have "active (disk k) \<and> disk_ints (pending k) = 1" using t(4) unfolding disk_inv_def by (auto split: if_splits)
  then show "active (disk k)" "\<exists>p\<in>set (pending k). callOnInterrupt p = DiskDev"
    using pending_disk [of "pending k"] by auto
qed


lemma reachable_steps: "reachable k \<Longrightarrow> steps n k = Inr k' \<Longrightarrow> reachable k'"
  by (induction n arbitrary: k) (auto simp: res_simps intro: further)

lemmas run_simps = step_def P_def P_loop_def Acquire_def Take_lock_def SynchDisk_ReadSector_def request_read_def ReadRequest_def
  calls_def push_def put_thread_def put_sem_def Sleep_def list_Append_def UpdateLast_def

lemma example_waiting:
  "\<exists>k th. reachable k \<and> threads k (currentThread k) = Some th \<and> todo th = [SleepLoop False] \<and> readyList k = [] \<and> queue (sems k DiskSem) = [0]"
proof -
  obtain k where k: "Kernel_Initialize example_machine False 100 (\<lambda>_. 0) None (\<lambda>_. 0) [CallReadSector 5] = Inr k" "reachable k"
    by (rule example_run [of "[CallReadSector 5]"]) auto
  obtain f where f: "Disk_new None = Inr \<lparr>unixFile = f, active = False, lastSector = 0, bufferInit = 0\<rparr>"
    using Disk_new_None by blast
  then have "disk_ok \<lparr>unixFile = f, active = False, lastSector = 0, bufferInit = 0\<rparr>" using Disk_new_ok by auto
  then have r: "file_read f 644 128 = Inr (take 128 (drop 644 f))" by (simp add: disk_ok_def file_read_def DiskSize_def MagicSize_def)
  have L: "0 < ComputeLatency t \<lparr>unixFile = f, active = False, lastSector = 0, bufferInit = 0\<rparr> 5 False" if "0 \<le> t" for t
    using ComputeLatency_pos [of t 5 "\<lparr>unixFile = f, active = False, lastSector = 0, bufferInit = 0\<rparr>" False] that by simp
  have "\<exists>k' th. steps 8 k = Inr k' \<and> threads k' (currentThread k') = Some th \<and> todo th = [SleepLoop False] \<and> readyList k' = [] \<and> queue (sems k' DiskSem) = [0]"
    using k(1) f r
    by (clarsimp simp: boot_simps) (simp add: run_simps eval_nat_numeral boot_simps MagicSize_def L case_prod_beta)
  then show ?thesis using reachable_steps [OF k(2)] by blast
qed


end
