(* ===== verification/AddrSpace.thy ===== *)
theory AddrSpace
  imports FileSystem Threads
begin

text \<open>
  Virtual memory: the address space of a user program (\<open>userprog/addrspace.cc\<close>, \<open>userprog/noff.h\<close>) and the page fault
  handler (the \<open>PageFaultException\<close> case of \<open>userprog/exception.cc\<close>). A program is loaded into the file \<open>swapSpace\<close>; a
  page is brought into a frame of main memory when it is touched, and when no frame is free the page that came in first
  is written back. A pointer to a \<open>TranslationEntry\<close> is the address of its page table with an index.
\<close>

section \<open>State\<close>

type_synonym entry_ptr = "nat \<times> nat"

record VM =
  mach :: Machine                       \<comment> \<open>\<open>kernel->machine\<close>\<close>
  files :: kstate                       \<comment> \<open>the disk and the maps of open files\<close>
  swapSpace :: OpenFile
  swapSpace_counter :: int
  FIFOEntryList :: "entry_ptr list"
  frameMap :: Bitmap                    \<comment> \<open>\<open>kernel->freeMap\<close>\<close>
  newTable :: nat                       \<comment> \<open>the address \<open>new TranslationEntry[]\<close> returns next\<close>

definition entry_at :: "VM \<Rightarrow> entry_ptr \<Rightarrow> TranslationEntry" where
  "entry_at vm e = tables (mach vm) (fst e) ! snd e"

definition set_pte :: "entry_ptr \<Rightarrow> (TranslationEntry \<Rightarrow> TranslationEntry) \<Rightarrow> VM \<Rightarrow> VM" where
  "set_pte e f vm =
     vm\<lparr>mach := (mach vm)\<lparr>tables := (tables (mach vm))(fst e := (tables (mach vm) (fst e))[snd e := f (entry_at vm e)])\<rparr>\<rparr>"

definition getPageEntry :: "VM \<Rightarrow> nat \<Rightarrow> int \<Rightarrow> entry_ptr res" where
  "getPageEntry vm pt PageNum =
     CHECK_BOUNDS (0 \<le> PageNum \<and> PageNum < int (length (tables (mach vm) pt))) (Inr (pt, nat PageNum))"

section \<open>The page fault handler\<close>

text \<open>Reading a page from the swap file into the frame \<open>ppn\<close>; the steps common to both branches of the handler.\<close>

definition swap_in :: "entry_ptr \<Rightarrow> int \<Rightarrow> VM \<Rightarrow> VM res" where
  "swap_in pageEntry ppn vm =
     (let vm = set_pte pageEntry (\<lambda>e. e\<lparr>physicalPage := ppn, valid := True\<rparr>) vm
      in bind_res (ReadAt (swapSpace vm) (dsk (files vm)) PageSize (virtualPage (entry_at vm pageEntry) * PageSize)) (\<lambda>(n, bs).
         CHECK_BOUNDS (0 \<le> ppn * PageSize \<and> nat (ppn * PageSize) + length bs \<le> length (mainMemory (mach vm)))
         (bind_res (list_Append (FIFOEntryList vm) pageEntry) (\<lambda>l.
          Inr (vm\<lparr>mach := (mach vm)\<lparr>mainMemory := overwrite (mainMemory (mach vm)) (nat (ppn * PageSize)) bs\<rparr>, FIFOEntryList := l\<rparr>)))))"

text \<open>Writing the evicted page to the swap file.\<close>

definition swap_out :: "entry_ptr \<Rightarrow> VM \<Rightarrow> VM res" where
  "swap_out evictedPage vm =
     (let PhysicalPN = physicalPage (entry_at vm evictedPage); mem = mainMemory (mach vm)
      in CHECK_BOUNDS (0 \<le> PhysicalPN * PageSize \<and> nat (PhysicalPN * PageSize) + nat PageSize \<le> length mem)
         (bind_res (WriteAt (swapSpace vm) (uninit (files vm)) (dsk (files vm)) (take (nat PageSize) (drop (nat (PhysicalPN * PageSize)) mem))
            PageSize (virtualPage (entry_at vm evictedPage) * PageSize)) (\<lambda>(n, d).
          Inr (set_pte evictedPage (\<lambda>e. e\<lparr>physicalPage := -1, valid := False\<rparr>) (vm\<lparr>files := (files vm)\<lparr>dsk := d\<rparr>\<rparr>)))))"

definition PageFault :: "nat \<Rightarrow> VM \<Rightarrow> VM res" where
  "PageFault pt vm =
     bind_res (ReadRegister (mach vm) (int BadVAddrReg)) (\<lambda>pageFaultA.
     let pageFaultPN = sint pageFaultA sdiv PageSize
     in bind_res (FindAndSet (frameMap vm)) (\<lambda>(PPN, fm).
        let vm = vm\<lparr>frameMap := fm\<rparr>
        in bind_res (getPageEntry vm pt pageFaultPN) (\<lambda>pageEntry.
           if PPN \<noteq> -1 then swap_in pageEntry PPN vm
           else
             bind_res (list_RemoveFront (FIFOEntryList vm)) (\<lambda>(evictedPage, l).
             let vm = vm\<lparr>FIFOEntryList := l\<rparr>; PhysicalPN = physicalPage (entry_at vm evictedPage)
             in bind_res (swap_out evictedPage vm) (swap_in pageEntry PhysicalPN)))))"

section \<open>Accesses to user memory\<close>

text \<open>
  \<open>ReadMem\<close> and \<open>WriteMem\<close> with the trap: \<open>RaiseException\<close> runs \<open>ExceptionHandler\<close>, which brings the page in after a page
  fault and ends at \<open>ASSERTNOTREACHED\<close> for every other addressing exception; the access then reports \<open>FALSE\<close> (\<open>None\<close>).
  \<open>pt\<close> is the page table of the current thread's \<open>space\<close>.
\<close>

definition handle_fault :: "nat \<Rightarrow> ExceptionType \<Rightarrow> VM \<Rightarrow> VM res" where
  "handle_fault pt which vm = (if which = PageFaultException then PageFault pt vm else Inl AssertFailed)"

definition user_ReadMem :: "nat \<Rightarrow> u32 \<Rightarrow> int \<Rightarrow> VM \<Rightarrow> (u32 option \<times> VM) res" where
  "user_ReadMem pt addr sz vm =
     bind_res (ReadMem (mach vm) addr sz) (\<lambda>a.
     case a of
       Access v m \<Rightarrow> Inr (Some v, vm\<lparr>mach := m\<rparr>)
     | Fault which m \<Rightarrow> bind_res (handle_fault pt which (vm\<lparr>mach := m\<rparr>)) (\<lambda>vm. Inr (None, vm)))"

definition user_WriteMem :: "nat \<Rightarrow> u32 \<Rightarrow> int \<Rightarrow> u32 \<Rightarrow> VM \<Rightarrow> (unit option \<times> VM) res" where
  "user_WriteMem pt addr sz value vm =
     bind_res (WriteMem (mach vm) addr sz value) (\<lambda>a.
     case a of
       Access v m \<Rightarrow> Inr (Some v, vm\<lparr>mach := m\<rparr>)
     | Fault which m \<Rightarrow> bind_res (handle_fault pt which (vm\<lparr>mach := m\<rparr>)) (\<lambda>vm. Inr (None, vm)))"

text \<open>\<open>if (!ReadMem(...)) ReadMem(...)\<close>: the access is repeated once, as the kernel does and as an instruction that faulted is.\<close>

definition retry :: "(VM \<Rightarrow> ('a option \<times> VM) res) \<Rightarrow> VM \<Rightarrow> ('a option \<times> VM) res" where
  "retry access vm = bind_res (access vm) (\<lambda>(r, vm). if r = None then access vm else Inr (r, vm))"

section \<open>Loading a program\<close>

record Segment =
  virtualAddr :: int
  inFileAddr :: int
  segSize :: int                        \<comment> \<open>\<open>size\<close>\<close>

record NoffHeader =
  noffMagic :: int
  code :: Segment
  initData :: Segment
  readonlyData :: Segment
  uninitData :: Segment

definition NOFFMAGIC :: int where "NOFFMAGIC = 0xbadfad"
definition UserStackSize :: int where "UserStackSize = 1024"

definition segment_of :: "int list \<Rightarrow> Segment" where
  "segment_of is = \<lparr>virtualAddr = is ! 0, inFileAddr = is ! 1, segSize = is ! 2\<rparr>"

text \<open>The header as it lies in memory, 52 bytes with \<open>RDATA\<close> defined.\<close>

definition bytes_to_noff :: "byte list \<Rightarrow> NoffHeader" where
  "bytes_to_noff bs =
     (let is = bytes_to_ints bs
      in \<lparr>noffMagic = is ! 0, code = segment_of (drop 1 is), initData = segment_of (drop 4 is),
          readonlyData = segment_of (drop 7 is), uninitData = segment_of (drop 10 is)\<rparr>)"

definition swap_word :: "int \<Rightarrow> int" where
  "swap_word i = sint (WordToHost (word_of_int i))"

definition swap_segment :: "Segment \<Rightarrow> Segment" where
  "swap_segment s = \<lparr>virtualAddr = swap_word (virtualAddr s), inFileAddr = swap_word (inFileAddr s), segSize = swap_word (segSize s)\<rparr>"

definition SwapHeader :: "NoffHeader \<Rightarrow> NoffHeader" where
  "SwapHeader h = \<lparr>noffMagic = swap_word (noffMagic h), code = swap_segment (code h), initData = swap_segment (initData h),
     readonlyData = swap_segment (readonlyData h), uninitData = swap_segment (uninitData h)\<rparr>"

definition space_pages :: "NoffHeader \<Rightarrow> u32" where
  "space_pages h =
     (let size = word_of_int (segSize (code h)) + word_of_int (segSize (readonlyData h)) + word_of_int (segSize (initData h))
           + word_of_int (segSize (uninitData h)) + word_of_int UserStackSize :: u32
      in size div word_of_int PageSize + (if size mod word_of_int PageSize > 0 then 1 else 0))"

text \<open>
  The loop over the pages. The array \<open>pageTable\<close> is at address \<open>newTable\<close>; its elements appear as they are initialised,
  in order. \<open>buffer\<close> is \<open>new char[PageSize]\<close>, uninitialised where \<open>ReadAt\<close> returns fewer bytes.
\<close>

fun load_pages :: "nat \<Rightarrow> nat \<Rightarrow> OpenFile \<Rightarrow> int \<Rightarrow> VM \<Rightarrow> VM res" where
  "load_pages 0 i executable addr vm = Inr vm"
| "load_pages (Suc n) i executable addr vm =
     (let v = swapSpace_counter vm;
          m = (mach vm)\<lparr>tables := (tables (mach vm))(newTable vm := tables (mach vm) (newTable vm) @
                [\<lparr>virtualPage = v, physicalPage = -1, valid = False, readOnly = False, useBit = False, dirty = False\<rparr>])\<rparr>
      in bind_res (ReadAt executable (dsk (files vm)) PageSize (addr + int i * PageSize)) (\<lambda>(r, bs).
         let buffer = overwrite (map (uninit (files vm)) [0..<nat PageSize]) 0 bs
         in bind_res (WriteAt (swapSpace vm) (uninit (files vm)) (dsk (files vm)) buffer PageSize (v * PageSize)) (\<lambda>(w, d).
            load_pages n (i + 1) executable addr
              (vm\<lparr>mach := m, files := (files vm)\<lparr>dsk := d\<rparr>, swapSpace_counter := v + 1\<rparr>))))"

text \<open>\<open>Load\<close> returns what \<open>pageTable\<close> and \<open>numPages\<close> are set to; \<open>None\<close> is a member it leaves uninitialised.\<close>

definition Load :: "byte list \<Rightarrow> VM \<Rightarrow> (bool \<times> (nat option \<times> u32) option \<times> VM) res" where
  "Load fileName vm =
     bind_res (Open (files vm) fileName 1) (\<lambda>(f, out, k).
     case f of
       None \<Rightarrow> Inr (False, None, vm\<lparr>files := k\<rparr>)
     | Some executable \<Rightarrow>
         bind_res (ReadAt executable (dsk k) 52 0) (\<lambda>(r, bs).
         let h = bytes_to_noff (overwrite (map (uninit k) [0..<52]) 0 bs);
             h = (if noffMagic h \<noteq> NOFFMAGIC \<and> swap_word (noffMagic h) = NOFFMAGIC then SwapHeader h else h);
             numPages = space_pages h
         in ASSERT (noffMagic h = NOFFMAGIC)
            (if segSize (code h) > 0 then
               bind_res (load_pages (unat numPages) 0 executable (inFileAddr (code h))
                  (vm\<lparr>files := k, mach := (mach vm)\<lparr>tables := (tables (mach vm))(newTable vm := [])\<rparr>\<rparr>)) (\<lambda>vm'.
               Inr (True, Some (Some (newTable vm), numPages),
                 vm'\<lparr>newTable := newTable vm + 1, files := OpenFile_delete executable (files vm')\<rparr>))
             else Inr (True, Some (None, numPages), vm\<lparr>files := OpenFile_delete executable k\<rparr>))))"

section \<open>The swap file\<close>

definition swapSpace_name :: "byte list" where "swapSpace_name = [115, 119, 97, 112, 83, 112, 97, 99, 101]"

text \<open>
  What \<open>Kernel::Initialize\<close> does to get \<open>swapSpace\<close> on the Nachos disk; \<open>None\<close> is \<open>NULL\<close> where \<open>Open\<close> finds no file, and a
  member left uninitialised where \<open>Create\<close> fails.
\<close>

definition open_swapSpace :: "FileSystem \<Rightarrow> kstate \<Rightarrow> (OpenFile option \<times> kstate) res" where
  "open_swapSpace fs k =
     bind_res (Create fs k swapSpace_name 0 1) (\<lambda>(ok, k).
     if ok then bind_res (Open k swapSpace_name 1) (\<lambda>(f, out, k). Inr (f, k)) else Inr (None, k))"

section \<open>Starting a program\<close>

fun clear_registers :: "nat \<Rightarrow> int \<Rightarrow> Machine \<Rightarrow> Machine res" where
  "clear_registers 0 i m = Inr m"
| "clear_registers (Suc n) i m = bind_res (WriteRegister m i 0) (clear_registers n (i + 1))"

definition InitRegisters :: "u32 \<Rightarrow> Machine \<Rightarrow> Machine res" where
  "InitRegisters numPages m =
     bind_res (clear_registers NumTotalRegs 0 m) (\<lambda>m.
     bind_res (WriteRegister m (int PCReg) 0) (\<lambda>m.
     bind_res (WriteRegister m (int NextPCReg) 4) (\<lambda>m.
     WriteRegister m (int StackReg) (numPages * word_of_int PageSize - 16))))"

text \<open>\<open>Execute\<close> up to \<open>Machine::Run\<close>.\<close>

definition Execute :: "nat \<times> u32 \<Rightarrow> Machine \<Rightarrow> Machine res" where
  "Execute sp m = bind_res (InitRegisters (snd sp) m) (\<lambda>m. Inr (RestoreState sp m))"

text \<open>The kernel's own translation, which does not look at \<open>valid\<close>.\<close>

definition AddrSpace_Translate :: "nat \<times> u32 \<Rightarrow> u32 \<Rightarrow> bool \<Rightarrow> Machine \<Rightarrow> (ExceptionType \<times> u32 \<times> Machine) res" where
  "AddrSpace_Translate sp vaddr isReadWrite m =
     (let vpn = vaddr div word_of_int PageSize; offset = vaddr mod word_of_int PageSize
      in if vpn \<ge> snd sp then Inr (AddressErrorException, 0, m)
         else CHECK_BOUNDS (unat vpn < length (tables m (fst sp)))
           (let pte = tables m (fst sp) ! unat vpn; pfn = physicalPage pte
            in if isReadWrite \<and> readOnly pte then Inr (ReadOnlyException, 0, m)
               else if pfn \<ge> NumPhysPages then Inr (BusErrorException, 0, m)
               else
                 let pte = pte\<lparr>useBit := True\<rparr>;
                     pte = (if isReadWrite then pte\<lparr>dirty := True\<rparr> else pte);
                     paddr = word_of_int (pfn * PageSize) + offset
                 in ASSERT (paddr < word_of_int MemorySize)
                      (Inr (NoException, paddr, m\<lparr>tables := (tables m)(fst sp := (tables m (fst sp))[unat vpn := pte])\<rparr>))))"

end
