(* ===== verification/Paging.thy ===== *)
theory Paging
  imports AddrSpace FileSystemCorrect
begin

text \<open>
  Demand paging is invisible to user programs: the bytes of every page of every address space, wherever they are, stay
  the same through page faults, and are what loads and stores of the program see.
\<close>

section \<open>Entries\<close>

declare split_paired_All [simp del] split_paired_Ex [simp del]

definition ptr_ok :: "VM \<Rightarrow> entry_ptr \<Rightarrow> bool" where
  "ptr_ok vm e \<longleftrightarrow> snd e < length (tables (mach vm) (fst e))"

abbreviation frame_of :: "VM \<Rightarrow> entry_ptr \<Rightarrow> int" where
  "frame_of vm e \<equiv> physicalPage (entry_at vm e)"

lemma entry_at_set [simp]:
  "ptr_ok vm e \<Longrightarrow> entry_at (set_pte e f vm) p = (if p = e then f (entry_at vm e) else entry_at vm p)"
  by (cases p; cases e) (auto simp: entry_at_def set_pte_def ptr_ok_def)

lemma ptr_ok_set [simp]: "ptr_ok (set_pte e f vm) p = ptr_ok vm p"
  by (cases p; cases e) (auto simp: set_pte_def ptr_ok_def)

lemma set_pte_fields [simp]:
  "files (set_pte e f vm) = files vm" "swapSpace (set_pte e f vm) = swapSpace vm"
  "swapSpace_counter (set_pte e f vm) = swapSpace_counter vm" "FIFOEntryList (set_pte e f vm) = FIFOEntryList vm"
  "frameMap (set_pte e f vm) = frameMap vm" "newTable (set_pte e f vm) = newTable vm"
  "mainMemory (mach (set_pte e f vm)) = mainMemory (mach vm)" "registers (mach (set_pte e f vm)) = registers (mach vm)"
  "tlb (mach (set_pte e f vm)) = tlb (mach vm)" "pageTable (mach (set_pte e f vm)) = pageTable (mach vm)"
  "pageTableSize (mach (set_pte e f vm)) = pageTableSize (mach vm)"
  "length (tables (mach (set_pte e f vm)) t) = length (tables (mach vm) t)"
  by (simp_all add: set_pte_def)

lemma entry_at_cong: "tables (mach vm') = tables (mach vm) \<Longrightarrow> entry_at vm' = entry_at vm"
  by (simp add: entry_at_def fun_eq_iff)

lemma ptr_ok_cong: "tables (mach vm') = tables (mach vm) \<Longrightarrow> ptr_ok vm' = ptr_ok vm"
  by (simp add: ptr_ok_def fun_eq_iff)

section \<open>The invariant\<close>

text \<open>
  \<open>F\<close> is the set of frames that are marked in the bitmap but hold no page: none between two page faults, the frame about
  to be filled in the middle of one.
\<close>

definition vm_inv :: "int set \<Rightarrow> VM \<Rightarrow> bool" where
  "vm_inv F vm \<longleftrightarrow>
     length (mainMemory (mach vm)) = 4096 \<and> wf_bitmap (frameMap vm) \<and> numBits (frameMap vm) = 32
     \<and> file_ok (dsk (files vm)) (hdr (swapSpace vm))
     \<and> 0 \<le> swapSpace_counter vm \<and> swapSpace_counter vm * 128 \<le> numBytes (hdr (swapSpace vm))
     \<and> distinct (FIFOEntryList vm) \<and> (\<forall>e\<in>set (FIFOEntryList vm). ptr_ok vm e)
     \<and> (\<forall>e. ptr_ok vm e \<longrightarrow> (valid (entry_at vm e) \<longleftrightarrow> e \<in> set (FIFOEntryList vm))
          \<and> 0 \<le> virtualPage (entry_at vm e) \<and> virtualPage (entry_at vm e) < swapSpace_counter vm)
     \<and> inj_on (\<lambda>e. virtualPage (entry_at vm e)) {e. ptr_ok vm e}
     \<and> inj_on (frame_of vm) (set (FIFOEntryList vm))
     \<and> frame_of vm ` set (FIFOEntryList vm) \<inter> F = {} \<and> frame_of vm ` set (FIFOEntryList vm) \<union> F = marked (frameMap vm)
     \<and> (\<forall>t\<ge>newTable vm. tables (mach vm) t = [])"

abbreviation vm_ok :: "VM \<Rightarrow> bool" where
  "vm_ok vm \<equiv> vm_inv {} vm"

definition page_in :: "byte list \<Rightarrow> int \<Rightarrow> byte list" where
  "page_in bs n = take 128 (drop (nat (n * 128)) bs)"

text \<open>What is in a page, in main memory or on the disk.\<close>

definition page_bytes :: "VM \<Rightarrow> entry_ptr \<Rightarrow> byte list" where
  "page_bytes vm e =
     (if valid (entry_at vm e) then page_in (mainMemory (mach vm)) (frame_of vm e)
      else page_in (bytes_of (dsk (files vm)) (hdr (swapSpace vm))) (virtualPage (entry_at vm e)))"

lemma marked_bounds: "n \<in> marked b \<Longrightarrow> 0 \<le> n \<and> n < numBits b"
  by (simp add: marked_def)

lemma length_page_in: "0 \<le> n \<Longrightarrow> n * 128 + 128 \<le> int (length bs) \<Longrightarrow> length (page_in bs n) = 128"
  by (simp add: page_in_def nat_le_iff le_diff_conv)

lemma page_in_overwrite:
  assumes "0 \<le> n" "0 \<le> m" "length ys = 128" "n * 128 + 128 \<le> int (length bs)" "m * 128 + 128 \<le> int (length bs)"
  shows "page_in (overwrite bs (nat (n * 128)) ys) m = (if m = n then ys else page_in bs m)"
proof (cases "m = n")
  case True
  then show ?thesis using assms by (simp add: page_in_def overwrite_def)
next
  case False
  then have "m + 1 \<le> n \<or> n + 1 \<le> m" by linarith
  then have "nat (m * 128) + 128 \<le> nat (n * 128) \<or> nat (n * 128) + length ys \<le> nat (m * 128)" using assms by auto
  then show ?thesis using False assms unfolding page_in_def by (simp add: take_drop_overwrite_other)
qed

text \<open>Reading and writing one page of the swap file.\<close>

lemma swap_read:
  assumes "file_ok d (hdr f)" "0 \<le> v" "v * 128 + 128 \<le> numBytes (hdr f)"
  shows "ReadAt f d PageSize (v * PageSize) = Inr (128, page_in (bytes_of d (hdr f)) v)" "length (page_in (bytes_of d (hdr f)) v) = 128"
proof -
  have "transfer (hdr f) 128 (v * 128) = 128" using assms(2,3) by (simp add: transfer_def)
  then show "ReadAt f d PageSize (v * PageSize) = Inr (128, page_in (bytes_of d (hdr f)) v)"
    using ReadAt_ok [OF assms(1), of "v * 128" 128] assms(2) by (simp add: PageSize_def page_in_def)
  have "0 \<le> v * 128" using assms(2) by simp
  then have "int (length (bytes_of d (hdr f))) = numBytes (hdr f)" using assms by simp
  then show "length (page_in (bytes_of d (hdr f)) v) = 128" using assms by (intro length_page_in) simp_all
qed

lemma swap_write:
  assumes "file_ok d (hdr f)" "0 \<le> v" "v * 128 + 128 \<le> numBytes (hdr f)" "length bs = 128"
  shows "\<exists>d'. WriteAt f g d bs PageSize (v * PageSize) = Inr (128, d') \<and> file_ok d' (hdr f)
    \<and> (\<forall>w. 0 \<le> w \<longrightarrow> w * 128 + 128 \<le> numBytes (hdr f) \<longrightarrow>
         page_in (bytes_of d' (hdr f)) w = (if w = v then bs else page_in (bytes_of d (hdr f)) w))
    \<and> hdr_data d' (hdr f) = hdr_data d (hdr f) \<and> (\<forall>s. s \<notin> set (hdr_data d (hdr f)) \<longrightarrow> d' s = d s)"
proof -
  have "transfer (hdr f) 128 (v * 128) = 128" using assms(2,3) by (simp add: transfer_def)
  then obtain d' where d': "WriteAt f g d bs 128 (v * 128) = Inr (128, d')" "file_ok d' (hdr f)" "hdr_data d' (hdr f) = hdr_data d (hdr f)"
    "bytes_of d' (hdr f) = overwrite (bytes_of d (hdr f)) (nat (v * 128)) bs" "\<forall>s. s \<notin> set (hdr_data d (hdr f)) \<longrightarrow> d' s = d s"
    using WriteAt_ok [OF assms(1), of "v * 128" 128 bs g] assms(2,4) by auto
  have "0 \<le> v * 128" using assms(2) by simp
  then have "int (length (bytes_of d (hdr f))) = numBytes (hdr f)" using assms by simp
  then have "page_in (bytes_of d' (hdr f)) w = (if w = v then bs else page_in (bytes_of d (hdr f)) w)"
    if "0 \<le> w" "w * 128 + 128 \<le> numBytes (hdr f)" for w
    using page_in_overwrite [of v w bs "bytes_of d (hdr f)"] assms that d'(4) by simp
  then show ?thesis using d' by (auto simp: PageSize_def)
qed

section \<open>Bringing a page in\<close>

text \<open>What a fault keeps of the machine.\<close>

definition same_user :: "VM \<Rightarrow> VM \<Rightarrow> bool" where
  "same_user vm vm' \<longleftrightarrow> registers (mach vm') = registers (mach vm) \<and> tlb (mach vm') = tlb (mach vm)
     \<and> pageTable (mach vm') = pageTable (mach vm) \<and> pageTableSize (mach vm') = pageTableSize (mach vm)
     \<and> (\<forall>t. length (tables (mach vm') t) = length (tables (mach vm) t))
     \<and> swapSpace vm' = swapSpace vm \<and> swapSpace_counter vm' = swapSpace_counter vm \<and> newTable vm' = newTable vm
     \<and> (\<forall>e. ptr_ok vm e \<longrightarrow> virtualPage (entry_at vm' e) = virtualPage (entry_at vm e) \<and> readOnly (entry_at vm' e) = readOnly (entry_at vm e))
     \<and> (\<forall>e. ptr_ok vm e \<longrightarrow> page_bytes vm' e = page_bytes vm e)"

lemma same_user_refl [simp]: "same_user vm vm"
  by (simp add: same_user_def)

lemma same_user_ptr: "same_user vm vm' \<Longrightarrow> ptr_ok vm' e = ptr_ok vm e"
  by (simp add: same_user_def ptr_ok_def)

lemma same_user_trans [trans]: "same_user vm vm1 \<Longrightarrow> same_user vm1 vm2 \<Longrightarrow> same_user vm vm2"
  using same_user_ptr [of vm vm1] unfolding same_user_def by auto

lemma vm_invD:
  assumes "vm_inv F vm" "ptr_ok vm e"
  shows "valid (entry_at vm e) \<longleftrightarrow> e \<in> set (FIFOEntryList vm)" "0 \<le> virtualPage (entry_at vm e)"
    "virtualPage (entry_at vm e) * 128 + 128 \<le> numBytes (hdr (swapSpace vm))"
    "valid (entry_at vm e) \<Longrightarrow> 0 \<le> frame_of vm e \<and> frame_of vm e < 32 \<and> frame_of vm e \<notin> F"
proof -
  show v: "valid (entry_at vm e) \<longleftrightarrow> e \<in> set (FIFOEntryList vm)" "0 \<le> virtualPage (entry_at vm e)" using assms unfolding vm_inv_def by blast+
  have "virtualPage (entry_at vm e) < swapSpace_counter vm" "swapSpace_counter vm * 128 \<le> numBytes (hdr (swapSpace vm))"
    using assms unfolding vm_inv_def by blast+
  then show "virtualPage (entry_at vm e) * 128 + 128 \<le> numBytes (hdr (swapSpace vm))" by linarith
  assume "valid (entry_at vm e)"
  then have "e \<in> set (FIFOEntryList vm)" using v by simp
  then have "frame_of vm e \<in> marked (frameMap vm)" "frame_of vm e \<notin> F" using assms(1) unfolding vm_inv_def by blast+
  then show "0 \<le> frame_of vm e \<and> frame_of vm e < 32 \<and> frame_of vm e \<notin> F"
    using marked_bounds [of "frame_of vm e" "frameMap vm"] assms(1) by (simp add: vm_inv_def)
qed

lemma swap_in_ok:
  assumes i: "vm_inv {n} vm" and e: "ptr_ok vm e" "\<not> valid (entry_at vm e)"
  shows "\<exists>vm'. swap_in e n vm = Inr vm' \<and> vm_ok vm' \<and> same_user vm vm' \<and> valid (entry_at vm' e) \<and> files vm' = files vm"
proof -
  let ?v = "virtualPage (entry_at vm e)" and ?bs = "bytes_of (dsk (files vm)) (hdr (swapSpace vm))"
  define vm1 where "vm1 = set_pte e (\<lambda>t. t\<lparr>physicalPage := n, valid := True\<rparr>) vm"
  have "n \<in> marked (frameMap vm)" using i by (auto simp: vm_inv_def)
  then have n: "0 \<le> n" "n < 32" using marked_bounds [of n "frameMap vm"] i by (simp_all add: vm_inv_def)
  have len: "length (mainMemory (mach vm)) = 4096" and ok: "file_ok (dsk (files vm)) (hdr (swapSpace vm))" using i by (simp_all add: vm_inv_def)
  note r = swap_read [OF ok vm_invD(2,3) [OF i e(1)]]
  have nq: "e \<notin> set (FIFOEntryList vm)" using vm_invD(1) [OF i e(1)] e(2) by simp
  have fits: "nat (n * 128) + 128 \<le> 4096" using n by linarith
  define vm' where "vm' = vm1\<lparr>mach := (mach vm1)\<lparr>mainMemory := overwrite (mainMemory (mach vm)) (nat (n * 128)) (page_in ?bs ?v)\<rparr>,
    FIFOEntryList := FIFOEntryList vm @ [e]\<rparr>"
  have s: "swap_in e n vm = Inr vm'"
    using r nq n fits len e(1) by (simp add: swap_in_def Let_def vm1_def [symmetric] vm'_def list_Append_def) (simp add: vm1_def PageSize_def)
  have ent: "entry_at vm' p = (if p = e then (entry_at vm e)\<lparr>physicalPage := n, valid := True\<rparr> else entry_at vm p)" for p
    using entry_at_cong [of vm' vm1] e(1) by (simp add: vm'_def vm1_def)
  have ptr: "ptr_ok vm' p = ptr_ok vm p" for p using ptr_ok_cong [of vm' vm1] by (simp add: vm'_def vm1_def)
  have mem: "mainMemory (mach vm') = overwrite (mainMemory (mach vm)) (nat (n * 128)) (page_in ?bs ?v)" by (simp add: vm'_def)
  have fifo: "FIFOEntryList vm' = FIFOEntryList vm @ [e]" by (simp add: vm'_def)
  have rest: "files vm' = files vm" "swapSpace vm' = swapSpace vm" "swapSpace_counter vm' = swapSpace_counter vm" "frameMap vm' = frameMap vm"
    "newTable vm' = newTable vm" "registers (mach vm') = registers (mach vm)" "tlb (mach vm') = tlb (mach vm)"
    "pageTable (mach vm') = pageTable (mach vm)" "pageTableSize (mach vm') = pageTableSize (mach vm)"
    "\<forall>t. length (tables (mach vm') t) = length (tables (mach vm) t)" by (simp_all add: vm'_def vm1_def)
  have img: "frame_of vm' ` set (FIFOEntryList vm) = frame_of vm ` set (FIFOEntryList vm)" using nq by (intro image_cong) (auto simp: ent)
  have vp: "virtualPage (entry_at vm' p) = virtualPage (entry_at vm p)" for p by (simp add: ent)
  have "page_bytes vm' p = page_bytes vm p" if p: "ptr_ok vm p" for p
  proof (cases "p = e")
    case True
    then show ?thesis using page_in_overwrite [of n n "page_in ?bs ?v" "mainMemory (mach vm)"] n r(2) len e(2) by (simp add: page_bytes_def ent mem)
  next
    case False
    then have "frame_of vm p \<noteq> n \<and> page_in (mainMemory (mach vm')) (frame_of vm p) = page_in (mainMemory (mach vm)) (frame_of vm p)" if "valid (entry_at vm p)"
      using page_in_overwrite [of n "frame_of vm p" "page_in ?bs ?v" "mainMemory (mach vm)"] n r(2) len vm_invD(4) [OF i p that] by (simp add: mem)
    then show ?thesis using False by (simp add: page_bytes_def ent rest)
  qed
  then have su: "same_user vm vm'" using rest by (simp add: same_user_def ent)
  have inj: "inj_on (frame_of vm) (set (FIFOEntryList vm))" using i by (simp add: vm_inv_def)
  have "inj_on (frame_of vm') (set (FIFOEntryList vm'))"
  proof -
    have "inj_on (frame_of vm') (set (FIFOEntryList vm))" using inj nq by (auto simp: inj_on_def ent)
    moreover have "frame_of vm' e \<notin> frame_of vm' ` set (FIFOEntryList vm)" unfolding img using i by (simp add: ent vm_inv_def)
    ultimately show ?thesis using nq by (simp add: fifo)
  qed
  moreover have "inj_on (\<lambda>p. virtualPage (entry_at vm' p)) {p. ptr_ok vm' p}" unfolding vp ptr using i by (simp add: vm_inv_def)
  moreover have "frame_of vm' ` set (FIFOEntryList vm') = marked (frameMap vm')" using i img by (auto simp: fifo rest ent vm_inv_def)
  moreover have "\<forall>t\<ge>newTable vm'. tables (mach vm') t = []" using i rest(5,10) unfolding vm_inv_def by (metis length_0_conv)
  ultimately have "vm_ok vm'" using i nq e r(2) fits len unfolding vm_inv_def fifo ptr rest mem by (auto simp: ent)
  then show ?thesis using s su ent [of e] rest(1) by simp
qed

section \<open>Evicting a page\<close>

lemma swap_out_ok:
  assumes i: "vm_ok vm" and q: "FIFOEntryList vm = e # l"
  defines "n \<equiv> frame_of vm e"
  shows "\<exists>vm'. swap_out e (vm\<lparr>FIFOEntryList := l\<rparr>) = Inr vm' \<and> vm_inv {n} vm' \<and> same_user vm vm' \<and> \<not> valid (entry_at vm' e)
    \<and> (\<forall>p. p \<noteq> e \<longrightarrow> valid (entry_at vm' p) = valid (entry_at vm p)) \<and> FIFOEntryList vm' = l
    \<and> hdr_data (dsk (files vm')) (hdr (swapSpace vm)) = hdr_data (dsk (files vm)) (hdr (swapSpace vm))
    \<and> (\<exists>d. files vm' = (files vm)\<lparr>dsk := d\<rparr>) \<and> (\<forall>s. s \<notin> set (hdr_data (dsk (files vm)) (hdr (swapSpace vm))) \<longrightarrow> dsk (files vm') s = dsk (files vm) s)"
proof -
  let ?v = "virtualPage (entry_at vm e)" and ?d = "dsk (files vm)" and ?h = "hdr (swapSpace vm)"
  have eq: "e \<in> set (FIFOEntryList vm)" "e \<notin> set l" "distinct l" using i q by (auto simp: vm_inv_def)
  then have e: "ptr_ok vm e" using i unfolding vm_inv_def by blast
  then have v: "valid (entry_at vm e)" using vm_invD(1) [OF i e] eq by simp
  have n: "0 \<le> n" "n < 32" using vm_invD(4) [OF i e v] by (simp_all add: n_def)
  have len: "length (mainMemory (mach vm)) = 4096" and ok: "file_ok ?d ?h" using i by (simp_all add: vm_inv_def)
  have pl: "length (page_in (mainMemory (mach vm)) n) = 128" using n len by (intro length_page_in) simp_all
  obtain d' where d': "WriteAt (swapSpace vm) (uninit (files vm)) ?d (page_in (mainMemory (mach vm)) n) PageSize (?v * PageSize) = Inr (128, d')"
    "file_ok d' ?h" "\<forall>w. 0 \<le> w \<longrightarrow> w * 128 + 128 \<le> numBytes ?h \<longrightarrow>
       page_in (bytes_of d' ?h) w = (if w = ?v then page_in (mainMemory (mach vm)) n else page_in (bytes_of ?d ?h) w)"
    "hdr_data d' ?h = hdr_data ?d ?h" "\<forall>s. s \<notin> set (hdr_data ?d ?h) \<longrightarrow> d' s = ?d s"
    using swap_write [OF ok vm_invD(2,3) [OF i e] pl] by blast
  define vm0 where "vm0 = vm\<lparr>FIFOEntryList := l, files := (files vm)\<lparr>dsk := d'\<rparr>\<rparr>"
  define vm' where "vm' = set_pte e (\<lambda>t. t\<lparr>physicalPage := -1, valid := False\<rparr>) vm0"
  have e0: "entry_at vm0 = entry_at vm" "ptr_ok vm0 = ptr_ok vm" by (rule entry_at_cong ptr_ok_cong; simp add: vm0_def)+
  have en: "entry_at (vm\<lparr>FIFOEntryList := l\<rparr>) = entry_at vm" by (rule entry_at_cong) simp
  have s: "swap_out e (vm\<lparr>FIFOEntryList := l\<rparr>) = Inr vm'"
    using d'(1) n len by (simp add: swap_out_def Let_def en page_in_def PageSize_def n_def [symmetric] vm'_def vm0_def nat_le_iff)
  have ent: "entry_at vm' p = (if p = e then (entry_at vm e)\<lparr>physicalPage := -1, valid := False\<rparr> else entry_at vm p)" for p
    using e by (simp add: vm'_def e0)
  have ptr: "ptr_ok vm' p = ptr_ok vm p" for p by (simp add: vm'_def e0)
  have rest: "FIFOEntryList vm' = l" "files vm' = (files vm)\<lparr>dsk := d'\<rparr>" "swapSpace vm' = swapSpace vm" "swapSpace_counter vm' = swapSpace_counter vm"
    "frameMap vm' = frameMap vm" "newTable vm' = newTable vm" "mainMemory (mach vm') = mainMemory (mach vm)" "registers (mach vm') = registers (mach vm)"
    "tlb (mach vm') = tlb (mach vm)" "pageTable (mach vm') = pageTable (mach vm)" "pageTableSize (mach vm') = pageTableSize (mach vm)"
    "\<forall>t. length (tables (mach vm') t) = length (tables (mach vm) t)" by (simp_all add: vm'_def vm0_def)
  have "inj_on (\<lambda>p. virtualPage (entry_at vm p)) {p. ptr_ok vm p}" using i by (simp add: vm_inv_def)
  then have vinj: "virtualPage (entry_at vm p) = ?v \<Longrightarrow> ptr_ok vm p \<Longrightarrow> p = e" for p using e by (auto dest: inj_onD)
  have vp: "virtualPage (entry_at vm' p) = virtualPage (entry_at vm p)" for p by (simp add: ent)
  have "page_bytes vm' p = page_bytes vm p" if p: "ptr_ok vm p" for p
  proof (cases "p = e")
    case True
    then show ?thesis using d'(3) vm_invD(2,3) [OF i e] v by (simp add: page_bytes_def ent rest n_def)
  next
    case False
    then have "virtualPage (entry_at vm p) \<noteq> ?v" using vinj p by blast
    then show ?thesis using False d'(3) vm_invD(2,3) [OF i p] by (simp add: page_bytes_def ent rest)
  qed
  then have su: "same_user vm vm'" using rest by (simp add: same_user_def ent)
  have img: "frame_of vm' ` set l = frame_of vm ` set l" using eq(2) by (intro image_cong) (auto simp: ent)
  have "inj_on (frame_of vm) (set (FIFOEntryList vm))" "frame_of vm ` set (FIFOEntryList vm) = marked (frameMap vm)" using i by (simp_all add: vm_inv_def)
  then have inj: "inj_on (frame_of vm) (set (e # l))" "frame_of vm ` set (e # l) = marked (frameMap vm)" unfolding q by simp_all
  have "inj_on (frame_of vm') (set l)" using inj(1) eq(2) by (auto simp: inj_on_def ent)
  moreover have "frame_of vm' ` set l \<inter> {n} = {}" "frame_of vm' ` set l \<union> {n} = marked (frameMap vm')"
    unfolding img rest using inj eq(2) by (auto simp: n_def inj_on_def)
  moreover have "inj_on (\<lambda>p. virtualPage (entry_at vm' p)) {p. ptr_ok vm' p}" unfolding vp ptr using i by (simp add: vm_inv_def)
  moreover have "\<forall>t\<ge>newTable vm'. tables (mach vm') t = []" using i rest(6,12) unfolding vm_inv_def by (metis length_0_conv)
  moreover have "valid (entry_at vm' p) \<longleftrightarrow> p \<in> set l" if "ptr_ok vm p" for p using vm_invD(1) [OF i that] eq(2) q by (auto simp: ent)
  ultimately have "vm_inv {n} vm'" using i q eq d'(2) unfolding vm_inv_def ptr rest by (simp add: ent)
  moreover have "\<exists>d. files vm' = (files vm)\<lparr>dsk := d\<rparr>" using rest(2) by blast
  ultimately show ?thesis using s su d'(4,5) v by (simp add: rest(1,3-) ent) (simp add: rest(2))
qed

lemma PageFault_ok:
  assumes i: "vm_ok vm" and r: "length (registers (mach vm)) = 40" "registers (mach vm) ! BadVAddrReg = a" "0 \<le> sint a"
    and e: "e = (pt, nat (sint a div 128))" "ptr_ok vm e" "\<not> valid (entry_at vm e)"
  shows "\<exists>vm'. PageFault pt vm = Inr vm' \<and> vm_ok vm' \<and> same_user vm vm' \<and> valid (entry_at vm' e)
    \<and> (\<exists>d. files vm' = (files vm)\<lparr>dsk := d\<rparr>) \<and> (\<forall>s. s \<notin> set (hdr_data (dsk (files vm)) (hdr (swapSpace vm))) \<longrightarrow> dsk (files vm') s = dsk (files vm) s)"
proof -
  have b: "wf_bitmap (frameMap vm)" "numBits (frameMap vm) = 32" using i by (simp_all add: vm_inv_def)
  have g: "getPageEntry vm1 pt (sint a sdiv PageSize) = Inr e" if "tables (mach vm1) = tables (mach vm)" for vm1
    using e(1,2) r(3) that by (simp add: getPageEntry_def ptr_ok_def PageSize_def sdiv_nonneg pos_imp_zdiv_nonneg_iff zless_nat_conj nat_less_iff)
  have rr: "ReadRegister (mach vm) (int BadVAddrReg) = Inr a" using r by (simp add: ReadRegister_def reg_defs)
  show ?thesis
  proof (cases "free_bits (frameMap vm) = {}")
    case False
    let ?n = "Min (free_bits (frameMap vm))"
    let ?vm = "vm\<lparr>frameMap := set_bit_at (frameMap vm) ?n\<rparr>"
    have n: "?n \<in> free_bits (frameMap vm)" "0 \<le> ?n" "?n < 32" using False b free_bits_nonempty_Min [of "frameMap vm"] Min_in by auto
    have "?n \<noteq> -1" using n(2) by linarith
    note n = n this
    have c: "entry_at ?vm = entry_at vm" "ptr_ok ?vm = ptr_ok vm" by (rule entry_at_cong ptr_ok_cong; simp)+
    have "?n \<notin> marked (frameMap vm)" using n(1) by (simp add: free_bits_def)
    then have "vm_inv {?n} ?vm" using i b n unfolding vm_inv_def c by auto
    then obtain vm' where vm': "swap_in e ?n ?vm = Inr vm'" "vm_ok vm'" "same_user ?vm vm'" "valid (entry_at vm' e)" "files vm' = files vm"
      using swap_in_ok [of ?n ?vm e] e(2,3) c by auto
    have "same_user vm ?vm" by (simp add: same_user_def c page_bytes_def)
    then have "same_user vm vm'" using vm'(3) by (rule same_user_trans)
    moreover have "PageFault pt vm = swap_in e ?n ?vm"
      using rr FindAndSet_eq [OF b(1)] False n(4) g [of ?vm] by (simp add: PageFault_def Let_def)
    moreover have "\<exists>d. files vm' = (files vm)\<lparr>dsk := d\<rparr>" using vm'(5) by (intro exI [of _ "dsk (files vm)"]) simp
    ultimately show ?thesis using vm' by auto
  next
    case True
    then have "marked (frameMap vm) = {0..<32}" using b marked_free [of "frameMap vm"] by simp
    then have "FIFOEntryList vm \<noteq> []" using i by (auto simp: vm_inv_def)
    then obtain v l where q: "FIFOEntryList vm = v # l" by (cases "FIFOEntryList vm") auto
    have ve: "v \<noteq> e" using vm_invD(1) [OF i e(2)] e(3) q by auto
    obtain vm1 d where vm1: "swap_out v (vm\<lparr>FIFOEntryList := l\<rparr>) = Inr vm1" "vm_inv {frame_of vm v} vm1" "same_user vm vm1"
      "\<forall>p. p \<noteq> v \<longrightarrow> valid (entry_at vm1 p) = valid (entry_at vm p)" "files vm1 = (files vm)\<lparr>dsk := d\<rparr>"
      "\<forall>s. s \<notin> set (hdr_data (dsk (files vm)) (hdr (swapSpace vm))) \<longrightarrow> dsk (files vm1) s = dsk (files vm) s"
      using swap_out_ok [OF i q] by blast
    obtain vm' where vm': "swap_in e (frame_of vm v) vm1 = Inr vm'" "vm_ok vm'" "same_user vm1 vm'" "valid (entry_at vm' e)" "files vm' = files vm1"
      using swap_in_ok [OF vm1(2), of e] e(2,3) ve vm1(4) same_user_ptr [OF vm1(3)] by metis
    have "entry_at (vm\<lparr>frameMap := frameMap vm, FIFOEntryList := l\<rparr>) = entry_at vm" by (rule entry_at_cong) simp
    moreover have "vm\<lparr>frameMap := frameMap vm\<rparr> = vm" by simp
    ultimately have "PageFault pt vm = bind_res (swap_out v (vm\<lparr>FIFOEntryList := l\<rparr>)) (swap_in e (frame_of vm v))"
      using rr FindAndSet_eq [OF b(1)] True g [of vm] q by (simp add: PageFault_def Let_def list_RemoveFront_def)
    then show ?thesis using vm1 vm' same_user_trans [OF vm1(3) vm'(3)] by auto
  qed
qed

section \<open>User memory\<close>

text \<open>The bytes a program with page table \<open>pt\<close> has at a virtual address, inside one page.\<close>

definition user_bytes :: "VM \<Rightarrow> nat \<Rightarrow> u32 \<Rightarrow> nat \<Rightarrow> byte list" where
  "user_bytes vm pt va n = take n (drop (unat (va mod 128)) (page_bytes vm (pt, unat (va div 128))))"

definition decode :: "int \<Rightarrow> byte list \<Rightarrow> u32" where
  "decode sz bs = (if sz = 1 then scast (bs ! 0) else if sz = 2 then ucast (bytes_to_short bs) else bytes_to_word bs)"

text \<open>The program with page table \<open>pt\<close> is running.\<close>

definition attached :: "nat \<Rightarrow> VM \<Rightarrow> bool" where
  "attached pt vm \<longleftrightarrow> wf_machine (mach vm) \<and> tlb (mach vm) = None \<and> pageTable (mach vm) = Some pt"

definition access_ok :: "VM \<Rightarrow> u32 \<Rightarrow> int \<Rightarrow> bool" where
  "access_ok vm va sz \<longleftrightarrow> (sz = 1 \<or> sz = 2 \<and> va AND 1 = 0 \<or> sz = 4 \<and> va AND 3 = 0)
     \<and> va div 128 < pageTableSize (mach vm) \<and> uint va < 2 ^ 31"

text \<open>Everything about pages but where they are.\<close>

definition same_pages :: "VM \<Rightarrow> VM \<Rightarrow> bool" where
  "same_pages vm vm' \<longleftrightarrow> (\<forall>e. ptr_ok vm' e = ptr_ok vm e) \<and> (\<forall>e. ptr_ok vm e \<longrightarrow> page_bytes vm' e = page_bytes vm e)
     \<and> (\<forall>e. ptr_ok vm e \<longrightarrow> readOnly (entry_at vm' e) = readOnly (entry_at vm e))
     \<and> pageTableSize (mach vm') = pageTableSize (mach vm)"

lemma same_pages_refl [simp]: "same_pages vm vm"
  by (simp add: same_pages_def)

lemma same_pages_trans [trans]: "same_pages vm vm1 \<Longrightarrow> same_pages vm1 vm2 \<Longrightarrow> same_pages vm vm2"
  by (simp add: same_pages_def)

lemma same_user_pages: "same_user vm vm' \<Longrightarrow> same_pages vm vm'"
  using same_user_ptr [of vm vm'] by (simp add: same_pages_def same_user_def)

lemma attached_ptr:
  assumes "attached pt vm" "va div 128 < pageTableSize (mach vm)"
  shows "ptr_ok vm (pt, unat (va div 128))"
proof -
  have "unat (pageTableSize (mach vm)) \<le> length (tables (mach vm) pt)" using assms(1) by (auto simp: attached_def wf_machine_def mmu_ok_def)
  then show ?thesis using assms(2) by (simp add: ptr_ok_def word_less_nat_alt)
qed

lemma same_map_entry:
  assumes "same_map (mach vm) m'"
  shows "ptr_ok (vm\<lparr>mach := m'\<rparr>) e = ptr_ok vm e" "ptr_ok vm e \<Longrightarrow> clean (entry_at (vm\<lparr>mach := m'\<rparr>) e) = clean (entry_at vm e)"
  using same_map_length [OF assms] same_map_nth [OF assms] by (simp_all add: ptr_ok_def entry_at_def)

lemma same_map_tables:
  assumes "same_map m m'"
  shows "tables m t = [] \<Longrightarrow> tables m' t = []"
  using same_map_length [OF assms, of t] by simp

lemma same_map_vm:
  assumes i: "vm_inv F vm" and m: "same_map (mach vm) m'" "length (mainMemory m') = 4096"
  shows "vm_inv F (vm\<lparr>mach := m'\<rparr>)"
proof -
  let ?vm = "vm\<lparr>mach := m'\<rparr>"
  note p = same_map_entry(1) [OF m(1)]
  have e: "virtualPage (entry_at ?vm e) = virtualPage (entry_at vm e)" "physicalPage (entry_at ?vm e) = physicalPage (entry_at vm e)"
    "valid (entry_at ?vm e) = valid (entry_at vm e)" if "ptr_ok vm e" for e
    using clean_eqD(1-3) [OF same_map_entry(2) [OF m(1) that]] by simp_all
  have f: "\<forall>e\<in>set (FIFOEntryList vm). ptr_ok vm e" using i by (simp add: vm_inv_def)
  then have img: "frame_of ?vm ` set (FIFOEntryList vm) = frame_of vm ` set (FIFOEntryList vm)" by (intro image_cong) (auto simp: e)
  have "inj_on (frame_of ?vm) (set (FIFOEntryList vm)) = inj_on (frame_of vm) (set (FIFOEntryList vm))" using f by (intro inj_on_cong) (auto simp: e)
  moreover have "inj_on (\<lambda>q. virtualPage (entry_at ?vm q)) {q. ptr_ok vm q} = inj_on (\<lambda>q. virtualPage (entry_at vm q)) {q. ptr_ok vm q}"
    by (intro inj_on_cong) (auto simp: e)
  moreover have "\<forall>t\<ge>newTable vm. tables m' t = []" using i same_map_tables [OF m(1)] by (simp add: vm_inv_def)
  ultimately show ?thesis using i m(2) unfolding vm_inv_def p by (simp add: e img)
qed

lemma same_map_pages:
  assumes "same_map (mach vm) m'" "mainMemory m' = mainMemory (mach vm)"
  shows "same_pages vm (vm\<lparr>mach := m'\<rparr>)"
proof -
  have "page_bytes (vm\<lparr>mach := m'\<rparr>) e = page_bytes vm e \<and> readOnly (entry_at (vm\<lparr>mach := m'\<rparr>) e) = readOnly (entry_at vm e)" if "ptr_ok vm e" for e
    using clean_eqD [OF same_map_entry(2) [OF assms(1) that]] assms(2) by (simp add: page_bytes_def)
  then show ?thesis using assms same_map_entry(1) [OF assms(1)] by (simp add: same_pages_def same_map_def)
qed

lemma attached_same_map: "attached pt vm \<Longrightarrow> same_map (mach vm) m' \<Longrightarrow> wf_machine m' \<Longrightarrow> attached pt (vm\<lparr>mach := m'\<rparr>)"
  by (auto simp: attached_def same_map_def)

lemma find_entry_attached:
  assumes "attached pt vm" "va div 128 < pageTableSize (mach vm)"
  shows "find_entry (mach vm) (va div 128) =
    Inr (if valid (entry_at vm (pt, unat (va div 128))) then InTable pt (unat (va div 128)) else NotFound PageFaultException)"
  using attached_ptr [OF assms] assms by (simp add: find_entry_def attached_def ptr_ok_def entry_at_def not_le [symmetric])

text \<open>An access to a page that is out: it comes in.\<close>

lemma page_fault_access:
  assumes i: "vm_ok vm" and a: "attached pt vm" "access_ok vm va sz"
    and n: "\<not> valid (entry_at vm (pt, unat (va div 128)))"
  shows "\<exists>m vm'. Translate (mach vm) va sz w = Inr (PageFaultException, 0, mach vm) \<and> RaiseException (mach vm) va = Inr m
    \<and> handle_fault pt PageFaultException (vm\<lparr>mach := m\<rparr>) = Inr vm' \<and> vm_ok vm' \<and> attached pt vm' \<and> same_pages vm vm'
    \<and> valid (entry_at vm' (pt, unat (va div 128))) \<and> registers (mach vm') ! PCReg = registers (mach vm) ! PCReg
    \<and> (\<exists>d. files vm' = (files vm)\<lparr>dsk := d\<rparr>) \<and> swapSpace vm' = swapSpace vm
    \<and> (\<forall>s. s \<notin> set (hdr_data (dsk (files vm)) (hdr (swapSpace vm))) \<longrightarrow> dsk (files vm') s = dsk (files vm) s)"
proof -
  let ?e = "(pt, unat (va div 128))"
  have w: "wf_machine (mach vm)" using a(1) by (simp add: attached_def)
  note wf = wf_machineD [OF w]
  have v: "va div 128 < pageTableSize (mach vm)" "uint va < 2 ^ 31" using a(2) by (simp_all add: access_ok_def)
  have "\<not> ((sz = 4 \<and> va AND 3 \<noteq> 0) \<or> (sz = 2 \<and> va AND 1 \<noteq> 0))" using a(2) by (auto simp: access_ok_def)
  then have T: "Translate (mach vm) va sz w = Inr (PageFaultException, 0, mach vm)"
    using find_entry_attached [OF a(1) v(1)] n by (intro Translate_miss wf) simp_all
  obtain m where m: "RaiseException (mach vm) va = Inr m" "wf_machine m" "same_map (mach vm) m" "mainMemory m = mainMemory (mach vm)"
    "registers m ! BadVAddrReg = va" "registers m ! PCReg = registers (mach vm) ! PCReg" using RaiseException_ok [OF wf(1,3-5), of va] by blast
  let ?vm = "vm\<lparr>mach := m\<rparr>"
  have i1: "vm_ok ?vm" using m wf by (intro same_map_vm [OF i]) simp_all
  have p1: "ptr_ok ?vm ?e" "\<not> valid (entry_at ?vm ?e)"
    using attached_ptr [OF a(1) v(1)] same_map_entry [OF m(3)] n clean_eqD(3) [OF same_map_entry(2) [OF m(3) attached_ptr [OF a(1) v(1)]]] by simp_all
  have s: "sint va = uint va" using v(2) by (simp add: sint_small)
  have q: "?e = (pt, nat (sint va div 128))" unfolding s by (simp add: uint_div flip: nat_uint_eq)
  have "0 \<le> sint va" unfolding s by simp
  then obtain vm' d where vm': "PageFault pt ?vm = Inr vm'" "vm_ok vm'" "same_user ?vm vm'" "valid (entry_at vm' ?e)" "files vm' = (files vm)\<lparr>dsk := d\<rparr>"
    "\<forall>s. s \<notin> set (hdr_data (dsk (files vm)) (hdr (swapSpace vm))) \<longrightarrow> dsk (files vm') s = dsk (files vm) s"
    using PageFault_ok [OF i1 _ _ _ q p1] m(5) wf_machineD(1) [OF m(2)] by auto
  have "same_pages vm ?vm" using same_map_pages [OF m(3,4)] .
  then have sp: "same_pages vm vm'" using same_user_pages [OF vm'(3)] by (rule same_pages_trans)
  have "attached pt ?vm" using attached_same_map [OF a(1) m(3,2)] .
  then have "attached pt vm'" using vm'(2,3) by (auto simp: attached_def same_user_def wf_machine_def mmu_ok_def vm_inv_def)
  then show ?thesis using T m(1,6) vm' sp by (auto simp: handle_fault_def same_user_def)
qed

text \<open>An access to a page that is in.\<close>

lemma Translate_present:
  assumes i: "vm_ok vm" and a: "attached pt vm" "access_ok vm va sz"
    and v: "valid (entry_at vm (pt, unat (va div 128)))" "w \<longrightarrow> \<not> readOnly (entry_at vm (pt, unat (va div 128)))"
  defines "f \<equiv> frame_of vm (pt, unat (va div 128))"
  shows "\<exists>m'. Translate (mach vm) va sz w = Inr (NoException, 128 * f + uint va mod 128, m') \<and> same_map (mach vm) m'
    \<and> registers m' = registers (mach vm) \<and> mainMemory m' = mainMemory (mach vm)"
    and "0 \<le> f" "f < 32" "uint va mod 128 + sz \<le> 128"
proof -
  let ?e = "(pt, unat (va div 128))"
  have vp: "va div 128 < pageTableSize (mach vm)" using a(2) by (simp add: access_ok_def)
  have p: "ptr_ok vm ?e" using attached_ptr [OF a(1) vp] .
  show f: "0 \<le> f" "f < 32" using vm_invD(4) [OF i p v(1)] by (simp_all add: f_def)
  have al: "\<not> ((sz = 4 \<and> va AND 3 \<noteq> 0) \<or> (sz = 2 \<and> va AND 1 \<noteq> 0))" and sz: "sz = 1 \<or> sz = 2 \<or> sz = 4" using a(2) by (auto simp: access_ok_def)
  show "uint va mod 128 + sz \<le> 128" using al sz by (intro aligned_in_page) auto
  then have s: "uint va mod 128 + sz \<le> 128" .
  have mm: "mmu_ok (mach vm)" using a(1) by (simp add: attached_def wf_machine_def)
  have l: "find_entry (mach vm) (va div 128) = Inr (InTable pt (unat (va div 128)))" using find_entry_attached [OF a(1) vp] v(1) by simp
  have ge: "get_entry (mach vm) (InTable pt (unat (va div 128))) = entry_at vm ?e" by (simp add: get_entry_def entry_at_def)
  have u: "uint (word_of_int f :: u32) = f" using f by (simp add: uint_word_of_int)
  then have fw: "(word_of_int f :: u32) < 32" using f by (simp add: word_less_def)
  note pa = phys_addr [OF fw, of va, unfolded u]
  let ?m = "set_entry_at (mach vm) (InTable pt (unat (va div 128))) (touched w (entry_at vm ?e))"
  have ro: "\<not> (readOnly (entry_at vm ?e) \<and> w)" and fw': "\<not> 32 \<le> (word_of_int f :: u32)" and ff: "physicalPage (entry_at vm ?e) = f"
    using v(2) fw by (auto simp: not_le f_def)
  have "Translate (mach vm) va sz w = Inr (NoException, 128 * f + uint va mod 128, ?m)"
    using Translate_hit [OF al mm l, of w] f s unfolding ge Let_def ff if_not_P [OF ro] if_not_P [OF fw'] pa by simp
  moreover have "same_map (mach vm) ?m"
    by (rule set_entry_at_same_map [OF _ l]) (simp add: ge touched_def clean_def)
  ultimately show "\<exists>m'. Translate (mach vm) va sz w = Inr (NoException, 128 * f + uint va mod 128, m') \<and> same_map (mach vm) m'
    \<and> registers m' = registers (mach vm) \<and> mainMemory m' = mainMemory (mach vm)" by (intro exI [of _ ?m]) simp
qed

lemma page_part: "0 \<le> f \<Longrightarrow> off + n \<le> 128 \<Longrightarrow> take n (drop (nat (128 * f + int off)) mem) = take n (drop off (page_in mem f))"
  by (simp add: page_in_def drop_take nat_add_distrib mult.commute add.commute)

lemma unat_offset: "unat (va mod 128 :: u32) = nat (uint va mod 128)" "unat (va mod 128 :: u32) < 128"
proof -
  have u: "uint (va mod 128) = uint va mod 128" by (simp add: uint_mod)
  then show "unat (va mod 128) = nat (uint va mod 128)" by (simp flip: nat_uint_eq)
  then show "unat (va mod 128) < 128" by (simp add: nat_less_iff)
qed

lemma user_ReadMem_ok:
  assumes i: "vm_ok vm" and a: "attached pt vm" "access_ok vm va sz"
  shows "\<exists>vm'. user_ReadMem pt va sz vm =
      Inr (if valid (entry_at vm (pt, unat (va div 128))) then Some (decode sz (user_bytes vm pt va (nat sz))) else None, vm')
    \<and> vm_ok vm' \<and> attached pt vm' \<and> same_pages vm vm' \<and> valid (entry_at vm' (pt, unat (va div 128)))
    \<and> (valid (entry_at vm (pt, unat (va div 128))) \<longrightarrow> files vm' = files vm)
    \<and> (\<exists>d. files vm' = (files vm)\<lparr>dsk := d\<rparr>) \<and> swapSpace vm' = swapSpace vm
    \<and> (\<forall>s. s \<notin> set (hdr_data (dsk (files vm)) (hdr (swapSpace vm))) \<longrightarrow> dsk (files vm') s = dsk (files vm) s)
    \<and> registers (mach vm') ! PCReg = registers (mach vm) ! PCReg"
proof (cases "valid (entry_at vm (pt, unat (va div 128)))")
  case False
  obtain m vm' where *: "Translate (mach vm) va sz False = Inr (PageFaultException, 0, mach vm)" "RaiseException (mach vm) va = Inr m"
    "handle_fault pt PageFaultException (vm\<lparr>mach := m\<rparr>) = Inr vm'" "vm_ok vm'" "attached pt vm'" "same_pages vm vm'"
    "valid (entry_at vm' (pt, unat (va div 128)))" "\<exists>d. files vm' = (files vm)\<lparr>dsk := d\<rparr>" "swapSpace vm' = swapSpace vm"
    "\<forall>s. s \<notin> set (hdr_data (dsk (files vm)) (hdr (swapSpace vm))) \<longrightarrow> dsk (files vm') s = dsk (files vm) s"
    "registers (mach vm') ! PCReg = registers (mach vm) ! PCReg"
    using page_fault_access [OF i a False, of False] by blast
  have "user_ReadMem pt va sz vm = Inr (None, vm')" using *(1-3) by (simp add: user_ReadMem_def ReadMem_def)
  then show ?thesis using *(4-) False by auto
next
  case True
  let ?e = "(pt, unat (va div 128))"
  note t = Translate_present [OF i a True, of False, simplified]
  obtain m' where m': "Translate (mach vm) va sz False = Inr (NoException, 128 * frame_of vm ?e + uint va mod 128, m')" "same_map (mach vm) m'"
    "registers m' = registers (mach vm)" "mainMemory m' = mainMemory (mach vm)" using t(1) by blast
  have w: "wf_machine (mach vm)" using a(1) by (simp add: attached_def)
  have sz: "sz = 1 \<or> sz = 2 \<or> sz = 4" using a(2) by (auto simp: access_ok_def)
  let ?pa = "128 * frame_of vm ?e + uint va mod 128"
  have "mem_bytes m' ?pa (nat sz) = user_bytes vm pt va (nat sz)"
    using page_part [of "frame_of vm ?e" "nat (uint va mod 128)" "nat sz" "mainMemory (mach vm)"] t(2,4) sz True
    by (auto simp: user_bytes_def page_bytes_def unat_offset mem_bytes_def m'(4))
  then have "ReadMem (mach vm) va sz = Inr (Access (decode sz (user_bytes vm pt va (nat sz))) m')"
    using m'(1) sz by (auto simp: ReadMem_def decode_def ShortToHost_def WordToHost_def)
  then have r: "user_ReadMem pt va sz vm = Inr (Some (decode sz (user_bytes vm pt va (nat sz))), vm\<lparr>mach := m'\<rparr>)" by (simp add: user_ReadMem_def)
  have wf': "wf_machine m'" using w m'(2-4) mmu_ok_same_map [OF m'(2)] by (simp add: wf_machine_def)
  have "vm_ok (vm\<lparr>mach := m'\<rparr>)" using wf' by (intro same_map_vm [OF i m'(2)]) (simp add: wf_machine_def)
  moreover have "valid (entry_at (vm\<lparr>mach := m'\<rparr>) ?e)"
    using True clean_eqD(3) [OF same_map_entry(2) [OF m'(2) attached_ptr [OF a(1)]]] a(2) by (simp add: access_ok_def)
  moreover have "\<exists>d. files vm = (files vm)\<lparr>dsk := d\<rparr>" by (rule exI [of _ "dsk (files vm)"]) simp
  ultimately show ?thesis using r True attached_same_map [OF a(1) m'(2) wf'] same_map_pages [OF m'(2,4)] m'(3) by auto
qed

lemma page_in_store:
  assumes "0 \<le> n" "n < 32" "0 \<le> m" "m < 32" "off + length ys \<le> 128" "length bs = 4096"
  shows "page_in (overwrite bs (nat (128 * n + int off)) ys) m = (if m = n then overwrite (page_in bs n) off ys else page_in bs m)"
proof (rule nth_equalityI)
  let ?o = "nat (128 * n + int off)"
  have o: "?o = nat (128 * n) + off" "?o + length ys \<le> 4096" "nat (m * 128) + 128 \<le> 4096" "nat (n * 128) + 128 \<le> 4096" using assms by linarith+
  have pl: "length (page_in bs m) = 128" "length (page_in bs n) = 128" using assms by (auto intro: length_page_in)
  show l: "length (page_in (overwrite bs ?o ys) m) = length (if m = n then overwrite (page_in bs n) off ys else page_in bs m)"
    using assms o pl by (simp add: page_in_def)
  fix j assume "j < length (page_in (overwrite bs ?o ys) m)"
  then have j: "j < 128" using o assms by (simp add: page_in_def)
  have "page_in xs m ! j = xs ! (nat (m * 128) + j)" if "length xs = 4096" for xs :: "byte list" using j o that by (simp add: page_in_def)
  note nth = this
  have lo: "length (overwrite bs ?o ys) = 4096" using assms o by simp
  have "m \<noteq> n \<Longrightarrow> nat (m * 128) + j < ?o \<or> ?o + length ys \<le> nat (m * 128) + j"
  proof -
    assume "m \<noteq> n"
    then have "m + 1 \<le> n \<or> n + 1 \<le> m" by linarith
    then show ?thesis using assms j by linarith
  qed
  then show "page_in (overwrite bs ?o ys) m ! j = (if m = n then overwrite (page_in bs n) off ys else page_in bs m) ! j"
    using nth [OF lo] nth [of bs] assms o j pl by (auto simp: nth_overwrite mult.commute)
qed

lemma user_WriteMem_ok:
  assumes i: "vm_ok vm" and a: "attached pt vm" "access_ok vm va sz" and ro: "\<not> readOnly (entry_at vm (pt, unat (va div 128)))"
  defines "e \<equiv> (pt, unat (va div 128))"
  shows "\<exists>vm'. user_WriteMem pt va sz v vm = Inr (if valid (entry_at vm e) then Some () else None, vm') \<and> vm_ok vm' \<and> attached pt vm'
    \<and> valid (entry_at vm' e) \<and> pageTableSize (mach vm') = pageTableSize (mach vm) \<and> (\<forall>q. ptr_ok vm' q = ptr_ok vm q)
    \<and> \<not> readOnly (entry_at vm' e) \<and> (\<forall>q. ptr_ok vm q \<longrightarrow> page_bytes vm' q =
         (if q = e \<and> valid (entry_at vm e) then overwrite (page_bytes vm e) (unat (va mod 128)) (store_bytes v sz) else page_bytes vm q))"
proof (cases "valid (entry_at vm e)")
  case False
  have p: "ptr_ok vm e" using attached_ptr [OF a(1)] a(2) by (simp add: e_def access_ok_def)
  obtain m vm' where *: "Translate (mach vm) va sz True = Inr (PageFaultException, 0, mach vm)" "RaiseException (mach vm) va = Inr m"
    "handle_fault pt PageFaultException (vm\<lparr>mach := m\<rparr>) = Inr vm'" "vm_ok vm'" "attached pt vm'" "same_pages vm vm'" "valid (entry_at vm' e)"
    using page_fault_access [OF i a, of True] False unfolding e_def by blast
  have "user_WriteMem pt va sz v vm = Inr (None, vm')" using *(1-3) by (simp add: user_WriteMem_def WriteMem_def)
  then show ?thesis using *(4-) False p ro by (simp add: same_pages_def e_def)
next
  case True
  let ?o = "nat (uint va mod 128)" and ?f = "frame_of vm e"
  note t = Translate_present [OF i a True [unfolded e_def], of True, folded e_def]
  obtain m' where m': "Translate (mach vm) va sz True = Inr (NoException, 128 * ?f + uint va mod 128, m')" "same_map (mach vm) m'"
    "registers m' = registers (mach vm)" "mainMemory m' = mainMemory (mach vm)" using t(1) ro by (auto simp: e_def)
  have f: "0 \<le> ?f" "?f < 32" "uint va mod 128 + sz \<le> 128" using t ro by (simp_all add: e_def)
  have p: "ptr_ok vm e" using attached_ptr [OF a(1)] a(2) by (simp add: e_def access_ok_def)
  have w: "wf_machine (mach vm)" using a(1) by (simp add: attached_def)
  have sz: "sz = 1 \<or> sz = 2 \<or> sz = 4" using a(2) by (auto simp: access_ok_def)
  have ls: "?o + length (store_bytes v sz) \<le> 128" using length_store_bytes [OF sz] f(3) sz by auto
  define m1 where "m1 = m'\<lparr>mainMemory := overwrite (mainMemory (mach vm)) (nat (128 * ?f + int ?o)) (store_bytes v sz)\<rparr>"
  define vm1 where "vm1 = vm\<lparr>mach := m1\<rparr>"
  have mem: "mainMemory (mach vm1) = overwrite (mainMemory (mach vm)) (nat (128 * ?f + int ?o)) (store_bytes v sz)" by (simp add: vm1_def m1_def)
  have r: "user_WriteMem pt va sz v vm = Inr (Some (), vm1)" using m'(1,4) sz by (auto simp: user_WriteMem_def WriteMem_def vm1_def m1_def)
  have len: "length (mainMemory m1) = 4096" using wf_machineD(4) [OF w] ls f by (simp add: m1_def nat_le_iff)
  have sm: "same_map (mach vm) m1" unfolding m1_def by (rule same_map_trans [OF m'(2)]) simp
  have wf': "wf_machine m1" using w m'(3) len mmu_ok_same_map [OF sm] by (simp add: wf_machine_def) (simp add: m1_def)
  have ok: "vm_ok vm1" unfolding vm1_def by (rule same_map_vm [OF i sm len])
  have ent: "valid (entry_at vm1 q) = valid (entry_at vm q)" "frame_of vm1 q = frame_of vm q" "virtualPage (entry_at vm1 q) = virtualPage (entry_at vm q)"
    "readOnly (entry_at vm1 q) = readOnly (entry_at vm q)" if "ptr_ok vm q" for q
    using clean_eqD [OF same_map_entry(2) [OF sm that]] by (simp_all add: vm1_def)
  have inj: "inj_on (frame_of vm) (set (FIFOEntryList vm))" using i by (simp add: vm_inv_def)
  have "page_bytes vm1 q = (if q = e then overwrite (page_bytes vm e) ?o (store_bytes v sz) else page_bytes vm q)" if q: "ptr_ok vm q" for q
  proof (cases "valid (entry_at vm q)")
    case T: True
    note fq = vm_invD(4) [OF i q T]
    have "frame_of vm q = ?f \<longleftrightarrow> q = e" using inj_onD [OF inj, of q e] vm_invD(1) [OF i q] vm_invD(1) [OF i p] T True by auto
    then show ?thesis using page_in_store [of ?f "frame_of vm q" ?o "store_bytes v sz" "mainMemory (mach vm)"] f fq ls wf_machineD(4) [OF w] T True
      by (auto simp: page_bytes_def ent [OF q] mem)
  next
    case False
    then show ?thesis using True by (auto simp: page_bytes_def ent [OF q]) (simp_all add: vm1_def)
  qed
  moreover have "attached pt vm1" "\<forall>q. ptr_ok vm1 q = ptr_ok vm q" "pageTableSize (mach vm1) = pageTableSize (mach vm)"
    using attached_same_map [OF a(1) sm wf'] same_map_entry(1) [OF sm] sm by (simp_all add: vm1_def same_map_def)
  ultimately show ?thesis using r True ok p ro ent [OF p] by (intro exI [of _ vm1]) (simp add: unat_offset e_def)
qed

lemma access_ok_same: "pageTableSize (mach vm') = pageTableSize (mach vm) \<Longrightarrow> access_ok vm' va sz = access_ok vm va sz"
  by (simp add: access_ok_def)

lemma same_pages_user_bytes:
  "same_pages vm vm' \<Longrightarrow> ptr_ok vm (pt, unat (va div 128)) \<Longrightarrow> user_bytes vm' pt va n = user_bytes vm pt va n"
  by (simp add: same_pages_def user_bytes_def)

lemma retry_read:
  assumes i: "vm_ok vm" and a: "attached pt vm" "access_ok vm va sz"
  shows "\<exists>vm'. retry (user_ReadMem pt va sz) vm = Inr (Some (decode sz (user_bytes vm pt va (nat sz))), vm')
    \<and> vm_ok vm' \<and> attached pt vm' \<and> same_pages vm vm' \<and> (\<exists>d. files vm' = (files vm)\<lparr>dsk := d\<rparr>) \<and> swapSpace vm' = swapSpace vm
    \<and> (\<forall>s. s \<notin> set (hdr_data (dsk (files vm)) (hdr (swapSpace vm))) \<longrightarrow> dsk (files vm') s = dsk (files vm) s)
    \<and> registers (mach vm') ! PCReg = registers (mach vm) ! PCReg"
proof -
  let ?e = "(pt, unat (va div 128))"
  obtain vm1 d1 where 1: "user_ReadMem pt va sz vm = Inr (if valid (entry_at vm ?e) then Some (decode sz (user_bytes vm pt va (nat sz))) else None, vm1)"
    "vm_ok vm1" "attached pt vm1" "same_pages vm vm1" "valid (entry_at vm1 ?e)" "files vm1 = (files vm)\<lparr>dsk := d1\<rparr>" "swapSpace vm1 = swapSpace vm"
    "\<forall>s. s \<notin> set (hdr_data (dsk (files vm)) (hdr (swapSpace vm))) \<longrightarrow> dsk (files vm1) s = dsk (files vm) s"
    "registers (mach vm1) ! PCReg = registers (mach vm) ! PCReg"
    using user_ReadMem_ok [OF i a] by blast
  show ?thesis
  proof (cases "valid (entry_at vm ?e)")
    case True
    then show ?thesis using 1 by (auto simp: retry_def)
  next
    case False
    have p: "ptr_ok vm ?e" using attached_ptr [OF a(1)] a(2) by (simp add: access_ok_def)
    have a1: "access_ok vm1 va sz" using a(2) 1(4) access_ok_same [of vm1 vm] by (simp add: same_pages_def)
    obtain vm2 where 2: "user_ReadMem pt va sz vm1 = Inr (Some (decode sz (user_bytes vm1 pt va (nat sz))), vm2)"
      "vm_ok vm2" "attached pt vm2" "same_pages vm1 vm2" "files vm2 = files vm1" "swapSpace vm2 = swapSpace vm1"
      "registers (mach vm2) ! PCReg = registers (mach vm1) ! PCReg"
      using user_ReadMem_ok [OF 1(2,3) a1] 1(5) by auto
    show ?thesis
      using 1 2 False same_pages_user_bytes [OF 1(4) p] same_pages_trans [OF 1(4) 2(4)] by (auto simp: retry_def)
  qed
qed

lemma retry_write:
  assumes i: "vm_ok vm" and a: "attached pt vm" "access_ok vm va sz" and ro: "\<not> readOnly (entry_at vm (pt, unat (va div 128)))"
  defines "e \<equiv> (pt, unat (va div 128))"
  shows "\<exists>vm'. retry (user_WriteMem pt va sz v) vm = Inr (Some (), vm') \<and> vm_ok vm' \<and> attached pt vm' \<and> (\<forall>q. ptr_ok vm' q = ptr_ok vm q)
    \<and> (\<forall>q. ptr_ok vm q \<longrightarrow> page_bytes vm' q = (if q = e then overwrite (page_bytes vm e) (unat (va mod 128)) (store_bytes v sz) else page_bytes vm q))"
proof -
  have p: "ptr_ok vm e" using attached_ptr [OF a(1)] a(2) by (simp add: e_def access_ok_def)
  obtain vm1 where 1: "user_WriteMem pt va sz v vm = Inr (if valid (entry_at vm e) then Some () else None, vm1)" "vm_ok vm1" "attached pt vm1"
    "valid (entry_at vm1 e)" "pageTableSize (mach vm1) = pageTableSize (mach vm)" "\<forall>q. ptr_ok vm1 q = ptr_ok vm q" "\<not> readOnly (entry_at vm1 e)"
    "\<forall>q. ptr_ok vm q \<longrightarrow> page_bytes vm1 q =
         (if q = e \<and> valid (entry_at vm e) then overwrite (page_bytes vm e) (unat (va mod 128)) (store_bytes v sz) else page_bytes vm q)"
    using user_WriteMem_ok [OF i a ro, of v] unfolding e_def by blast
  show ?thesis
  proof (cases "valid (entry_at vm e)")
    case True
    then show ?thesis using 1 by (auto simp: retry_def)
  next
    case False
    have a1: "access_ok vm1 va sz" using a(2) 1(5) access_ok_same [of vm1 vm] by simp
    obtain vm2 where 2: "user_WriteMem pt va sz v vm1 = Inr (if valid (entry_at vm1 e) then Some () else None, vm2)" "vm_ok vm2" "attached pt vm2"
      "\<forall>q. ptr_ok vm2 q = ptr_ok vm1 q" "\<forall>q. ptr_ok vm1 q \<longrightarrow> page_bytes vm2 q =
         (if q = e \<and> valid (entry_at vm1 e) then overwrite (page_bytes vm1 e) (unat (va mod 128)) (store_bytes v sz) else page_bytes vm1 q)"
      using user_WriteMem_ok [OF 1(2,3) a1 1(7) [unfolded e_def], of v] unfolding e_def by blast
    then show ?thesis using 1 False p by (auto simp: retry_def)
  qed
qed

section \<open>Loading\<close>

text \<open>What one round of the loop stores of the executable.\<close>

definition code_page :: "(nat \<Rightarrow> byte) \<Rightarrow> byte list \<Rightarrow> nat \<Rightarrow> byte list" where
  "code_page g bs off = overwrite (map g [0..<128]) 0 (take 128 (drop off bs))"

lemma length_code_page [simp]: "length (code_page g bs off) = 128"
  by (simp add: code_page_def overwrite_def)

lemma nth_code_page: "j < 128 \<Longrightarrow> off + j < length bs \<Longrightarrow> code_page g bs off ! j = bs ! (off + j)"
  by (auto simp: code_page_def overwrite_def nth_append)

text \<open>The table under construction counts as allocated.\<close>

abbreviation loading :: "VM \<Rightarrow> bool" where
  "loading vm \<equiv> vm_ok (vm\<lparr>newTable := newTable vm + 1\<rparr>)"

definition load_page :: "byte list \<Rightarrow> disk \<Rightarrow> VM \<Rightarrow> VM" where
  "load_page bs d vm =
     vm\<lparr>mach := (mach vm)\<lparr>tables := (tables (mach vm))(newTable vm := tables (mach vm) (newTable vm) @
          [\<lparr>virtualPage = swapSpace_counter vm, physicalPage = -1, valid = False, readOnly = False, useBit = False, dirty = False\<rparr>])\<rparr>,
        files := (files vm)\<lparr>dsk := d\<rparr>, swapSpace_counter := swapSpace_counter vm + 1\<rparr>"

lemma load_page_ok:
  assumes i: "loading vm" and bs: "length bs = 128" and room: "(swapSpace_counter vm + 1) * 128 \<le> numBytes (hdr (swapSpace vm))"
    and d: "file_ok d (hdr (swapSpace vm))" "\<forall>w. 0 \<le> w \<longrightarrow> w * 128 + 128 \<le> numBytes (hdr (swapSpace vm)) \<longrightarrow>
         page_in (bytes_of d (hdr (swapSpace vm))) w =
           (if w = swapSpace_counter vm then bs else page_in (bytes_of (dsk (files vm)) (hdr (swapSpace vm))) w)"
  defines "e \<equiv> (newTable vm, length (tables (mach vm) (newTable vm)))"
  shows "loading (load_page bs d vm)" "\<forall>q. ptr_ok (load_page bs d vm) q \<longleftrightarrow> ptr_ok vm q \<or> q = e"
    "\<forall>q. ptr_ok vm q \<longrightarrow> page_bytes (load_page bs d vm) q = page_bytes vm q \<and> valid (entry_at (load_page bs d vm) q) = valid (entry_at vm q) \<and> readOnly (entry_at (load_page bs d vm) q) = readOnly (entry_at vm q)"
    "page_bytes (load_page bs d vm) e = bs" "\<not> valid (entry_at (load_page bs d vm) e) \<and> \<not> readOnly (entry_at (load_page bs d vm) e)"
proof -
  define vm' where "vm' = load_page bs d vm"
  let ?c = "swapSpace_counter vm" and ?new = "\<lparr>virtualPage = swapSpace_counter vm, physicalPage = -1, valid = False, readOnly = False, useBit = False, dirty = False\<rparr>"
  have n: "ptr_ok (x\<lparr>newTable := t\<rparr>) = ptr_ok x" "entry_at (x\<lparr>newTable := t\<rparr>) = entry_at x" for x t by (rule ptr_ok_cong entry_at_cong; simp)+
  have nb: "page_bytes (x\<lparr>newTable := t\<rparr>) q = page_bytes x q" for x t q by (simp add: page_bytes_def n)
  have ne: "\<not> ptr_ok vm e" by (simp add: e_def ptr_ok_def)
  have p: "ptr_ok vm' q \<longleftrightarrow> ptr_ok vm q \<or> q = e" for q by (cases q) (auto simp: vm'_def load_page_def ptr_ok_def e_def)
  have ent: "entry_at vm' q = (if q = e then ?new else entry_at vm q)" if "ptr_ok vm q \<or> q = e" for q
    using that by (cases q) (auto simp: vm'_def load_page_def ptr_ok_def entry_at_def e_def nth_append)
  have old: "entry_at vm' q = entry_at vm q" if "ptr_ok vm q" for q using ent [of q] that ne by auto
  have pt: "ptr_ok vm' = (\<lambda>q. ptr_ok vm q \<or> q = e)" using p by (intro ext)
  have vb: "0 \<le> virtualPage (entry_at vm q)" "virtualPage (entry_at vm q) < ?c" "virtualPage (entry_at vm q) * 128 + 128 \<le> numBytes (hdr (swapSpace vm))"
    if "ptr_ok vm q" for q
  proof -
    have "ptr_ok (vm\<lparr>newTable := newTable vm + 1\<rparr>) q" using that n by simp
    then show "0 \<le> virtualPage (entry_at vm q)" "virtualPage (entry_at vm q) < ?c" using i unfolding vm_inv_def n by auto
    then show "virtualPage (entry_at vm q) * 128 + 128 \<le> numBytes (hdr (swapSpace vm))" using room by (simp add: algebra_simps)
  qed
  have c: "0 \<le> ?c" using i by (simp add: vm_inv_def)
  have rest: "swapSpace vm' = swapSpace vm" "swapSpace_counter vm' = ?c + 1" "files vm' = (files vm)\<lparr>dsk := d\<rparr>" "FIFOEntryList vm' = FIFOEntryList vm"
    "frameMap vm' = frameMap vm" "newTable vm' = newTable vm" "mainMemory (mach vm') = mainMemory (mach vm)" by (simp_all add: vm'_def load_page_def)
  show "\<not> valid (entry_at (load_page bs d vm) e) \<and> \<not> readOnly (entry_at (load_page bs d vm) e)" using ent [of e] by (simp add: vm'_def)
  have "?c * 128 + 128 \<le> numBytes (hdr (swapSpace vm))" using room by (simp add: algebra_simps)
  then show "page_bytes (load_page bs d vm) e = bs" using ent [of e] d(2) c by (simp add: page_bytes_def vm'_def [symmetric] rest)
  show "\<forall>q. ptr_ok (load_page bs d vm) q \<longleftrightarrow> ptr_ok vm q \<or> q = e" using p by (simp add: vm'_def)
  have "page_bytes vm' q = page_bytes vm q" if "ptr_ok vm q" for q
    using d(2) vb [OF that] old [OF that] by (simp add: page_bytes_def rest)
  then show "\<forall>q. ptr_ok vm q \<longrightarrow> page_bytes (load_page bs d vm) q = page_bytes vm q \<and> valid (entry_at (load_page bs d vm) q) = valid (entry_at vm q) \<and> readOnly (entry_at (load_page bs d vm) q) = readOnly (entry_at vm q)"
    using old by (simp add: vm'_def)
  have f: "\<forall>q\<in>set (FIFOEntryList vm). ptr_ok vm q" using i unfolding vm_inv_def n by simp
  have img: "frame_of vm' ` set (FIFOEntryList vm) = frame_of vm ` set (FIFOEntryList vm)" using f by (intro image_cong) (auto simp: old)
  have "inj_on (frame_of vm') (set (FIFOEntryList vm)) = inj_on (frame_of vm) (set (FIFOEntryList vm))" using f by (intro inj_on_cong) (auto simp: old)
  moreover have "inj_on (\<lambda>q. virtualPage (entry_at vm' q)) {q. ptr_ok vm' q}"
  proof -
    have "inj_on (\<lambda>q. virtualPage (entry_at vm q)) {q. ptr_ok vm q}" using i unfolding vm_inv_def n by simp
    then have "inj_on (\<lambda>q. virtualPage (entry_at vm' q)) {q. ptr_ok vm q}" by (subst inj_on_cong [of _ _ "\<lambda>q. virtualPage (entry_at vm q)"]) (auto simp: old)
    moreover have "virtualPage (entry_at vm' q) \<noteq> virtualPage (entry_at vm' e)" if "ptr_ok vm q" for q
      using vb(2) [OF that] ent [of e] old [OF that] by simp
    then have "virtualPage (entry_at vm' e) \<notin> (\<lambda>q. virtualPage (entry_at vm' q)) ` {q. ptr_ok vm q}" by fastforce
    moreover have "{q. ptr_ok vm' q} = insert e {q. ptr_ok vm q}" using p by auto
    ultimately show ?thesis using ne by simp
  qed
  moreover have "\<forall>t\<ge>newTable vm + 1. tables (mach vm') t = []" using i by (simp add: vm_inv_def vm'_def load_page_def)
  moreover have "(valid (entry_at vm' q) \<longleftrightarrow> q \<in> set (FIFOEntryList vm)) \<and> 0 \<le> virtualPage (entry_at vm' q) \<and> virtualPage (entry_at vm' q) < ?c + 1"
    if "ptr_ok vm' q" for q
  proof (cases "q = e")
    case True
    then show ?thesis using ent [of e] ne f c by auto
  next
    case False
    then have q: "ptr_ok vm q" using that p by simp
    then have "ptr_ok (vm\<lparr>newTable := newTable vm + 1\<rparr>) q" using n by simp
    then have "valid (entry_at vm q) \<longleftrightarrow> q \<in> set (FIFOEntryList vm)" using i unfolding vm_inv_def n by auto
    then show ?thesis using old [OF q] vb [OF q] by simp
  qed
  ultimately have "vm_ok (vm'\<lparr>newTable := newTable vm + 1\<rparr>)"
    using i f d(1) c room unfolding vm_inv_def n by (simp add: rest pt img)
  then show "loading (load_page bs d vm)" using rest(6) by (simp add: vm'_def)
qed


text \<open>The whole loop: page \<open>j\<close> of the program is \<open>PageSize\<close> bytes of the executable, and no other page changes.\<close>

definition loaded :: "VM \<Rightarrow> VM \<Rightarrow> nat \<Rightarrow> (nat \<Rightarrow> byte list) \<Rightarrow> bool" where
  "loaded vm vm' n pg \<longleftrightarrow>
     (let t = newTable vm; l = length (tables (mach vm) t)
      in loading vm' \<and> newTable vm' = t \<and> swapSpace vm' = swapSpace vm \<and> uninit (files vm') = uninit (files vm)
        \<and> mach vm' = (mach vm)\<lparr>tables := tables (mach vm')\<rparr> \<and> FIFOEntryList vm' = FIFOEntryList vm \<and> frameMap vm' = frameMap vm
        \<and> swapSpace_counter vm' = swapSpace_counter vm + int n
        \<and> (\<forall>q. ptr_ok vm' q \<longleftrightarrow> ptr_ok vm q \<or> (fst q = t \<and> l \<le> snd q \<and> snd q < l + n))
        \<and> (\<forall>q. ptr_ok vm q \<longrightarrow> page_bytes vm' q = page_bytes vm q \<and> valid (entry_at vm' q) = valid (entry_at vm q) \<and> readOnly (entry_at vm' q) = readOnly (entry_at vm q))
        \<and> (\<forall>j<n. page_bytes vm' (t, l + j) = pg j \<and> \<not> valid (entry_at vm' (t, l + j)) \<and> \<not> readOnly (entry_at vm' (t, l + j))))"

lemma loaded_0 [simp]: "loaded vm vm 0 pg \<longleftrightarrow> loading vm"
  by (auto simp: loaded_def Let_def)

lemma loaded_step:
  assumes r: "loaded (load_page bs d vm) vm' n (\<lambda>j. pg (Suc j))" and bs: "length bs = 128" "bs = pg 0"
    and p: "\<forall>q. ptr_ok (load_page bs d vm) q \<longleftrightarrow> ptr_ok vm q \<or> q = (newTable vm, length (tables (mach vm) (newTable vm)))"
    "\<forall>q. ptr_ok vm q \<longrightarrow> page_bytes (load_page bs d vm) q = page_bytes vm q \<and> valid (entry_at (load_page bs d vm) q) = valid (entry_at vm q) \<and> readOnly (entry_at (load_page bs d vm) q) = readOnly (entry_at vm q)"
    "page_bytes (load_page bs d vm) (newTable vm, length (tables (mach vm) (newTable vm))) = bs"
    "\<not> valid (entry_at (load_page bs d vm) (newTable vm, length (tables (mach vm) (newTable vm))))
      \<and> \<not> readOnly (entry_at (load_page bs d vm) (newTable vm, length (tables (mach vm) (newTable vm))))"
  shows "loaded vm vm' (Suc n) pg"
proof -
  let ?t = "newTable vm" and ?l = "length (tables (mach vm) (newTable vm))"
  define v1 where "v1 = load_page bs d vm"
  have f: "newTable v1 = ?t" "length (tables (mach v1) ?t) = Suc ?l" "swapSpace v1 = swapSpace vm" "uninit (files v1) = uninit (files vm)"
    "FIFOEntryList v1 = FIFOEntryList vm" "frameMap v1 = frameMap vm" "swapSpace_counter v1 = swapSpace_counter vm + 1"
    "(mach v1)\<lparr>tables := x\<rparr> = (mach vm)\<lparr>tables := x\<rparr>" for x by (simp_all add: v1_def load_page_def)
  note R = r [folded v1_def, unfolded loaded_def Let_def f]
  have P: "ptr_ok vm' q \<longleftrightarrow> ptr_ok vm q \<or> (fst q = ?t \<and> ?l \<le> snd q \<and> snd q < ?l + Suc n)" for q
  proof -
    have "ptr_ok vm' q \<longleftrightarrow> (ptr_ok vm q \<or> q = (?t, ?l)) \<or> (fst q = ?t \<and> Suc ?l \<le> snd q \<and> snd q < Suc ?l + n)"
      using R p(1) by (auto simp: v1_def)
    then show ?thesis by (cases q) auto
  qed
  have old: "page_bytes vm' q = page_bytes v1 q" "valid (entry_at vm' q) = valid (entry_at v1 q)" "readOnly (entry_at vm' q) = readOnly (entry_at v1 q)" if "ptr_ok v1 q" for q using R that by auto
  have e: "ptr_ok v1 (?t, ?l)" using p(1) by (simp add: v1_def)
  have keep: "page_bytes vm' q = page_bytes vm q \<and> valid (entry_at vm' q) = valid (entry_at vm q) \<and> readOnly (entry_at vm' q) = readOnly (entry_at vm q)" if "ptr_ok vm q" for q
    using old [of q] p(1,2) that by (simp add: v1_def)
  have new: "page_bytes vm' (?t, ?l + j) = pg j \<and> \<not> valid (entry_at vm' (?t, ?l + j)) \<and> \<not> readOnly (entry_at vm' (?t, ?l + j))" if "j < Suc n" for j
  proof (cases j)
    case 0
    then show ?thesis using old [OF e] p(3,4) bs(2) by (simp add: v1_def)
  next
    case (Suc i)
    then show ?thesis using R that by auto
  qed
  have R': "loading vm'" "newTable vm' = ?t" "swapSpace vm' = swapSpace vm" "uninit (files vm') = uninit (files vm)"
    "mach vm' = (mach vm)\<lparr>tables := tables (mach vm')\<rparr>" "FIFOEntryList vm' = FIFOEntryList vm" "frameMap vm' = frameMap vm"
    "swapSpace_counter vm' = swapSpace_counter vm + int (Suc n)" using R by auto
  show ?thesis unfolding loaded_def Let_def using R' P keep new by (intro conjI allI impI) blast+
qed

lemma load_pages_ok:
  assumes "loading vm" "vol_inv (dsk (files vm)) M fm" "M s = Some (hdr (swapSpace vm))" "M x = Some (hdr f)" "x \<noteq> s" "0 \<le> addr"
    and "(swapSpace_counter vm + int n) * 128 \<le> numBytes (hdr (swapSpace vm))"
  shows "\<exists>vm'. load_pages n i f addr vm = Inr vm' \<and> vol_inv (dsk (files vm')) M fm \<and> (\<forall>t hh. t \<noteq> s \<longrightarrow> M t = Some hh \<longrightarrow> bytes_of (dsk (files vm')) hh = bytes_of (dsk (files vm)) hh)
    \<and> loaded vm vm' n (\<lambda>j. code_page (uninit (files vm)) (bytes_of (dsk (files vm)) (hdr f)) (nat addr + 128 * (i + j)))"
  using assms
proof (induction n arbitrary: i vm)
  case 0
  then show ?case by simp
next
  case (Suc n)
  let ?d = "dsk (files vm)" and ?v = "swapSpace_counter vm" and ?h = "hdr (swapSpace vm)" and ?g = "uninit (files vm)"
  have ok: "file_ok ?d (hdr f)" "file_ok ?d ?h" using Suc.prems(2-4) vol_invD(4) by (blast dest: file_at_def [THEN iffD1])+
  have v: "0 \<le> ?v" using Suc.prems(1) by (simp add: vm_inv_def)
  have room: "?v * 128 + 128 \<le> numBytes ?h" "(?v + 1) * 128 \<le> numBytes ?h" "(?v + 1 + int n) * 128 \<le> numBytes ?h"
    using Suc.prems(7) by (simp_all add: algebra_simps)
  let ?pos = "addr + int i * 128"
  have pos: "0 \<le> ?pos" "nat ?pos = nat addr + 128 * i" using Suc.prems(6) by (simp_all add: nat_add_distrib nat_mult_distrib)
  define k where "k = transfer (hdr f) 128 ?pos"
  have rd: "ReadAt f ?d PageSize (addr + int i * PageSize) = Inr (int k, take k (drop (nat addr + 128 * i) (bytes_of ?d (hdr f))))"
    using ReadAt_ok [OF ok(1) pos(1), of 128] pos(2) by (simp add: k_def PageSize_def)
  have tk: "take k (drop (nat addr + 128 * i) (bytes_of ?d (hdr f))) = take 128 (drop (nat addr + 128 * i) (bytes_of ?d (hdr f)))"
    using transfer_length [OF ok(1), of 128 ?pos] pos by (auto simp: k_def min_def)
  define bs where "bs = code_page ?g (bytes_of ?d (hdr f)) (nat addr + 128 * i)"
  have l: "length bs = 128" by (simp add: bs_def)
  obtain d' where d': "WriteAt (swapSpace vm) ?g ?d bs PageSize (?v * PageSize) = Inr (128, d')" "file_ok d' ?h"
    "\<forall>w. 0 \<le> w \<longrightarrow> w * 128 + 128 \<le> numBytes ?h \<longrightarrow> page_in (bytes_of d' ?h) w = (if w = ?v then bs else page_in (bytes_of ?d ?h) w)"
    using swap_write [OF ok(2) v room(1) l, of ?g] by blast
  have "0 \<le> ?v * 128" "128 \<le> int (length bs)" using v l by simp_all
  from vol_write [OF Suc.prems(2,3) this, of ?g] obtain d2 c where w: "WriteAt (swapSpace vm) ?g ?d bs 128 (?v * 128) = Inr (c, d2)" "vol_inv d2 M fm"
    "\<forall>t hh. t \<noteq> s \<longrightarrow> M t = Some hh \<longrightarrow> bytes_of d2 hh = bytes_of ?d hh" by blast
  then have w': "vol_inv d' M fm" "bytes_of d' (hdr f) = bytes_of ?d (hdr f)" "\<forall>t hh. t \<noteq> s \<longrightarrow> M t = Some hh \<longrightarrow> bytes_of d' hh = bytes_of ?d hh"
    using d'(1) Suc.prems(4,5) by (auto simp: PageSize_def)
  note lp = load_page_ok [OF Suc.prems(1) l room(2) d'(2,3)]
  have step: "load_pages (Suc n) i f addr vm = load_pages n (i + 1) f addr (load_page bs d' vm)"
    using rd d'(1) by (simp add: Let_def tk load_page_def bs_def code_page_def PageSize_def)
  have fl: "dsk (files (load_page bs d' vm)) = d'" "swapSpace (load_page bs d' vm) = swapSpace vm" "uninit (files (load_page bs d' vm)) = ?g"
    "swapSpace_counter (load_page bs d' vm) = ?v + 1" by (simp_all add: load_page_def)
  obtain vm' where vm': "load_pages n (i + 1) f addr (load_page bs d' vm) = Inr vm'" "vol_inv (dsk (files vm')) M fm"
    "\<forall>t hh. t \<noteq> s \<longrightarrow> M t = Some hh \<longrightarrow> bytes_of (dsk (files vm')) hh = bytes_of d' hh"
    "loaded (load_page bs d' vm) vm' n (\<lambda>j. code_page ?g (bytes_of d' (hdr f)) (nat addr + 128 * (i + 1 + j)))"
    using Suc.IH [of "load_page bs d' vm" "i + 1", unfolded fl] lp(1) w'(1) Suc.prems(3-6) room(3) by auto
  have "loaded vm vm' (Suc n) (\<lambda>j. code_page ?g (bytes_of ?d (hdr f)) (nat addr + 128 * (i + j)))"
    by (rule loaded_step [OF _ l _ lp(2-5)]) (use vm'(4) in \<open>simp_all add: w'(2) bs_def\<close>)
  then show ?case using step vm'(1-3) w'(3) by simp
qed

section \<open>Load and Execute\<close>

text \<open>The header \<open>Load\<close> works with: the first 52 bytes, swapped when they were written on a machine of the other byte order.\<close>

definition noff_header :: "byte list \<Rightarrow> NoffHeader" where
  "noff_header bs =
     (let h = bytes_to_noff (take 52 bs)
      in if noffMagic h \<noteq> NOFFMAGIC \<and> swap_word (noffMagic h) = NOFFMAGIC then SwapHeader h else h)"

text \<open>The part of a machine state the virtual memory does not look at.\<close>

lemma vm_inv_cong:
  assumes "mainMemory (mach vm') = mainMemory (mach vm)" "tables (mach vm') = tables (mach vm)" "frameMap vm' = frameMap vm"
    "dsk (files vm') = dsk (files vm)" "swapSpace vm' = swapSpace vm" "swapSpace_counter vm' = swapSpace_counter vm"
    "FIFOEntryList vm' = FIFOEntryList vm" "newTable vm' = newTable vm"
  shows "vm_inv F vm' = vm_inv F vm" "page_bytes vm' = page_bytes vm"
  using assms entry_at_cong [OF assms(2)] ptr_ok_cong [OF assms(2)] by (simp add: vm_inv_def, intro ext, simp add: page_bytes_def)

lemma user_byte_page:
  assumes "unat va < 128 * n" "\<forall>j<n. page_bytes vm (t, j) = code_page g bs (a + 128 * j)" "a + unat va < length bs"
  shows "user_bytes vm t va 1 = [bs ! (a + unat va)]"
proof -
  let ?j = "unat (va div 128)" and ?o = "unat (va mod 128)"
  have o: "?o < 128" by (rule unat_offset(2))
  have d: "?j = unat va div 128" "?o = unat va mod 128" by (simp_all add: unat_div unat_mod)
  then have j: "?j < n" "unat va = 128 * ?j + ?o" using assms(1) by (simp_all add: less_mult_imp_div_less mult.commute)
  then have "page_bytes vm (t, ?j) ! ?o = bs ! (a + unat va)" "length (page_bytes vm (t, ?j)) = 128"
    using assms(2,3) o nth_code_page [of ?o "a + 128 * ?j" bs g] by (simp_all add: add.assoc)
  then show ?thesis using o by (simp add: user_bytes_def take_Suc_conv_app_nth hd_drop_conv_nth take_Suc)
qed

lemma Load_ok:
  assumes vm: "vm_ok vm" and dir: "in_dir fs (files vm) M fm 1 hw" and nm: "47 \<notin> set nm"
    and pr: "printable (dsk (files vm)) M (table (dir_of (dsk (files vm)) hw))"
    and x: "dir_abs (dir_of (dsk (files vm)) hw) (name_key nm) = Some (x, b)" "M x = Some h" "52 \<le> numBytes h"
    and s: "M s = Some (hdr (swapSpace vm))" "x \<noteq> s"
  defines "bs \<equiv> bytes_of (dsk (files vm)) h"
  defines "nh \<equiv> noff_header bs"
  assumes magic: "noffMagic nh = NOFFMAGIC" and cd: "0 < segSize (code nh)" "0 \<le> inFileAddr (code nh)"
    and room: "(swapSpace_counter vm + uint (space_pages nh)) * 128 \<le> numBytes (hdr (swapSpace vm))"
  shows "\<exists>vm'. Load nm vm = Inr (True, Some (Some (newTable vm), space_pages nh), vm') \<and> vm_ok vm' \<and> vol_inv (dsk (files vm')) M fm
    \<and> (\<forall>t hh. t \<noteq> s \<longrightarrow> M t = Some hh \<longrightarrow> bytes_of (dsk (files vm')) hh = bytes_of (dsk (files vm)) hh) \<and> length (tables (mach vm') (newTable vm)) = unat (space_pages nh)
    \<and> mach vm' = (mach vm)\<lparr>tables := tables (mach vm')\<rparr> \<and> swapSpace vm' = swapSpace vm
    \<and> (\<forall>q. ptr_ok vm q \<longrightarrow> ptr_ok vm' q \<and> page_bytes vm' q = page_bytes vm q)
    \<and> (\<forall>t. t \<noteq> newTable vm \<longrightarrow> length (tables (mach vm') t) = length (tables (mach vm) t))
    \<and> (\<forall>j<unat (space_pages nh). \<not> valid (entry_at vm' (newTable vm, j)) \<and> \<not> readOnly (entry_at vm' (newTable vm, j))
         \<and> page_bytes vm' (newTable vm, j) = code_page (uninit (files vm)) bs (nat (inFileAddr (code nh)) + 128 * j))"
proof -
  let ?n = "unat (space_pages nh)" and ?t = "newTable vm" and ?f = "\<lparr>hdr = h, seekPosition = 0, hdrSector = x\<rparr> :: OpenFile"
  obtain out k where k: "Open (files vm) nm 1 = Inr (Some ?f, out, k)" "dsk k = dsk (files vm)" "uninit k = uninit (files vm)"
    using Open_run [OF dir nm pr] x(1,2) by auto
  note D = in_dirD [OF dir]
  have ok: "file_ok (dsk (files vm)) h" using vol_invD(4) [OF D(1) x(2)] by (simp add: file_at_def)
  have len: "length bs = nat (numBytes h)" using ok by (simp add: bs_def)
  have "transfer h 52 0 = 52" using x(3) by (simp add: transfer_def)
  then have rd: "ReadAt ?f (dsk k) 52 0 = Inr (52, take 52 bs)" using ReadAt_ok [of "dsk k" ?f 0 52] ok k(2) by (simp add: bs_def)
  have ov: "overwrite (map (uninit k) [0..<52]) 0 (take 52 bs) = take 52 bs" using len x(3) by (simp add: overwrite_def)
  define h0 where "h0 = bytes_to_noff (take 52 bs)"
  have nh: "nh = (if noffMagic h0 \<noteq> NOFFMAGIC \<and> swap_word (noffMagic h0) = NOFFMAGIC then SwapHeader h0 else h0)"
    by (simp add: nh_def noff_header_def h0_def Let_def)
  have e: "tables (mach vm) ?t = []" using vm by (simp add: vm_inv_def)
  define v0 where "v0 = vm\<lparr>files := k, mach := (mach vm)\<lparr>tables := (tables (mach vm))(?t := [])\<rparr>\<rparr>"
  have t0: "tables (mach v0) = tables (mach vm)" using e by (simp add: v0_def fun_upd_idem)
  have m0: "mach v0 = mach vm" using t0 by (cases "mach vm") (simp add: v0_def)
  have f0: "newTable v0 = ?t" "swapSpace v0 = swapSpace vm" "swapSpace_counter v0 = swapSpace_counter vm" "files v0 = k"
    "frameMap v0 = frameMap vm" "FIFOEntryList v0 = FIFOEntryList vm" by (simp_all add: v0_def)
  have v: "vm_ok v0" "page_bytes v0 = page_bytes vm" "ptr_ok v0 = ptr_ok vm"
    using vm_inv_cong [of v0 vm] vm k(2) f0 m0 ptr_ok_cong [OF t0] by simp_all
  then have l0: "loading v0"
    using ptr_ok_cong [of "v0\<lparr>newTable := newTable v0 + 1\<rparr>" v0] entry_at_cong [of "v0\<lparr>newTable := newTable v0 + 1\<rparr>" v0] by (simp add: vm_inv_def)
  have vi: "vol_inv (dsk (files v0)) M fm" "M s = Some (hdr (swapSpace v0))" "M x = Some (hdr ?f)" using D(1) k(2) s(1) x(2) f0 by simp_all
  have rm: "(swapSpace_counter v0 + int ?n) * 128 \<le> numBytes (hdr (swapSpace v0))" using room f0 by simp
  obtain v1 where v1: "load_pages ?n 0 ?f (inFileAddr (code nh)) v0 = Inr v1" "vol_inv (dsk (files v1)) M fm" "\<forall>t hh. t \<noteq> s \<longrightarrow> M t = Some hh \<longrightarrow> bytes_of (dsk (files v1)) hh = bytes_of (dsk (files vm)) hh"
    "loaded v0 v1 ?n (\<lambda>j. code_page (uninit (files vm)) bs (nat (inFileAddr (code nh)) + 128 * j))"
    using load_pages_ok [OF l0 vi s(2) cd(2) rm, of 0] f0(4) k(2,3) by (auto simp: bs_def)
  define vm' where "vm' = v1\<lparr>newTable := ?t + 1, files := OpenFile_delete ?f (files v1)\<rparr>"
  have "Load nm vm = Inr (True, Some (Some ?t, space_pages nh), vm')"
    unfolding Load_def k(1) bind_res.simps prod.case option.case rd Let_def ov h0_def [symmetric] nh [symmetric] v0_def [symmetric]
    using magic cd(1) v1(1) by (simp add: vm'_def)
  moreover note L = v1(4) [unfolded loaded_def Let_def f0 m0 v(2,3) e]
  have "vm_ok (v1\<lparr>newTable := newTable v1 + 1\<rparr>)" "newTable v1 = ?t" using L by blast+
  then have "vm_ok vm'" using vm_inv_cong(1) [of vm' "v1\<lparr>newTable := ?t + 1\<rparr>"] by (simp add: vm'_def)
  moreover have "swapSpace vm' = swapSpace vm" using L by (simp add: vm'_def)
  moreover have tm: "mach vm' = mach v1" "dsk (files vm') = dsk (files v1)" by (simp_all add: vm'_def)
  moreover have "page_bytes vm' q = page_bytes v1 q" for q
    using entry_at_cong [of vm' v1] by (simp add: page_bytes_def tm) (simp add: vm'_def)
  moreover have "entry_at vm' = entry_at v1" by (rule entry_at_cong) (simp add: vm'_def)
  moreover have "ptr_ok vm' = ptr_ok v1" using ptr_ok_cong [of vm' v1] by (simp add: tm)
  moreover have "length (tables (mach v1) ?t) = ?n"
  proof -
    have p: "ptr_ok v1 (?t, j) \<longleftrightarrow> j < ?n" for j using L e by (auto simp: ptr_ok_def [of vm])
    then have "j < length (tables (mach v1) ?t) \<longleftrightarrow> j < ?n" for j by (simp add: ptr_ok_def)
    then show ?thesis by (metis linorder_neqE_nat nat_less_le)
  qed
  moreover have "length (tables (mach v1) t) = length (tables (mach vm) t)" if "t \<noteq> ?t" for t
  proof -
    have "ptr_ok v1 (t, j) = ptr_ok vm (t, j)" for j using L that by simp
    then have "j < length (tables (mach v1) t) \<longleftrightarrow> j < length (tables (mach vm) t)" for j by (simp add: ptr_ok_def)
    then show ?thesis by (metis linorder_neqE_nat nat_less_le)
  qed
  ultimately show ?thesis using L v1(2,3) by (intro exI [of _ vm']) auto
qed

lemma clear_registers_ok:
  "0 \<le> i \<Longrightarrow> i + int n \<le> 40 \<Longrightarrow> length (registers m) = 40
    \<Longrightarrow> clear_registers n i m = Inr (m\<lparr>registers := overwrite (registers m) (nat i) (replicate n 0)\<rparr>)"
proof (induction n arbitrary: i m)
  case 0
  then show ?case by (cases m) (simp add: overwrite_def)
next
  case (Suc n)
  let ?r = "registers m"
  have "clear_registers (Suc n) i m = clear_registers n (i + 1) (m\<lparr>registers := ?r[nat i := 0]\<rparr>)"
    using Suc.prems by (simp add: WriteRegister_def reg_defs)
  also have "\<dots> = Inr (m\<lparr>registers := overwrite (?r[nat i := 0]) (nat (i + 1)) (replicate n 0)\<rparr>)" using Suc by simp
  also have "overwrite (?r[nat i := 0]) (nat (i + 1)) (replicate n 0) = overwrite ?r (nat i) (replicate (Suc n) 0)"
    using Suc.prems by (intro nth_equalityI) (auto simp: nth_overwrite nat_add_distrib nth_Cons nth_list_update split: nat.splits)
  finally show ?case .
qed

text \<open>The registers a program starts with.\<close>

lemma Execute_ok:
  assumes "length (registers m) = 40"
  shows "Execute (t, np) m = Inr (m\<lparr>registers := (replicate 40 0)[NextPCReg := 4, StackReg := np * 128 - 16], pageTable := Some t, pageTableSize := np\<rparr>)"
proof -
  have "clear_registers NumTotalRegs 0 m = Inr (m\<lparr>registers := replicate 40 0\<rparr>)"
    using clear_registers_ok [of 0 40 m] assms by (simp add: reg_defs overwrite_def)
  moreover have "(replicate 40 (0 :: u32))[34 := 0] = replicate 40 0" by (rule nth_equalityI) (simp_all add: nth_list_update)
  ultimately show ?thesis by (simp add: Execute_def InitRegisters_def WriteRegister_def RestoreState_def reg_defs PageSize_def)
qed

section \<open>The memory of a program\<close>

definition user_memory :: "VM \<Rightarrow> nat \<Rightarrow> byte list" where
  "user_memory vm pt = concat (map (\<lambda>j. page_bytes vm (pt, j)) [0..<length (tables (mach vm) pt)])"

lemma length_concat_chunks: "\<forall>x\<in>set xs. length x = 128 \<Longrightarrow> length (concat xs) = 128 * length xs"
  by (induction xs) auto

lemma take_drop_concat:
  "\<forall>x\<in>set xs. length x = 128 \<Longrightarrow> j < length xs \<Longrightarrow> off + n \<le> 128
    \<Longrightarrow> take n (drop (128 * j + off) (concat xs)) = take n (drop off (xs ! j))"
  by (induction xs arbitrary: j) (auto simp: nth_Cons split: nat.splits)

lemma overwrite_concat:
  "\<forall>x\<in>set xs. length x = 128 \<Longrightarrow> j < length xs \<Longrightarrow> off + length ys \<le> 128
    \<Longrightarrow> concat (xs[j := overwrite (xs ! j) off ys]) = overwrite (concat xs) (128 * j + off) ys"
  by (induction xs arbitrary: j) (auto simp: overwrite_def nth_Cons add.assoc split: nat.splits)

lemma length_page_bytes: "vm_ok vm \<Longrightarrow> ptr_ok vm q \<Longrightarrow> length (page_bytes vm q) = 128"
proof -
  assume i: "vm_ok vm" and q: "ptr_ok vm q"
  have l: "length (mainMemory (mach vm)) = 4096" "file_ok (dsk (files vm)) (hdr (swapSpace vm))" using i by (simp_all add: vm_inv_def)
  show ?thesis
    using vm_invD(4) [OF i q] swap_read(2) [OF l(2) vm_invD(2,3) [OF i q]] l(1) length_page_in [of "frame_of vm q" "mainMemory (mach vm)"]
    by (auto simp: page_bytes_def)
qed

lemma user_memory_pages:
  assumes "vm_ok vm"
  shows "\<forall>x\<in>set (map (\<lambda>j. page_bytes vm (pt, j)) [0..<length (tables (mach vm) pt)]). length x = 128"
    "length (user_memory vm pt) = 128 * length (tables (mach vm) pt)"
proof -
  show p: "\<forall>x\<in>set (map (\<lambda>j. page_bytes vm (pt, j)) [0..<length (tables (mach vm) pt)]). length x = 128"
    using length_page_bytes [OF assms] by (auto simp: ptr_ok_def)
  show "length (user_memory vm pt) = 128 * length (tables (mach vm) pt)"
    unfolding user_memory_def length_concat_chunks [OF p] by simp
qed

lemma page_split: "unat (va :: u32) = 128 * unat (va div 128) + unat (va mod 128)"
  by (simp add: unat_div unat_mod)

lemma user_bytes_memory:
  assumes "vm_ok vm" "unat (va div 128) < length (tables (mach vm) pt)" "unat (va mod 128) + n \<le> 128"
  shows "user_bytes vm pt va n = take n (drop (unat va) (user_memory vm pt))"
  using take_drop_concat [OF user_memory_pages(1) [OF assms(1), of pt], of "unat (va div 128)" "unat (va mod 128)" n] assms(2,3) page_split [of va]
  by (simp add: user_memory_def user_bytes_def)

lemma same_pages_length: "\<forall>q. ptr_ok vm' q = ptr_ok vm q \<Longrightarrow> length (tables (mach vm') t) = length (tables (mach vm) t)"
proof -
  assume p: "\<forall>q. ptr_ok vm' q = ptr_ok vm q"
  have "j < length (tables (mach vm') t) \<longleftrightarrow> j < length (tables (mach vm) t)" for j using p [THEN spec, of "(t, j)"] by (simp add: ptr_ok_def)
  then show ?thesis by (metis linorder_neqE_nat nat_less_le)
qed

lemma same_pages_memory:
  assumes "same_pages vm vm'"
  shows "user_memory vm' t = user_memory vm t"
proof -
  have "length (tables (mach vm') t) = length (tables (mach vm) t)" using same_pages_length assms by (simp add: same_pages_def)
  moreover have "page_bytes vm' (t, j) = page_bytes vm (t, j)" if "j < length (tables (mach vm) t)" for j
    using assms that by (simp add: same_pages_def ptr_ok_def)
  ultimately show ?thesis unfolding user_memory_def by (intro arg_cong [of _ _ concat] map_cong) simp_all
qed

lemma access_ok_offset:
  assumes "access_ok vm va sz"
  shows "unat (va mod 128) + nat sz \<le> 128"
proof -
  have "uint va mod 128 + sz \<le> 128" using assms by (intro aligned_in_page) (auto simp: access_ok_def)
  moreover have "0 \<le> sz" using assms by (auto simp: access_ok_def)
  ultimately show ?thesis unfolding unat_offset(1) by (simp add: nat_add_distrib [symmetric] nat_le_iff)
qed

lemma stored_memory:
  assumes i: "vm_ok vm" and p: "\<forall>q. ptr_ok vm' q = ptr_ok vm q" and e: "ptr_ok vm (pt, j)" and o: "off + length ys \<le> 128"
    and b: "\<forall>q. ptr_ok vm q \<longrightarrow> page_bytes vm' q = (if q = (pt, j) then overwrite (page_bytes vm (pt, j)) off ys else page_bytes vm q)"
  shows "user_memory vm' t = (if t = pt then overwrite (user_memory vm pt) (128 * j + off) ys else user_memory vm t)"
proof (cases "t = pt")
  case True
  let ?n = "length (tables (mach vm) pt)" and ?xs = "map (\<lambda>j. page_bytes vm (pt, j)) [0..<length (tables (mach vm) pt)]"
  have j: "j < ?n" using e by (simp add: ptr_ok_def)
  have "map (\<lambda>j. page_bytes vm' (pt, j)) [0..<?n] = ?xs[j := overwrite (?xs ! j) off ys]"
    using b j by (intro nth_equalityI) (auto simp: ptr_ok_def nth_list_update)
  then show ?thesis using True overwrite_concat [OF user_memory_pages(1) [OF i, of pt], of j off ys] o j same_pages_length [OF p, of pt]
    by (simp add: user_memory_def)
next
  case False
  then have "page_bytes vm' (t, j) = page_bytes vm (t, j)" if "j < length (tables (mach vm) t)" for j using b that by (simp add: ptr_ok_def)
  then show ?thesis using False same_pages_length [OF p, of t] unfolding user_memory_def by (intro if_not_P [THEN trans, symmetric] arg_cong [of _ _ concat] map_cong) simp_all
qed

section \<open>Properties\<close>



lemma Execute_attached:
  assumes i: "vm_ok vm" and m: "length (registers (mach vm)) = 40" "tlb (mach vm) = None" "length (tables (mach vm) t) = unat np"
  shows "\<exists>m. Execute (t, np) (mach vm) = Inr m \<and> vm_ok (vm\<lparr>mach := m\<rparr>) \<and> attached t (vm\<lparr>mach := m\<rparr>) \<and> pageTableSize m = np
    \<and> registers m ! PCReg = 0 \<and> registers m ! NextPCReg = 4 \<and> registers m ! StackReg = np * 128 - 16
    \<and> page_bytes (vm\<lparr>mach := m\<rparr>) = page_bytes vm \<and> tables m = tables (mach vm)"
proof -
  let ?m = "(mach vm)\<lparr>registers := (replicate 40 0)[NextPCReg := 4, StackReg := np * 128 - 16], pageTable := Some t, pageTableSize := np\<rparr>"
  have "vm_ok (vm\<lparr>mach := ?m\<rparr>)" "page_bytes (vm\<lparr>mach := ?m\<rparr>) = page_bytes vm" using vm_inv_cong [of "vm\<lparr>mach := ?m\<rparr>" vm] i by simp_all
  moreover have "attached t (vm\<lparr>mach := ?m\<rparr>)" using i m by (simp add: attached_def wf_machine_def mmu_ok_def vm_inv_def reg_defs)
  ultimately show ?thesis using Execute_ok [OF m(1), of t np] by (intro exI [of _ ?m]) (simp add: reg_defs)
qed

lemma nth_concat_chunks:
  "\<forall>x\<in>set xs. length x = 128 \<Longrightarrow> j < 128 * length xs \<Longrightarrow> concat xs ! j = xs ! (j div 128) ! (j mod 128)"
proof -
  assume x: "\<forall>x\<in>set xs. length x = 128" and j: "j < 128 * length xs"
  then have d: "j div 128 < length xs" by (simp add: less_mult_imp_div_less mult.commute)
  have m: "j mod 128 < 128" by simp
  have "take 1 (drop j (concat xs)) = take 1 (drop (j mod 128) (xs ! (j div 128)))"
    using take_drop_concat [OF x d, of "j mod 128" 1] m by (simp add: Suc_le_eq mult.commute)
  then show ?thesis using x j d m by (simp add: take_Suc length_concat_chunks hd_drop_conv_nth)
qed


section \<open>A program to run\<close>

definition example_noff :: "byte list" where
  "example_noff = ints_to_bytes [NOFFMAGIC, 0, 40, 100, 100, 140, 0, 100, 140, 0, 100, 140, 0]"

lemma example_noff_header:
  "length example_noff = 52" "bytes_to_noff example_noff = \<lparr>noffMagic = NOFFMAGIC, code = \<lparr>virtualAddr = 0, inFileAddr = 40, segSize = 100\<rparr>,
     initData = \<lparr>virtualAddr = 100, inFileAddr = 140, segSize = 0\<rparr>, readonlyData = \<lparr>virtualAddr = 100, inFileAddr = 140, segSize = 0\<rparr>,
     uninitData = \<lparr>virtualAddr = 100, inFileAddr = 140, segSize = 0\<rparr>\<rparr>"
proof -
  show "length example_noff = 52" by (simp add: example_noff_def)
  have "bytes_to_ints example_noff = [NOFFMAGIC, 0, 40, 100, 100, 140, 0, 100, 140, 0, 100, 140, 0]"
    unfolding example_noff_def by (rule bytes_to_ints_to_bytes) (simp add: in_int_def NOFFMAGIC_def)
  then show "bytes_to_noff example_noff = \<lparr>noffMagic = NOFFMAGIC, code = \<lparr>virtualAddr = 0, inFileAddr = 40, segSize = 100\<rparr>,
     initData = \<lparr>virtualAddr = 100, inFileAddr = 140, segSize = 0\<rparr>, readonlyData = \<lparr>virtualAddr = 100, inFileAddr = 140, segSize = 0\<rparr>,
     uninitData = \<lparr>virtualAddr = 100, inFileAddr = 140, segSize = 0\<rparr>\<rparr>"
    by (simp add: bytes_to_noff_def segment_of_def Let_def)
qed

lemma example_noff_pages:
  assumes "take 52 bs = example_noff"
  shows "noffMagic (noff_header bs) = NOFFMAGIC" "code (noff_header bs) = \<lparr>virtualAddr = 0, inFileAddr = 40, segSize = 100\<rparr>"
    "space_pages (noff_header bs) = 9"
  by (simp_all add: noff_header_def assms example_noff_header(2) space_pages_def UserStackSize_def PageSize_def)

lemma in_dir_kept:
  assumes dir: "in_dir fs k M fm wd hw" and d: "vol_inv d M fm" "bytes_of d hw = bytes_of (dsk k) hw"
    "bytes_of d (hdr (freeMapFile fs)) = bytes_of (dsk k) (hdr (freeMapFile fs))"
  shows "in_dir fs (k\<lparr>dsk := d\<rparr>) M fm wd hw" "dir_of d hw = dir_of (dsk k) hw"
  using dir d vol_invD(4) [OF d(1), of 0] by (simp_all add: in_dir_def fs_inv_def saved_in_def dir_of_def file_at_def)

lemma in_dir_write:
  fixes f :: OpenFile
  assumes dir: "in_dir fs k M fm wd hw" and x: "M x = Some (hdr f)" "x \<noteq> 0" "x \<noteq> wd" and bs: "int (length bs) \<le> numBytes (hdr f)"
  shows "\<exists>d. in_dir fs (k\<lparr>dsk := d\<rparr>) M fm wd hw \<and> take (length bs) (bytes_of d (hdr f)) = bs \<and> dir_of d hw = dir_of (dsk k) hw"
proof -
  note D = in_dirD [OF dir]
  have ok: "file_ok (dsk k) (hdr f)" using vol_invD(4) [OF D(1) x(1)] by (simp add: file_at_def)
  have t: "transfer (hdr f) (int (length bs)) 0 = length bs" using transfer_length [OF ok, of "int (length bs)" 0] ok bs by simp
  obtain d where d: "vol_inv d M fm" "bytes_of d (hdr f) = overwrite (bytes_of (dsk k) (hdr f)) 0 bs"
    "\<forall>t hh. t \<noteq> x \<longrightarrow> M t = Some hh \<longrightarrow> bytes_of d hh = bytes_of (dsk k) hh"
    using vol_write [OF D(1) x(1), of 0 "int (length bs)" bs "uninit k"] unfolding t by auto
  have same: "bytes_of d hw = bytes_of (dsk k) hw" "bytes_of d (hdr (freeMapFile fs)) = bytes_of (dsk k) (hdr (freeMapFile fs))"
    using d(3) x(2,3) D(2,3) by (auto simp: fs_inv_def)
  note in_dir_kept [OF dir d(1) same]
  moreover have "take (length bs) (bytes_of d (hdr f)) = bs" by (simp add: d(2) overwrite_def)
  ultimately show ?thesis by blast
qed

lemma example_vm:
  "\<exists>fs vm M fm hw x s h. vm_ok vm \<and> length (registers (mach vm)) = 40 \<and> tlb (mach vm) = None \<and> in_dir fs (files vm) M fm 1 hw
    \<and> 47 \<notin> set (letter 0) \<and> printable (dsk (files vm)) M (table (dir_of (dsk (files vm)) hw))
    \<and> dir_abs (dir_of (dsk (files vm)) hw) (name_key (letter 0)) = Some (x, False) \<and> M x = Some h \<and> 52 \<le> numBytes h
    \<and> M s = Some (hdr (swapSpace vm)) \<and> x \<noteq> s \<and> take 52 (bytes_of (dsk (files vm)) h) = example_noff
    \<and> numBytes (hdr (swapSpace vm)) = 3712 \<and> swapSpace_counter vm = 0 \<and> newTable vm = 0
    \<and> dir_abs (dir_of (dsk (files vm)) hw) (name_key (letter 3)) = None \<and> \<not> dir_full (dir_of (dsk (files vm)) hw) \<and> has_room fm 0 \<and> s \<noteq> 0 \<and> s \<noteq> 1"
proof -
  obtain fs k M fm hw and f :: OpenFile where e: "in_dir fs k M fm 1 hw" "dir_abs (dir_of (dsk k) hw) = [letter 0 \<mapsto> (hdrSector f, False)]"
    "M (hdrSector f) = Some (hdr f)" "hdrSector f \<noteq> 0" "hdrSector f \<noteq> 1" "numBytes (hdr f) = 300" "numSectors (hdr f) = 3" "1000 \<le> card (free_bits fm)"
    using example_volume by blast
  have l: "47 \<notin> set (letter 1)" "name_key (letter 1) = letter 1" "letter 1 \<noteq> letter 0" "47 \<notin> set (letter 0)" "name_key (letter 0) = letter 0"
    using name_key_letter(1,2) [of 1] name_key_letter(1,2) [of 0] name_key_letter(3) [of 1 0] by auto
  have none: "dir_abs (dir_of (dsk k) hw) (name_key (letter 1)) = None" using e(2) l by simp
  have full: "\<not> dir_full (dir_of (dsk k) hw)"
    using dir_full_card [of "dir_of (dsk k) hw"] in_dirD(6) [OF e(1)] e(2) by (simp add: dir_of_def)
  have "has_room fm 3712" using e(8) by (simp add: has_room_def)
  from Create_step [OF e(1) l(1) none full _ this] obtain d1 h fm' s where
    c: "M s = None" "in_dir fs ((open_maps k 1)\<lparr>dsk := d1\<rparr>) (M(s \<mapsto> h)) fm' 1 hw" "numBytes h = 3712" "numSectors h = 29"
    "dir_abs (dir_of d1 hw) = (dir_abs (dir_of (dsk k) hw))(name_key (letter 1) \<mapsto> (s, False))"
    "card (free_bits fm) = card (free_bits fm') + 31" by auto
  have s: "hdrSector f \<noteq> s" using c(1) e(3) by auto
  then have "(M(s \<mapsto> h)) (hdrSector f) = Some (hdr f)" "int (length example_noff) \<le> numBytes (hdr f)" using e(3,6) by (simp_all add: example_noff_header(1))
  from in_dir_write [OF c(2) this(1) e(4,5) this(2)] obtain d where
    d: "in_dir fs ((open_maps k 1)\<lparr>dsk := d\<rparr>) (M(s \<mapsto> h)) fm' 1 hw" "take 52 (bytes_of d (hdr f)) = example_noff" "dir_of d hw = dir_of d1 hw"
    by (auto simp: example_noff_header(1) simp del: fun_upd_apply)
  obtain b where b: "Bitmap_new 32 = Inr b" "wf_bitmap b" "numBits b = 32" "marked b = {}" using Bitmap_new_eq [of 32] by auto
  let ?m = "\<lparr>registers = replicate 40 0, mainMemory = replicate 4096 0, tlb = None, pageTable = None, pageTableSize = 0,
    tables = (\<lambda>_. []), singleStep = False, runUntilTime = 0\<rparr> :: Machine"
  let ?vm = "\<lparr>mach = ?m, files = (open_maps k 1)\<lparr>dsk := d\<rparr>, swapSpace = \<lparr>hdr = h, seekPosition = 0, hdrSector = s\<rparr>, swapSpace_counter = 0,
    FIFOEntryList = [], frameMap = b, newTable = 0\<rparr>"
  have "file_ok d h" using vol_invD(4) [OF in_dirD(1) [OF d(1)], of s h] by (simp add: file_at_def)
  then have "vm_ok ?vm" using b c(3) by (simp add: vm_inv_def ptr_ok_def)
  moreover have da: "dir_abs (dir_of d hw) = [letter 0 \<mapsto> (hdrSector f, False), letter 1 \<mapsto> (s, False)]" using c(5) d(3) e(2) l(2) by simp
  then have "\<forall>n t b. dir_abs (dir_of d hw) n = Some (t, b) \<longrightarrow> length n < 9 \<and> (\<exists>hh. (M(s \<mapsto> h)) t = Some hh \<and> numSectors hh \<le> 29)"
    using c(4) e(3,7) s by (auto simp: letter_def split: if_splits)
  then have "printable d (M(s \<mapsto> h)) (table (dir_of d hw))" using printable_abs [OF in_dirD(1,6) [OF d(1)]] by simp
  moreover have "letter 3 \<noteq> letter 0" "letter 3 \<noteq> letter 1" "name_key (letter 3) = letter 3"
    using name_key_letter(3) [of 3 0] name_key_letter(3) [of 3 1] name_key_letter(1) [of 3] by simp_all
  then have "dir_abs (dir_of d hw) (name_key (letter 3)) = None" using da by simp
  moreover have "\<not> dir_full (dir_of d hw)" using dir_full_card [of "dir_of d hw"] in_dirD(6) [OF d(1)] da l(3) by (simp add: dir_of_def)
  moreover have "has_room fm' 0" using c(6) e(8) by (simp add: has_room_def)
  moreover have "s \<noteq> 0" "s \<noteq> 1" using c(1) in_dirD(2,3) [OF e(1)] by (auto simp: fs_inv_def)
  ultimately show ?thesis using da d c(3) e(3,6) s l
    by (intro exI [of _ fs] exI [of _ ?vm] exI [of _ "M(s \<mapsto> h)"] exI [of _ fm'] exI [of _ hw] exI [of _ "hdrSector f"] exI [of _ s] exI [of _ "hdr f"])
      (simp add: fun_upd_def)
qed


lemma example_program:
  "\<exists>vm. vm_ok vm \<and> attached 0 vm \<and> pageTableSize (mach vm) = 9 \<and> length (tables (mach vm) 0) = 9
    \<and> (\<forall>j<9. \<not> valid (entry_at vm (0, j)) \<and> \<not> readOnly (entry_at vm (0, j)))"
proof -
  obtain fs vm M fm hw x s h where e: "vm_ok vm" "length (registers (mach vm)) = 40" "tlb (mach vm) = None" "in_dir fs (files vm) M fm 1 hw"
    "47 \<notin> set (letter 0)" "printable (dsk (files vm)) M (table (dir_of (dsk (files vm)) hw))"
    "dir_abs (dir_of (dsk (files vm)) hw) (name_key (letter 0)) = Some (x, False)" "M x = Some h" "52 \<le> numBytes h"
    "M s = Some (hdr (swapSpace vm))" "x \<noteq> s" "take 52 (bytes_of (dsk (files vm)) h) = example_noff"
    "numBytes (hdr (swapSpace vm)) = 3712" "swapSpace_counter vm = 0" "newTable vm = 0" using example_vm by blast
  from Load_ok [OF e(1,4-11)] example_noff_pages [OF e(12)] e(13-15) obtain vm' where vm': "vm_ok vm'" "length (tables (mach vm') 0) = 9"
    "mach vm' = (mach vm)\<lparr>tables := tables (mach vm')\<rparr>" "\<forall>j<9. \<not> valid (entry_at vm' (0, j)) \<and> \<not> readOnly (entry_at vm' (0, j))" by auto
  have "registers (mach vm') = registers (mach vm)" "tlb (mach vm') = tlb (mach vm)" by (subst vm'(3), simp)+
  then obtain m where m: "vm_ok (vm'\<lparr>mach := m\<rparr>)" "attached 0 (vm'\<lparr>mach := m\<rparr>)" "pageTableSize m = 9" "tables m = tables (mach vm')"
    using Execute_attached [OF vm'(1), of 0 9] e(2,3) vm'(2) by auto
  then show ?thesis using vm'(2,4) entry_at_cong [of "vm'\<lparr>mach := m\<rparr>" vm'] by (intro exI [of _ "vm'\<lparr>mach := m\<rparr>"]) simp
qed



section \<open>The swap file is empty\<close>

text \<open>\<open>Open\<close> of a name that is there, once the listing has been printed.\<close>

lemma Open_listed:
  assumes dir: "in_dir fs k M fm wd hw" and nm: "47 \<notin> set nm" "dir_abs (dir_of (dsk k) hw) (name_key nm) = Some (s, b)" "M s = Some h"
    and out: "Directory_Print (dir_of (dsk k) hw) (dsk k) = Inr out"
  shows "\<exists>k'. Open k nm wd = Inr (Some \<lparr>hdr = h, seekPosition = 0, hdrSector = s\<rparr>, out, k')"
proof -
  note D = in_dirD [OF dir]
  have "Find (dir_of (dsk k) hw) nm = s" using Find_abs [of "dir_of (dsk k) hw"] D(6) nm(2) by (simp add: dir_ok_def)
  moreover have "0 \<le> s" using vol_invD(4) [OF D(1) nm(3)] by (simp add: file_at_def valid_sector_def)
  moreover have "OpenFile_new (open_maps k wd) s = Inr (\<lparr>hdr = h, seekPosition = 0, hdrSector = s\<rparr>, open_maps (open_maps k wd) s)"
    using vol_open [of "open_maps k wd" M fm s h] D(1) nm(3) by simp
  ultimately show ?thesis using out D(8) by (simp add: Open_def parse_path_plain [OF nm(1)] in_dir_open [OF dir] Let_def)
qed

lemma load_pages_empty:
  assumes "numBytes (hdr (swapSpace vm)) = 0" "0 \<le> swapSpace_counter vm"
    and "file_ok (dsk (files vm)) (hdr f)" "0 \<le> addr"
  shows "\<exists>vm'. load_pages n i f addr vm = Inr vm' \<and> dsk (files vm') = dsk (files vm)"
  using assms
proof (induction n arbitrary: i vm)
  case (Suc n)
  let ?d = "dsk (files vm)" and ?pos = "addr + int i * PageSize"
  have p: "0 \<le> ?pos" "0 \<le> swapSpace_counter vm * PageSize" using Suc.prems(2,4) by (simp_all add: PageSize_def)
  obtain r bs where r: "ReadAt f ?d PageSize ?pos = Inr (r, bs)" using ReadAt_ok [OF Suc.prems(3) p(1), of PageSize] by blast
  then have "load_pages (Suc n) i f addr vm = load_pages n (Suc i) f addr (load_page bs ?d vm)"
    using Suc.prems p(2) by (simp add: Let_def WriteAt_def FileLength_def load_page_def)
  moreover have "swapSpace (load_page bs ?d vm) = swapSpace vm" "swapSpace_counter (load_page bs ?d vm) = swapSpace_counter vm + 1"
    "dsk (files (load_page bs ?d vm)) = ?d" by (simp_all add: load_page_def)
  ultimately show ?case using Suc.IH [of "load_page bs ?d vm" "Suc i"] Suc.prems by simp
qed simp

lemma swap_in_empty:
  assumes "numBytes (hdr (swapSpace vm)) = 0" "ptr_ok vm e" "0 \<le> virtualPage (entry_at vm e)" "e \<notin> set (FIFOEntryList vm)"
    and "0 \<le> ppn" "(ppn + 1) * 128 \<le> int (length (mainMemory (mach vm)))"
  shows "\<exists>vm'. swap_in e ppn vm = Inr vm' \<and> valid (entry_at vm' e) \<and> frame_of vm' e = ppn \<and> mainMemory (mach vm') = mainMemory (mach vm)"
proof -
  define vm1 where "vm1 = set_pte e (\<lambda>t. t\<lparr>physicalPage := ppn, valid := True\<rparr>) vm"
  have "0 \<le> virtualPage (entry_at vm e) * PageSize" using assms(3) by (simp add: PageSize_def)
  then have r: "ReadAt (swapSpace vm) (dsk (files vm)) PageSize (virtualPage (entry_at vm e) * PageSize) = Inr (0, [])"
    using assms(1) by (simp add: ReadAt_def FileLength_def)
  have v: "swapSpace vm1 = swapSpace vm" "files vm1 = files vm" "FIFOEntryList vm1 = FIFOEntryList vm" "mainMemory (mach vm1) = mainMemory (mach vm)"
    "virtualPage (entry_at vm1 e) = virtualPage (entry_at vm e)" "valid (entry_at vm1 e)" "frame_of vm1 e = ppn"
    using assms(2) by (simp_all add: vm1_def)
  have "nat (ppn * PageSize) \<le> length (mainMemory (mach vm))" "0 \<le> ppn * PageSize" using assms(5,6) by (simp_all add: PageSize_def nat_le_iff algebra_simps)
  then have "swap_in e ppn vm = Inr (vm1\<lparr>mach := (mach vm1)\<lparr>mainMemory := mainMemory (mach vm)\<rparr>, FIFOEntryList := FIFOEntryList vm @ [e]\<rparr>)"
    using r assms(4) by (simp add: swap_in_def Let_def vm1_def [symmetric] v list_Append_def)
  then show ?thesis using v entry_at_cong [of "vm1\<lparr>mach := (mach vm1)\<lparr>mainMemory := mainMemory (mach vm)\<rparr>, FIFOEntryList := FIFOEntryList vm @ [e]\<rparr>" vm1]
    by (intro exI conjI) (assumption, simp_all)
qed

text \<open>
  C32. The swap file the kernel creates is empty, and \<open>WriteAt\<close> never extends a file: where the kernel gets past opening it (the
  listing \<open>Open\<close> prints may run over a name), it has no bytes, loading any number of pages of any executable succeeds
  without writing anything to the disk, and bringing a page in marks it valid in a frame and leaves main memory as it was:
  the program sees what was in the frame before.
\<close>

theorem swapSpace_is_empty:
  assumes "in_dir fs k M fm 1 hw" "dir_abs (dir_of (dsk k) hw) (name_key swapSpace_name) = None" "\<not> dir_full (dir_of (dsk k) hw)" "has_room fm 0"
  shows "(\<exists>e. open_swapSpace fs k = Inl e) \<or> (\<exists>f k'. open_swapSpace fs k = Inr (Some f, k') \<and> numBytes (hdr f) = 0
    \<and> (\<forall>vm n i exe addr. swapSpace vm = f \<and> files vm = k' \<and> 0 \<le> swapSpace_counter vm \<and> file_ok (dsk k') (hdr exe) \<and> 0 \<le> addr
         \<longrightarrow> (\<exists>vm'. load_pages n i exe addr vm = Inr vm' \<and> dsk (files vm') = dsk k'))
    \<and> (\<forall>vm e ppn. swapSpace vm = f \<and> ptr_ok vm e \<and> 0 \<le> virtualPage (entry_at vm e) \<and> e \<notin> set (FIFOEntryList vm) \<and> 0 \<le> ppn
           \<and> (ppn + 1) * 128 \<le> int (length (mainMemory (mach vm)))
         \<longrightarrow> (\<exists>vm'. swap_in e ppn vm = Inr vm' \<and> valid (entry_at vm' e) \<and> frame_of vm' e = ppn \<and> mainMemory (mach vm') = mainMemory (mach vm))))"
proof -
  have nm: "47 \<notin> set swapSpace_name" by (simp add: swapSpace_name_def)
  obtain d' h fm' s where c: "Create fs k swapSpace_name 0 1 = Inr (True, (open_maps k 1)\<lparr>dsk := d'\<rparr>)"
    "in_dir fs ((open_maps k 1)\<lparr>dsk := d'\<rparr>) (M(s \<mapsto> h)) fm' 1 hw" "numBytes h = 0" "dir_abs (dir_of d' hw) (name_key swapSpace_name) = Some (s, False)"
    using Create_step [OF assms(1) nm assms(2,3) _ assms(4)] by auto
  define k1 where "k1 = (open_maps k 1)\<lparr>dsk := d'\<rparr>"
  have M: "(M(s \<mapsto> h)) s = Some h" by simp
  have d1: "dsk k1 = d'" by (simp add: k1_def)
  show ?thesis
  proof (cases "Directory_Print (dir_of d' hw) d'")
    case (Inl e)
    then have "Open k1 swapSpace_name 1 = Inl e"
      using in_dir_open [OF c(2) [folded k1_def]] d1 by (simp add: Open_def parse_path_plain [OF nm])
    then show ?thesis using c(1) by (simp add: open_swapSpace_def k1_def)
  next
    case (Inr out)
    let ?f = "\<lparr>hdr = h, seekPosition = 0, hdrSector = s\<rparr> :: OpenFile"
    obtain k2 where k2: "Open k1 swapSpace_name 1 = Inr (Some ?f, out, k2)"
      using Open_listed [OF c(2) [folded k1_def] nm _ M] c(4) Inr d1 by auto
    have o: "open_swapSpace fs k = Inr (Some ?f, k2)" using c(1) k2 by (simp add: open_swapSpace_def k1_def)
    show ?thesis using o c(3) load_pages_empty swap_in_empty
      by (intro disjI2 exI [of _ ?f] exI [of _ k2] conjI allI impI) auto
  qed
qed

theorem swapSpace_is_empty_witness:
  "\<exists>fs k. FileSystem_new boot_state True = Inr (fs, k)
    \<and> ((\<exists>e. open_swapSpace fs k = Inl e) \<or> (\<exists>f k'. open_swapSpace fs k = Inr (Some f, k') \<and> numBytes (hdr f) = 0))"
proof -
  obtain fs k h0 h1 fm where b: "FileSystem_new boot_state True = Inr (fs, k)" "in_dir fs k [0 \<mapsto> h0, 1 \<mapsto> h1] fm 1 h1" "dir_abs (dir_of (dsk k) h1) = Map.empty"
    "\<not> dir_full (dir_of (dsk k) h1)" "card (free_bits fm) = 1017" using booted by blast
  have "dir_abs (dir_of (dsk k) h1) (name_key swapSpace_name) = None" "has_room fm 0" using b(3,5) by (simp_all add: has_room_def)
  from swapSpace_is_empty [OF b(2) this(1) b(4) this(2)] b(1) show ?thesis by blast
qed

end
