(* ===== verification/FileTable.thy ===== *)
theory FileTable
  imports FileIO
begin

text \<open>
  The files user programs have open (\<open>userprog/filetable.cc\<close>): one table for the whole kernel, whose entries count how often
  they are referred to, and one vector per thread that maps the ids of the thread to ids of the table. An \<open>OpenFile *\<close> is the
  address of an object in \<open>objects\<close>.
\<close>

section \<open>State\<close>

definition MAX_OPEN_FILE_ID :: int where "MAX_OPEN_FILE_ID = 100"

record FileTableEntry =
  entry_file :: nat                     \<comment> \<open>\<open>file\<close>\<close>
  refCount :: int

record OpenFiles =
  ftable :: "FileTableEntry option list"      \<comment> \<open>\<open>FileTable::table\<close>; \<open>None\<close> is \<open>NULL\<close>\<close>
  objects :: "nat \<rightharpoonup> OpenFile"
  fstate :: kstate

text \<open>The constructor does not initialise the table: it holds what \<open>new\<close> found in memory.\<close>

definition FileTable_new :: "(nat \<Rightarrow> FileTableEntry option) \<Rightarrow> FileTableEntry option list" where
  "FileTable_new memory = map memory [0..<nat MAX_OPEN_FILE_ID]"

section \<open>FileTable\<close>

definition ReadEntry :: "int \<Rightarrow> OpenFiles \<Rightarrow> FileTableEntry option res" where
  "ReadEntry fid t = ASSERT (fid \<ge> 0 \<and> fid < MAX_OPEN_FILE_ID) (Inr (ftable t ! nat fid))"

definition WriteEntry :: "int \<Rightarrow> nat \<Rightarrow> OpenFiles \<Rightarrow> OpenFiles res" where
  "WriteEntry fid f t =
     ASSERT (fid \<ge> 0 \<and> fid < MAX_OPEN_FILE_ID) (Inr (t\<lparr>ftable := (ftable t)[nat fid := Some \<lparr>entry_file = f, refCount = 1\<rparr>]\<rparr>))"

text \<open>\<open>delete file\<close>, run by the destructor of the entry.\<close>

definition delete_file :: "nat \<Rightarrow> OpenFiles \<Rightarrow> OpenFiles res" where
  "delete_file f t =
     (case objects t f of
        None \<Rightarrow> Inl NullPointer
      | Some x \<Rightarrow> Inr (t\<lparr>objects := (objects t)(f := None), fstate := OpenFile_delete x (fstate t)\<rparr>))"

definition ClearEntry :: "int \<Rightarrow> OpenFiles \<Rightarrow> OpenFiles res" where
  "ClearEntry fid t =
     ASSERT (fid \<ge> 0 \<and> fid < MAX_OPEN_FILE_ID)
     (let entry = ftable t ! nat fid; t = t\<lparr>ftable := (ftable t)[nat fid := None]\<rparr>
      in case entry of None \<Rightarrow> Inr t | Some e \<Rightarrow> delete_file (entry_file e) t)"

function ClearTable :: "int \<Rightarrow> OpenFiles \<Rightarrow> OpenFiles res" where
  "ClearTable i t = (if i < MAX_OPEN_FILE_ID then bind_res (ClearEntry i t) (ClearTable (i + 1)) else Inr t)"
  by auto
termination by (relation "measure (\<lambda>(i, t). nat (MAX_OPEN_FILE_ID - i))") auto

function insert_from :: "int \<Rightarrow> nat \<Rightarrow> OpenFiles \<Rightarrow> (int \<times> OpenFiles) res" where
  "insert_from i f t =
     (if i < MAX_OPEN_FILE_ID then
        bind_res (ReadEntry i t) (\<lambda>entry.
        if entry = None then bind_res (WriteEntry i f t) (\<lambda>t. Inr (i, t))
        else insert_from (i + 1) f t)
      else Inr (-1, t))"
  by auto
termination by (relation "measure (\<lambda>(i, f, t). nat (MAX_OPEN_FILE_ID - i))") auto

definition FileTable_Insert :: "nat \<Rightarrow> OpenFiles \<Rightarrow> (int \<times> OpenFiles) res" where
  "FileTable_Insert f t = insert_from 0 f t"

definition FileTable_Resolve :: "int \<Rightarrow> OpenFiles \<Rightarrow> nat option res" where
  "FileTable_Resolve fid t =
     (if fid < 0 \<or> fid \<ge> MAX_OPEN_FILE_ID then Inr None
      else bind_res (ReadEntry fid t) (\<lambda>entry. Inr (map_option entry_file entry)))"

definition FileTable_Remove :: "int \<Rightarrow> OpenFiles \<Rightarrow> (int \<times> OpenFiles) res" where
  "FileTable_Remove fid t =
     (if fid < 0 \<or> fid \<ge> MAX_OPEN_FILE_ID then Inr (-1, t)
      else bind_res (ReadEntry fid t) (\<lambda>entry.
      case entry of
        None \<Rightarrow> Inr (-1, t)
      | Some e \<Rightarrow>
          let e = e\<lparr>refCount := refCount e - 1\<rparr>; t = t\<lparr>ftable := (ftable t)[nat fid := Some e]\<rparr>
          in bind_res (if refCount e \<le> 0 then ClearEntry fid t else Inr t) (\<lambda>t. Inr (0, t))))"

definition AddReference :: "int \<Rightarrow> OpenFiles \<Rightarrow> (int \<times> OpenFiles) res" where
  "AddReference fid t =
     (if fid < 0 \<or> fid \<ge> MAX_OPEN_FILE_ID then Inr (-1, t)
      else bind_res (ReadEntry fid t) (\<lambda>entry.
      case entry of
        None \<Rightarrow> Inr (-1, t)
      | Some e \<Rightarrow> Inr (0, t\<lparr>ftable := (ftable t)[nat fid := Some (e\<lparr>refCount := refCount e + 1\<rparr>)]\<rparr>)))"

section \<open>FileVector\<close>

text \<open>The value is \<open>idVector\<close>; \<open>memory\<close> is what \<open>new int[length]\<close> found.\<close>

function free_ids :: "int \<Rightarrow> int list \<Rightarrow> int list" where
  "free_ids i v = (if i < MAX_OPEN_FILE_ID then free_ids (i + 1) (v[nat i := -1]) else v)"
  by auto
termination by (relation "measure (\<lambda>(i, v). nat (MAX_OPEN_FILE_ID - i))") auto

definition FileVector_new :: "(nat \<Rightarrow> int) \<Rightarrow> OpenFiles \<Rightarrow> (int list \<times> OpenFiles) res" where
  "FileVector_new memory t =
     (let idVector = (map memory [0..<nat MAX_OPEN_FILE_ID])[0 := 0, 1 := 1]
      in bind_res (AddReference 0 t) (\<lambda>(r, t).
         bind_res (AddReference 1 t) (\<lambda>(r, t). Inr (free_ids 2 idVector, t))))"

function remove_all :: "int \<Rightarrow> int list \<Rightarrow> OpenFiles \<Rightarrow> OpenFiles res" where
  "remove_all i v t =
     (if i < MAX_OPEN_FILE_ID then bind_res (FileTable_Remove (v ! nat i) t) (\<lambda>(r, t). remove_all (i + 1) v t) else Inr t)"
  by auto
termination by (relation "measure (\<lambda>(i, v, t). nat (MAX_OPEN_FILE_ID - i))") auto

definition FileVector_delete :: "int list \<Rightarrow> OpenFiles \<Rightarrow> OpenFiles res" where
  "FileVector_delete v t = remove_all 0 v t"

function insert_local :: "int \<Rightarrow> int \<Rightarrow> int list \<Rightarrow> int \<times> int list" where
  "insert_local i globalId v =
     (if i < MAX_OPEN_FILE_ID then (if v ! nat i = -1 then (i, v[nat i := globalId]) else insert_local (i + 1) globalId v)
      else (-1, v))"
  by auto
termination by (relation "measure (\<lambda>(i, g, v). nat (MAX_OPEN_FILE_ID - i))") auto

definition FileVector_Insert :: "int list \<Rightarrow> nat \<Rightarrow> OpenFiles \<Rightarrow> (int \<times> int list \<times> OpenFiles) res" where
  "FileVector_Insert v f t =
     bind_res (FileTable_Insert f t) (\<lambda>(globalId, t). let (localId, v) = insert_local 2 globalId v in Inr (localId, v, t))"

definition FileVector_Resolve :: "int list \<Rightarrow> int \<Rightarrow> OpenFiles \<Rightarrow> nat option res" where
  "FileVector_Resolve v fid t =
     (if fid < 0 \<or> fid \<ge> MAX_OPEN_FILE_ID then Inr None else FileTable_Resolve (v ! nat fid) t)"

definition FileVector_Remove :: "int list \<Rightarrow> int \<Rightarrow> OpenFiles \<Rightarrow> (int \<times> int list \<times> OpenFiles) res" where
  "FileVector_Remove v fid t =
     (if fid < 0 \<or> fid \<ge> MAX_OPEN_FILE_ID then Inr (-1, v, t)
      else bind_res (FileTable_Remove (v ! nat fid) t) (\<lambda>(r, t). Inr (0, v[nat fid := -1], t)))"

declare ClearTable.simps [simp del] insert_from.simps [simp del] free_ids.simps [simp del] remove_all.simps [simp del] insert_local.simps [simp del]

section \<open>Inserting\<close>

text \<open>The first position of a list that satisfies \<open>P\<close>, from \<open>i\<close> on, or -1.\<close>

definition first_pos :: "('a \<Rightarrow> bool) \<Rightarrow> nat \<Rightarrow> 'a list \<Rightarrow> int" where
  "first_pos P i xs = (case filter (\<lambda>j. P (xs ! j)) [i..<length xs] of [] \<Rightarrow> -1 | j # _ \<Rightarrow> int j)"

lemma first_pos_step:
  "first_pos P i xs = (if i < length xs then if P (xs ! i) then int i else first_pos P (Suc i) xs else -1)"
  by (simp add: first_pos_def upt_conv_Cons)

lemma first_pos_in: "first_pos P i xs \<noteq> -1 \<Longrightarrow> int i \<le> first_pos P i xs \<and> first_pos P i xs < int (length xs) \<and> P (xs ! nat (first_pos P i xs))"
proof (induction "length xs - i" arbitrary: i)
  case 0
  then show ?case by (simp add: first_pos_step [of P i])
next
  case (Suc n)
  then have "n = length xs - Suc i" by simp
  then show ?case using Suc.hyps(1) [of "Suc i"] Suc.prems first_pos_step [of P i xs] by (auto split: if_splits)
qed

lemma first_pos_none: "first_pos P i xs = -1 \<Longrightarrow> i \<le> j \<Longrightarrow> j < length xs \<Longrightarrow> \<not> P (xs ! j)"
  by (auto simp: first_pos_def filter_empty_conv split: list.splits)

lemma first_pos_ge: "-1 \<le> first_pos P i xs"
  using first_pos_in [of P i xs] by fastforce

lemma insert_from_eq:
  "length (ftable t) = 100 \<Longrightarrow> insert_from (int i) f t = Inr (first_pos (\<lambda>e. e = None) i (ftable t),
     if first_pos (\<lambda>e. e = None) i (ftable t) = -1 then t
     else t\<lparr>ftable := (ftable t)[nat (first_pos (\<lambda>e. e = None) i (ftable t)) := Some \<lparr>entry_file = f, refCount = 1\<rparr>]\<rparr>)"
proof (induction "100 - i" arbitrary: i)
  case 0
  then show ?case by (simp add: insert_from.simps [of "int i"] first_pos_step [of _ i] MAX_OPEN_FILE_ID_def)
next
  case (Suc n)
  then have "n = 100 - Suc i" by simp
  from Suc.hyps(1) [OF this Suc.prems] Suc.hyps(2) Suc.prems show ?case
    by (simp add: insert_from.simps [of "int i"] first_pos_step [of _ i] MAX_OPEN_FILE_ID_def ReadEntry_def WriteEntry_def add.commute)
qed

lemma insert_local_eq:
  "length v = 100 \<Longrightarrow> insert_local (int i) g v = (first_pos (\<lambda>x. x = -1) i v,
     if first_pos (\<lambda>x. x = -1) i v = -1 then v else v[nat (first_pos (\<lambda>x. x = -1) i v) := g])"
proof (induction "100 - i" arbitrary: i)
  case 0
  then show ?case by (simp add: insert_local.simps [of "int i"] first_pos_step [of _ i] MAX_OPEN_FILE_ID_def)
next
  case (Suc n)
  then have "n = 100 - Suc i" by simp
  from Suc.hyps(1) [OF this Suc.prems] Suc.hyps(2) Suc.prems show ?case
    by (simp add: insert_local.simps [of "int i"] first_pos_step [of _ i] MAX_OPEN_FILE_ID_def add.commute)
qed

text \<open>What an id of the thread stands for.\<close>

definition open_file :: "int list \<Rightarrow> OpenFiles \<Rightarrow> int \<Rightarrow> nat option" where
  "open_file v t fid =
     (if 0 \<le> fid \<and> fid < 100 \<and> 0 \<le> v ! nat fid \<and> v ! nat fid < 100 then map_option entry_file (ftable t ! nat (v ! nat fid)) else None)"

lemma FileVector_Resolve_eq: "FileVector_Resolve v fid t = Inr (open_file v t fid)"
  by (simp add: FileVector_Resolve_def FileTable_Resolve_def ReadEntry_def open_file_def MAX_OPEN_FILE_ID_def)

lemma FileVector_Insert_eq:
  assumes "length (ftable t) = 100" "length v = 100"
  shows "FileVector_Insert v f t = Inr (first_pos (\<lambda>x. x = -1) 2 v,
     (let l = first_pos (\<lambda>x. x = -1) 2 v in if l = -1 then v else v[nat l := first_pos (\<lambda>e. e = None) 0 (ftable t)]),
     (let g = first_pos (\<lambda>e. e = None) 0 (ftable t) in if g = -1 then t else t\<lparr>ftable := (ftable t)[nat g := Some \<lparr>entry_file = f, refCount = 1\<rparr>]\<rparr>))"
  using insert_from_eq [OF assms(1), of 0 f] insert_local_eq [OF assms(2), of 2] by (simp add: FileVector_Insert_def FileTable_Insert_def Let_def)



section \<open>Reference counts\<close>

text \<open>
  \<open>vs\<close> are the vectors of all threads. Every entry of the table counts the ids that name it, holds an open file, and
  no file is in two entries.
\<close>

definition counted :: "int list list \<Rightarrow> OpenFiles \<Rightarrow> bool" where
  "counted vs t \<longleftrightarrow> length (ftable t) = 100 \<and> (\<forall>v\<in>set vs. length v = 100 \<and> (\<forall>x\<in>set v. -1 \<le> x \<and> x < 100))
     \<and> (\<forall>g<100. case ftable t ! g of
          None \<Rightarrow> count_list (concat vs) (int g) = 0
        | Some e \<Rightarrow> refCount e = int (count_list (concat vs) (int g)) \<and> 0 < refCount e \<and> objects t (entry_file e) \<noteq> None)
     \<and> inj_on (\<lambda>g. map_option entry_file (ftable t ! g)) {g. g < 100 \<and> ftable t ! g \<noteq> None}"

lemma count_list_update:
  "i < length v \<Longrightarrow> count_list (v[i := x]) y + (if v ! i = y then 1 else 0) = count_list v y + (if x = y then 1 else 0)"
proof (induction v arbitrary: i)
  case (Cons a v)
  show ?case
  proof (cases i)
    case (Suc k)
    then show ?thesis using Cons.IH [of k] Cons.prems by (auto split: if_splits)
  qed simp
qed simp

lemma count_list_pos: "x \<in> set xs \<Longrightarrow> 0 < count_list xs x"
  by (induction xs) auto

lemma countedD:
  assumes "counted vs t"
  shows "length (ftable t) = 100" "v \<in> set vs \<Longrightarrow> length v = 100" "v \<in> set vs \<Longrightarrow> i < 100 \<Longrightarrow> -1 \<le> v ! i \<and> v ! i < 100"
    "g < 100 \<Longrightarrow> ftable t ! g = Some e \<Longrightarrow> refCount e = int (count_list (concat vs) (int g)) \<and> 0 < refCount e \<and> objects t (entry_file e) \<noteq> None"
    "g < 100 \<Longrightarrow> ftable t ! g = None \<Longrightarrow> count_list (concat vs) (int g) = 0"
proof -
  have c: "g < 100 \<Longrightarrow> (case ftable t ! g of
          None \<Rightarrow> count_list (concat vs) (int g) = 0
        | Some e \<Rightarrow> refCount e = int (count_list (concat vs) (int g)) \<and> 0 < refCount e \<and> objects t (entry_file e) \<noteq> None)" for g
    using assms unfolding counted_def by blast
  show "g < 100 \<Longrightarrow> ftable t ! g = Some e \<Longrightarrow> refCount e = int (count_list (concat vs) (int g)) \<and> 0 < refCount e \<and> objects t (entry_file e) \<noteq> None"
    "g < 100 \<Longrightarrow> ftable t ! g = None \<Longrightarrow> count_list (concat vs) (int g) = 0" using c [of g] by simp_all
  show "length (ftable t) = 100" "v \<in> set vs \<Longrightarrow> length v = 100" using assms by (simp_all add: counted_def)
  show "v \<in> set vs \<Longrightarrow> i < 100 \<Longrightarrow> -1 \<le> v ! i \<and> v ! i < 100" using assms by (auto simp: counted_def)
qed

text \<open>An id that is in use names an entry.\<close>

lemma counted_named:
  assumes "counted vs t" "v \<in> set vs" "i < 100" "v ! i \<noteq> -1"
  shows "0 \<le> v ! i" "v ! i < 100" "\<exists>e. ftable t ! nat (v ! i) = Some e"
proof -
  show b: "0 \<le> v ! i" "v ! i < 100" using countedD(3) [OF assms(1-3)] assms(4) by auto
  have "v ! i \<in> set v" using assms(3) countedD(2) [OF assms(1,2)] by simp
  then have "v ! i \<in> set (concat vs)" using assms(2) by (simp only: set_concat) blast
  then have "0 < count_list (concat vs) (int (nat (v ! i)))" using b count_list_pos [of "v ! i" "concat vs"] by simp
  moreover have "nat (v ! i) < 100" using b by simp
  ultimately show "\<exists>e. ftable t ! nat (v ! i) = Some e" using countedD(5) [OF assms(1), of "nat (v ! i)"] by (cases "ftable t ! nat (v ! i)") auto
qed

lemma counted_inj:
  assumes "counted vs t" "g < 100" "h < 100" "ftable t ! g = Some e" "ftable t ! h = Some e'" "entry_file e = entry_file e'"
  shows "g = h"
proof -
  have "inj_on (\<lambda>g. map_option entry_file (ftable t ! g)) {g. g < 100 \<and> ftable t ! g \<noteq> None}" using assms(1) by (simp add: counted_def)
  from inj_onD [OF this, of g h] assms(2-) show ?thesis by simp
qed

section \<open>Closing\<close>

text \<open>What \<open>FileTable::Remove\<close> does to an entry that counts.\<close>

definition unref :: "nat \<Rightarrow> FileTableEntry \<Rightarrow> OpenFiles \<Rightarrow> OpenFiles" where
  "unref g e t =
     (if refCount e = 1
      then t\<lparr>ftable := (ftable t)[g := None], objects := (objects t)(entry_file e := None), fstate := OpenFile_delete (the (objects t (entry_file e))) (fstate t)\<rparr>
      else t\<lparr>ftable := (ftable t)[g := Some (e\<lparr>refCount := refCount e - 1\<rparr>)]\<rparr>)"

lemma FileTable_Remove_eq:
  assumes "g < 100" "length (ftable t) = 100" "ftable t ! g = Some e" "0 < refCount e" "objects t (entry_file e) \<noteq> None"
  shows "FileTable_Remove (int g) t = Inr (0, unref g e t)"
  using assms by (auto simp: FileTable_Remove_def ReadEntry_def ClearEntry_def delete_file_def unref_def MAX_OPEN_FILE_ID_def Let_def)

lemma unref_simps:
  assumes "length (ftable t) = 100" "g < 100" "h < 100"
  shows "ftable (unref g e t) ! h = (if h = g then if refCount e = 1 then None else Some (e\<lparr>refCount := refCount e - 1\<rparr>) else ftable t ! h)"
    "length (ftable (unref g e t)) = 100"
    "objects (unref g e t) f = (if refCount e = 1 \<and> f = entry_file e then None else objects t f)"
  using assms by (simp_all add: unref_def nth_list_update)

lemma unref_kept:
  assumes "length (ftable t) = 100" "g < 100" "ftable t ! g = Some e" "h < 100" "ftable (unref g e t) ! h = Some e'"
  shows "\<exists>e. ftable t ! h = Some e \<and> entry_file e = entry_file e'"
  using assms(5,3) unref_simps(1) [OF assms(1,2,4), of e] by (auto split: if_splits)

lemma count_closed:
  assumes "i < length v" "v ! i = int g"
  shows "int (count_list (concat (v[i := -1] # vs)) (int h)) = int (count_list (concat (v # vs)) (int h)) - (if h = g then 1 else 0)"
  using count_list_update [OF assms(1), of "-1" "int h"] assms(2) by (auto split: if_splits)

lemma counted_unref:
  assumes c: "counted (v # vs) t" and i: "i < 100" "v ! i = int g" "ftable t ! g = Some e" "g < 100"
  shows "counted (v[i := -1] # vs) (unref g e t)"
proof -
  have len: "length (ftable t) = 100" "length v = 100" using countedD(1,2) [OF c] by simp_all
  note u = unref_simps [OF len(1) i(4)]
  note cnt = count_closed [of i v g vs, unfolded len(2), OF i(1,2)]
  note e = countedD(4) [OF c i(4,3)]
  have "case ftable (unref g e t) ! h of
          None \<Rightarrow> count_list (concat (v[i := -1] # vs)) (int h) = 0
        | Some e' \<Rightarrow> refCount e' = int (count_list (concat (v[i := -1] # vs)) (int h)) \<and> 0 < refCount e' \<and> objects (unref g e t) (entry_file e') \<noteq> None"
    if h: "h < 100" for h
  proof (cases "h = g")
    case True
    then show ?thesis using cnt [of h] e u(1,3) [OF h] by (auto split: if_splits)
  next
    case False
    show ?thesis
    proof (cases "ftable t ! h")
      case None
      then show ?thesis using cnt [of h] False countedD(5) [OF c h None] u(1) [OF h] by simp
    next
      case (Some e')
      have "entry_file e' \<noteq> entry_file e" using counted_inj [OF c h i(4) Some i(3)] False by auto
      then show ?thesis using cnt [of h] False countedD(4) [OF c h Some] u(1,3) [OF h] Some by auto
    qed
  qed
  moreover have "inj_on (\<lambda>h. map_option entry_file (ftable (unref g e t) ! h)) {h. h < 100 \<and> ftable (unref g e t) ! h \<noteq> None}"
  proof (rule inj_onI; clarsimp)
    fix x y ex ey assume x: "x < 100" "y < 100" "ftable (unref g e t) ! x = Some ex" "ftable (unref g e t) ! y = Some ey" "entry_file ex = entry_file ey"
    then show "x = y"
      using unref_kept [OF len(1) i(4,3) x(1,3)] unref_kept [OF len(1) i(4,3) x(2,4)] counted_inj [OF c x(1,2)] by auto
  qed
  moreover have "\<forall>w\<in>set (v[i := -1] # vs). length w = 100 \<and> (\<forall>x\<in>set w. -1 \<le> x \<and> x < 100)"
    using c set_update_subset_insert [of v i "-1"] by (auto simp: counted_def)
  ultimately show ?thesis using u(2) [OF i(4)] unfolding counted_def by blast
qed

text \<open>The ids still in use keep their files.\<close>

lemma open_file_kept:
  assumes c: "counted ws t'" and w: "w \<in> set ws"
    and k: "\<And>h e'. h < 100 \<Longrightarrow> ftable t' ! h = Some e' \<Longrightarrow> \<exists>e. ftable t ! h = Some e \<and> entry_file e = entry_file e'"
  shows "open_file w t' j = open_file w t j"
proof (cases "0 \<le> j \<and> j < 100 \<and> w ! nat j \<noteq> -1")
  case True
  then have j: "nat j < 100" "w ! nat j \<noteq> -1" by auto
  obtain e' where e': "0 \<le> w ! nat j" "w ! nat j < 100" "ftable t' ! nat (w ! nat j) = Some e'"
    using counted_named [OF c w j] by blast
  have "nat (w ! nat j) < 100" using e'(1,2) by simp
  from k [OF this e'(3)] obtain e where "ftable t ! nat (w ! nat j) = Some e" "entry_file e = entry_file e'" by blast
  then show ?thesis using e' by (simp add: open_file_def)
qed (auto simp: open_file_def)

lemma FileVector_Remove_ok:
  assumes c: "counted (v # vs) t" and i: "i < 100"
  shows "\<exists>r t'. FileTable_Remove (v ! i) t = Inr (r, t') \<and> counted (v[i := -1] # vs) t'
    \<and> (\<forall>w\<in>set (v[i := -1] # vs). \<forall>j. open_file w t' j = open_file w t j)"
proof (cases "v ! i = -1")
  case True
  then have "v[i := -1] = v" by (metis list_update_id)
  then show ?thesis using c True by (simp add: FileTable_Remove_def)
next
  case False
  have v: "v \<in> set (v # vs)" by simp
  obtain e where e: "0 \<le> v ! i" "v ! i < 100" "ftable t ! nat (v ! i) = Some e" using counted_named [OF c v i False] by blast
  then have g: "nat (v ! i) < 100" "v ! i = int (nat (v ! i))" by simp_all
  have r: "FileTable_Remove (v ! i) t = Inr (0, unref (nat (v ! i)) e t)"
    using FileTable_Remove_eq [OF g(1) countedD(1) [OF c] e(3)] countedD(4) [OF c g(1) e(3)] g(2) by simp
  note c' = counted_unref [OF c i g(2) e(3) g(1)]
  have "open_file w (unref (nat (v ! i)) e t) j = open_file w t j" if "w \<in> set (v[i := -1] # vs)" for w j
    by (rule open_file_kept [OF c' that unref_kept [OF countedD(1) [OF c] g(1) e(3)]])
  then show ?thesis using r c' by blast
qed

lemma counted_drop:
  assumes "counted (replicate 100 (-1) # vs) t"
  shows "counted vs t"
proof -
  have "count_list (replicate n (-1)) (int g) = 0" for n g by (induction n) auto
  then have "count_list (concat (replicate 100 (-1) # vs)) (int g) = count_list (concat vs) (int g)" for g by simp
  note eq = this
  show ?thesis using assms unfolding counted_def eq by simp
qed

lemma remove_all_ok:
  "counted ((replicate i (-1) @ drop i v) # vs) t \<Longrightarrow> length v = 100 \<Longrightarrow> i \<le> 100
    \<Longrightarrow> \<exists>t'. remove_all (int i) v t = Inr t' \<and> counted vs t' \<and> (\<forall>w\<in>set vs. \<forall>j. open_file w t' j = open_file w t j)"
proof (induction "100 - i" arbitrary: i t)
  case 0
  then have "i = 100" by simp
  then show ?case using 0 counted_drop [of vs t] by (simp add: remove_all.simps [of 100] MAX_OPEN_FILE_ID_def)
next
  case (Suc n)
  let ?v = "replicate i (-1) @ drop i v"
  have i: "i < 100" "n = 100 - Suc i" using Suc.hyps(2) by auto
  have u: "?v ! i = v ! i" "?v[i := -1] = replicate (Suc i) (-1) @ drop (Suc i) v"
    using i Suc.prems(2) by (simp_all add: nth_append list_update_append Cons_nth_drop_Suc [symmetric] replicate_append_same [symmetric])
  obtain r t1 where r: "FileTable_Remove (v ! i) t = Inr (r, t1)" "counted ((replicate (Suc i) (-1) @ drop (Suc i) v) # vs) t1"
    "\<forall>w\<in>set vs. \<forall>j. open_file w t1 j = open_file w t j"
    using FileVector_Remove_ok [OF Suc.prems(1) i(1)] unfolding u by auto
  have "remove_all (int i) v t = remove_all (int (Suc i)) v t1"
    using r(1) i(1) by (simp add: remove_all.simps [of "int i"] MAX_OPEN_FILE_ID_def add.commute)
  moreover obtain t' where "remove_all (int (Suc i)) v t1 = Inr t'" "counted vs t'" "\<forall>w\<in>set vs. \<forall>j. open_file w t' j = open_file w t1 j"
    using Suc.hyps(1) [OF i(2) r(2) Suc.prems(2)] i(1) by auto
  ultimately show ?case using r(3) by auto
qed

section \<open>Opening\<close>

lemma count_opened:
  assumes "i < length v" "v ! i = -1"
  shows "count_list (concat (v[i := int g] # vs)) (int h) = count_list (concat (v # vs)) (int h) + (if h = g then 1 else 0)"
  using count_list_update [OF assms(1), of "int g" "int h"] assms(2) by auto

lemma counted_inserted:
  assumes c: "counted (v # vs) t" and i: "i < 100" "v ! i = -1" and g: "g < 100" "ftable t ! g = None"
    and f: "objects t f \<noteq> None" "\<forall>e. Some e \<in> set (ftable t) \<longrightarrow> entry_file e \<noteq> f"
  defines "t' \<equiv> t\<lparr>ftable := (ftable t)[g := Some \<lparr>entry_file = f, refCount = 1\<rparr>]\<rparr>"
  shows "counted (v[i := int g] # vs) t'"
proof -
  have len: "length (ftable t) = 100" "length v = 100" using countedD(1,2) [OF c] by simp_all
  have ft: "ftable t' ! h = (if h = g then Some \<lparr>entry_file = f, refCount = 1\<rparr> else ftable t ! h)" if "h < 100" for h
    using len that by (simp add: t'_def nth_list_update)
  note cnt = count_opened [of i v g vs, unfolded len(2), OF i]
  have other: "entry_file e \<noteq> f" if "h < 100" "ftable t ! h = Some e" for h e
    using f(2) that len nth_mem [of h "ftable t"] by auto
  have "case ftable t' ! h of
          None \<Rightarrow> count_list (concat (v[i := int g] # vs)) (int h) = 0
        | Some e \<Rightarrow> refCount e = int (count_list (concat (v[i := int g] # vs)) (int h)) \<and> 0 < refCount e \<and> objects t' (entry_file e) \<noteq> None"
    if h: "h < 100" for h
  proof (cases "ftable t ! h")
    case None
    then show ?thesis using cnt [of h] countedD(5) [OF c h None] ft [OF h] f(1) by (auto simp: t'_def)
  next
    case (Some e)
    then have "h \<noteq> g" using g(2) by auto
    then show ?thesis using cnt [of h] countedD(4) [OF c h Some] ft [OF h] Some by (auto simp: t'_def)
  qed
  moreover have "inj_on (\<lambda>h. map_option entry_file (ftable t' ! h)) {h. h < 100 \<and> ftable t' ! h \<noteq> None}"
  proof (rule inj_onI; clarsimp)
    fix x y ex ey assume x: "x < 100" "y < 100" "ftable t' ! x = Some ex" "ftable t' ! y = Some ey" "entry_file ex = entry_file ey"
    have old: "ftable t ! h = Some e \<and> entry_file e \<noteq> f" if "h < 100" "ftable t' ! h = Some e" "h \<noteq> g" for h e
      using ft [OF that(1)] that other [OF that(1)] by simp
    have new: "entry_file e = f" if "h < 100" "ftable t' ! h = Some e" "h = g" for h e using ft [OF that(1)] that by auto
    show "x = y"
      using old [OF x(1,3)] old [OF x(2,4)] new [OF x(1,3)] new [OF x(2,4)] x(5) counted_inj [OF c x(1,2)] by metis
  qed
  moreover have "\<forall>w\<in>set (v[i := int g] # vs). length w = 100 \<and> (\<forall>x\<in>set w. -1 \<le> x \<and> x < 100)"
    using c g(1) set_update_subset_insert [of v i "int g"] by (auto simp: counted_def)
  moreover have "length (ftable t') = 100" using len by (simp add: t'_def)
  ultimately show ?thesis unfolding counted_def by blast
qed

lemma FileVector_Insert_counted:
  assumes c: "counted (v # vs) t" and free: "-1 \<in> set (drop 2 v)"
    and f: "objects t f \<noteq> None" "\<forall>e. Some e \<in> set (ftable t) \<longrightarrow> entry_file e \<noteq> f"
  shows "\<exists>l v' t'. FileVector_Insert v f t = Inr (l, v', t') \<and> counted (v' # vs) t'"
proof -
  have len: "length (ftable t) = 100" "length v = 100" using countedD(1,2) [OF c] by simp_all
  let ?l = "first_pos (\<lambda>x. x = -1) 2 v" and ?g = "first_pos (\<lambda>e. e = None) 0 (ftable t)"
  have "?l \<noteq> -1"
  proof
    assume "?l = -1"
    moreover obtain j where "j < 98" "v ! (2 + j) = -1" using free len by (auto simp: in_set_conv_nth)
    ultimately show False using first_pos_none [of "\<lambda>x. x = -1" 2 v "2 + j"] len(2) by simp
  qed
  then have l: "nat ?l < 100" "v ! nat ?l = -1" using first_pos_in [of "\<lambda>x. x = -1" 2 v] len(2) by linarith+
  show ?thesis
  proof (cases "?g = -1")
    case True
    then have "v[nat ?l := ?g] = v" using l(2) by (metis list_update_id)
    then show ?thesis using FileVector_Insert_eq [OF len, of f] True c by (simp add: Let_def)
  next
    case False
    then have g: "nat ?g < 100" "ftable t ! nat ?g = None" "?g = int (nat ?g)" using first_pos_in [of "\<lambda>e. e = None" 0 "ftable t"] len(1) by linarith+
    from counted_inserted [OF c l g(1,2) f] show ?thesis
      using FileVector_Insert_eq [OF len, of f] False \<open>?l \<noteq> -1\<close> g(3) by (simp add: Let_def)
  qed
qed

lemma free_ids_eq: "length v = 100 \<Longrightarrow> i \<le> 100 \<Longrightarrow> free_ids (int i) v = take i v @ replicate (100 - i) (-1)"
proof (induction "100 - i" arbitrary: i v)
  case 0
  then show ?case by (simp add: free_ids.simps [of 100] MAX_OPEN_FILE_ID_def)
next
  case (Suc n)
  then have i: "n = 100 - Suc i" "i < 100" by auto
  have "free_ids (int i) v = free_ids (int (Suc i)) (v[i := -1])" using i by (simp add: free_ids.simps [of "int i"] MAX_OPEN_FILE_ID_def add.commute)
  also have "\<dots> = take (Suc i) (v[i := -1]) @ replicate (100 - Suc i) (-1)" using Suc.hyps(1) [OF i(1)] i(2) Suc.prems by simp
  also have "take (Suc i) (v[i := -1]) = take i v @ [-1]" using i(2) Suc.prems(1) by (simp add: take_Suc_conv_app_nth)
  finally show ?case using i by (simp add: Suc_diff_Suc [symmetric] del: diff_Suc_Suc)
qed

text \<open>A new thread: with the two console entries in the table its vector is counted.\<close>

lemma AddReference_eq:
  "g < 100 \<Longrightarrow> ftable t ! g = Some e \<Longrightarrow> AddReference (int g) t = Inr (0, t\<lparr>ftable := (ftable t)[g := Some (e\<lparr>refCount := refCount e + 1\<rparr>)]\<rparr>)"
  "g < 100 \<Longrightarrow> ftable t ! g = None \<Longrightarrow> AddReference (int g) t = Inr (-1, t)"
  by (simp_all add: AddReference_def ReadEntry_def MAX_OPEN_FILE_ID_def)

definition new_vector :: "int list" where "new_vector = [0, 1] @ replicate 98 (-1)"

lemma FileVector_new_eq:
  assumes "length (ftable t) = 100" "ftable t ! 0 = Some e0" "ftable t ! 1 = Some e1"
  shows "FileVector_new memory t = Inr (new_vector,
    t\<lparr>ftable := (ftable t)[0 := Some (e0\<lparr>refCount := refCount e0 + 1\<rparr>), 1 := Some (e1\<lparr>refCount := refCount e1 + 1\<rparr>)]\<rparr>)"
proof -
  let ?v = "(map memory [0..<100])[0 := 0, 1 := 1] :: int list"
  have "take 2 ?v = [0, 1]" by (intro nth_equalityI) (auto simp: nth_list_update less_Suc_eq numeral_2_eq_2)
  then have "free_ids 2 ?v = new_vector" using free_ids_eq [of ?v 2] by (simp add: new_vector_def)
  then show ?thesis using assms AddReference_eq(1) [of 0 t e0] AddReference_eq(1) [of 1 "t\<lparr>ftable := (ftable t)[0 := Some (e0\<lparr>refCount := refCount e0 + 1\<rparr>)]\<rparr>" e1]
    by (simp add: FileVector_new_def MAX_OPEN_FILE_ID_def Let_def)
qed

lemma count_new_vector: "count_list (concat (new_vector # vs)) (int g) = count_list (concat vs) (int g) + (if g < 2 then 1 else 0)"
proof -
  have "count_list (replicate n (-1)) (int g) = 0" for n by (induction n) auto
  then show ?thesis by (auto simp: new_vector_def)
qed

lemma FileVector_new_counted:
  assumes c: "counted vs t" and e: "ftable t ! 0 = Some e0" "ftable t ! 1 = Some e1"
  shows "\<exists>t'. FileVector_new memory t = Inr (new_vector, t') \<and> counted (new_vector # vs) t'"
proof -
  have len: "length (ftable t) = 100" using countedD(1) [OF c] .
  define t' where "t' = t\<lparr>ftable := (ftable t)[0 := Some (e0\<lparr>refCount := refCount e0 + 1\<rparr>), 1 := Some (e1\<lparr>refCount := refCount e1 + 1\<rparr>)]\<rparr>"
  have ft: "ftable t' ! h = map_option (\<lambda>e. e\<lparr>refCount := refCount e + (if h < 2 then 1 else 0)\<rparr>) (ftable t ! h)" if "h < 100" for h
    using len that e by (cases "h = 0 \<or> h = 1"; cases "ftable t ! h") (auto simp: t'_def nth_list_update)
  have "case ftable t' ! h of
          None \<Rightarrow> count_list (concat (new_vector # vs)) (int h) = 0
        | Some e \<Rightarrow> refCount e = int (count_list (concat (new_vector # vs)) (int h)) \<and> 0 < refCount e \<and> objects t' (entry_file e) \<noteq> None"
    if h: "h < 100" for h
  proof (cases "ftable t ! h")
    case None
    then have "h \<noteq> 0" "h \<noteq> 1" using e by (metis option.distinct(1))+
    then have "\<not> h < 2" by linarith
    then show ?thesis unfolding count_new_vector using countedD(5) [OF c h None] ft [OF h] None by simp
  next
    case (Some x)
    then show ?thesis unfolding count_new_vector using countedD(4) [OF c h Some] ft [OF h] by (auto simp: t'_def)
  qed
  moreover have "inj_on (\<lambda>h. map_option entry_file (ftable t' ! h)) {h. h < 100 \<and> ftable t' ! h \<noteq> None}"
  proof (rule inj_onI; clarsimp)
    fix x y ex ey assume x: "x < 100" "y < 100" "ftable t' ! x = Some ex" "ftable t' ! y = Some ey" "entry_file ex = entry_file ey"
    have old: "\<exists>e0. ftable t ! h = Some e0 \<and> entry_file e0 = entry_file e" if "h < 100" "ftable t' ! h = Some e" for h e
      using ft [OF that(1)] that(2) by (cases "ftable t ! h") auto
    show "x = y" using old [OF x(1,3)] old [OF x(2,4)] x(5) counted_inj [OF c x(1,2)] by metis
  qed
  moreover have "\<forall>w\<in>set (new_vector # vs). length w = 100 \<and> (\<forall>x\<in>set w. -1 \<le> x \<and> x < 100)"
    using c by (auto simp: counted_def new_vector_def)
  moreover have "length (ftable t') = 100" using len by (simp add: t'_def)
  ultimately have "counted (new_vector # vs) t'" unfolding counted_def by blast
  then show ?thesis using FileVector_new_eq [OF len e] by (simp add: t'_def)
qed

section \<open>Properties\<close>

text \<open>
  C34. \<open>FileVector::Insert\<close> on every branch: it never fails, returns the first free id of the thread (from 2 on) or -1, and enters the
  file in the first free slot of the table; afterwards exactly that id, and every id that already stood for
  the free slot, resolves to the file, and all other ids resolve as before. (With no free slot nothing is entered and the id that
  is returned resolves to \<open>NULL\<close>; with no free id the slot is taken and no id of the thread leads to it. A new thread has the ids 0
  and 1 stand for the slots 0 and 1 even when they are free, so its first file is also what it has as console input.)
\<close>

theorem FileVector_Insert_correct:
  assumes "length (ftable t) = 100" "length v = 100"
  defines "g \<equiv> first_pos (\<lambda>e. e = None) 0 (ftable t)" and "l \<equiv> first_pos (\<lambda>x. x = -1) 2 v"
  shows "\<exists>v' t'. FileVector_Insert v f t = Inr (l, v', t') \<and> objects t' = objects t \<and> fstate t' = fstate t
    \<and> (\<forall>fid. FileVector_Resolve v' fid t' =
         (if g \<noteq> -1 \<and> 0 \<le> fid \<and> fid < 100 \<and> (fid = l \<or> v ! nat fid = g) then Inr (Some f) else FileVector_Resolve v fid t))"
proof -
  define v' where "v' = (if l = -1 then v else v[nat l := g])"
  define t' where "t' = (if g = -1 then t else t\<lparr>ftable := (ftable t)[nat g := Some \<lparr>entry_file = f, refCount = 1\<rparr>]\<rparr>)"
  have r: "FileVector_Insert v f t = Inr (l, v', t')" using FileVector_Insert_eq [OF assms(1,2), of f] by (simp add: g_def l_def v'_def t'_def Let_def)
  have g: "g \<noteq> -1 \<Longrightarrow> 0 \<le> g \<and> g < 100" using first_pos_in [of "\<lambda>e. e = None" 0 "ftable t"] assms(1) by (simp add: g_def)
  have l: "l \<noteq> -1 \<Longrightarrow> 2 \<le> l \<and> l < 100 \<and> v ! nat l = -1" using first_pos_in [of "\<lambda>x. x = -1" 2 v] assms(2) by (simp add: l_def)
  have v: "v' ! nat fid = (if fid = l \<and> 0 \<le> fid then g else v ! nat fid)" if "0 \<le> fid" "fid < 100" for fid
    using that l assms(2) by (auto simp: v'_def nth_list_update)
  have t: "ftable t' ! nat h = (if g \<noteq> -1 \<and> h = g then Some \<lparr>entry_file = f, refCount = 1\<rparr> else ftable t ! nat h)" if "0 \<le> h" for h
    using g that assms(1) by (auto simp: t'_def nth_list_update)
  have o: "open_file v' t' fid = (if g \<noteq> -1 \<and> (fid = l \<or> v ! nat fid = g) then Some f else open_file v t fid)" if fid: "0 \<le> fid" "fid < 100" for fid
    using v [OF fid] t [of "v ! nat fid"] t [of g] g l fid by (auto simp: open_file_def)
  have out: "open_file w s fid = None" if "\<not> (0 \<le> fid \<and> fid < 100)" for w s fid using that by (auto simp: open_file_def)
  have "FileVector_Resolve v' fid t' = (if g \<noteq> -1 \<and> 0 \<le> fid \<and> fid < 100 \<and> (fid = l \<or> v ! nat fid = g) then Inr (Some f) else FileVector_Resolve v fid t)" for fid
    unfolding FileVector_Resolve_eq using o [of fid] out [of fid] by (cases "0 \<le> fid \<and> fid < 100") auto
  moreover have "objects t' = objects t" "fstate t' = fstate t" by (simp_all add: t'_def)
  ultimately show ?thesis using r by (intro exI [of _ v'] exI [of _ t']) simp
qed


section \<open>Instances\<close>

definition example_files :: "OpenFiles" where
  "example_files = \<lparr>ftable = [Some \<lparr>entry_file = 0, refCount = 1\<rparr>, Some \<lparr>entry_file = 1, refCount = 1\<rparr>] @ replicate 98 None,
     objects = (\<lambda>f. if f < 3 then Some \<lparr>hdr = FileHeader_new 0, seekPosition = 0, hdrSector = int f\<rparr> else None),
     fstate = \<lparr>dsk = blank_disk, OpenFileCount = Map.empty, readerCount = Map.empty, semaphoreRead = Map.empty, semaphoreWrite = Map.empty, uninit = (\<lambda>_. 0)\<rparr>\<rparr>"

lemma example_counted: "counted [new_vector] example_files"
proof -
  have ft: "ftable example_files ! g = (if g < 2 then Some \<lparr>entry_file = g, refCount = 1\<rparr> else None)" if "g < 100" for g
    using that by (cases "g = 0"; cases "g = 1") (auto simp: example_files_def nth_append)
  have cn: "count_list (concat [new_vector]) (int g) = (if g < 2 then 1 else 0)" for g using count_new_vector [of "[]" g] by simp
  have "case ftable example_files ! g of
          None \<Rightarrow> count_list (concat [new_vector]) (int g) = 0
        | Some e \<Rightarrow> refCount e = int (count_list (concat [new_vector]) (int g)) \<and> 0 < refCount e \<and> objects example_files (entry_file e) \<noteq> None" if "g < 100" for g
    unfolding cn ft [OF that] by (simp add: example_files_def)
  moreover have "inj_on (\<lambda>h. map_option entry_file (ftable example_files ! h)) {h. h < 100 \<and> ftable example_files ! h \<noteq> None}"
    using ft by (auto intro!: inj_onI split: if_splits)
  moreover have "length (ftable example_files) = 100" "\<forall>v\<in>set [new_vector]. length v = 100 \<and> (\<forall>x\<in>set v. -1 \<le> x \<and> x < 100)"
    by (auto simp: example_files_def new_vector_def)
  ultimately show ?thesis unfolding counted_def by blast
qed

lemma example_positions: "first_pos (\<lambda>e. e = None) 0 (ftable example_files) = 2" "first_pos (\<lambda>x. x = -1) 2 new_vector = 2"
proof -
  have "length (ftable example_files) = 100" "length new_vector = 100" by (simp_all add: example_files_def new_vector_def)
  moreover have "ftable example_files ! 0 \<noteq> None" "ftable example_files ! 1 \<noteq> None" "ftable example_files ! 2 = None" "new_vector ! 2 = -1"
    by (simp_all add: example_files_def new_vector_def nth_append)
  ultimately show "first_pos (\<lambda>e. e = None) 0 (ftable example_files) = 2" "first_pos (\<lambda>x. x = -1) 2 new_vector = 2"
    using first_pos_step [of "\<lambda>e. e = None" 0 "ftable example_files"] first_pos_step [of "\<lambda>e. e = None" 1 "ftable example_files"]
      first_pos_step [of "\<lambda>e. e = None" 2 "ftable example_files"] first_pos_step [of "\<lambda>x. x = -1" 2 new_vector]
    by (simp_all add: numeral_2_eq_2)
qed

theorem FileVector_Insert_correct_witness:
  "\<exists>v' t'. FileVector_Insert new_vector 2 example_files = Inr (2, v', t') \<and> FileVector_Resolve v' 2 t' = Inr (Some 2)"
proof -
  have "length (ftable example_files) = 100" "length new_vector = 100" by (simp_all add: example_files_def new_vector_def)
  from FileVector_Insert_correct [OF this, of 2] example_positions obtain v' t' where
    r: "FileVector_Insert new_vector 2 example_files = Inr (2, v', t')"
    "\<forall>fid. FileVector_Resolve v' fid t' = (if 0 \<le> fid \<and> fid < 100 \<and> (fid = 2 \<or> new_vector ! nat fid = 2) then Inr (Some 2) else FileVector_Resolve new_vector fid example_files)"
    by auto
  then have "FileVector_Resolve v' 2 t' = Inr (Some 2)" by simp
  then show ?thesis using r(1) by blast
qed


end
