(* ===== verification/Syscalls.thy ===== *)
theory Syscalls
  imports Paging FileTable
begin

text \<open>
  System calls: the dispatcher of \<open>userprog/exception.cc\<close> and the kernel side of the calls (\<open>userprog/ksyscall.h\<close>). The arguments of a
  call are in registers of the machine, file names and buffers in the memory of the program, which the kernel reads
  through the page tables, with page faults on the way.
\<close>

section \<open>State\<close>

record UserKernel =
  vmem :: VM
  fileSystem :: FileSystem
  globalFileTable :: "FileTableEntry option list"
  fileObjects :: "nat \<rightharpoonup> OpenFile"
  nextObject :: nat                     \<comment> \<open>the address \<open>new OpenFile\<close> returns next\<close>
  space :: nat                          \<comment> \<open>the page table of the current thread's \<open>space\<close>\<close>
  fileVector :: "int list option"       \<comment> \<open>of the current thread; \<open>None\<close> is a pointer that was never set\<close>
  wdSector :: int                       \<comment> \<open>of the current thread\<close>
  hasFather :: bool                     \<comment> \<open>\<open>father != NULL\<close>\<close>
  consoleIn :: "byte list"              \<comment> \<open>what will be typed\<close>
  consoleOut :: "byte list"             \<comment> \<open>what has been displayed\<close>
  noReturn :: u32                       \<comment> \<open>what the caller finds as the result of a function that returns none\<close>

definition ConsoleInputID :: int where "ConsoleInputID = 0"
definition ConsoleOutputID :: int where "ConsoleOutputID = 1"

definition SC_Halt :: u32 where "SC_Halt = 0"
definition SC_Exit :: u32 where "SC_Exit = 1"
definition SC_Create :: u32 where "SC_Create = 4"
definition SC_Remove :: u32 where "SC_Remove = 5"
definition SC_Open :: u32 where "SC_Open = 6"
definition SC_Read :: u32 where "SC_Read = 7"
definition SC_Write :: u32 where "SC_Write = 8"
definition SC_Seek :: u32 where "SC_Seek = 9"
definition SC_Close :: u32 where "SC_Close = 10"
definition SC_Add :: u32 where "SC_Add = 42"

lemmas SC_defs = SC_Halt_def SC_Exit_def SC_Create_def SC_Remove_def SC_Open_def SC_Read_def SC_Write_def SC_Seek_def SC_Close_def SC_Add_def

section \<open>Strings of the program\<close>

text \<open>
  The loop of \<open>LoadStringFromMemory\<close> over any way to read a character: \<open>n\<close> elements of \<open>name\<close> are left, \<open>value\<close> keeps the last
  character where a read fails twice.
\<close>

fun load_chars :: "(nat \<Rightarrow> 's \<Rightarrow> (byte option \<times> 's) res) \<Rightarrow> nat \<Rightarrow> nat \<Rightarrow> byte list \<Rightarrow> byte \<Rightarrow> 's \<Rightarrow> (byte list \<times> 's) res" where
  "load_chars read 0 i str value s = bind_res (read i s) (\<lambda>_. Inl OutOfBounds)"
| "load_chars read (Suc n) i str value s =
     bind_res (read i s) (\<lambda>(r, s).
     let value = (case r of None \<Rightarrow> value | Some c \<Rightarrow> c)
     in if value = 0 then Inr (str @ [value], s) else load_chars read n (i + 1) (str @ [value]) value s)"

definition read_char :: "nat \<Rightarrow> u32 \<Rightarrow> nat \<Rightarrow> VM \<Rightarrow> (byte option \<times> VM) res" where
  "read_char pt addr i vm =
     bind_res (retry (user_ReadMem pt (addr + of_nat i) 1) vm) (\<lambda>(r, vm). Inr (map_option (\<lambda>v. ucast v) r, vm))"

text \<open>The result is the array \<open>new char[100]\<close>, uninitialised behind the string.\<close>

definition LoadStringFromMemory :: "nat \<Rightarrow> u32 \<Rightarrow> VM \<Rightarrow> (byte list \<times> VM) res" where
  "LoadStringFromMemory pt addr vm =
     bind_res (load_chars (read_char pt addr) 100 0 [] (uninit (files vm) 100) vm) (\<lambda>(str, vm).
     Inr (overwrite (map (uninit (files vm)) [0..<100]) 0 str, vm))"

definition c_string :: "byte list \<Rightarrow> byte list" where
  "c_string buffer = takeWhile (\<lambda>c. c \<noteq> 0) buffer"

section \<open>The calls\<close>

definition load_arg :: "u32 \<Rightarrow> UserKernel \<Rightarrow> (byte list \<times> UserKernel) res" where
  "load_arg addr k = bind_res (LoadStringFromMemory (space k) addr (vmem k)) (\<lambda>(b, v). Inr (b, k\<lparr>vmem := v\<rparr>))"

definition put_files :: "kstate \<Rightarrow> UserKernel \<Rightarrow> UserKernel" where
  "put_files ks k = k\<lparr>vmem := (vmem k)\<lparr>files := ks\<rparr>\<rparr>"

text \<open>The open file tables see the files of the kernel.\<close>

definition open_files :: "UserKernel \<Rightarrow> OpenFiles" where
  "open_files k = \<lparr>ftable = globalFileTable k, objects = fileObjects k, fstate = files (vmem k)\<rparr>"

definition put_open_files :: "OpenFiles \<Rightarrow> UserKernel \<Rightarrow> UserKernel" where
  "put_open_files t k = put_files (fstate t) (k\<lparr>globalFileTable := ftable t, fileObjects := objects t\<rparr>)"

definition the_vector :: "UserKernel \<Rightarrow> int list res" where
  "the_vector k = (case fileVector k of None \<Rightarrow> Inl NullPointer | Some v \<Rightarrow> Inr v)"

definition resolve :: "int \<Rightarrow> UserKernel \<Rightarrow> (nat \<times> OpenFile) option res" where
  "resolve fid k =
     bind_res (the_vector k) (\<lambda>v.
     bind_res (FileVector_Resolve v fid (open_files k)) (\<lambda>r.
     case r of
       None \<Rightarrow> Inr None
     | Some p \<Rightarrow> (case fileObjects k p of None \<Rightarrow> Inl NullPointer | Some f \<Rightarrow> Inr (Some (p, f)))))"

definition SysHalt :: "UserKernel \<Rightarrow> (u32 \<times> UserKernel) res" where
  "SysHalt k = Inl MachineHalted"

definition SysAdd :: "u32 \<Rightarrow> u32 \<Rightarrow> u32" where
  "SysAdd op1 op2 = op1 + op2"

definition SysCreate :: "u32 \<Rightarrow> UserKernel \<Rightarrow> (u32 \<times> UserKernel) res" where
  "SysCreate str k =
     bind_res (load_arg str k) (\<lambda>(filename, k).
     bind_res (Create (fileSystem k) (files (vmem k)) (c_string filename) 0 (wdSector k)) (\<lambda>(r, ks).
     Inr (0, put_files ks k)))"

definition SysRemove :: "u32 \<Rightarrow> UserKernel \<Rightarrow> (u32 \<times> UserKernel) res" where
  "SysRemove addr k =
     bind_res (load_arg addr k) (\<lambda>(filename, k).
     bind_res (FileSystem.Remove (fileSystem k) (files (vmem k)) (c_string filename) (wdSector k)) (\<lambda>(r, ks).
     Inr (noReturn k, put_files ks k)))"

definition SysOpen :: "u32 \<Rightarrow> UserKernel \<Rightarrow> (u32 \<times> UserKernel) res" where
  "SysOpen addr k =
     bind_res (load_arg addr k) (\<lambda>(filename, k).
     bind_res (Open (files (vmem k)) (c_string filename) (wdSector k)) (\<lambda>(f, out, ks).
     let k = put_files ks k
     in case f of
          None \<Rightarrow> Inr (-1, k)
        | Some f \<Rightarrow>
            let p = nextObject k; k = k\<lparr>fileObjects := (fileObjects k)(p \<mapsto> f), nextObject := p + 1\<rparr>
            in bind_res (the_vector k) (\<lambda>v.
               bind_res (FileVector_Insert v p (open_files k)) (\<lambda>(fid, v, t).
               Inr (word_of_int fid, (put_open_files t k)\<lparr>fileVector := Some v\<rparr>)))))"

definition SysWrite :: "u32 \<Rightarrow> int \<Rightarrow> int \<Rightarrow> UserKernel \<Rightarrow> (u32 \<times> UserKernel) res" where
  "SysWrite addr sz fid k =
     bind_res (load_arg addr k) (\<lambda>(buffer, k).
     if fid = ConsoleOutputID then
       CHECK_BOUNDS (nat sz \<le> length buffer) (Inr (0, k\<lparr>consoleOut := consoleOut k @ take (nat sz) buffer\<rparr>))
     else
       bind_res (resolve fid k) (\<lambda>r.
       case r of
         None \<Rightarrow> Inr (0, k)
       | Some (p, f) \<Rightarrow>
           CHECK_BOUNDS (nat sz \<le> length buffer)
           (bind_res (Write f (freeMapFile (fileSystem k)) (files (vmem k)) buffer sz) (\<lambda>(n, f, ks).
            Inr (0, (put_files ks k)\<lparr>fileObjects := (fileObjects k)(p \<mapsto> f)\<rparr>)))))"

text \<open>\<open>SysRead\<close>: characters typed at the console go into \<open>buffer\<close> and from there to the program, up to a 0.\<close>

fun write_back :: "nat \<Rightarrow> nat \<Rightarrow> byte list \<Rightarrow> u32 \<Rightarrow> nat \<Rightarrow> VM \<Rightarrow> VM res" where
  "write_back 0 pt buffer addr i vm = Inl OutOfBounds"
| "write_back (Suc n) pt buffer addr i vm =
     bind_res (retry (user_WriteMem pt (addr + of_nat i) 1 (scast (buffer ! i))) vm) (\<lambda>(r, vm).
     if buffer ! i = 0 then Inr vm else write_back n pt buffer addr (i + 1) vm)"

definition SysRead :: "u32 \<Rightarrow> int \<Rightarrow> int \<Rightarrow> UserKernel \<Rightarrow> (u32 \<times> UserKernel) res" where
  "SysRead addr sz fid k =
     bind_res (load_arg addr k) (\<lambda>(buffer, k).
     if fid = ConsoleInputID then
       if length (consoleIn k) < nat sz then Inl WouldBlock
       else CHECK_BOUNDS (nat sz \<le> length buffer)
         (let buffer = overwrite buffer 0 (take (nat sz) (consoleIn k)); k = k\<lparr>consoleIn := drop (nat sz) (consoleIn k)\<rparr>
          in bind_res (ReadRegister (mach (vmem k)) 4) (\<lambda>addr.
             bind_res (write_back (length buffer) (space k) buffer addr 0 (vmem k)) (\<lambda>v.
             Inr (word_of_int (int (nat sz)), k\<lparr>vmem := v\<rparr>))))
     else
       bind_res (resolve fid k) (\<lambda>r.
       case r of
         None \<Rightarrow> Inr (-1, k)
       | Some (p, f) \<Rightarrow>
           bind_res (Read f (files (vmem k)) sz) (\<lambda>(n, bs, f, ks).
           CHECK_BOUNDS (length bs \<le> length buffer) (Inr (word_of_int n, (put_files ks k)\<lparr>fileObjects := (fileObjects k)(p \<mapsto> f)\<rparr>)))))"

definition SysSeek :: "int \<Rightarrow> int \<Rightarrow> UserKernel \<Rightarrow> (u32 \<times> UserKernel) res" where
  "SysSeek pos fid k =
     bind_res (resolve fid k) (\<lambda>r.
     case r of None \<Rightarrow> Inr (-1, k) | Some (p, f) \<Rightarrow> Inr (0, k\<lparr>fileObjects := (fileObjects k)(p \<mapsto> Seek f pos)\<rparr>))"

definition SysClose :: "int \<Rightarrow> UserKernel \<Rightarrow> (u32 \<times> UserKernel) res" where
  "SysClose fid k =
     bind_res (the_vector k) (\<lambda>v.
     bind_res (FileVector_Remove v fid (open_files k)) (\<lambda>(r, v, t). Inr (0, (put_open_files t k)\<lparr>fileVector := Some v\<rparr>)))"

section \<open>The dispatcher\<close>

text \<open>The result goes to register 2 and the program counter to the next instruction.\<close>

definition return_to_user :: "u32 \<Rightarrow> Machine \<Rightarrow> Machine res" where
  "return_to_user result m =
     bind_res (WriteRegister m 2 result) (\<lambda>m.
     bind_res (ReadRegister m (int PCReg)) (\<lambda>pc.
     bind_res (WriteRegister m (int PrevPCReg) pc) (\<lambda>m.
     bind_res (ReadRegister m (int PCReg)) (\<lambda>pc.
     bind_res (WriteRegister m (int PCReg) (pc + 4)) (\<lambda>m.
     bind_res (ReadRegister m (int PCReg)) (\<lambda>pc.
     WriteRegister m (int NextPCReg) (pc + 4)))))))"

text \<open>What follows the handler: the program goes on, or the thread runs \<open>Thread::Finish\<close>.\<close>

datatype handled = Return UserKernel | FinishThread UserKernel

definition SyscallHandler :: "u32 \<Rightarrow> UserKernel \<Rightarrow> handled res" where
  "SyscallHandler type k =
     (let reg = (\<lambda>n. ReadRegister (mach (vmem k)) n);
          return = (\<lambda>r. bind_res r (\<lambda>(result, k).
            bind_res (return_to_user result (mach (vmem k))) (\<lambda>m. Inr (Return (k\<lparr>vmem := (vmem k)\<lparr>mach := m\<rparr>\<rparr>)))))
      in if type = SC_Exit then if hasFather k then Inl NullPointer else Inr (FinishThread k)
         else if type = SC_Halt then bind_res (SysHalt k) (\<lambda>_. Inl AssertFailed)
         else if type = SC_Add \<or> type = SC_Read \<or> type = SC_Seek \<or> type = SC_Close then
           bind_res (reg 4) (\<lambda>op1. bind_res (reg 5) (\<lambda>op2. return (Inr (SysAdd op1 op2, k))))
         else if type = SC_Create then bind_res (reg 4) (\<lambda>str. return (SysCreate str k))
         else if type = SC_Remove then bind_res (reg 4) (\<lambda>addr. return (SysRemove addr k))
         else if type = SC_Open then bind_res (reg 4) (\<lambda>addr. return (SysOpen addr k))
         else if type = SC_Write then
           bind_res (reg 4) (\<lambda>addr. bind_res (reg 5) (\<lambda>sz. bind_res (reg 6) (\<lambda>fid. return (SysWrite addr (sint sz) (sint fid) k))))
         else Inl AssertFailed)"

definition ExceptionHandler :: "ExceptionType \<Rightarrow> UserKernel \<Rightarrow> handled res" where
  "ExceptionHandler which k =
     bind_res (ReadRegister (mach (vmem k)) 2) (\<lambda>type.
     case which of
       SyscallException \<Rightarrow> SyscallHandler type k
     | PageFaultException \<Rightarrow> bind_res (PageFault (space k) (vmem k)) (\<lambda>v. Inr (Return (k\<lparr>vmem := v\<rparr>)))
     | _ \<Rightarrow> Inl AssertFailed)"


section \<open>Reading strings\<close>

text \<open>The contract of a memory that is read character by character, from address \<open>base\<close> on; \<open>same\<close> is what reading keeps.\<close>

locale flat_reader =
  fixes ok :: "'s \<Rightarrow> bool" and mem :: "'s \<Rightarrow> byte list" and base :: nat
    and read :: "nat \<Rightarrow> 's \<Rightarrow> (byte option \<times> 's) res" and same :: "'s \<Rightarrow> 's \<Rightarrow> bool"
  assumes read_law: "ok s \<Longrightarrow> base + i < length (mem s)
      \<Longrightarrow> \<exists>s'. read i s = Inr (Some (mem s ! (base + i)), s') \<and> ok s' \<and> mem s' = mem s \<and> same s s'"
    and same_trans: "same s s1 \<Longrightarrow> same s1 s2 \<Longrightarrow> same s s2"
begin

lemma load_string:
  assumes "ok s" "base + i + n < length (mem s)" "n < room" "\<forall>j<n. mem s ! (base + i + j) \<noteq> 0" "mem s ! (base + i + n) = 0"
  shows "\<exists>s'. load_chars read room i str v s = Inr (str @ take (Suc n) (drop (base + i) (mem s)), s') \<and> ok s' \<and> mem s' = mem s \<and> same s s'"
  using assms
proof (induction n arbitrary: room i str v s)
  case 0
  obtain r where room: "room = Suc r" using 0 by (cases room) auto
  obtain s' where s': "read i s = Inr (Some (mem s ! (base + i)), s')" "ok s'" "mem s' = mem s" "same s s'"
    using read_law [of s i] 0 by auto
  have "take (Suc 0) (drop (base + i) (mem s)) = [mem s ! (base + i)]" using 0 by (simp add: take_Suc_conv_app_nth)
  then show ?case using s' 0 room by simp
next
  case (Suc n)
  obtain r where room: "room = Suc r" "n < r" using Suc.prems by (cases room) auto
  obtain s1 where s1: "read i s = Inr (Some (mem s ! (base + i)), s1)" "ok s1" "mem s1 = mem s" "same s s1"
    using read_law [of s i] Suc.prems by auto
  let ?c = "mem s ! (base + i)"
  have nz: "?c \<noteq> 0" using Suc.prems(4) [rule_format, of 0] by simp
  have nx: "\<forall>j<n. mem s1 ! (base + (i + 1) + j) \<noteq> 0" using Suc.prems(4) s1(3) by (auto dest: spec [of _ "Suc _"])
  have "base + (i + 1) + n < length (mem s1)" "mem s1 ! (base + (i + 1) + n) = 0" using Suc.prems s1(3) by simp_all
  from Suc.IH [OF s1(2) this(1) room(2) nx this(2), of "str @ [?c]" ?c] obtain s' where
    s': "load_chars read r (i + 1) (str @ [?c]) ?c s1 = Inr ((str @ [?c]) @ take (Suc n) (drop (base + (i + 1)) (mem s1)), s')"
    "ok s'" "mem s' = mem s1" "same s1 s'" by blast
  have "take (Suc (Suc n)) (drop (base + i) (mem s)) = ?c # take (Suc n) (drop (base + (i + 1)) (mem s))"
    using Suc.prems(2) by (simp add: Cons_nth_drop_Suc [symmetric])
  then show ?case using s' s1 room(1) nz same_trans [OF s1(4) s'(4)] by simp
qed

lemma load_string_overflow:
  assumes "ok s" "base + i + room < length (mem s)" "\<forall>j<room. mem s ! (base + i + j) \<noteq> 0"
  shows "load_chars read room i str v s = Inl OutOfBounds"
  using assms
proof (induction room arbitrary: i str v s)
  case 0
  then show ?case using read_law [of s i] by auto
next
  case (Suc r)
  obtain s1 where s1: "read i s = Inr (Some (mem s ! (base + i)), s1)" "ok s1" "mem s1 = mem s" using read_law [of s i] Suc.prems by auto
  have nz: "mem s ! (base + i) \<noteq> 0" using Suc.prems(3) [rule_format, of 0] by simp
  have "\<forall>j<r. mem s1 ! (base + (i + 1) + j) \<noteq> 0" using Suc.prems(3) s1(3) by (auto dest: spec [of _ "Suc _"])
  moreover have "base + (i + 1) + r < length (mem s1)" using Suc.prems(2) s1(3) by simp
  ultimately show ?case using Suc.IH [OF s1(2)] s1(1) nz by simp
qed

end

text \<open>The paged memory of a running program keeps the contract.\<close>

definition runs :: "nat \<Rightarrow> VM \<Rightarrow> bool" where
  "runs pt vm \<longleftrightarrow> vm_ok vm \<and> attached pt vm \<and> unat (pageTableSize (mach vm)) = length (tables (mach vm) pt)
     \<and> length (user_memory vm pt) \<le> 2 ^ 31"

definition only_swapped :: "VM \<Rightarrow> VM \<Rightarrow> bool" where
  "only_swapped vm vm' \<longleftrightarrow> (\<forall>t. user_memory vm' t = user_memory vm t) \<and> swapSpace vm' = swapSpace vm
     \<and> (\<exists>d. files vm' = (files vm)\<lparr>dsk := d\<rparr>) \<and> hdr_data (dsk (files vm')) (hdr (swapSpace vm)) = hdr_data (dsk (files vm)) (hdr (swapSpace vm))
     \<and> (\<forall>s. s \<notin> set (hdr_data (dsk (files vm)) (hdr (swapSpace vm))) \<longrightarrow> dsk (files vm') s = dsk (files vm) s)
     \<and> registers (mach vm') ! PCReg = registers (mach vm) ! PCReg"

lemma only_swapped_trans: "only_swapped vm vm1 \<Longrightarrow> only_swapped vm1 vm2 \<Longrightarrow> only_swapped vm vm2"
  by (auto simp: only_swapped_def)

text \<open>Writing data sectors does not change which sectors they are.\<close>

lemma hdr_data_kept:
  assumes "file_ok d h" "\<forall>s. s \<notin> set (hdr_data d h) \<longrightarrow> d' s = d s"
  shows "hdr_data d' h = hdr_data d h"
proof -
  have "set (hdr_blocks h) \<inter> set (hdr_data d h) = {}" using file_okD(2) [OF assms(1)] by (auto simp: file_inv_def index_ok_def)
  then have "d' b = d b" if "b \<in> set (hdr_blocks h)" for b using assms(2) that by auto
  then show ?thesis unfolding hdr_data_def by (intro arg_cong [of _ _ concat] map_cong) simp_all
qed

lemma low_byte: "(ucast (scast (b :: byte) :: u32) :: byte) = b"
  by transfer (simp add: take_bit_signed_take_bit)

lemma read_char_ok:
  assumes r: "runs pt vm" and i: "unat addr + i < length (user_memory vm pt)"
  shows "\<exists>vm'. read_char pt addr i vm = Inr (Some (user_memory vm pt ! (unat addr + i)), vm') \<and> runs pt vm'
    \<and> user_memory vm' pt = user_memory vm pt \<and> only_swapped vm vm'"
proof -
  let ?va = "addr + of_nat i"
  have vm: "vm_ok vm" "attached pt vm" and sz: "unat (pageTableSize (mach vm)) = length (tables (mach vm) pt)" and m: "length (user_memory vm pt) \<le> 2 ^ 31"
    using r by (simp_all add: runs_def)
  have len: "length (user_memory vm pt) = 128 * length (tables (mach vm) pt)" using user_memory_pages(2) [OF vm(1)] .
  have small: "unat addr + i < 2 ^ 31" using i m by simp
  then have ua: "unat ?va = unat addr + i" by (simp add: unat_word_ariths unat_of_nat)
  have j: "unat (?va div 128) < length (tables (mach vm) pt)"
    using i len by (simp add: unat_div ua less_mult_imp_div_less mult.commute)
  have "int (unat ?va) < 2 ^ 31" using small unfolding ua by (simp only: of_nat_less_iff [symmetric, where 'a = int]) simp
  then have u: "uint ?va < 2 ^ 31" by simp
  then have a: "access_ok vm ?va 1" using j sz by (simp add: access_ok_def word_less_nat_alt)
  have o: "unat (?va mod 128) + nat 1 \<le> 128" using unat_offset(2) [of ?va] by simp
  obtain vm' where vm': "retry (user_ReadMem pt ?va 1) vm = Inr (Some (decode 1 (user_bytes vm pt ?va (nat 1))), vm')" "vm_ok vm'" "attached pt vm'"
    "same_pages vm vm'" "\<exists>d. files vm' = (files vm)\<lparr>dsk := d\<rparr>" "swapSpace vm' = swapSpace vm"
    "\<forall>s. s \<notin> set (hdr_data (dsk (files vm)) (hdr (swapSpace vm))) \<longrightarrow> dsk (files vm') s = dsk (files vm) s"
    "registers (mach vm') ! PCReg = registers (mach vm) ! PCReg" using retry_read [OF vm a] by blast
  have "user_bytes vm pt ?va (nat 1) = [user_memory vm pt ! (unat addr + i)]"
    unfolding user_bytes_memory [OF vm(1) j o] ua using i by (simp add: take_Suc hd_drop_conv_nth)
  then have "read_char pt addr i vm = Inr (Some (user_memory vm pt ! (unat addr + i)), vm')"
    using vm'(1) by (simp add: read_char_def decode_def low_byte)
  moreover have um: "user_memory vm' t = user_memory vm t" for t using same_pages_memory [OF vm'(4)] .
  moreover have "pageTableSize (mach vm') = pageTableSize (mach vm)" "length (tables (mach vm') pt) = length (tables (mach vm) pt)"
    using vm'(4) same_pages_length [of vm' vm] by (simp_all add: same_pages_def)
  then have "runs pt vm'" using vm'(2,3) sz m um by (simp add: runs_def)
  moreover have "file_ok (dsk (files vm)) (hdr (swapSpace vm))" using vm(1) by (simp add: vm_inv_def)
  then have "only_swapped vm vm'" using um vm'(5-8) hdr_data_kept [OF _ vm'(7)] by (simp add: only_swapped_def)
  ultimately show ?thesis by blast
qed

interpretation user_string: flat_reader "runs pt" "\<lambda>vm. user_memory vm pt" "unat addr" "read_char pt addr" only_swapped for pt addr
  by unfold_locales (use read_char_ok only_swapped_trans in \<open>blast+\<close>)

lemma no_zero:
  assumes "0 \<notin> set (take n (drop a m))" "a + n < length m" "j < n"
  shows "m ! (a + j) \<noteq> (0 :: byte)"
proof -
  have "take n (drop a m) ! j = m ! (a + j)" "j < length (take n (drop a m))" using assms(2,3) by simp_all
  then show ?thesis using assms(1) nth_mem [of j "take n (drop a m)"] by auto
qed

lemma load_string_ok:
  assumes r: "runs pt vm" "unat addr + n < length (user_memory vm pt)" "0 \<notin> set (take n (drop (unat addr) (user_memory vm pt)))"
    and z: "user_memory vm pt ! (unat addr + n) = 0" "n < 100"
  shows "\<exists>buf vm'. LoadStringFromMemory pt addr vm = Inr (buf, vm') \<and> c_string buf = take n (drop (unat addr) (user_memory vm pt))
    \<and> length buf = 100 \<and> runs pt vm' \<and> only_swapped vm vm'"
proof -
  let ?m = "user_memory vm pt" and ?v = "uninit (files vm) 100"
  obtain vm' where vm': "load_chars (read_char pt addr) 100 0 [] ?v vm = Inr (take (Suc n) (drop (unat addr) ?m), vm')" "runs pt vm'" "only_swapped vm vm'"
    using user_string.load_string [of pt vm addr 0 n 100 "[]" ?v] r(1,2) z no_zero [OF r(3,2)] by auto
  have tk: "take (Suc n) (drop (unat addr) ?m) = take n (drop (unat addr) ?m) @ [0]" using r(2) z(1) by (simp add: take_Suc_conv_app_nth)
  define buf where "buf = overwrite (map (uninit (files vm')) [0..<100]) 0 (take (Suc n) (drop (unat addr) ?m))"
  have "length buf = 100" using z(2) by (simp add: buf_def)
  moreover have "c_string buf = take n (drop (unat addr) ?m)"
    using r(3) by (auto simp: c_string_def buf_def tk overwrite_def takeWhile_append)
  ultimately show ?thesis using vm' by (simp add: LoadStringFromMemory_def buf_def)
qed


section \<open>Returning to the program\<close>

lemma return_to_user_eq:
  assumes "length (registers m) = 40"
  shows "return_to_user r m = Inr (m\<lparr>registers := (registers m)[2 := r, PrevPCReg := registers m ! PCReg, PCReg := registers m ! PCReg + 4,
    NextPCReg := registers m ! PCReg + 8]\<rparr>)"
  using assms by (simp add: return_to_user_def ReadRegister_def WriteRegister_def reg_defs add.commute)

text \<open>
  C37. The system calls \<open>Read\<close>, \<open>Seek\<close> and \<open>Close\<close> are not implemented by the dispatcher: like \<open>Add\<close> they return the sum of their first two arguments,
  advance the program counter and change nothing else, no file, no id, no memory of the program.
\<close>

theorem Read_Seek_Close_only_add:
  assumes "length (registers (mach (vmem k))) = 40" "registers (mach (vmem k)) ! 2 \<in> {SC_Add, SC_Read, SC_Seek, SC_Close}"
  defines "rs \<equiv> registers (mach (vmem k))"
  shows "ExceptionHandler SyscallException k = Inr (Return (k\<lparr>vmem := (vmem k)\<lparr>mach := (mach (vmem k))\<lparr>registers :=
    rs[2 := rs ! 4 + rs ! 5, PrevPCReg := rs ! PCReg, PCReg := rs ! PCReg + 4, NextPCReg := rs ! PCReg + 8]\<rparr>\<rparr>\<rparr>))"
proof -
  have t: "rs ! 2 = SC_Add \<or> rs ! 2 = SC_Read \<or> rs ! 2 = SC_Seek \<or> rs ! 2 = SC_Close" "rs ! 2 \<noteq> SC_Exit" "rs ! 2 \<noteq> SC_Halt"
    using assms(2) by (auto simp: rs_def SC_defs)
  then show ?thesis
    unfolding ExceptionHandler_def SyscallHandler_def using return_to_user_eq [OF assms(1), of "rs ! 4 + rs ! 5"]
    by (simp add: ReadRegister_def reg_defs SysAdd_def rs_def [symmetric])
qed

section \<open>Create\<close>

lemma in_dir_swapped:
  assumes dir: "in_dir fs (files vm) M fm wd hw" and s: "M s = Some (hdr (swapSpace vm))" "s \<noteq> 0" "s \<noteq> wd"
    and o: "only_swapped vm vm'" "file_ok (dsk (files vm')) (hdr (swapSpace vm))"
  shows "in_dir fs (files vm') M fm wd hw" "dir_of (dsk (files vm')) hw = dir_of (dsk (files vm)) hw"
proof -
  let ?d = "dsk (files vm)" and ?d' = "dsk (files vm')" and ?h = "hdr (swapSpace vm)"
  note D = in_dirD [OF dir]
  have w: "hdr_data ?d' ?h = hdr_data ?d ?h" "\<forall>t. t \<notin> set (hdr_data ?d ?h) \<longrightarrow> ?d' t = ?d t" using o(1) by (simp_all add: only_swapped_def)
  have at: "file_at ?d s ?h" using vol_invD(4) [OF D(1) s(1)] .
  have fs: "file_sectors ?d' ?h = file_sectors ?d ?h" using w(1) by (simp add: file_sectors_def)
  have at': "file_at ?d' s ?h" using at o(2) w fs by (auto simp: file_at_def file_sectors_def)
  have ow: "owned ?d M s = insert s (file_sectors ?d ?h)" using s(1) by (rule owned_Some)
  have "file_sectors ?d' ?h \<inter> (marked fm - owned ?d M s) = {}" "file_sectors ?d' ?h \<subseteq> marked fm"
    using vol_invD(6) [OF D(1), of s] fs unfolding ow by auto
  moreover have "\<forall>t. t \<notin> insert s (file_sectors ?d' ?h) \<longrightarrow> ?d' t = ?d t" using w(2) fs by (auto simp: file_sectors_def)
  ultimately have v: "vol_inv ?d' (M(s \<mapsto> ?h)) fm" "\<And>t hh. t \<noteq> s \<Longrightarrow> M t = Some hh \<Longrightarrow> bytes_of ?d' hh = bytes_of ?d hh"
    using vol_update [OF D(1) s(1) at'] vol_invD(2,3) [OF D(1)] by blast+
  have "M(s \<mapsto> ?h) = M" using s(1) by (simp add: fun_upd_idem)
  moreover have "M 0 = Some (hdr (freeMapFile fs))" using D(2) by (simp add: fs_inv_def)
  ultimately have "vol_inv ?d' M fm" "bytes_of ?d' hw = bytes_of ?d hw" "bytes_of ?d' (hdr (freeMapFile fs)) = bytes_of ?d (hdr (freeMapFile fs))"
    using v(1) v(2) [of wd hw] v(2) [of 0 "hdr (freeMapFile fs)"] s(2,3) D(3) by simp_all
  note in_dir_kept [OF dir this]
  moreover have "files vm' = (files vm)\<lparr>dsk := ?d'\<rparr>" using o(1) by (auto simp: only_swapped_def)
  ultimately show "in_dir fs (files vm') M fm wd hw" "dir_of ?d' hw = dir_of ?d hw" by simp_all
qed

text \<open>Changes of the file system outside the swap file do not touch the memory of programs.\<close>

lemma runs_files:
  assumes r: "runs pt vm" and d: "file_ok (dsk ks) (hdr (swapSpace vm))" "bytes_of (dsk ks) (hdr (swapSpace vm)) = bytes_of (dsk (files vm)) (hdr (swapSpace vm))"
  shows "runs pt (vm\<lparr>files := ks\<rparr>)" "user_memory (vm\<lparr>files := ks\<rparr>) t = user_memory vm t"
proof -
  let ?vm = "vm\<lparr>files := ks\<rparr>"
  have e: "entry_at ?vm = entry_at vm" "ptr_ok ?vm = ptr_ok vm" by (rule entry_at_cong ptr_ok_cong; simp)+
  have "page_bytes ?vm q = page_bytes vm q" for q using d(2) by (simp add: page_bytes_def e)
  then have um: "user_memory ?vm t = user_memory vm t" for t by (simp add: user_memory_def)
  then show "user_memory ?vm t = user_memory vm t" .
  have "vm_ok ?vm" using r d(1) unfolding runs_def vm_inv_def e by simp
  then show "runs pt ?vm" using r um by (simp add: runs_def attached_def)
qed

lemma runs_registers:
  assumes r: "runs pt vm" and m: "length rs = 40" "rs ! 0 = 0" "unat (rs ! LoadReg) < 32"
  defines "vm' \<equiv> vm\<lparr>mach := (mach vm)\<lparr>registers := rs\<rparr>\<rparr>"
  shows "runs pt vm'" "user_memory vm' t = user_memory vm t"
proof -
  have c: "vm_inv F vm' = vm_inv F vm" "page_bytes vm' = page_bytes vm" for F using vm_inv_cong [of vm' vm] by (simp_all add: vm'_def)
  then have um: "user_memory vm' t = user_memory vm t" for t by (simp add: user_memory_def vm'_def)
  then show "user_memory vm' t = user_memory vm t" .
  have "mmu_ok (mach vm') = mmu_ok (mach vm)" by (simp add: vm'_def mmu_ok_def split: option.splits)
  then have "attached pt vm'" using r m by (simp add: runs_def attached_def wf_machine_def vm'_def)
  then show "runs pt vm'" using r um c by (simp add: runs_def) (simp add: vm'_def)
qed


section \<open>A program that calls the kernel\<close>

lemma example_noff_bytes: "example_noff ! 40 = 100" "example_noff ! 41 = 0"
  by code_simp+

text \<open>The example program has the string \<open>"d"\<close> at address 0.\<close>

lemma example_running:
  "\<exists>vm fs M fm hw s. runs 0 vm \<and> length (user_memory vm 0) = 1152 \<and> user_memory vm 0 ! 0 = 100 \<and> user_memory vm 0 ! 1 = 0
    \<and> in_dir fs (files vm) M fm 1 hw \<and> M s = Some (hdr (swapSpace vm)) \<and> s \<noteq> 0 \<and> s \<noteq> 1
    \<and> dir_abs (dir_of (dsk (files vm)) hw) (name_key [100]) = None \<and> \<not> dir_full (dir_of (dsk (files vm)) hw) \<and> has_room fm 0"
proof -
  obtain fs vm M fm hw x s h where e: "vm_ok vm" "length (registers (mach vm)) = 40" "tlb (mach vm) = None" "in_dir fs (files vm) M fm 1 hw"
    "47 \<notin> set (letter 0)" "printable (dsk (files vm)) M (table (dir_of (dsk (files vm)) hw))"
    "dir_abs (dir_of (dsk (files vm)) hw) (name_key (letter 0)) = Some (x, False)" "M x = Some h" "52 \<le> numBytes h"
    "M s = Some (hdr (swapSpace vm))" "x \<noteq> s" "take 52 (bytes_of (dsk (files vm)) h) = example_noff"
    "numBytes (hdr (swapSpace vm)) = 3712" "swapSpace_counter vm = 0" "newTable vm = 0"
    "dir_abs (dir_of (dsk (files vm)) hw) (name_key (letter 3)) = None" "\<not> dir_full (dir_of (dsk (files vm)) hw)" "has_room fm 0" "s \<noteq> 0" "s \<noteq> 1"
    using example_vm by blast
  let ?bs = "bytes_of (dsk (files vm)) h" and ?g = "uninit (files vm)"
  from Load_ok [OF e(1,4-11)] example_noff_pages [OF e(12)] e(13-15) obtain vm' where vm': "vm_ok vm'" "vol_inv (dsk (files vm')) M fm"
    "\<forall>t hh. t \<noteq> s \<longrightarrow> M t = Some hh \<longrightarrow> bytes_of (dsk (files vm')) hh = bytes_of (dsk (files vm)) hh" "length (tables (mach vm') 0) = 9"
    "mach vm' = (mach vm)\<lparr>tables := tables (mach vm')\<rparr>" "\<forall>j<9. page_bytes vm' (0, j) = code_page ?g ?bs (40 + 128 * j)" "swapSpace vm' = swapSpace vm" by auto
  have "registers (mach vm') = registers (mach vm)" "tlb (mach vm') = tlb (mach vm)" by (subst vm'(5), simp)+
  then obtain m where m: "vm_ok (vm'\<lparr>mach := m\<rparr>)" "attached 0 (vm'\<lparr>mach := m\<rparr>)" "pageTableSize m = 9" "tables m = tables (mach vm')"
    "page_bytes (vm'\<lparr>mach := m\<rparr>) = page_bytes vm'" using Execute_attached [OF vm'(1), of 0 9] e(2,3) vm'(4) by auto
  let ?vm = "vm'\<lparr>mach := m\<rparr>"
  have um: "user_memory ?vm 0 = user_memory vm' 0" using m(4,5) by (simp add: user_memory_def)
  note P = user_memory_pages [OF vm'(1), of 0]
  have b: "?bs ! i = example_noff ! i" if "i < 52" for i using e(12) that nth_take [of i 52 ?bs] by simp
  have "52 \<le> length ?bs" using e(12) example_noff_header(1) by (metis length_take min.cobounded1)
  then have c: "user_memory vm' 0 ! i = example_noff ! (40 + i)" if "i < 2" for i
    using nth_concat_chunks [OF P(1), of i] nth_code_page [of i 40 ?bs ?g] that vm'(4,6) b [of "40 + i"] by (simp add: user_memory_def)
  have len: "length (user_memory ?vm 0) = 1152" using P(2) vm'(4) um by simp
  have r: "runs 0 ?vm" using m len vm'(4) by (simp add: runs_def)
  have "M 0 = Some (hdr (freeMapFile fs))" "M 1 = Some hw" using in_dirD(2,3) [OF e(4)] by (simp_all add: fs_inv_def)
  then have "bytes_of (dsk (files vm')) hw = bytes_of (dsk (files vm)) hw" "bytes_of (dsk (files vm')) (hdr (freeMapFile fs)) = bytes_of (dsk (files vm)) (hdr (freeMapFile fs))"
    using vm'(3) e(19,20) by auto
  from in_dir_kept [OF e(4) vm'(2) this] have d: "in_dir fs (files ?vm) M fm 1 hw" "dir_of (dsk (files ?vm)) hw = dir_of (dsk (files vm)) hw"
    by (simp_all add: in_dir_def)
  have "letter 3 = [100]" by (simp add: letter_def)
  then show ?thesis using r len um c [of 0] c [of 1] example_noff_bytes d e(10,16-20) vm'(7)
    by (intro exI [of _ ?vm] exI [of _ fs] exI [of _ M] exI [of _ fm] exI [of _ hw] exI [of _ s]) simp
qed


definition example_kernel :: "FileSystem \<Rightarrow> u32 \<Rightarrow> VM \<Rightarrow> UserKernel" where
  "example_kernel fs c vm = \<lparr>vmem = vm\<lparr>mach := (mach vm)\<lparr>registers := (replicate 40 0)[2 := c, 5 := 7]\<rparr>\<rparr>, fileSystem = fs, globalFileTable = replicate 100 None,
     fileObjects = Map.empty, nextObject = 0, space = 0, fileVector = None, wdSector = 1, hasFather = False, consoleIn = [], consoleOut = [], noReturn = 0\<rparr>"

theorem Read_Seek_Close_only_add_witness:
  "\<exists>k k'. registers (mach (vmem k)) ! 2 = SC_Close \<and> ExceptionHandler SyscallException k = Inr (Return k') \<and> registers (mach (vmem k')) ! 2 = 7
    \<and> globalFileTable k' = globalFileTable k"
proof -
  obtain vm :: VM and fs :: FileSystem and M fm hw where "in_dir fs (files vm) M fm 1 hw" using example_running by blast
  define k where "k = example_kernel fs SC_Close vm"
  define rs where "rs = registers (mach (vmem k))"
  have r: "length rs = 40" "rs ! 2 = SC_Close" "rs ! 4 + rs ! 5 = 7" by (simp_all add: rs_def k_def example_kernel_def)
  define k' where "k' = k\<lparr>vmem := (vmem k)\<lparr>mach := (mach (vmem k))\<lparr>registers :=
    rs[2 := rs ! 4 + rs ! 5, PrevPCReg := rs ! PCReg, PCReg := rs ! PCReg + 4, NextPCReg := rs ! PCReg + 8]\<rparr>\<rparr>\<rparr>"
  have "ExceptionHandler SyscallException k = Inr (Return k')"
    using Read_Seek_Close_only_add [of k, folded rs_def] r by (simp add: k'_def)
  moreover have "registers (mach (vmem k')) ! 2 = 7" "globalFileTable k' = globalFileTable k" using r by (simp_all add: k'_def reg_defs)
  ultimately show ?thesis using r(2) rs_def by blast
qed


end
