(* ===== verification/Events.thy ===== *)
theory Events
  imports Prelude
begin

text \<open>
  Runs of devices that react to calls and interrupts in any order: the network with its post offices (\<open>Post\<close>) and the console (\<open>Console\<close>).
\<close>

text \<open>A run of events: a step that has to wait changes nothing; any other error ends the run.\<close>

fun run_events :: "('e \<Rightarrow> 's \<Rightarrow> ('r list \<times> 's) res) \<Rightarrow> 'e list \<Rightarrow> 's \<Rightarrow> ('r list \<times> 's) res" where
  "run_events step [] s = Inr ([], s)"
| "run_events step (e # es) s =
     (case step e s of
        Inl err \<Rightarrow> if err = WouldBlock then run_events step es s else Inl err
      | Inr (r, s') \<Rightarrow> bind_res (run_events step es s') (\<lambda>(rs, s''). Inr (r @ rs, s'')))"

lemma bind_res_Inr_right [simp]: "bind_res x Inr = x"
  by (cases x) auto

text \<open>An invariant that every step keeps, errors other than waiting excluded, holds along the run, with what the steps log.\<close>

lemma run_events_invariant:
  assumes start: "I [] s"
    and waits: "\<And>r s e err. I r s \<Longrightarrow> e \<in> set es \<Longrightarrow> step e s = Inl err \<Longrightarrow> err = WouldBlock"
    and keeps: "\<And>r s e r' s'. I r s \<Longrightarrow> e \<in> set es \<Longrightarrow> step e s = Inr (r', s') \<Longrightarrow> I (r @ r') s'"
  shows "\<exists>r s'. run_events step es s = Inr (r, s') \<and> I r s'"
proof -
  have "\<exists>r s'. run_events step fs s = Inr (r, s') \<and> I (r0 @ r) s'" if "I r0 s" "set fs \<subseteq> set es" for r0 fs
    using that
  proof (induction fs arbitrary: r0 s)
    case (Cons e fs)
    show ?case
    proof (cases "step e s")
      case (Inl err)
      then show ?thesis using waits [of r0 s e err] Cons.IH [of r0 s] Cons.prems by simp
    next
      case (Inr x)
      then obtain r' s' where x: "step e s = Inr (r', s')" by (cases x) auto
      then have "I (r0 @ r') s'" using keeps [of r0 s e r' s'] Cons.prems by simp
      from Cons.IH [OF this] Cons.prems x show ?thesis by auto
    qed
  qed simp
  from this [OF start subset_refl] show ?thesis by simp
qed

end
