(* ===== verification/Post.thy ===== *)
theory Post
  imports Complex_Main Events "HOL-Library.Sublist"
begin

text \<open>
  The network between several Nachos machines: the simulated network device (\<open>machine/network.cc\<close>) over datagram sockets of the host
  (\<open>lib/sysdep.cc\<close>), and the post office with its mail boxes (\<open>network/post.cc\<close>). Each machine is a record; an event is one call or one
  interrupt on one machine, and \<open>PostOfficeOutput::Send\<close> is two events, before and after it waits for the interrupt that ends the
  transmission. The lists of messages (\<open>threads/synchlist.cc\<close>) are lists whose operations are atomic, as their lock makes them; an operation
  that has to wait is the error \<open>WouldBlock\<close> and changes nothing. A host socket is the list of the datagrams that wait there, in the order in
  which \<open>sendto\<close> accepted them. The \<open>double\<close> of the reliability is a rational number. Traces for the debug flag are left out.

  The theory ends with the contract of \<open>network/post.h\<close>, ``unreliable, ordered'' delivery of messages that ``are never corrupted'', as a
  locale, its interpretation on the model, and that no message gets stuck.
\<close>

section \<open>Headers and messages\<close>

record PacketHeader =
  pktTo :: int                          \<comment> \<open>\<open>to\<close>\<close>
  pktFrom :: int                        \<comment> \<open>\<open>from\<close>\<close>
  pktLength :: u32                      \<comment> \<open>\<open>length\<close>\<close>

record MailHeader =
  mailTo :: int
  mailFrom :: int
  mailLength :: u32

definition MaxWireSize :: nat where "MaxWireSize = 64"
definition MaxPacketSize :: nat where "MaxPacketSize = MaxWireSize - 12"
definition MaxMailSize :: nat where "MaxMailSize = MaxPacketSize - 12"

lemmas size_defs = MaxWireSize_def MaxPacketSize_def MaxMailSize_def

text \<open>Both headers as they lie in memory: 12 bytes.\<close>

definition packet_header_bytes :: "PacketHeader \<Rightarrow> byte list" where
  "packet_header_bytes h = int_to_bytes (pktTo h) @ int_to_bytes (pktFrom h) @ word_to_bytes (pktLength h)"

definition bytes_packet_header :: "byte list \<Rightarrow> PacketHeader" where
  "bytes_packet_header bs = \<lparr>pktTo = bytes_to_int (take 4 bs), pktFrom = bytes_to_int (take 4 (drop 4 bs)), pktLength = bytes_to_word (take 4 (drop 8 bs))\<rparr>"

definition mail_header_bytes :: "MailHeader \<Rightarrow> byte list" where
  "mail_header_bytes h = int_to_bytes (mailTo h) @ int_to_bytes (mailFrom h) @ word_to_bytes (mailLength h)"

definition bytes_mail_header :: "byte list \<Rightarrow> MailHeader" where
  "bytes_mail_header bs = \<lparr>mailTo = bytes_to_int (take 4 bs), mailFrom = bytes_to_int (take 4 (drop 4 bs)), mailLength = bytes_to_word (take 4 (drop 8 bs))\<rparr>"

record Mail =
  pktHdr :: PacketHeader
  mailHdr :: MailHeader
  mailData :: "byte list"               \<comment> \<open>\<open>data\<close>\<close>

definition Mail_new :: "(nat \<Rightarrow> byte) \<Rightarrow> PacketHeader \<Rightarrow> MailHeader \<Rightarrow> byte list \<Rightarrow> Mail res" where
  "Mail_new memory pktH mailH msgData =
     ASSERT (unat (mailLength mailH) \<le> MaxMailSize)
     (CHECK_BOUNDS (unat (mailLength mailH) \<le> length msgData)
        (Inr \<lparr>pktHdr = pktH, mailHdr = mailH, mailData = overwrite (map memory [0..<MaxMailSize]) 0 (take (unat (mailLength mailH)) msgData)\<rparr>))"

type_synonym message = "PacketHeader \<times> MailHeader \<times> byte list"

section \<open>Mail boxes\<close>

definition MailBox_Put :: "(nat \<Rightarrow> byte) \<Rightarrow> PacketHeader \<Rightarrow> MailHeader \<Rightarrow> byte list \<Rightarrow> Mail list \<Rightarrow> Mail list res" where
  "MailBox_Put memory pktH mailH data messages = bind_res (Mail_new memory pktH mailH data) (\<lambda>mail. Inr (messages @ [mail]))"

definition MailBox_Get :: "Mail list \<Rightarrow> (message \<times> Mail list) res" where
  "MailBox_Get messages =
     (case messages of
        [] \<Rightarrow> Inl WouldBlock
      | mail # rest \<Rightarrow> Inr ((pktHdr mail, mailHdr mail, take (unat (mailLength (mailHdr mail))) (mailData mail)), rest))"

section \<open>A machine\<close>

record Host =
  hostName :: int
  inHdr :: PacketHeader                 \<comment> \<open>\<open>NetworkInput\<close>\<close>
  inbox :: "byte list"
  messageAvailable :: int               \<comment> \<open>the value of the semaphore of \<open>PostOfficeInput\<close>\<close>
  boxes :: "Mail list list"
  deliveryBuffer :: "byte list"         \<comment> \<open>\<open>buffer\<close> of the postal worker\<close>
  sendBusy :: bool                      \<comment> \<open>\<open>NetworkOutput\<close>\<close>
  chanceToWork :: rat
  sendInts :: nat                       \<comment> \<open>pending interrupts \<open>NetworkSendInt\<close>\<close>
  messageSent :: int                    \<comment> \<open>the value of the semaphore of \<open>PostOfficeOutput\<close>\<close>
  sendLocked :: bool                    \<comment> \<open>\<open>sendLock\<close> is held\<close>
  numPacketsSent :: int
  numPacketsRecvd :: int
  memory :: "nat \<Rightarrow> byte"               \<comment> \<open>what \<open>new\<close> finds\<close>

definition NetworkOutput_chance :: "rat \<Rightarrow> rat" where
  "NetworkOutput_chance reliability = (if reliability < 0 then 0 else if reliability > 1 then 1 else reliability)"

text \<open>The constructors of both halves of network and post office.\<close>

definition Host_new :: "int \<Rightarrow> nat \<Rightarrow> rat \<Rightarrow> PacketHeader \<Rightarrow> (nat \<Rightarrow> byte) \<Rightarrow> Host" where
  "Host_new name nBoxes reliability junk mem =
     \<lparr>hostName = name, inHdr = junk\<lparr>pktLength := 0\<rparr>, inbox = map mem [0..<MaxPacketSize], messageAvailable = 0, boxes = replicate nBoxes [],
      deliveryBuffer = map mem [0..<MaxPacketSize], sendBusy = False, chanceToWork = NetworkOutput_chance reliability, sendInts = 0,
      messageSent = 0, sendLocked = False, numPacketsSent = 0, numPacketsRecvd = 0, memory = mem\<rparr>"

text \<open>
  \<open>SendToSocket\<close>: \<open>sendto k\<close> is what the host's \<open>sendto\<close> returns at the attempt with \<open>retryCount = k\<close>. The result tells whether the
  packet went out.
\<close>

function SendToSocket :: "int \<Rightarrow> (nat \<Rightarrow> int) \<Rightarrow> nat \<Rightarrow> bool res" where
  "SendToSocket packetSize sendto retryCount =
     (if retryCount < 10 then
        if sendto retryCount = packetSize then Inr True
        else ASSERT (sendto retryCount < 0) (SendToSocket packetSize sendto (retryCount + 1))
      else Inr False)"
  by pat_completeness auto
termination
  by (relation "measure (\<lambda>(_, _, retryCount). 10 - retryCount)") auto

declare SendToSocket.simps [simp del]

text \<open>\<open>Some\<close> is the packet that goes out; \<open>random\<close> is \<open>RandomNumber()\<close>.\<close>

definition NetworkOutput_Send :: "Host \<Rightarrow> PacketHeader \<Rightarrow> byte list \<Rightarrow> nat \<Rightarrow> (nat \<Rightarrow> int) \<Rightarrow> (byte list option \<times> Host) res" where
  "NetworkOutput_Send H h data random sendto =
     ASSERT (\<not> sendBusy H \<and> 0 < pktLength h \<and> unat (pktLength h) \<le> MaxPacketSize \<and> pktFrom h = hostName H)
     (let H = H\<lparr>sendInts := sendInts H + 1\<rparr>
      in if of_nat (random mod 100) \<ge> chanceToWork H * 100 then Inr (None, H)
         else CHECK_BOUNDS (unat (pktLength h) \<le> length data)
           (let buffer = overwrite (map (memory H) [0..<MaxWireSize]) 0 (packet_header_bytes h @ take (unat (pktLength h)) data)
            in bind_res (SendToSocket (int MaxWireSize) sendto 0) (\<lambda>sent. Inr (if sent then Some buffer else None, H))))"

definition PostOfficeOutput_CallBack :: "Host \<Rightarrow> Host" where
  "PostOfficeOutput_CallBack H = H\<lparr>messageSent := messageSent H + 1\<rparr>"

text \<open>The interrupt that \<open>NetworkOutput::Send\<close> scheduled; without one it cannot occur.\<close>

definition NetworkOutput_CallBack :: "Host \<Rightarrow> Host res" where
  "NetworkOutput_CallBack H =
     (if sendInts H = 0 then Inl WouldBlock
      else Inr (PostOfficeOutput_CallBack (H\<lparr>sendInts := sendInts H - 1, sendBusy := False, numPacketsSent := numPacketsSent H + 1\<rparr>)))"

text \<open>\<open>PostOfficeOutput::Send\<close> up to \<open>messageSent->P()\<close>, and from there to its end.\<close>

definition PostOfficeOutput_Send :: "Host \<Rightarrow> PacketHeader \<Rightarrow> MailHeader \<Rightarrow> byte list \<Rightarrow> nat \<Rightarrow> (nat \<Rightarrow> int) \<Rightarrow> (byte list option \<times> Host) res" where
  "PostOfficeOutput_Send H pktH mailH data random sendto =
     ASSERT (unat (mailLength mailH) \<le> MaxMailSize)
     (ASSERT (0 \<le> mailTo mailH)
     (let pktH = pktH\<lparr>pktFrom := hostName H, pktLength := mailLength mailH + 12\<rparr>
      in CHECK_BOUNDS (unat (mailLength mailH) \<le> length data)
         (let buffer = overwrite (map (memory H) [0..<MaxPacketSize]) 0 (mail_header_bytes mailH @ take (unat (mailLength mailH)) data)
          in if sendLocked H then Inl WouldBlock
             else NetworkOutput_Send (H\<lparr>sendLocked := True\<rparr>) pktH buffer random sendto)))"

definition PostOfficeOutput_Send_end :: "Host \<Rightarrow> Host res" where
  "PostOfficeOutput_Send_end H =
     (if messageSent H \<le> 0 then Inl WouldBlock else Inr (H\<lparr>messageSent := messageSent H - 1, sendLocked := False\<rparr>))"

definition PostOfficeInput_CallBack :: "Host \<Rightarrow> Host" where
  "PostOfficeInput_CallBack H = H\<lparr>messageAvailable := messageAvailable H + 1\<rparr>"

text \<open>The poll interrupt, which re-arms itself; \<open>sock\<close> are the datagrams that wait at the socket of the machine.\<close>

definition NetworkInput_CallBack :: "Host \<Rightarrow> byte list list \<Rightarrow> (Host \<times> byte list list) res" where
  "NetworkInput_CallBack H sock =
     (if pktLength (inHdr H) \<noteq> 0 then Inr (H, sock)
      else case sock of
        [] \<Rightarrow> Inr (H, sock)
      | buffer # rest \<Rightarrow>
          ASSERT (length buffer = MaxWireSize)
          (let h = bytes_packet_header buffer
           in ASSERT (pktTo h = hostName H \<and> unat (pktLength h) \<le> MaxPacketSize)
              (Inr (PostOfficeInput_CallBack (H\<lparr>inHdr := h, inbox := overwrite (inbox H) 0 (take (unat (pktLength h)) (drop 12 buffer)),
                 numPacketsRecvd := numPacketsRecvd H + 1\<rparr>), rest))))"

definition NetworkInput_Receive :: "Host \<Rightarrow> byte list \<Rightarrow> PacketHeader \<times> byte list \<times> Host" where
  "NetworkInput_Receive H data =
     (let h = inHdr H
      in (h, if pktLength h \<noteq> 0 then overwrite data 0 (take (unat (pktLength h)) (inbox H)) else data, H\<lparr>inHdr := h\<lparr>pktLength := 0\<rparr>\<rparr>))"

text \<open>One round of the postal worker.\<close>

definition PostalDelivery :: "Host \<Rightarrow> Host res" where
  "PostalDelivery H =
     (if messageAvailable H \<le> 0 then Inl WouldBlock
      else let H = H\<lparr>messageAvailable := messageAvailable H - 1\<rparr>;
               (pktH, buffer, H) = NetworkInput_Receive H (deliveryBuffer H);
               mailH = bytes_mail_header buffer
           in ASSERT (0 \<le> mailTo mailH \<and> mailTo mailH < int (length (boxes H)))
              (ASSERT (unat (mailLength mailH) \<le> MaxMailSize)
              (bind_res (MailBox_Put (memory H) pktH mailH (drop 12 buffer) (boxes H ! nat (mailTo mailH))) (\<lambda>box.
               Inr (H\<lparr>deliveryBuffer := buffer, boxes := (boxes H)[nat (mailTo mailH) := box]\<rparr>)))))"

definition PostOfficeInput_Receive :: "Host \<Rightarrow> int \<Rightarrow> (message \<times> Host) res" where
  "PostOfficeInput_Receive H box =
     ASSERT (box \<ge> 0 \<and> box < int (length (boxes H)))
     (bind_res (MailBox_Get (boxes H ! nat box)) (\<lambda>(msg, rest).
      ASSERT (unat (mailLength (fst (snd msg))) \<le> MaxMailSize) (Inr (msg, H\<lparr>boxes := (boxes H)[nat box := rest]\<rparr>))))"

section \<open>Several machines\<close>

record Network =
  hosts :: "int \<rightharpoonup> Host"
  sockets :: "int \<Rightarrow> byte list list"   \<comment> \<open>datagrams that wait at the socket \<open>SOCKET_n\<close>, in order\<close>

datatype event =
    Send int PacketHeader MailHeader "byte list" nat "nat \<Rightarrow> int"
  | SendInt int                         \<comment> \<open>\<open>NetworkOutput::CallBack\<close>\<close>
  | SendEnd int
  | Poll int                            \<comment> \<open>\<open>NetworkInput::CallBack\<close>\<close>
  | Deliver int
  | Receive int int

definition put_packet :: "int \<Rightarrow> byte list option \<Rightarrow> Network \<Rightarrow> Network" where
  "put_packet dest out N =
     (case out of Some buffer \<Rightarrow> N\<lparr>sockets := (sockets N)(dest := sockets N dest @ [buffer])\<rparr> | None \<Rightarrow> N)"

definition on_host :: "int \<Rightarrow> Network \<Rightarrow> (Host \<Rightarrow> ('a \<times> Host) res) \<Rightarrow> ('a \<times> Network) res" where
  "on_host n N f =
     (case hosts N n of
        None \<Rightarrow> Inl NullPointer
      | Some H \<Rightarrow> bind_res (f H) (\<lambda>(r, H). Inr (r, N\<lparr>hosts := (hosts N)(n \<mapsto> H)\<rparr>)))"

text \<open>A step returns what was received, with machine and box.\<close>

type_synonym received = "((int \<times> int) \<times> message) list"

fun net_step :: "event \<Rightarrow> Network \<Rightarrow> (received \<times> Network) res" where
  "net_step (Send n pktH mailH data random sendto) N =
     bind_res (on_host n N (\<lambda>H. PostOfficeOutput_Send H pktH mailH data random sendto)) (\<lambda>(out, N). Inr ([], put_packet (pktTo pktH) out N))"
| "net_step (SendInt n) N = on_host n N (\<lambda>H. bind_res (NetworkOutput_CallBack H) (\<lambda>H. Inr ([], H)))"
| "net_step (SendEnd n) N = on_host n N (\<lambda>H. bind_res (PostOfficeOutput_Send_end H) (\<lambda>H. Inr ([], H)))"
| "net_step (Poll n) N =
     bind_res (on_host n N (\<lambda>H. bind_res (NetworkInput_CallBack H (sockets N n)) (\<lambda>(H, sock). Inr (sock, H)))) (\<lambda>(sock, N).
     Inr ([], N\<lparr>sockets := (sockets N)(n := sock)\<rparr>))"
| "net_step (Deliver n) N = on_host n N (\<lambda>H. bind_res (PostalDelivery H) (\<lambda>H. Inr ([], H)))"
| "net_step (Receive n box) N = on_host n N (\<lambda>H. bind_res (PostOfficeInput_Receive H box) (\<lambda>(msg, H). Inr ([((n, box), msg)], H)))"

definition net_run :: "event list \<Rightarrow> Network \<Rightarrow> (received \<times> Network) res" where
  "net_run = run_events net_step"

section \<open>Unreliable delivery in order\<close>

text \<open>What was logged for one address.\<close>

definition to_key :: "'k \<Rightarrow> ('k \<times> 'm) list \<Rightarrow> 'm list" where
  "to_key k xs = map snd (filter (\<lambda>x. fst x = k) xs)"

lemma to_key_simps [simp]:
  "to_key k [] = []" "to_key k (x # xs) = (if fst x = k then snd x # to_key k xs else to_key k xs)"
  "to_key k (xs @ ys) = to_key k xs @ to_key k ys"
  by (simp_all add: to_key_def)

text \<open>
  The contract of a network that may lose messages and does nothing else to them: each step keeps every queue, takes a message from its
  front, adds one at its end, or loses the one it should add.
\<close>

locale lossy_fifo =
  fixes step :: "'e \<Rightarrow> 's \<Rightarrow> (('k \<times> 'm) list \<times> 's) res" and queue :: "'s \<Rightarrow> 'k \<Rightarrow> 'm list" and ok :: "'s \<Rightarrow> bool"
    and legal :: "'s \<Rightarrow> 'e \<Rightarrow> bool" and sent :: "'e \<Rightarrow> ('k \<times> 'm) list"
  assumes only_waits: "ok s \<Longrightarrow> legal s e \<Longrightarrow> step e s = Inl err \<Longrightarrow> err = WouldBlock"
    and step_ok: "ok s \<Longrightarrow> legal s e \<Longrightarrow> step e s = Inr (r, s') \<Longrightarrow> ok s' \<and> legal s' = legal s"
    and step_queue: "ok s \<Longrightarrow> legal s e \<Longrightarrow> step e s = Inr (r, s') \<Longrightarrow> subseq (to_key k r @ queue s' k) (queue s k @ to_key k (sent e))"
begin

lemma run_correct:
  assumes "ok s" "\<forall>e\<in>set es. legal s e"
  shows "\<exists>r s'. run_events step es s = Inr (r, s') \<and> ok s' \<and> legal s' = legal s \<and>
    (\<forall>k. subseq (to_key k r @ queue s' k) (queue s k @ to_key k (concat (map sent es))))"
  using assms
proof (induction es arbitrary: s)
  case (Cons e es)
  then have e: "legal s e" by simp
  show ?case
  proof (cases "step e s")
    case (Inl err)
    then have "err = WouldBlock" using only_waits [OF Cons.prems(1) e] by simp
    moreover obtain r s' where run: "run_events step es s = Inr (r, s')" "ok s'" "legal s' = legal s"
      and q: "\<And>k. subseq (to_key k r @ queue s' k) (queue s k @ to_key k (concat (map sent es)))"
      using Cons.IH [of s] Cons.prems by auto
    moreover have "subseq (to_key k r @ queue s' k) (queue s k @ to_key k (concat (map sent (e # es))))" for k
      using q [of k] by (rule subseq_order.trans) (simp add: subseq_append' list_emb_append2)
    ultimately show ?thesis using Inl by auto
  next
    case (Inr x)
    obtain r1 s1 where x: "step e s = Inr (r1, s1)" using Inr by (cases x) auto
    note step = step_ok [OF Cons.prems(1) e x]
    obtain r s' where run: "run_events step es s1 = Inr (r, s')" "ok s'" "legal s' = legal s1"
      and q: "\<And>k. subseq (to_key k r @ queue s' k) (queue s1 k @ to_key k (concat (map sent es)))"
      using Cons.IH [of s1] Cons.prems step by auto
    have "subseq (to_key k (r1 @ r) @ queue s' k) (queue s k @ to_key k (concat (map sent (e # es))))" for k
    proof -
      have "subseq (to_key k r1 @ to_key k r @ queue s' k) (to_key k r1 @ queue s1 k @ to_key k (concat (map sent es)))"
        by (rule list_emb_append_mono [OF subseq_order.refl q])
      also have "subseq \<dots> ((queue s k @ to_key k (sent e)) @ to_key k (concat (map sent es)))"
        using list_emb_append_mono [OF step_queue [OF Cons.prems(1) e x, of k] subseq_order.refl] by simp
      finally show ?thesis by simp
    qed
    then show ?thesis using x run step by auto
  qed
qed simp

end


section \<open>The queues of the model\<close>

text \<open>The message in a packet, in a datagram and in a mail.\<close>

definition packet_msg :: "PacketHeader \<Rightarrow> byte list \<Rightarrow> message" where
  "packet_msg h body = (let m = bytes_mail_header body in (h, m, take (unat (mailLength m)) (drop 12 body)))"

definition datagram_msg :: "byte list \<Rightarrow> message" where
  "datagram_msg buffer = packet_msg (bytes_packet_header buffer) (drop 12 buffer)"

definition mail_msg :: "Mail \<Rightarrow> message" where
  "mail_msg m = (pktHdr m, mailHdr m, take (unat (mailLength (mailHdr m))) (mailData m))"

definition buffered :: "Host \<Rightarrow> message list" where
  "buffered H = (if pktLength (inHdr H) = 0 then [] else [packet_msg (inHdr H) (inbox H)])"

definition msg_box :: "message \<Rightarrow> int" where
  "msg_box m = mailTo (fst (snd m))"

text \<open>What is on its way to a box of a machine, or in it, in order.\<close>

definition host_queue :: "Host \<Rightarrow> byte list list \<Rightarrow> int \<Rightarrow> message list" where
  "host_queue H sock b =
     (if 0 \<le> b \<and> b < int (length (boxes H))
      then map mail_msg (boxes H ! nat b) @ filter (\<lambda>m. msg_box m = b) (buffered H @ map datagram_msg sock) else [])"

definition net_queue :: "Network \<Rightarrow> int \<times> int \<Rightarrow> message list" where
  "net_queue N k = (case hosts N (fst k) of None \<Rightarrow> [] | Some H \<Rightarrow> host_queue H (sockets N (fst k)) (snd k))"

text \<open>A packet for one of the boxes of machine \<open>n\<close>.\<close>

definition packet_ok :: "int \<Rightarrow> nat \<Rightarrow> PacketHeader \<Rightarrow> byte list \<Rightarrow> bool" where
  "packet_ok n nBoxes h body \<longleftrightarrow>
     (let m = bytes_mail_header body
      in length body = MaxPacketSize \<and> pktTo h = n \<and> unat (mailLength m) \<le> MaxMailSize \<and> unat (pktLength h) = unat (mailLength m) + 12 \<and>
         0 \<le> mailTo m \<and> mailTo m < int nBoxes)"

definition datagram_ok :: "int \<Rightarrow> nat \<Rightarrow> byte list \<Rightarrow> bool" where
  "datagram_ok n nBoxes buffer \<longleftrightarrow> length buffer = MaxWireSize \<and> packet_ok n nBoxes (bytes_packet_header buffer) (drop 12 buffer)"

definition mail_ok :: "Mail \<Rightarrow> bool" where
  "mail_ok m \<longleftrightarrow> unat (mailLength (mailHdr m)) \<le> MaxMailSize \<and> length (mailData m) = MaxMailSize"

definition host_ok :: "int \<Rightarrow> Host \<Rightarrow> bool" where
  "host_ok n H \<longleftrightarrow>
     hostName H = n \<and> in_int n \<and> length (inbox H) = MaxPacketSize \<and> length (deliveryBuffer H) = MaxPacketSize \<and>
     (if pktLength (inHdr H) = 0 then messageAvailable H = 0
      else messageAvailable H = 1 \<and> packet_ok n (length (boxes H)) (inHdr H) (inbox H)) \<and>
     (\<forall>box\<in>set (boxes H). \<forall>m\<in>set box. mail_ok m) \<and>
     \<not> sendBusy H \<and> 0 \<le> messageSent H \<and> int (sendInts H) + messageSent H = (if sendLocked H then 1 else 0)"

definition net_ok :: "Network \<Rightarrow> bool" where
  "net_ok N \<longleftrightarrow> (\<forall>n H. hosts N n = Some H \<longrightarrow> host_ok n H \<and> (\<forall>d\<in>set (sockets N n). datagram_ok n (length (boxes H)) d))"

text \<open>
  What a caller of \<open>Send\<close> and \<open>Receive\<close> has to respect, and what the host's \<open>sendto\<close> promises of a datagram: it is sent as a whole, or the
  result is negative. \<open>nb\<close> gives the number of boxes of each machine.
\<close>

definition num_boxes :: "Network \<Rightarrow> int \<Rightarrow> nat option" where
  "num_boxes N n = map_option (\<lambda>H. length (boxes H)) (hosts N n)"

fun legal_event :: "(int \<Rightarrow> nat option) \<Rightarrow> event \<Rightarrow> bool" where
  "legal_event nb (Send n pktH mailH data random sendto) \<longleftrightarrow>
     nb n \<noteq> None \<and> unat (mailLength mailH) \<le> MaxMailSize \<and> unat (mailLength mailH) \<le> length data \<and> in_int (pktTo pktH) \<and>
     in_int (mailFrom mailH) \<and> 0 \<le> mailTo mailH \<and> in_int (mailTo mailH) \<and>
     (case nb (pktTo pktH) of None \<Rightarrow> True | Some k \<Rightarrow> mailTo mailH < int k) \<and>
     (\<forall>i<10. sendto i < 0 \<or> sendto i = int MaxWireSize)"
| "legal_event nb (SendInt n) \<longleftrightarrow> nb n \<noteq> None"
| "legal_event nb (SendEnd n) \<longleftrightarrow> nb n \<noteq> None"
| "legal_event nb (Poll n) \<longleftrightarrow> nb n \<noteq> None"
| "legal_event nb (Deliver n) \<longleftrightarrow> nb n \<noteq> None"
| "legal_event nb (Receive n box) \<longleftrightarrow> (case nb n of None \<Rightarrow> False | Some k \<Rightarrow> 0 \<le> box \<and> box < int k)"

text \<open>The message that a call of \<open>Send\<close> hands over.\<close>

fun sent_msgs :: "event \<Rightarrow> received" where
  "sent_msgs (Send n pktH mailH data random sendto) =
     [((pktTo pktH, mailTo mailH), (pktH\<lparr>pktFrom := n, pktLength := mailLength mailH + 12\<rparr>, mailH, take (unat (mailLength mailH)) data))]"
| "sent_msgs e = []"

subsection \<open>Headers round trip\<close>

lemma packet_header_roundtrip:
  "in_int (pktTo h) \<Longrightarrow> in_int (pktFrom h) \<Longrightarrow> bytes_packet_header (packet_header_bytes h @ xs) = h"
  by (simp add: bytes_packet_header_def packet_header_bytes_def codec_simps)

lemma mail_header_roundtrip:
  "in_int (mailTo h) \<Longrightarrow> in_int (mailFrom h) \<Longrightarrow> bytes_mail_header (mail_header_bytes h @ xs) = h"
  by (simp add: bytes_mail_header_def mail_header_bytes_def codec_simps)

lemma length_header_bytes [simp]: "length (packet_header_bytes h) = 12" "length (mail_header_bytes m) = 12"
  by (simp_all add: packet_header_bytes_def mail_header_bytes_def)

lemma bytes_mail_header_take: "12 \<le> n \<Longrightarrow> bytes_mail_header (take n xs @ ys) = bytes_mail_header xs" if "12 \<le> length xs"
  using that by (simp add: bytes_mail_header_def min_def take_drop)

lemma overwrite_0: "overwrite xs 0 ys = ys @ drop (length ys) xs"
  by (simp add: overwrite_def)

text \<open>Copying the body of a packet to the front of a buffer keeps its message.\<close>

lemma packet_copy:
  assumes "packet_ok n k h body" "length buf = MaxPacketSize"
  shows "packet_ok n k h (overwrite buf 0 (take (unat (pktLength h)) body))"
    "packet_msg h (overwrite buf 0 (take (unat (pktLength h)) body)) = packet_msg h body"
proof -
  let ?L = "unat (pktLength h)"
  have L: "12 \<le> ?L" "?L \<le> 52" "length body = 52" "?L = unat (mailLength (bytes_mail_header body)) + 12"
    using assms(1) by (auto simp: packet_ok_def Let_def size_defs)
  have h: "bytes_mail_header (overwrite buf 0 (take ?L body)) = bytes_mail_header body"
    using L by (simp add: overwrite_0 bytes_mail_header_take)
  show "packet_ok n k h (overwrite buf 0 (take ?L body))"
    using assms L unfolding packet_ok_def h by (simp add: size_defs Let_def)
  show "packet_msg h (overwrite buf 0 (take ?L body)) = packet_msg h body"
    using L unfolding packet_msg_def h by (simp add: Let_def overwrite_0 take_drop)
qed


subsection \<open>What the operations of a machine do to its queues\<close>

lemma packet_ok_length_pos: "packet_ok n k h body \<Longrightarrow> pktLength h \<noteq> 0"
  by (auto simp: packet_ok_def Let_def)

lemma Poll_keeps:
  assumes H: "host_ok n H" and sock: "\<forall>d\<in>set sock. datagram_ok n (length (boxes H)) d"
  obtains H' sock' where "NetworkInput_CallBack H sock = Inr (H', sock')" "host_ok n H'" "set sock' \<subseteq> set sock"
    "boxes H' = boxes H" "host_queue H' sock' = host_queue H sock"
    "pktLength (inHdr H') = 0 \<Longrightarrow> sock' = [] \<and> sock = []"
    "sock' = (if pktLength (inHdr H) = 0 then tl sock else sock)"
proof (cases "pktLength (inHdr H) \<noteq> 0 \<or> sock = []")
  case True
  then have "NetworkInput_CallBack H sock = Inr (H, sock)" by (auto simp: NetworkInput_CallBack_def)
  then show thesis by (rule that [OF _ H]) (use True in auto)
next
  case False
  then obtain d rest where d: "sock = d # rest" by (cases sock) auto
  let ?h = "bytes_packet_header d"
  have ok: "length d = MaxWireSize" "packet_ok n (length (boxes H)) ?h (drop 12 d)" using sock d by (simp_all add: datagram_ok_def)
  define H' where "H' = PostOfficeInput_CallBack (H\<lparr>inHdr := ?h, inbox := overwrite (inbox H) 0 (take (unat (pktLength ?h)) (drop 12 d)),
    numPacketsRecvd := numPacketsRecvd H + 1\<rparr>)"
  have inb: "length (inbox H) = MaxPacketSize" "hostName H = n" "messageAvailable H = 0" using H False by (auto simp: host_ok_def)
  have "pktTo ?h = hostName H" "unat (pktLength ?h) \<le> MaxPacketSize" using ok inb by (auto simp: packet_ok_def Let_def size_defs)
  then have eq: "NetworkInput_CallBack H sock = Inr (H', rest)"
    using ok False by (simp add: NetworkInput_CallBack_def d H'_def Let_def)
  note copy = packet_copy [OF ok(2) inb(1)] packet_ok_length_pos [OF ok(2)]
  have "length (inbox H') = MaxPacketSize" using copy(1) by (simp add: H'_def PostOfficeInput_CallBack_def packet_ok_def Let_def)
  then have ok': "host_ok n H'" using H inb copy(1,3) by (simp add: host_ok_def H'_def PostOfficeInput_CallBack_def)
  have q: "host_queue H' rest = host_queue H sock"
    using False copy by (simp add: fun_eq_iff host_queue_def buffered_def H'_def PostOfficeInput_CallBack_def d datagram_msg_def)
  show thesis
    by (rule that [OF eq ok' _ _ q]) (use False copy(3) in \<open>auto simp: d H'_def PostOfficeInput_CallBack_def\<close>)
qed

lemma Deliver_waits: "host_ok n H \<Longrightarrow> pktLength (inHdr H) = 0 \<Longrightarrow> PostalDelivery H = Inl WouldBlock"
  by (simp add: host_ok_def PostalDelivery_def)

lemma mail_list_update:
  "(\<forall>box\<in>set bs. \<forall>m\<in>set box. mail_ok m) \<Longrightarrow> (\<forall>m\<in>set b. mail_ok m) \<Longrightarrow> \<forall>box\<in>set (bs[i := b]). \<forall>m\<in>set box. mail_ok m"
  using set_update_subset_insert [of bs i b] by blast

lemma Deliver_keeps:
  assumes H: "host_ok n H" and p: "pktLength (inHdr H) \<noteq> 0"
  obtains H' where "PostalDelivery H = Inr H'" "host_ok n H'" "length (boxes H') = length (boxes H)" "host_queue H' = host_queue H"
    "pktLength (inHdr H') = 0"
proof -
  define buf where "buf = overwrite (deliveryBuffer H) 0 (take (unat (pktLength (inHdr H))) (inbox H))"
  let ?h = "inHdr H" let ?m = "bytes_mail_header buf" let ?i = "nat (mailTo ?m)"
  have ok: "packet_ok n (length (boxes H)) ?h (inbox H)" "length (deliveryBuffer H) = MaxPacketSize" "messageAvailable H = 1"
    using H p by (simp_all add: host_ok_def)
  note copy = packet_copy [OF ok(1,2), folded buf_def]
  have m: "length buf = MaxPacketSize" "unat (mailLength ?m) \<le> MaxMailSize" "0 \<le> mailTo ?m" "mailTo ?m < int (length (boxes H))"
    using copy(1) by (auto simp: packet_ok_def Let_def)
  define mail where "mail = \<lparr>pktHdr = ?h, mailHdr = ?m,
    mailData = overwrite (map (memory H) [0..<MaxMailSize]) 0 (take (unat (mailLength ?m)) (drop 12 buf))\<rparr>"
  have put: "MailBox_Put mem ?h ?m (drop 12 buf) msgs = Inr (msgs @ [mail])" if "mem = memory H" for mem msgs
    using m that by (simp add: MailBox_Put_def Mail_new_def mail_def size_defs)
  have len: "length (mailData mail) = MaxMailSize" using m by (simp add: mail_def size_defs)
  have msg: "mail_msg mail = packet_msg ?h (inbox H)"
    using m unfolding copy(2) [symmetric] by (simp add: mail_msg_def mail_def overwrite_0 size_defs packet_msg_def Let_def)
  define H' where "H' = H\<lparr>messageAvailable := 0, inHdr := ?h\<lparr>pktLength := 0\<rparr>, deliveryBuffer := buf,
    boxes := (boxes H)[?i := boxes H ! ?i @ [mail]]\<rparr>"
  have "PostalDelivery H = Inr H'"
    using m p ok by (simp add: PostalDelivery_def NetworkInput_Receive_def Let_def put H'_def flip: buf_def)
  moreover have "host_ok n H'"
  proof -
    have "\<forall>m\<in>set (boxes H ! ?i @ [mail]). mail_ok m"
      using H m len nth_mem [of ?i "boxes H"] by (auto simp: host_ok_def mail_ok_def mail_def)
    then show ?thesis using H m mail_list_update [of "boxes H" "boxes H ! ?i @ [mail]" ?i]
      by (simp add: host_ok_def H'_def)
  qed
  moreover have "host_queue H' = host_queue H"
  proof -
    have "msg_box (packet_msg ?h (inbox H)) = mailTo ?m" unfolding copy(2) [symmetric] by (simp add: msg_box_def packet_msg_def Let_def)
    then show ?thesis using m p msg
      by (auto simp: fun_eq_iff host_queue_def buffered_def H'_def nth_list_update nat_eq_iff2)
  qed
  ultimately show thesis using that by (simp add: H'_def)
qed


lemma Receive_takes_front:
  assumes H: "host_ok n H" and b: "0 \<le> b" "b < int (length (boxes H))" and box: "boxes H ! nat b = mail # rest"
  obtains H' where "PostOfficeInput_Receive H b = Inr (mail_msg mail, H')" "host_ok n H'" "length (boxes H') = length (boxes H)"
    "inHdr H' = inHdr H" "host_queue H sock b = mail_msg mail # host_queue H' sock b" "\<And>c. c \<noteq> b \<Longrightarrow> host_queue H' sock c = host_queue H sock c"
proof -
  define H' where "H' = H\<lparr>boxes := (boxes H)[nat b := rest]\<rparr>"
  have in_box: "boxes H ! nat b \<in> set (boxes H)" using b by (simp add: nat_less_iff)
  then have ok: "mail_ok mail" "\<forall>m\<in>set rest. mail_ok m" using H box by (auto simp: host_ok_def)
  have "PostOfficeInput_Receive H b = Inr (mail_msg mail, H')"
    using b box ok by (simp add: PostOfficeInput_Receive_def MailBox_Get_def mail_msg_def mail_ok_def H'_def)
  moreover have "host_ok n H'" using H ok(2) mail_list_update [of "boxes H" rest "nat b"] by (simp add: host_ok_def H'_def)
  moreover have "host_queue H sock b = mail_msg mail # host_queue H' sock b" using b box by (simp add: host_queue_def H'_def buffered_def)
  moreover have "host_queue H' sock c = host_queue H sock c" if "c \<noteq> b" for c
    using that b by (auto simp: host_queue_def H'_def buffered_def nth_list_update)
  ultimately show thesis using that by (simp add: H'_def)
qed

lemma Receive_waits: "0 \<le> b \<Longrightarrow> b < int (length (boxes H)) \<Longrightarrow> boxes H ! nat b = [] \<Longrightarrow> PostOfficeInput_Receive H b = Inl WouldBlock"
  by (simp add: PostOfficeInput_Receive_def MailBox_Get_def)

lemma SendToSocket_total: "\<forall>i<10. sendto i < 0 \<or> sendto i = k \<Longrightarrow> \<exists>b. SendToSocket k sendto i = Inr b"
proof (induction k sendto i rule: SendToSocket.induct)
  case (1 k sendto i)
  show ?case
  proof (cases "i < 10 \<and> sendto i \<noteq> k")
    case True
    with 1 show ?thesis by (subst SendToSocket.simps) auto
  qed (subst SendToSocket.simps, auto)
qed

text \<open>The datagram that \<open>Send\<close> builds carries the message.\<close>

lemma sent_datagram:
  assumes "unat (mailLength mailH) \<le> MaxMailSize" "unat (mailLength mailH) \<le> length data" "in_int (pktTo pktH)" "in_int (pktFrom pktH)"
    "in_int (mailFrom mailH)" "0 \<le> mailTo mailH" "in_int (mailTo mailH)" "pktLength pktH = mailLength mailH + 12"
    and body: "body = overwrite (map mem [0..<MaxPacketSize]) 0 (mail_header_bytes mailH @ take (unat (mailLength mailH)) data)"
    and d: "d = overwrite (map mem [0..<MaxWireSize]) 0 (packet_header_bytes pktH @ take (unat (pktLength pktH)) body)"
  shows "unat (pktLength pktH) = unat (mailLength mailH) + 12" "length body = MaxPacketSize"
    "datagram_msg d = (pktH, mailH, take (unat (mailLength mailH)) data)"
    "mailTo mailH < int k \<Longrightarrow> datagram_ok (pktTo pktH) k d"
proof -
  let ?L = "unat (mailLength mailH)"
  show L: "unat (pktLength pktH) = ?L + 12"
    using assms(1) unfolding assms(8) by (subst unat_add_lem [THEN iffD1]) (simp_all add: size_defs)
  show lb: "length body = MaxPacketSize" using assms(1,2) by (simp add: body size_defs)
  define junk where "junk = drop (?L + 24) (map mem [0..<64])"
  have dd: "d = packet_header_bytes pktH @ take (?L + 12) body @ junk"
    using assms(1) lb by (simp add: d L overwrite_0 junk_def size_defs min_def add.commute)
  have tb: "take (?L + 12) body = mail_header_bytes mailH @ take ?L data"
    using assms(1,2) by (simp add: body overwrite_0 size_defs)
  have ld: "length d = MaxWireSize" using assms(1,2) by (simp add: dd tb junk_def size_defs)
  have h: "bytes_packet_header d = pktH" unfolding dd by (rule packet_header_roundtrip [OF assms(3,4)])
  have drp: "drop 12 d = mail_header_bytes mailH @ take ?L data @ junk" by (simp add: dd tb)
  have mh: "bytes_mail_header (drop 12 d) = mailH" unfolding drp by (rule mail_header_roundtrip [OF assms(7,5)])
  show "datagram_msg d = (pktH, mailH, take ?L data)"
    unfolding datagram_msg_def packet_msg_def h mh using assms(2) by (simp add: drp)
  show "datagram_ok (pktTo pktH) k d" if "mailTo mailH < int k"
    unfolding datagram_ok_def packet_ok_def h mh using that assms ld L by (simp add: size_defs Let_def)
qed

lemma Send_hands_over:
  assumes H: "host_ok n H" and legal: "legal_event nb (Send n pktH mailH data random sendto)"
  defines "h \<equiv> pktH\<lparr>pktFrom := n, pktLength := mailLength mailH + 12\<rparr>"
  shows "PostOfficeOutput_Send H pktH mailH data random sendto = Inl WouldBlock \<or>
    (\<exists>out H'. PostOfficeOutput_Send H pktH mailH data random sendto = Inr (out, H') \<and> host_ok n H' \<and> length (boxes H') = length (boxes H) \<and>
       host_queue H' = host_queue H \<and>
       (\<forall>d. out = Some d \<longrightarrow> datagram_msg d = (h, mailH, take (unat (mailLength mailH)) data) \<and>
          (\<forall>k. mailTo mailH < int k \<longrightarrow> datagram_ok (pktTo pktH) k d)))"
proof (cases "sendLocked H")
  case True
  then show ?thesis using legal by (simp add: PostOfficeOutput_Send_def Let_def)
next
  case False
  define H' where "H' = H\<lparr>sendLocked := True, sendInts := sendInts H + 1\<rparr>"
  define body where "body = overwrite (map (memory H) [0..<MaxPacketSize]) 0 (mail_header_bytes mailH @ take (unat (mailLength mailH)) data)"
  define d where "d = overwrite (map (memory H) [0..<MaxWireSize]) 0 (packet_header_bytes h @ take (unat (pktLength h)) body)"
  have n: "hostName H = n" "in_int n" "\<not> sendBusy H" using H by (simp_all add: host_ok_def)
  have h: "pktTo h = pktTo pktH" "pktFrom h = n" "pktLength h = mailLength mailH + 12" by (simp_all add: h_def)
  note sd = sent_datagram [of mailH data h body "memory H" d, OF _ _ _ _ _ _ _ h(3) body_def d_def, unfolded h]
  have L: "unat (mailLength mailH + 12) = unat (mailLength mailH) + 12" and lb: "length body = MaxPacketSize"
    and msg: "datagram_msg d = (h, mailH, take (unat (mailLength mailH)) data)"
    and dok: "\<And>k. mailTo mailH < int k \<Longrightarrow> datagram_ok (pktTo pktH) k d"
    using sd legal n by simp_all
  obtain b where b: "SendToSocket (int MaxWireSize) sendto 0 = Inr b" using SendToSocket_total [of sendto "int MaxWireSize" 0] legal by auto
  have pos: "0 < mailLength mailH + 12" using L by (metis add_is_0 unat_0 word_neq_0_conv zero_neq_numeral)
  obtain out where out: "PostOfficeOutput_Send H pktH mailH data random sendto = Inr (out, H')" "out = None \<or> out = Some d"
  proof -
    have "unat (mailLength mailH) \<le> MaxMailSize" "0 \<le> mailTo mailH" "unat (mailLength mailH) \<le> length data" using legal by simp_all
    then show thesis using that [of "Some d"] that [of None] False n L lb pos b
      by (cases b; cases "of_nat (random mod 100) \<ge> chanceToWork H * 100")
        (simp_all add: PostOfficeOutput_Send_def NetworkOutput_Send_def Let_def H'_def size_defs flip: body_def h_def, simp_all add: d_def body_def h_def size_defs)
  qed
  have "host_ok n H'" "host_queue H' = host_queue H"
    using H False by (simp_all add: host_ok_def H'_def host_queue_def buffered_def fun_eq_iff)
  then show ?thesis using out msg dok by (auto simp: H'_def)
qed


subsection \<open>The network keeps the contract\<close>

lemma subseq_append_right: "subseq xs (xs @ ys)"
  using list_emb_append_mono [OF subseq_order.refl list_emb_Nil, of xs ys] by simp

lemma net_update:
  assumes "net_ok N" "hosts N n = Some H" "host_ok n H'" "length (boxes H') = length (boxes H)" "set sock \<subseteq> set (sockets N n)"
  defines "N' \<equiv> N\<lparr>hosts := (hosts N)(n \<mapsto> H'), sockets := (sockets N)(n := sock)\<rparr>"
  shows "net_ok N'" "num_boxes N' = num_boxes N"
    "net_queue N' (m, b) = (if m = n then host_queue H' sock b else net_queue N (m, b))" "net_queue N (n, b) = host_queue H (sockets N n) b"
  using assms by (auto simp: net_ok_def num_boxes_def net_queue_def fun_eq_iff split: option.splits)

lemma net_update_host:
  assumes "net_ok N" "hosts N n = Some H" "host_ok n H'" "length (boxes H') = length (boxes H)"
  defines "N' \<equiv> N\<lparr>hosts := (hosts N)(n \<mapsto> H')\<rparr>"
  shows "net_ok N'" "num_boxes N' = num_boxes N"
    "net_queue N' (m, b) = (if m = n then host_queue H' (sockets N n) b else net_queue N (m, b))" "net_queue N (n, b) = host_queue H (sockets N n) b"
  using net_update [OF assms(1-4) subset_refl] by (simp_all add: N'_def)

lemma net_put_packet:
  assumes "net_ok N" "\<And>k. num_boxes N dest = Some k \<Longrightarrow> datagram_ok dest k d" "datagram_msg d = m"
  defines "N' \<equiv> put_packet dest (Some d) N"
  shows "net_ok N'" "num_boxes N' = num_boxes N" "subseq (net_queue N' k) (net_queue N k @ (if k = (dest, msg_box m) then [m] else []))"
proof -
  show "net_ok N'" "num_boxes N' = num_boxes N" using assms by (auto simp: net_ok_def num_boxes_def put_packet_def fun_eq_iff)
  show "subseq (net_queue N' k) (net_queue N k @ (if k = (dest, msg_box m) then [m] else []))"
    using assms(3) by (cases k) (auto simp: N'_def put_packet_def net_queue_def host_queue_def split: option.splits)
qed

lemma net_host: "net_ok N \<Longrightarrow> num_boxes N n = Some k \<Longrightarrow> \<exists>H. hosts N n = Some H \<and> host_ok n H \<and> k = length (boxes H)"
  by (auto simp: net_ok_def num_boxes_def)

lemma net_hostE:
  assumes "net_ok N" "num_boxes N n \<noteq> None"
  obtains H where "hosts N n = Some H" "host_ok n H"
  using assms net_host by blast

text \<open>What the contract asks of one step.\<close>

definition keeps_contract :: "Network \<Rightarrow> event \<Rightarrow> bool" where
  "keeps_contract N e \<longleftrightarrow>
     (case net_step e N of
        Inl err \<Rightarrow> err = WouldBlock
      | Inr (r, N') \<Rightarrow> net_ok N' \<and> num_boxes N' = num_boxes N \<and> (\<forall>k. subseq (to_key k r @ net_queue N' k) (net_queue N k @ to_key k (sent_msgs e))))"

lemma Send_contract:
  assumes N: "net_ok N" and legal: "legal_event (num_boxes N) (Send n pktH mailH data random sendto)" (is "legal_event _ ?e")
  shows "keeps_contract N ?e"
proof -
  have "num_boxes N n \<noteq> None" using legal by simp
  then obtain H where H: "hosts N n = Some H" "host_ok n H" by (rule net_hostE [OF N])
  let ?m = "(pktH\<lparr>pktFrom := n, pktLength := mailLength mailH + 12\<rparr>, mailH, take (unat (mailLength mailH)) data)"
  show ?thesis
  proof (cases "PostOfficeOutput_Send H pktH mailH data random sendto")
    case (Inl err)
    then show ?thesis using Send_hands_over [OF H(2) legal] by (auto simp: keeps_contract_def on_host_def H(1))
  next
    case (Inr x)
    obtain out H' where x: "PostOfficeOutput_Send H pktH mailH data random sendto = Inr (out, H')" using Inr by (cases x) auto
    have send: "host_ok n H'" "length (boxes H') = length (boxes H)" "host_queue H' = host_queue H"
      and d: "\<And>d. out = Some d \<Longrightarrow> datagram_msg d = ?m \<and> (\<forall>k. mailTo mailH < int k \<longrightarrow> datagram_ok (pktTo pktH) k d)"
      using Send_hands_over [OF H(2) legal] x by auto
    define N1 where "N1 = N\<lparr>hosts := (hosts N)(n \<mapsto> H')\<rparr>"
    note up = net_update_host [OF N H(1) send(1,2), folded N1_def]
    have q: "net_queue N1 = net_queue N" using up(3,4) send(3) by (auto simp: fun_eq_iff)
    have step: "net_step ?e N = Inr ([], put_packet (pktTo pktH) out N1)" by (simp add: on_host_def H(1) x N1_def)
    show ?thesis
    proof (cases out)
      case None
      then show ?thesis using up(1,2) q unfolding keeps_contract_def step by (simp add: put_packet_def subseq_append_right)
    next
      case (Some a)
      have ok: "datagram_ok (pktTo pktH) k a" if "num_boxes N1 (pktTo pktH) = Some k" for k using d [OF Some] legal that up(2) by simp
      have m: "datagram_msg a = ?m" using d [OF Some] by simp
      note put = net_put_packet [OF up(1) ok m]
      have "subseq (net_queue (put_packet (pktTo pktH) out N1) k) (net_queue N k @ to_key k (sent_msgs ?e))" for k
        using put(3) [of k] q by (auto simp: Some msg_box_def)
      then show ?thesis using put(1,2) up(2) unfolding keeps_contract_def step by (simp add: Some del: sent_msgs.simps to_key_simps(2))
    qed
  qed
qed

lemma host_contract:
  assumes N: "net_ok N" and H: "hosts N n = Some H" and step: "net_step e N = Inr (r, N\<lparr>hosts := (hosts N)(n \<mapsto> H')\<rparr>)"
    and H': "host_ok n H'" "length (boxes H') = length (boxes H)" and e: "sent_msgs e = []"
    and r: "\<And>m b. m \<noteq> n \<Longrightarrow> to_key (m, b) r = []" "\<And>b. to_key (n, b) r @ host_queue H' (sockets N n) b = host_queue H (sockets N n) b"
  shows "keeps_contract N e"
  unfolding keeps_contract_def step using net_update_host [OF N H H'] r by (auto simp: e)

lemma Poll_contract:
  assumes N: "net_ok N" and H: "hosts N n = Some H" "host_ok n H"
  shows "keeps_contract N (Poll n)"
proof -
  have sock: "\<forall>d\<in>set (sockets N n). datagram_ok n (length (boxes H)) d" using N H by (simp add: net_ok_def)
  obtain H' sock' where p: "NetworkInput_CallBack H (sockets N n) = Inr (H', sock')" "host_ok n H'" "set sock' \<subseteq> set (sockets N n)"
    "boxes H' = boxes H" "host_queue H' sock' = host_queue H (sockets N n)"
    using Poll_keeps [OF H(2) sock] by metis
  then show ?thesis using net_update [OF N H(1) p(2) _ p(3)] by (auto simp: keeps_contract_def on_host_def H(1))
qed

lemma Receive_contract:
  assumes N: "net_ok N" and H: "hosts N n = Some H" "host_ok n H" and b: "0 \<le> b" "b < int (length (boxes H))"
  shows "keeps_contract N (Receive n b)"
proof (cases "boxes H ! nat b")
  case Nil
  then show ?thesis using b by (simp add: keeps_contract_def on_host_def H(1) Receive_waits)
next
  case (Cons mail rest)
  obtain H' where r: "PostOfficeInput_Receive H b = Inr (mail_msg mail, H')" and H': "host_ok n H'" "length (boxes H') = length (boxes H)"
    and q: "host_queue H (sockets N n) b = mail_msg mail # host_queue H' (sockets N n) b"
      "\<And>c. c \<noteq> b \<Longrightarrow> host_queue H' (sockets N n) c = host_queue H (sockets N n) c"
    using Receive_takes_front [OF H(2) b Cons, of "sockets N n"] by metis
  show ?thesis
    by (rule host_contract [OF N H(1) _ H', where r = "[((n, b), mail_msg mail)]"]) (use r q in \<open>auto simp: on_host_def H(1)\<close>)
qed

lemma step_contract:
  assumes N: "net_ok N" and legal: "legal_event (num_boxes N) e"
  shows "keeps_contract N e"
proof (cases e)
  case (Send n pktH mailH data random sendto)
  then show ?thesis using Send_contract N legal by simp
next
  case (SendInt n)
  then obtain H where H: "hosts N n = Some H" "host_ok n H" using legal net_hostE [OF N, of n] by auto
  show ?thesis
  proof (cases "sendInts H = 0")
    case True
    then show ?thesis by (simp add: SendInt keeps_contract_def on_host_def H(1) NetworkOutput_CallBack_def)
  next
    case False
    define H' where "H' = PostOfficeOutput_CallBack (H\<lparr>sendInts := sendInts H - 1, sendBusy := False, numPacketsSent := numPacketsSent H + 1\<rparr>)"
    show ?thesis unfolding SendInt
      by (rule host_contract [OF N H(1), where r = "[]" and H' = H'])
        (unfold H'_def, use H False in \<open>simp_all add: on_host_def NetworkOutput_CallBack_def PostOfficeOutput_CallBack_def host_ok_def host_queue_def buffered_def\<close>)
  qed
next
  case (SendEnd n)
  then obtain H where H: "hosts N n = Some H" "host_ok n H" using legal net_hostE [OF N, of n] by auto
  show ?thesis
  proof (cases "messageSent H \<le> 0")
    case True
    then show ?thesis by (simp add: SendEnd keeps_contract_def on_host_def H(1) PostOfficeOutput_Send_end_def)
  next
    case False
    define H' where "H' = H\<lparr>messageSent := messageSent H - 1, sendLocked := False\<rparr>"
    show ?thesis unfolding SendEnd
      by (rule host_contract [OF N H(1), where r = "[]" and H' = H'])
        (unfold H'_def, use H False in \<open>simp_all add: on_host_def PostOfficeOutput_Send_end_def host_ok_def host_queue_def buffered_def split: if_splits\<close>)
  qed
next
  case (Poll n)
  then show ?thesis using Poll_contract [OF N] legal net_hostE [OF N, of n] by (metis legal_event.simps(4))
next
  case (Deliver n)
  then obtain H where H: "hosts N n = Some H" "host_ok n H" using legal net_hostE [OF N, of n] by auto
  show ?thesis
  proof (cases "pktLength (inHdr H) = 0")
    case True
    then show ?thesis using Deliver_waits [OF H(2)] by (simp add: Deliver keeps_contract_def on_host_def H(1))
  next
    case False
    obtain H' where d: "PostalDelivery H = Inr H'" and H': "host_ok n H'" "length (boxes H') = length (boxes H)" "host_queue H' = host_queue H"
      using Deliver_keeps [OF H(2) False] by metis
    show ?thesis unfolding Deliver
      by (rule host_contract [OF N H(1) _ H'(1,2), where r = "[]"]) (simp_all add: on_host_def H(1) d H'(3))
  qed
next
  case (Receive n b)
  then obtain k where k: "num_boxes N n = Some k" "0 \<le> b" "b < int k" using legal by (auto split: option.splits)
  then show ?thesis using Receive_contract [OF N] net_host [OF N k(1)] Receive by auto
qed

interpretation post: lossy_fifo net_step net_queue net_ok "\<lambda>N. legal_event (num_boxes N)" sent_msgs
  using step_contract by unfold_locales (force simp: keeps_contract_def)+


subsection \<open>Delivery\<close>

text \<open>The packets that the postal worker of a machine has still to put into a box.\<close>

definition undelivered :: "Host \<Rightarrow> byte list list \<Rightarrow> nat" where
  "undelivered H sock = length sock + (if pktLength (inHdr H) = 0 then 0 else 1)"

lemma Poll_Deliver_round:
  assumes N: "net_ok N" and H: "hosts N n = Some H"
  obtains N' H' where "\<And>es. net_run (Poll n # Deliver n # es) N = net_run es N'" "net_ok N'" "hosts N' n = Some H'"
    "length (boxes H') = length (boxes H)" "net_queue N' (n, b) = net_queue N (n, b)"
    "undelivered H' (sockets N' n) = undelivered H (sockets N n) - 1"
proof -
  have ok: "host_ok n H" "\<forall>d\<in>set (sockets N n). datagram_ok n (length (boxes H)) d" using N H by (simp_all add: net_ok_def)
  obtain H1 sock where p: "NetworkInput_CallBack H (sockets N n) = Inr (H1, sock)" "host_ok n H1" "set sock \<subseteq> set (sockets N n)"
    "boxes H1 = boxes H" "host_queue H1 sock = host_queue H (sockets N n)" "pktLength (inHdr H1) = 0 \<Longrightarrow> sock = [] \<and> sockets N n = []"
    "sock = (if pktLength (inHdr H) = 0 then tl (sockets N n) else sockets N n)"
    using Poll_keeps [OF ok] by metis
  define N1 where "N1 = N\<lparr>hosts := (hosts N)(n \<mapsto> H1), sockets := (sockets N)(n := sock)\<rparr>"
  have len1: "length (boxes H1) = length (boxes H)" by (simp add: p(4))
  note up1 = net_update [OF N H p(2) len1 p(3), folded N1_def]
  have H1: "hosts N1 n = Some H1" "sockets N1 n = sock" by (simp_all add: N1_def)
  have poll: "net_step (Poll n) N = Inr ([], N1)" by (simp add: on_host_def H p(1) N1_def)
  show thesis
  proof (cases "pktLength (inHdr H1) = 0")
    case True
    then have "undelivered H1 sock = undelivered H (sockets N n) - 1" using p(6) p(7) p(1)
      by (auto simp: undelivered_def NetworkInput_CallBack_def)
    moreover have "net_step (Deliver n) N1 = Inl WouldBlock" using Deliver_waits [OF p(2) True] by (simp add: on_host_def H1)
    ultimately show thesis using that [of N1 H1] up1 H1 len1 p(5) poll
      by (simp add: net_run_def del: net_step.simps)
  next
    case False
    obtain H2 where d: "PostalDelivery H1 = Inr H2" "host_ok n H2" "length (boxes H2) = length (boxes H1)" "host_queue H2 = host_queue H1"
      "pktLength (inHdr H2) = 0"
      using Deliver_keeps [OF p(2) False] by metis
    define N2 where "N2 = N1\<lparr>hosts := (hosts N1)(n \<mapsto> H2)\<rparr>"
    note up2 = net_update_host [OF up1(1) H1(1) d(2,3), folded N2_def]
    have H2: "hosts N2 n = Some H2" "sockets N2 n = sock" by (simp_all add: N2_def H1)
    have "net_step (Deliver n) N1 = Inr ([], N2)" by (simp add: on_host_def H1 d(1) N2_def)
    moreover have "undelivered H2 sock = undelivered H (sockets N n) - 1" using p(7) d(5) by (simp add: undelivered_def)
    moreover have "net_queue N2 (n, b) = net_queue N (n, b)" using up1(3) [of n] up1(4) up2(3) [of n] d(4) p(5) H1 by simp
    ultimately show thesis using that [of N2 H2] up2 H2 len1 d(3) poll
      by (simp add: net_run_def del: net_step.simps)
  qed
qed

lemma all_delivered:
  assumes "net_ok N" "hosts N n = Some H" "undelivered H (sockets N n) \<le> k"
  shows "\<exists>N' H'. net_run (concat (replicate k [Poll n, Deliver n])) N = Inr ([], N') \<and> net_ok N' \<and> hosts N' n = Some H' \<and>
    length (boxes H') = length (boxes H) \<and> net_queue N' (n, b) = net_queue N (n, b) \<and> undelivered H' (sockets N' n) = 0"
  using assms
proof (induction k arbitrary: N H)
  case 0
  then show ?case by (simp add: net_run_def)
next
  case (Suc k)
  obtain N' H' where r: "\<And>es. net_run (Poll n # Deliver n # es) N = net_run es N'" "net_ok N'" "hosts N' n = Some H'"
    "length (boxes H') = length (boxes H)" "net_queue N' (n, b) = net_queue N (n, b)"
    "undelivered H' (sockets N' n) = undelivered H (sockets N n) - 1"
    using Poll_Deliver_round [OF Suc.prems(1,2), of b] by metis
  show ?case using Suc.IH [OF r(2,3)] r Suc.prems(3) by simp
qed

text \<open>\<open>Send\<close> does not know how many boxes the other machine has: a message to a box that does not exist ends the receiving kernel.\<close>

lemma PostalDelivery_bad_box:
  assumes "0 < messageAvailable H" "pktLength (inHdr H) \<noteq> 0"
    "int (length (boxes H)) \<le> mailTo (bytes_mail_header (overwrite (deliveryBuffer H) 0 (take (unat (pktLength (inHdr H))) (inbox H))))"
  shows "PostalDelivery H = Inl AssertFailed"
  using assms by (simp add: PostalDelivery_def NetworkInput_Receive_def Let_def)

lemma Host_new_ok: "in_int n \<Longrightarrow> host_ok n (Host_new n nBoxes reliability junk mem)"
  by (auto simp: host_ok_def Host_new_def in_set_replicate)

text \<open>Two machines with two boxes each, and a message of two characters from the first to box 1 of the second.\<close>

definition demo_hosts :: "int \<rightharpoonup> Host" where
  "demo_hosts = (let new = (\<lambda>n. Host_new n 2 1 \<lparr>pktTo = 7, pktFrom = 7, pktLength = 7\<rparr> (\<lambda>_. 0)) in [0 \<mapsto> new 0, 1 \<mapsto> new 1])"

definition demo_pkt :: PacketHeader where "demo_pkt = \<lparr>pktTo = 1, pktFrom = 0, pktLength = 14\<rparr>"
definition demo_mail :: MailHeader where "demo_mail = \<lparr>mailTo = 1, mailFrom = 0, mailLength = 2\<rparr>"

definition demo_datagram :: "byte list" where
  "demo_datagram = packet_header_bytes demo_pkt @ mail_header_bytes demo_mail @ [72, 105] @ replicate 38 0"

definition demo_net :: "byte list list \<Rightarrow> Network" where
  "demo_net sock = \<lparr>hosts = demo_hosts, sockets = (\<lambda>_. [])(1 := sock)\<rparr>"

lemma demo_datagram_ok:
  "datagram_ok 1 2 demo_datagram" "datagram_msg demo_datagram = (demo_pkt, demo_mail, [72, 105])"
proof -
  have h: "bytes_packet_header demo_datagram = demo_pkt"
    unfolding demo_datagram_def by (rule packet_header_roundtrip) (simp_all add: demo_pkt_def in_int_def)
  have d: "drop 12 demo_datagram = mail_header_bytes demo_mail @ [72, 105] @ replicate 38 0" by (simp add: demo_datagram_def)
  have m: "bytes_mail_header (drop 12 demo_datagram) = demo_mail"
    unfolding d by (rule mail_header_roundtrip) (simp_all add: demo_mail_def in_int_def)
  show "datagram_ok 1 2 demo_datagram"
    unfolding datagram_ok_def packet_ok_def h m by (simp add: demo_pkt_def demo_mail_def size_defs demo_datagram_def)
  show "datagram_msg demo_datagram = (demo_pkt, demo_mail, [72, 105])"
    unfolding datagram_msg_def packet_msg_def h m by (simp add: d demo_mail_def)
qed

lemma demo_net_ok: "\<forall>d\<in>set sock. datagram_ok 1 2 d \<Longrightarrow> net_ok (demo_net sock)"
  by (auto simp: net_ok_def demo_net_def demo_hosts_def Let_def in_int_def intro: Host_new_ok split: if_splits) (simp add: Host_new_def)

lemma demo_num_boxes: "num_boxes (demo_net sock) n = (if n = 0 \<or> n = 1 then Some 2 else None)"
  by (simp add: num_boxes_def demo_net_def demo_hosts_def Let_def Host_new_def)

lemma demo_queue: "net_queue (demo_net [demo_datagram]) (1, 1) = [(demo_pkt, demo_mail, [72, 105])]"
  using demo_datagram_ok(2)
  by (simp add: net_queue_def demo_net_def demo_hosts_def Let_def host_queue_def Host_new_def buffered_def msg_box_def demo_mail_def)

section \<open>Properties\<close>



text \<open>C39. No message gets stuck: when a machine polls its network and its postal worker runs often enough, once for each packet that waits,
  a \<open>Receive\<close> from a box returns the first message that was on its way to that box.\<close>

theorem post_office_delivers:
  assumes N: "net_ok N" and q: "net_queue N (n, b) = m # rest" and k: "length (sockets N n) < k"
  shows "\<exists>N' N''. net_run (concat (replicate k [Poll n, Deliver n])) N = Inr ([], N') \<and>
    net_step (Receive n b) N' = Inr ([((n, b), m)], N'') \<and> net_queue N'' (n, b) = rest"
proof -
  obtain H where H: "hosts N n = Some H" using q by (auto simp: net_queue_def split: option.splits)
  have b: "0 \<le> b" "b < int (length (boxes H))" using q by (auto simp: net_queue_def H host_queue_def split: if_splits)
  have "undelivered H (sockets N n) \<le> k" using k by (simp add: undelivered_def)
  from all_delivered [OF N H this, of b] obtain N' H' where r: "net_run (concat (replicate k [Poll n, Deliver n])) N = Inr ([], N')"
    and N': "net_ok N'" "hosts N' n = Some H'" and l: "length (boxes H') = length (boxes H)"
    and q': "net_queue N' (n, b) = m # rest" and u: "undelivered H' (sockets N' n) = 0" using q by auto
  have "map mail_msg (boxes H' ! nat b) = m # rest" using q' u b l
    by (auto simp: net_queue_def N'(2) host_queue_def buffered_def undelivered_def split: if_splits)
  then obtain mail ms where box: "boxes H' ! nat b = mail # ms" "m = mail_msg mail" by auto
  have ok: "host_ok n H'" and b': "b < int (length (boxes H'))" using N' b l by (simp_all add: net_ok_def)
  obtain H'' where R: "PostOfficeInput_Receive H' b = Inr (m, H'')" "host_ok n H''" "length (boxes H'') = length (boxes H')"
    "host_queue H' (sockets N' n) b = m # host_queue H'' (sockets N' n) b"
    using Receive_takes_front [OF ok b(1) b' box(1), of "sockets N' n"] box(2) by metis
  have "net_queue (N'\<lparr>hosts := (hosts N')(n \<mapsto> H'')\<rparr>) (n, b) = rest"
    using net_update_host [OF N' R(2,3)] R(4) q' by simp
  then show ?thesis using r R(1) by (auto simp: on_host_def N'(2))
qed


theorem post_office_delivers_witness:
  "\<exists>N' N''. net_run [Poll 1, Deliver 1, Poll 1, Deliver 1] (demo_net [demo_datagram]) = Inr ([], N') \<and>
    net_step (Receive 1 1) N' = Inr ([((1, 1), (demo_pkt, demo_mail, [72, 105]))], N'') \<and> net_queue N'' (1, 1) = []"
proof -
  have "net_ok (demo_net [demo_datagram])" using demo_datagram_ok(1) by (simp add: demo_net_ok)
  moreover have "length (sockets (demo_net [demo_datagram]) 1) < 2" by (simp add: demo_net_def)
  moreover have "concat (replicate 2 [Poll 1, Deliver 1]) = [Poll 1, Deliver 1, Poll 1, Deliver 1]" by (simp add: numeral_2_eq_2)
  ultimately show ?thesis using post_office_delivers [OF _ demo_queue, of 2] by simp
qed

end
