(* ===== verification/Console.thy ===== *)
theory Console
  imports Events
begin

text \<open>
  The simulated console (\<open>machine/console.cc\<close>) and the synchronised access to it (\<open>userprog/synchconsole.cc\<close>), which the system calls on the
  console use. An event is an interrupt, a call of \<open>GetChar\<close>, or one of the two halves of \<open>PutChar\<close>, before and after it waits for the
  interrupt. The file that simulates the keyboard is the list of the characters it still holds; whether \<open>PollFile\<close> finds it readable is up to
  the event. An operation that has to wait, and an interrupt that is not pending, is the error \<open>WouldBlock\<close>.
\<close>

section \<open>Operations\<close>

record Console =
  keyboard :: "byte list"               \<comment> \<open>what \<open>readFileNo\<close> still holds\<close>
  incoming :: byte
  readInts :: nat                       \<comment> \<open>pending interrupts \<open>ConsoleReadInt\<close>\<close>
  inWaitFor :: int                      \<comment> \<open>\<open>waitFor\<close> of \<open>SynchConsoleInput\<close>\<close>
  display :: "byte list"                \<comment> \<open>what \<open>writeFileNo\<close> got\<close>
  putBusy :: bool
  writeInts :: nat                      \<comment> \<open>pending interrupts \<open>ConsoleWriteInt\<close>\<close>
  outWaitFor :: int                     \<comment> \<open>\<open>waitFor\<close> of \<open>SynchConsoleOutput\<close>\<close>
  outLocked :: bool                     \<comment> \<open>\<open>lock\<close> of \<open>SynchConsoleOutput\<close>\<close>
  numConsoleCharsRead :: int
  numConsoleCharsWritten :: int

text \<open>\<open>EOF\<close> is -1, and \<open>incoming\<close> is a \<open>char\<close>.\<close>

definition EOF_char :: byte where "EOF_char = -1"

definition Console_new :: "byte list \<Rightarrow> Console" where
  "Console_new file =
     \<lparr>keyboard = file, incoming = EOF_char, readInts = 1, inWaitFor = 0, display = [], putBusy = False, writeInts = 0, outWaitFor = 0,
      outLocked = False, numConsoleCharsRead = 0, numConsoleCharsWritten = 0\<rparr>"

definition SynchConsoleInput_CallBack :: "Console \<Rightarrow> Console" where
  "SynchConsoleInput_CallBack c = c\<lparr>inWaitFor := inWaitFor c + 1\<rparr>"

definition ConsoleInput_CallBack :: "bool \<Rightarrow> Console \<Rightarrow> Console res" where
  "ConsoleInput_CallBack readable c =
     (if readInts c = 0 then Inl WouldBlock
      else let c = c\<lparr>readInts := readInts c - 1\<rparr>
           in ASSERT (incoming c = EOF_char)
              (if \<not> readable then Inr (c\<lparr>readInts := readInts c + 1\<rparr>)
               else case keyboard c of
                 [] \<Rightarrow> Inr (SynchConsoleInput_CallBack c)
               | ch # rest \<Rightarrow>
                   Inr (SynchConsoleInput_CallBack (c\<lparr>keyboard := rest, incoming := ch, numConsoleCharsRead := numConsoleCharsRead c + 1\<rparr>))))"

definition ConsoleInput_GetChar :: "Console \<Rightarrow> byte \<times> Console" where
  "ConsoleInput_GetChar c =
     (let ch = incoming c; c = (if incoming c \<noteq> EOF_char then c\<lparr>readInts := readInts c + 1\<rparr> else c) in (ch, c\<lparr>incoming := EOF_char\<rparr>))"

definition SynchConsoleInput_GetChar :: "Console \<Rightarrow> (byte \<times> Console) res" where
  "SynchConsoleInput_GetChar c =
     (if inWaitFor c \<le> 0 then Inl WouldBlock else Inr (ConsoleInput_GetChar (c\<lparr>inWaitFor := inWaitFor c - 1\<rparr>)))"

definition SynchConsoleOutput_CallBack :: "Console \<Rightarrow> Console" where
  "SynchConsoleOutput_CallBack c = c\<lparr>outWaitFor := outWaitFor c + 1\<rparr>"

definition ConsoleOutput_CallBack :: "Console \<Rightarrow> Console res" where
  "ConsoleOutput_CallBack c =
     (if writeInts c = 0 then Inl WouldBlock
      else Inr (SynchConsoleOutput_CallBack (c\<lparr>writeInts := writeInts c - 1, putBusy := False, numConsoleCharsWritten := numConsoleCharsWritten c + 1\<rparr>)))"

definition ConsoleOutput_PutChar :: "byte \<Rightarrow> Console \<Rightarrow> Console res" where
  "ConsoleOutput_PutChar ch c =
     ASSERT (\<not> putBusy c) (Inr (c\<lparr>display := display c @ [ch], putBusy := True, writeInts := writeInts c + 1\<rparr>))"

text \<open>\<open>SynchConsoleOutput::PutChar\<close> up to \<open>waitFor->P()\<close>, and from there to its end.\<close>

definition SynchConsoleOutput_PutChar :: "byte \<Rightarrow> Console \<Rightarrow> Console res" where
  "SynchConsoleOutput_PutChar ch c = (if outLocked c then Inl WouldBlock else ConsoleOutput_PutChar ch (c\<lparr>outLocked := True\<rparr>))"

definition SynchConsoleOutput_PutChar_end :: "Console \<Rightarrow> Console res" where
  "SynchConsoleOutput_PutChar_end c =
     (if outWaitFor c \<le> 0 then Inl WouldBlock else Inr (c\<lparr>outWaitFor := outWaitFor c - 1, outLocked := False\<rparr>))"

section \<open>Runs\<close>

datatype console_event = ReadInt bool | Get | Put byte | WriteInt | PutEnd
datatype char_io = Got byte | Shown byte

fun console_step :: "console_event \<Rightarrow> Console \<Rightarrow> (char_io list \<times> Console) res" where
  "console_step (ReadInt readable) c = bind_res (ConsoleInput_CallBack readable c) (\<lambda>c. Inr ([], c))"
| "console_step Get c = bind_res (SynchConsoleInput_GetChar c) (\<lambda>(ch, c). Inr ([Got ch], c))"
| "console_step (Put ch) c = bind_res (SynchConsoleOutput_PutChar ch c) (\<lambda>c. Inr ([Shown ch], c))"
| "console_step WriteInt c = bind_res (ConsoleOutput_CallBack c) (\<lambda>c. Inr ([], c))"
| "console_step PutEnd c = bind_res (SynchConsoleOutput_PutChar_end c) (\<lambda>c. Inr ([], c))"

fun gots :: "char_io list \<Rightarrow> byte list" where
  "gots [] = []"
| "gots (Got ch # r) = ch # gots r"
| "gots (Shown ch # r) = gots r"

fun showns :: "char_io list \<Rightarrow> byte list" where
  "showns [] = []"
| "showns (Got ch # r) = showns r"
| "showns (Shown ch # r) = ch # showns r"

lemma gots_append [simp]: "gots (r @ r') = gots r @ gots r'"
  by (induction r rule: gots.induct) simp_all

lemma showns_append [simp]: "showns (r @ r') = showns r @ showns r'"
  by (induction r rule: showns.induct) simp_all

lemma gots_map_Got [simp]: "gots (map Got xs) = xs"
  by (induction xs) simp_all

text \<open>What a reader gets of a file: its characters up to the first that equals \<open>EOF\<close>, then \<open>EOF\<close> once.\<close>

definition typed :: "byte list \<Rightarrow> byte list" where
  "typed file = takeWhile (\<lambda>ch. ch \<noteq> EOF_char) file @ [EOF_char]"

lemma typed_simps [simp]:
  "typed [] = [EOF_char]" "typed (ch # file) = (if ch = EOF_char then [EOF_char] else ch # typed file)"
  by (simp_all add: typed_def)

text \<open>The characters that \<open>GetChar\<close> has still to return, and the invariant.\<close>

definition coming :: "Console \<Rightarrow> byte list" where
  "coming c =
     (if readInts c = 1 then typed (keyboard c)
      else if inWaitFor c = 1 then if incoming c = EOF_char then [EOF_char] else incoming c # typed (keyboard c)
      else [])"

definition input_ok :: "Console \<Rightarrow> bool" where
  "input_ok c \<longleftrightarrow>
     (readInts c = 1 \<and> inWaitFor c = 0 \<and> incoming c = EOF_char) \<or> (readInts c = 0 \<and> inWaitFor c = 1) \<or>
     (readInts c = 0 \<and> inWaitFor c = 0 \<and> incoming c = EOF_char)"

definition output_ok :: "Console \<Rightarrow> bool" where
  "output_ok c \<longleftrightarrow>
     (if outLocked c then writeInts c = 1 \<and> outWaitFor c = 0 \<and> putBusy c \<or> writeInts c = 0 \<and> outWaitFor c = 1 \<and> \<not> putBusy c
      else writeInts c = 0 \<and> outWaitFor c = 0 \<and> \<not> putBusy c)"

definition console_ok :: "Console \<Rightarrow> bool" where
  "console_ok c \<longleftrightarrow> input_ok c \<and> output_ok c"

lemmas console_defs = ConsoleInput_CallBack_def ConsoleInput_GetChar_def SynchConsoleInput_GetChar_def SynchConsoleInput_CallBack_def
  ConsoleOutput_CallBack_def ConsoleOutput_PutChar_def SynchConsoleOutput_PutChar_def SynchConsoleOutput_PutChar_end_def
  SynchConsoleOutput_CallBack_def Let_def

lemma console_step_waits: "console_ok c \<Longrightarrow> console_step e c = Inl err \<Longrightarrow> err = WouldBlock"
  by (cases e) (auto simp: console_ok_def input_ok_def output_ok_def console_defs res_simps split: if_splits list.splits)

lemma ReadInt_keeps:
  assumes "input_ok c" "ConsoleInput_CallBack b c = Inr c'"
  shows "input_ok c' \<and> coming c' = coming c \<and> display c' = display c \<and> output_ok c' = output_ok c"
proof -
  have c: "readInts c = 1" "inWaitFor c = 0" "incoming c = EOF_char"
    using assms by (auto simp: input_ok_def ConsoleInput_CallBack_def split: if_splits)
  show ?thesis
  proof (cases b)
    case False
    then have "c' = c\<lparr>readInts := 1\<rparr>" using assms(2) c by (simp add: ConsoleInput_CallBack_def Let_def)
    then show ?thesis using c by (simp add: input_ok_def output_ok_def coming_def)
  next
    case True
    then show ?thesis using assms(2) c
      by (cases "keyboard c") (simp_all add: ConsoleInput_CallBack_def SynchConsoleInput_CallBack_def Let_def input_ok_def output_ok_def coming_def, safe, simp_all)
  qed
qed

lemma Get_keeps:
  assumes "input_ok c" "SynchConsoleInput_GetChar c = Inr (ch, c')"
  shows "input_ok c' \<and> coming c = ch # coming c' \<and> inWaitFor c' = 0 \<and> display c' = display c \<and> output_ok c' = output_ok c"
  using assms by (auto simp: input_ok_def output_ok_def coming_def SynchConsoleInput_GetChar_def ConsoleInput_GetChar_def Let_def split: if_splits)

lemma output_keeps:
  assumes "output_ok c"
  shows Put_keeps: "SynchConsoleOutput_PutChar ch c = Inr c' \<Longrightarrow> output_ok c' \<and> display c' = display c @ [ch] \<and> coming c' = coming c \<and> input_ok c' = input_ok c"
    and WriteInt_keeps: "ConsoleOutput_CallBack c = Inr c' \<Longrightarrow> output_ok c' \<and> display c' = display c \<and> coming c' = coming c \<and> input_ok c' = input_ok c"
    and PutEnd_keeps: "SynchConsoleOutput_PutChar_end c = Inr c' \<Longrightarrow> output_ok c' \<and> display c' = display c \<and> coming c' = coming c \<and> input_ok c' = input_ok c"
proof -
  show "output_ok c' \<and> display c' = display c @ [ch] \<and> coming c' = coming c \<and> input_ok c' = input_ok c" if "SynchConsoleOutput_PutChar ch c = Inr c'"
  proof -
    have "c' = c\<lparr>outLocked := True, display := display c @ [ch], putBusy := True, writeInts := writeInts c + 1\<rparr>" "\<not> outLocked c"
      using that by (simp_all add: SynchConsoleOutput_PutChar_def ConsoleOutput_PutChar_def ASSERT_def split: if_splits)
    then show ?thesis using assms by (simp add: output_ok_def input_ok_def coming_def)
  qed
  show "output_ok c' \<and> display c' = display c \<and> coming c' = coming c \<and> input_ok c' = input_ok c" if "ConsoleOutput_CallBack c = Inr c'"
  proof -
    have "c' = SynchConsoleOutput_CallBack (c\<lparr>writeInts := writeInts c - 1, putBusy := False, numConsoleCharsWritten := numConsoleCharsWritten c + 1\<rparr>)"
      "writeInts c \<noteq> 0" using that by (simp_all add: ConsoleOutput_CallBack_def split: if_splits)
    then show ?thesis using assms by (simp add: SynchConsoleOutput_CallBack_def output_ok_def input_ok_def coming_def split: if_splits)
  qed
  show "output_ok c' \<and> display c' = display c \<and> coming c' = coming c \<and> input_ok c' = input_ok c" if "SynchConsoleOutput_PutChar_end c = Inr c'"
  proof -
    have "c' = c\<lparr>outWaitFor := outWaitFor c - 1, outLocked := False\<rparr>" "0 < outWaitFor c"
      using that by (simp_all add: SynchConsoleOutput_PutChar_end_def split: if_splits)
    then show ?thesis using assms by (simp add: output_ok_def input_ok_def coming_def split: if_splits)
  qed
qed

lemma console_step_keeps:
  assumes "console_ok c" "console_step e c = Inr (r, c')"
  shows "console_ok c' \<and> display c' = display c @ showns r \<and> gots r @ coming c' = coming c"
  using assms by (cases e) (auto simp: console_ok_def res_simps dest: ReadInt_keeps Get_keeps Put_keeps WriteInt_keeps PutEnd_keeps)

lemma read_round:
  assumes ok: "console_ok c" and w: "inWaitFor c = 0" and ch: "coming c = ch # rest"
  shows "\<exists>c'. (\<forall>es. run_events console_step (ReadInt True # Get # es) c = bind_res (run_events console_step es c') (\<lambda>(r, s). Inr (Got ch # r, s))) \<and>
    console_ok c' \<and> inWaitFor c' = 0 \<and> coming c' = rest"
proof -
  have c: "readInts c = 1" "incoming c = EOF_char" using assms by (auto simp: console_ok_def input_ok_def coming_def)
  then obtain c1 where 1: "console_step (ReadInt True) c = Inr ([], c1)" "inWaitFor c1 = 1"
    using w by (cases "keyboard c") (auto simp: ConsoleInput_CallBack_def SynchConsoleInput_CallBack_def Let_def)
  then obtain x c2 where 2: "console_step Get c1 = Inr ([Got x], c2)" "inWaitFor c2 = 0"
    by (auto simp: SynchConsoleInput_GetChar_def ConsoleInput_GetChar_def Let_def)
  have "console_ok c2" "x = ch" "coming c2 = rest"
    using console_step_keeps [OF ok 1(1)] console_step_keeps [OF _ 2(1)] ch by auto
  then show ?thesis using 1 2 by (intro exI [of _ c2]) (simp del: console_step.simps add: case_prod_beta bind_res_assoc)
qed

lemma read_round_end:
  assumes "console_ok c" "inWaitFor c = 0" "coming c = []"
  shows "run_events console_step (ReadInt True # Get # es) c = run_events console_step es c"
proof -
  have "readInts c = 0" using assms by (auto simp: console_ok_def input_ok_def coming_def typed_def split: if_splits)
  then show ?thesis using assms(2) by (simp add: ConsoleInput_CallBack_def SynchConsoleInput_GetChar_def)
qed

lemma read_all:
  assumes "console_ok c" "inWaitFor c = 0"
  shows "\<exists>c'. run_events console_step (concat (replicate k [ReadInt True, Get])) c = Inr (map Got (take k (coming c)), c')"
  using assms
proof (induction k arbitrary: c)
  case (Suc k)
  show ?case
  proof (cases "coming c")
    case Nil
    then show ?thesis using Suc.IH [OF Suc.prems] read_round_end [OF Suc.prems Nil] by (simp del: run_events.simps)
  next
    case (Cons ch rest)
    obtain c' where c': "\<And>es. run_events console_step (ReadInt True # Get # es) c = bind_res (run_events console_step es c') (\<lambda>(r, s). Inr (Got ch # r, s))"
      "console_ok c'" "inWaitFor c' = 0" "coming c' = rest" using read_round [OF Suc.prems Cons] by blast
    then show ?thesis using Suc.IH [of c'] Cons by (auto simp del: run_events.simps)
  qed
qed simp

lemma console_new_ok: "console_ok (Console_new file)" "coming (Console_new file) = typed file" "inWaitFor (Console_new file) = 0"
  by (simp_all add: console_ok_def input_ok_def output_ok_def Console_new_def coming_def)

section \<open>Properties\<close>


end
